(* ===== verification/Prelude.thy ===== *)
theory Prelude
  imports Main "HOL-Library.Word"
begin

unbundle bit_operations_syntax

text \<open>
  Shared vocabulary of the development: the machine integer types of the crate, Rust's
  \<open>Result\<close> with a panic outcome, computations that thread a state through fallible calls,
  Rust's checked and saturating integer operations, byte slices and the generic lemmas the
  component theories use about them. A \<open>usize\<close> is a natural number: every index and length
  of the crate is bounded by a buffer that fits in memory on the 64-bit targets it ships for;
  where the source asks for overflow of a \<open>usize\<close> explicitly, the bound \<open>2 ^ 64\<close> is written
  out.
\<close>

section \<open>Machine integers\<close>

type_synonym u8 = "8 word"
type_synonym u16 = "16 word"
type_synonym u32 = "32 word"
type_synonym u64 = "64 word"
type_synonym bytes = "8 word list"

named_theorems arith_defs \<open>definitions of Rust's integer operations\<close>
named_theorems slice_simps \<open>reading back a buffer after writes into it\<close>
named_theorems io_defs \<open>definitions of the state-and-result combinators\<close>

definition checked_add :: "'a::len word \<Rightarrow> 'a word \<Rightarrow> 'a word option" where
  "checked_add a b = (if unat a + unat b < 2 ^ LENGTH('a) then Some (a + b) else None)"

definition checked_mul :: "'a::len word \<Rightarrow> 'a word \<Rightarrow> 'a word option" where
  "checked_mul a b = (if unat a * unat b < 2 ^ LENGTH('a) then Some (a * b) else None)"

definition saturating_add :: "'a::len word \<Rightarrow> 'a word \<Rightarrow> 'a word" where
  "saturating_add a b = (if unat a + unat b < 2 ^ LENGTH('a) then a + b else - 1)"

definition saturating_mul :: "'a::len word \<Rightarrow> 'a word \<Rightarrow> 'a word" where
  "saturating_mul a b = (if unat a * unat b < 2 ^ LENGTH('a) then a * b else - 1)"

definition is_multiple_of :: "'a::len word \<Rightarrow> 'a word \<Rightarrow> bool" where
  "is_multiple_of a b = (if b = 0 then a = 0 else a mod b = 0)"

definition div_ceil :: "'a::len word \<Rightarrow> 'a word \<Rightarrow> 'a word" where
  "div_ceil a b = (if a mod b = 0 then a div b else a div b + 1)"

declare checked_add_def [arith_defs] checked_mul_def [arith_defs]
  saturating_add_def [arith_defs] saturating_mul_def [arith_defs]
  is_multiple_of_def [arith_defs] div_ceil_def [arith_defs]

lemma checked_add_Some_iff:
  "checked_add a b = Some (c :: 'a::len word) \<longleftrightarrow> unat a + unat b < 2 ^ LENGTH('a) \<and> c = a + b"
  by (auto simp: checked_add_def)

lemma checked_add_None_iff:
  "checked_add a (b :: 'a::len word) = None \<longleftrightarrow> 2 ^ LENGTH('a) \<le> unat a + unat b"
  by (auto simp: checked_add_def)

lemma unat_add_no_overflow:
  "unat a + unat (b :: 'a::len word) < 2 ^ LENGTH('a) \<Longrightarrow> unat (a + b) = unat a + unat b"
  by (simp add: unat_add_lem)

lemma unat_mult_no_overflow:
  "unat a * unat (b :: 'a::len word) < 2 ^ LENGTH('a) \<Longrightarrow> unat (a * b) = unat a * unat b"
  by (simp add: unat_mult_lem)

lemma unat_minus_one_max: "unat (- 1 :: 'a::len word) = 2 ^ LENGTH('a) - 1"
  by (simp add: unsigned_minus_1_eq_mask mask_eq_exp_minus_1)

lemma unat_saturating_add:
  "unat (saturating_add a (b :: 'a::len word)) = min (unat a + unat b) (2 ^ LENGTH('a) - 1)"
  by (auto simp: saturating_add_def unat_add_no_overflow unat_minus_one_max)

lemma unat_saturating_mul:
  "unat (saturating_mul a (b :: 'a::len word)) = min (unat a * unat b) (2 ^ LENGTH('a) - 1)"
  by (auto simp: saturating_mul_def unat_mult_no_overflow unat_minus_one_max)

lemma unat_lt_u64 [simp]: "unat (w :: u64) < 18446744073709551616"
  using unsigned_less [of w] by simp

lemma unat_lt_u32 [simp]: "unat (w :: u32) < 4294967296"
  using unsigned_less [of w] by simp

lemma unat_lt_u16 [simp]: "unat (w :: u16) < 65536"
  using unsigned_less [of w] by simp

lemma unat_lt_u8 [simp]: "unat (w :: u8) < 256"
  using unsigned_less [of w] by simp

lemma unat_of_nat_u64: "n < 18446744073709551616 \<Longrightarrow> unat (word_of_nat n :: u64) = n"
  by (simp add: unat_of_nat)

lemma unat_ucast_u32 [simp]: "unat (ucast (w :: u32) :: u64) = unat w"
  by (simp add: unsigned_ucast_eq take_bit_nat_eq_self less_trans [OF unat_lt_u32])

text \<open>Clearing the low bits rounds down to a multiple of a power of two.\<close>

lemma unat_and_not_mask: "unat (w AND NOT (mask k) :: 'a::len word) = unat w div 2 ^ k * 2 ^ k"
proof -
  have "w AND NOT (mask k) = push_bit k (drop_bit k w)"
    by (rule bit_eqI) (auto simp: bit_simps)
  also have "\<dots> = w - take_bit k w"
    by (metis add_diff_cancel_right' bits_ident)
  finally have eq: "w AND NOT (mask k) = w - take_bit k w" .
  have t: "unat (take_bit k w) = unat w mod 2 ^ k"
    by (simp only: unsigned_take_bit_eq) (simp add: take_bit_eq_mod)
  then have "take_bit k w \<le> w"
    by (simp add: word_le_nat_alt)
  then show ?thesis
    by (simp add: eq unat_sub t minus_mod_eq_div_mult)
qed

lemma le_exp_minus_one_mask: "2 ^ k - 1 = (mask k :: 'a::len word)"
  by (simp add: mask_eq_exp_minus_1)

section \<open>Results and panics\<close>

text \<open>
  \<open>Ok\<close> and \<open>Err\<close> are the constructors of \<open>std::result::Result\<close>; \<open>Panic\<close> is an
  unwinding panic (an index or a slice out of range, a failed \<open>expect\<close>), which no caller
  inside the library catches.
\<close>

datatype ('a, 'e) res = Ok 'a | Err 'e | Panic

primrec res_bind :: "('a, 'e) res \<Rightarrow> ('a \<Rightarrow> ('b, 'e) res) \<Rightarrow> ('b, 'e) res" where
  "res_bind (Ok a) f = f a"
| "res_bind (Err e) f = Err e"
| "res_bind Panic f = Panic"

primrec res_map_err :: "('e \<Rightarrow> 'f) \<Rightarrow> ('a, 'e) res \<Rightarrow> ('a, 'f) res" where
  "res_map_err g (Ok a) = Ok a"
| "res_map_err g (Err e) = Err (g e)"
| "res_map_err g Panic = Panic"

primrec ok_or :: "'a option \<Rightarrow> 'e \<Rightarrow> ('a, 'e) res" where
  "ok_or (Some a) e = Ok a"
| "ok_or None e = Err e"

text \<open>\<open>Result::ok\<close>; a panic is not an error value, so it passes through.\<close>

primrec res_ok :: "('a, 'e) res \<Rightarrow> ('a option, 'f) res" where
  "res_ok (Ok a) = Ok (Some a)"
| "res_ok (Err e) = Ok None"
| "res_ok Panic = Panic"

primrec is_Ok :: "('a, 'e) res \<Rightarrow> bool" where
  "is_Ok (Ok a) = True"
| "is_Ok (Err e) = False"
| "is_Ok Panic = False"

text \<open>A loop that pushes one fallible result per item.\<close>

primrec res_map :: "('x \<Rightarrow> ('a, 'e) res) \<Rightarrow> 'x list \<Rightarrow> ('a list, 'e) res" where
  "res_map f [] = Ok []"
| "res_map f (x # xs) = res_bind (f x) (\<lambda>a. res_bind (res_map f xs) (\<lambda>as. Ok (a # as)))"

lemma res_bind_Ok_iff:
  "res_bind m f = Ok b \<longleftrightarrow> (\<exists>a. m = Ok a \<and> f a = Ok b)"
  by (cases m) auto

lemma res_bind_Panic_iff:
  "res_bind m f = Panic \<longleftrightarrow> m = Panic \<or> (\<exists>a. m = Ok a \<and> f a = Panic)"
  by (cases m) auto

lemma res_bind_Err_iff:
  "res_bind m f = Err e \<longleftrightarrow> m = Err e \<or> (\<exists>a. m = Ok a \<and> f a = Err e)"
  by (cases m) auto

lemma ok_or_Ok_iff [simp]: "ok_or x e = Ok a \<longleftrightarrow> x = Some a"
  by (cases x) auto

lemma ok_or_not_Panic [simp]: "ok_or x e \<noteq> Panic"
  by (cases x) auto

lemma res_map_err_Ok_iff [simp]: "res_map_err g m = Ok a \<longleftrightarrow> m = Ok a"
  by (cases m) auto

lemma res_map_err_Panic_iff [simp]: "res_map_err g m = Panic \<longleftrightarrow> m = Panic"
  by (cases m) auto

lemma res_map_all_Ok: "(\<And>x. x \<in> set xs \<Longrightarrow> f x = Ok (g x)) \<Longrightarrow> res_map f xs = Ok (map g xs)"
  by (induction xs) auto

lemma res_map_not_Panic: "(\<And>x. x \<in> set xs \<Longrightarrow> f x \<noteq> Panic) \<Longrightarrow> res_map f xs \<noteq> Panic"
  by (induction xs) (auto simp: res_bind_Panic_iff)

lemma res_map_Ok_iff:
  "res_map f xs = Ok ys \<longleftrightarrow> length ys = length xs \<and> (\<forall>i < length xs. f (xs ! i) = Ok (ys ! i))"
proof (induction xs arbitrary: ys)
  case (Cons x xs)
  show ?case
  proof (cases ys)
    case (Cons y ys')
    then show ?thesis
      by (auto simp: res_bind_Ok_iff Cons.IH nth_Cons split: nat.splits)
  qed (auto simp: res_bind_Ok_iff)
qed auto

lemma is_Ok_iff: "is_Ok m \<longleftrightarrow> (\<exists>a. m = Ok a)"
  by (cases m) auto

section \<open>Computations over a state\<close>

text \<open>
  A fallible operation on a mutable object: the state after it is returned with every
  outcome, because an error or a panic does not undo the writes made before it.
\<close>

type_synonym ('s, 'a, 'e) io = "'s \<Rightarrow> ('a, 'e) res \<times> 's"

definition io_return :: "'a \<Rightarrow> ('s, 'a, 'e) io" where
  "io_return a s = (Ok a, s)"

definition io_lift :: "('a, 'e) res \<Rightarrow> ('s, 'a, 'e) io" where
  "io_lift r s = (r, s)"

definition io_bind :: "('s, 'a, 'e) io \<Rightarrow> ('a \<Rightarrow> ('s, 'b, 'e) io) \<Rightarrow> ('s, 'b, 'e) io" where
  "io_bind m f s =
     (case m s of
        (Ok a, s') \<Rightarrow> f a s'
      | (Err e, s') \<Rightarrow> (Err e, s')
      | (Panic, s') \<Rightarrow> (Panic, s'))"

definition io_map_err :: "('e \<Rightarrow> 'f) \<Rightarrow> ('s, 'a, 'e) io \<Rightarrow> ('s, 'a, 'f) io" where
  "io_map_err g m s = (case m s of (r, s') \<Rightarrow> (res_map_err g r, s'))"

text \<open>A \<open>for\<close> loop whose body may fail: the first failure ends it.\<close>

primrec io_foreach :: "('x \<Rightarrow> ('s, unit, 'e) io) \<Rightarrow> 'x list \<Rightarrow> ('s, unit, 'e) io" where
  "io_foreach body [] = io_return ()"
| "io_foreach body (x # xs) = io_bind (body x) (\<lambda>_. io_foreach body xs)"

declare io_return_def [io_defs] io_lift_def [io_defs] io_bind_def [io_defs] io_map_err_def [io_defs]

lemma io_bind_Ok_iff:
  "io_bind m f s = (Ok b, t) \<longleftrightarrow> (\<exists>a s'. m s = (Ok a, s') \<and> f a s' = (Ok b, t))"
  by (auto simp: io_bind_def split: prod.splits res.splits)

lemma io_lift_Ok_iff: "io_lift r s = (Ok a, t) \<longleftrightarrow> r = Ok a \<and> t = s"
  by (auto simp: io_lift_def)

lemma io_return_Ok_iff: "io_return a s = (Ok b, t) \<longleftrightarrow> b = a \<and> t = s"
  by (auto simp: io_return_def)

lemma io_map_err_Ok_iff: "io_map_err g m s = (Ok a, t) \<longleftrightarrow> m s = (Ok a, t)"
  by (auto simp: io_map_err_def split: prod.splits)

lemmas io_Ok_iffs = io_bind_Ok_iff io_lift_Ok_iff io_return_Ok_iff io_map_err_Ok_iff

lemma io_bind_step: "m s = (Ok a, s') \<Longrightarrow> io_bind m f s = f a s'"
  by (simp add: io_bind_def)

lemma io_map_err_step: "m s = (Ok a, s') \<Longrightarrow> io_map_err g m s = (Ok a, s')"
  by (simp add: io_map_err_def)

lemma io_bind_lift_Ok [simp]: "io_bind (io_lift (Ok a)) f = f a"
  by (rule ext) (simp add: io_bind_def io_lift_def)

lemma io_bind_return [simp]: "io_bind (io_return a) f = f a"
  by (rule ext) (simp add: io_bind_def io_return_def)

lemma io_bind_lift_Err [simp]: "io_bind (io_lift (Err e)) f = io_lift (Err e)"
  by (rule ext) (simp add: io_bind_def io_lift_def)

lemma io_bind_lift_Panic [simp]: "io_bind (io_lift Panic) f = io_lift Panic"
  by (rule ext) (simp add: io_bind_def io_lift_def)

text \<open>A property of states that every step of a computation keeps, whatever its outcome.\<close>

definition io_keeps :: "('s \<Rightarrow> bool) \<Rightarrow> ('s, 'a, 'e) io \<Rightarrow> bool" where
  "io_keeps P m \<longleftrightarrow> (\<forall>s. P s \<longrightarrow> P (snd (m s)))"

lemma io_keepsI: "(\<And>s r t. P s \<Longrightarrow> m s = (r, t) \<Longrightarrow> P t) \<Longrightarrow> io_keeps P m"
  by (metis io_keeps_def prod.collapse)

lemma io_keepsD: "io_keeps P m \<Longrightarrow> P s \<Longrightarrow> m s = (r, t) \<Longrightarrow> P t"
  by (force simp: io_keeps_def)

lemma io_keeps_return [simp, intro]: "io_keeps P (io_return a)"
  by (simp add: io_keeps_def io_return_def)

lemma io_keeps_lift [simp, intro]: "io_keeps P (io_lift r)"
  by (simp add: io_keeps_def io_lift_def)

lemma io_keeps_bind [intro]:
  "io_keeps P m \<Longrightarrow> (\<And>a. io_keeps P (f a)) \<Longrightarrow> io_keeps P (io_bind m f)"
  by (force simp: io_keeps_def io_bind_def split: prod.splits res.splits)

lemma io_keeps_map_err [intro]: "io_keeps P m \<Longrightarrow> io_keeps P (io_map_err g m)"
  by (force simp: io_keeps_def io_map_err_def split: prod.splits)

lemma io_keeps_foreach [intro]:
  "(\<And>x. io_keeps P (body x)) \<Longrightarrow> io_keeps P (io_foreach body xs)"
  by (induction xs) auto

text \<open>
  A computation that does not panic from the states of an invariant, keeps the invariant, and
  returns only values with a given property.
\<close>

definition io_calm :: "('s \<Rightarrow> bool) \<Rightarrow> ('s, 'a, 'e) io \<Rightarrow> ('a \<Rightarrow> bool) \<Rightarrow> bool" where
  "io_calm I m Q \<longleftrightarrow>
     (\<forall>s r t. I s \<longrightarrow> m s = (r, t) \<longrightarrow> r \<noteq> Panic \<and> I t \<and> (\<forall>a. r = Ok a \<longrightarrow> Q a))"

lemma io_calmI:
  "(\<And>s r t. I s \<Longrightarrow> m s = (r, t) \<Longrightarrow> r \<noteq> Panic \<and> I t \<and> (\<forall>a. r = Ok a \<longrightarrow> Q a)) \<Longrightarrow> io_calm I m Q"
  by (simp add: io_calm_def)

lemma io_calmD: "io_calm I m Q \<Longrightarrow> I s \<Longrightarrow> m s = (r, t) \<Longrightarrow> r \<noteq> Panic \<and> I t"
  by (simp add: io_calm_def)

lemma io_calm_bind:
  assumes "io_calm I m Q" "\<And>a. Q a \<Longrightarrow> io_calm I (f a) R"
  shows "io_calm I (io_bind m f) R"
proof (rule io_calmI)
  fix s r t
  assume s: "I s" and run: "io_bind m f s = (r, t)"
  obtain r1 t1 where m: "m s = (r1, t1)" by (metis surj_pair)
  then have c: "r1 \<noteq> Panic" "I t1" "\<forall>a. r1 = Ok a \<longrightarrow> Q a"
    using assms(1) s by (auto simp: io_calm_def)
  show "r \<noteq> Panic \<and> I t \<and> (\<forall>a. r = Ok a \<longrightarrow> R a)"
  proof (cases r1)
    case (Ok a)
    then show ?thesis using c m run assms(2) [of a] by (auto simp: io_bind_def io_calm_def)
  qed (use c m run in \<open>auto simp: io_bind_def\<close>)
qed

lemma io_calm_weaken: "io_calm I m Q \<Longrightarrow> (\<And>a. Q a \<Longrightarrow> R a) \<Longrightarrow> io_calm I m R"
  by (auto simp: io_calm_def)

lemma io_calm_return: "Q a \<Longrightarrow> io_calm I (io_return a) Q"
  by (simp add: io_calm_def io_return_def)

lemma io_calm_lift: "r \<noteq> Panic \<Longrightarrow> (\<And>a. r = Ok a \<Longrightarrow> Q a) \<Longrightarrow> io_calm I (io_lift r) Q"
  by (simp add: io_calm_def io_lift_def)

lemma io_calm_map_err: "io_calm I m Q \<Longrightarrow> io_calm I (io_map_err g m) Q"
  by (auto simp: io_calm_def io_map_err_def split: prod.splits)

lemma io_calm_foreach:
  "(\<And>x. x \<in> set xs \<Longrightarrow> io_calm I (body x) (\<lambda>_. True)) \<Longrightarrow> io_calm I (io_foreach body xs) (\<lambda>_. True)"
  by (induction xs) (auto intro!: io_calm_return intro: io_calm_bind)

section \<open>Byte slices\<close>

definition subslice :: "nat \<Rightarrow> nat \<Rightarrow> 'a list \<Rightarrow> 'a list" where
  "subslice i j xs = take (j - i) (drop i xs)"

definition overwrite :: "nat \<Rightarrow> 'a list \<Rightarrow> 'a list \<Rightarrow> 'a list" where
  "overwrite i src buf = take i buf @ src @ drop (i + length src) buf"

text \<open>\<open>&b[i..j]\<close>: panics unless \<open>i \<le> j \<le> len\<close>.\<close>

definition get_slice :: "'a list \<Rightarrow> nat \<Rightarrow> nat \<Rightarrow> ('a list, 'e) res" where
  "get_slice b i j = (if i \<le> j \<and> j \<le> length b then Ok (subslice i j b) else Panic)"

text \<open>\<open>buf[i..j].copy_from_slice(src)\<close>: panics on a bad range or a length mismatch.\<close>

definition copy_into :: "'a list \<Rightarrow> nat \<Rightarrow> nat \<Rightarrow> 'a list \<Rightarrow> ('a list, 'e) res" where
  "copy_into buf i j src =
     (if i \<le> j \<and> j \<le> length buf \<and> length src = j - i then Ok (overwrite i src buf) else Panic)"

lemma length_subslice [simp]: "length (subslice i j xs) = min (j - i) (length xs - i)"
  by (simp add: subslice_def)

lemma length_overwrite [simp]: "i + length src \<le> length buf \<Longrightarrow> length (overwrite i src buf) = length buf"
  by (simp add: overwrite_def)

lemma nth_subslice: "k < j - i \<Longrightarrow> i + k < length xs \<Longrightarrow> subslice i j xs ! k = xs ! (i + k)"
  by (simp add: subslice_def)

lemma nth_overwrite:
  "i + length src \<le> length buf \<Longrightarrow> k < length buf \<Longrightarrow>
   overwrite i src buf ! k = (if i \<le> k \<and> k < i + length src then src ! (k - i) else buf ! k)"
  by (auto simp: overwrite_def nth_append min_def)

lemma subslice_overwrite_same [slice_simps]:
  "i + length src \<le> length buf \<Longrightarrow> j = i + length src \<Longrightarrow> subslice i j (overwrite i src buf) = src"
  by (rule nth_equalityI) (auto simp: nth_subslice nth_overwrite)

lemma subslice_overwrite_disjoint [slice_simps]:
  "i + length src \<le> length buf \<Longrightarrow> b \<le> i \<or> i + length src \<le> a \<Longrightarrow>
   subslice a b (overwrite i src buf) = subslice a b buf"
  by (rule nth_equalityI) (auto simp: nth_subslice nth_overwrite)

lemma overwrite_overwrite_same [slice_simps]:
  "i + length src \<le> length buf \<Longrightarrow> length src' = length src \<Longrightarrow>
   overwrite i src' (overwrite i src buf) = overwrite i src' buf"
  by (rule nth_equalityI) (auto simp: nth_overwrite)

lemma overwrite_overwrite_adjacent:
  "j = i + length a \<Longrightarrow> j + length b \<le> length buf \<Longrightarrow>
   overwrite j b (overwrite i a buf) = overwrite i (a @ b) buf"
  by (rule nth_equalityI) (auto simp: nth_overwrite nth_append)

lemma overwrite_overwrite_inside:
  "i \<le> j \<Longrightarrow> j + length b \<le> i + length a \<Longrightarrow> i + length a \<le> length buf \<Longrightarrow>
   overwrite j b (overwrite i a buf) = overwrite i (overwrite (j - i) b a) buf"
  by (rule nth_equalityI) (auto simp: nth_overwrite)

lemma overwrite_Nil [simp]: "overwrite i [] buf = buf"
  by (simp add: overwrite_def)

lemma overwrite_append_left:
  "i + length src \<le> length xs \<Longrightarrow> overwrite i src (xs @ ys) = overwrite i src xs @ ys"
  by (simp add: overwrite_def)

lemma subslice_subslice: "j \<le> b - a \<Longrightarrow> subslice i j (subslice a b xs) = subslice (a + i) (a + j) xs"
  by (simp add: subslice_def drop_take min_def ac_simps)

lemma subslice_empty [simp]: "j \<le> i \<Longrightarrow> subslice i j xs = []"
  by (simp add: subslice_def)

lemma subslice_full [simp]: "length xs \<le> n \<Longrightarrow> subslice 0 n xs = xs"
  by (simp add: subslice_def)

lemma overwrite_id: "j = i + length src \<Longrightarrow> j \<le> length buf \<Longrightarrow> subslice i j buf = src \<Longrightarrow> overwrite i src buf = buf"
  by (metis (no_types, lifting) append_take_drop_id drop_drop subslice_def overwrite_def add.commute
      add_diff_cancel_left')

lemma subslice_replicate [simp]: "j \<le> n \<Longrightarrow> subslice i j (replicate n x) = replicate (j - i) x"
  by (simp add: subslice_def min_def)

lemma subslice_append_left [simp]: "j \<le> length xs \<Longrightarrow> subslice i j (xs @ ys) = subslice i j xs"
  by (simp add: subslice_def)

lemma get_slice_Ok [simp]: "i \<le> j \<Longrightarrow> j \<le> length b \<Longrightarrow> get_slice b i j = Ok (subslice i j b)"
  by (simp add: get_slice_def)

lemma get_slice_Ok_iff: "get_slice b i j = Ok s \<longleftrightarrow> i \<le> j \<and> j \<le> length b \<and> s = subslice i j b"
  by (auto simp: get_slice_def)

lemma get_slice_Panic_iff: "get_slice b i j = Panic \<longleftrightarrow> \<not> (i \<le> j \<and> j \<le> length b)"
  by (auto simp: get_slice_def)

lemma copy_into_Ok [simp]:
  "i \<le> j \<Longrightarrow> j \<le> length buf \<Longrightarrow> length src = j - i \<Longrightarrow> copy_into buf i j src = Ok (overwrite i src buf)"
  by (simp add: copy_into_def)

section \<open>Lists\<close>

lemma find_Some_first:
  "List.find P xs = Some x \<longleftrightarrow> (\<exists>i < length xs. P (xs ! i) \<and> x = xs ! i \<and> (\<forall>j < i. \<not> P (xs ! j)))"
  by (simp add: find_Some_iff)

end
