(* ===== verification/Bat.thy ===== *)
theory Bat
  imports Prelude
begin

unbundle bit_operations_syntax

text \<open>
  \<open>src/bat.rs\<close>: block allocation table entries and the arithmetic that places them. The
  table interleaves \<open>chunk_ratio\<close> payload entries with one sector-bitmap entry; the index
  function skips the bitmap entries. Both functions divide, and a zero divisor is the panic
  Rust's division raises.
\<close>

section \<open>Entries\<close>

datatype payload_state =
    NotPresent
  | Undefined
  | ZeroState
  | Unmapped
  | FullyPresent
  | PartiallyPresent
  | Reserved u8

definition payload_state_from_u8 :: "u8 \<Rightarrow> payload_state" where
  "payload_state_from_u8 v =
     (if v = 0 then NotPresent
      else if v = 1 then Undefined
      else if v = 2 then ZeroState
      else if v = 3 then Unmapped
      else if v = 6 then FullyPresent
      else if v = 7 then PartiallyPresent
      else Reserved v)"

fun block_on_disk :: "payload_state \<Rightarrow> bool" where
  "block_on_disk FullyPresent = True"
| "block_on_disk PartiallyPresent = True"
| "block_on_disk _ = False"

fun zero_fill :: "payload_state \<Rightarrow> bool" where
  "zero_fill NotPresent = True"
| "zero_fill Undefined = True"
| "zero_fill ZeroState = True"
| "zero_fill Unmapped = True"
| "zero_fill _ = False"

record bat_entry =
  be_state :: payload_state
  be_file_offset :: u64

definition bat_entry_from_u64 :: "u64 \<Rightarrow> bat_entry" where
  "bat_entry_from_u64 raw =
     \<lparr> be_state = payload_state_from_u8 (ucast (raw AND 0x7)),
       be_file_offset = push_bit 20 (drop_bit 20 raw) \<rparr>"

section \<open>Placement\<close>

definition chunk_ratio_of :: "u32 \<Rightarrow> u32 \<Rightarrow> (u64, 'e) res" where
  "chunk_ratio_of block_size sector_size =
     (if block_size = 0 then Panic
      else Ok ((push_bit 23 1 * ucast sector_size) div ucast block_size))"

definition data_bat_index :: "u64 \<Rightarrow> u64 \<Rightarrow> (u64, 'e) res" where
  "data_bat_index virt_block_idx chunk_ratio =
     (if chunk_ratio = 0 then Panic
      else
        let chunk_idx = virt_block_idx div chunk_ratio;
            block_in_chunk = virt_block_idx mod chunk_ratio
        in Ok (chunk_idx * (chunk_ratio + 1) + block_in_chunk))"

section \<open>Lemmas\<close>

text \<open>The index as a number, where nothing wraps.\<close>

definition bat_slot :: "nat \<Rightarrow> nat \<Rightarrow> nat" where
  "bat_slot cr b = b div cr * (cr + 1) + b mod cr"

lemma bat_slot_eq: "bat_slot cr b = b + b div cr"
  using div_mult_mod_eq [of b cr] by (simp add: bat_slot_def algebra_simps)

lemma bat_slot_le: "bat_slot cr b \<le> 2 * b"
  by (simp add: bat_slot_eq)

lemma bat_slot_strict_mono: "a < b \<Longrightarrow> bat_slot cr a < bat_slot cr b"
  by (simp add: bat_slot_eq add_less_le_mono div_le_mono)

lemma bat_slot_inj: "bat_slot cr a = bat_slot cr b \<Longrightarrow> a = b"
  by (metis bat_slot_strict_mono less_irrefl nat_neq_iff)

lemma bat_slot_div_mod:
  assumes "0 < cr"
  shows "bat_slot cr b mod (cr + 1) = b mod cr" "bat_slot cr b div (cr + 1) = b div cr"
proof -
  have "b mod cr < cr + 1" using assms by (simp add: less_SucI)
  then show "bat_slot cr b mod (cr + 1) = b mod cr" "bat_slot cr b div (cr + 1) = b div cr"
    unfolding bat_slot_def by (simp_all del: add_Suc_right mult_Suc_right)
qed

lemma data_bat_index_Ok:
  assumes "cr \<noteq> 0" "unat b < 2 ^ 63"
  shows "\<exists>i. data_bat_index b cr = Ok i \<and> unat i = bat_slot (unat cr) (unat b)"
proof -
  have eq: "b div cr * (cr + 1) + b mod cr = b + b div cr"
    using div_mult_mod_eq [of b cr] by (simp add: algebra_simps)
  have "unat b + unat b div unat cr < 2 ^ 64"
    using assms(2) div_le_dividend [of "unat b" "unat cr"] by (simp del: div_le_dividend)
  then have "unat (b + b div cr) = unat b + unat b div unat cr"
    by (subst unat_add_no_overflow) (simp_all add: unat_div)
  then show ?thesis
    using assms(1) by (simp add: data_bat_index_def bat_slot_eq eq Let_def)
qed

lemma unat_and_7: "unat (raw AND 7 :: u64) < 8"
proof -
  have "unat (raw AND 7) \<le> unat (7 :: u64)"
    by (rule word_and_le1 [THEN word_le_nat_alt [THEN iffD1]])
  then show ?thesis by simp
qed

text \<open>
  The BAT index of a block never falls on an interleaved bitmap entry, it recovers the block, and so
  two blocks never share an entry.
\<close>

lemma data_bat_index_is_injective:
  assumes "cr \<noteq> 0" "unat b < 2 ^ 63"
  shows "\<exists>i. data_bat_index b cr = (Ok i :: (u64, 'e) res) \<and>
    unat i mod (unat cr + 1) \<noteq> unat cr \<and>
    unat b = unat i div (unat cr + 1) * unat cr + unat i mod (unat cr + 1)"
proof -
  obtain i where i: "data_bat_index b cr = (Ok i :: (u64, 'e) res)" "unat i = bat_slot (unat cr) (unat b)"
    using data_bat_index_Ok [OF assms] by blast
  have cr: "0 < unat cr" using assms(1) by (simp add: unat_gt_0)
  have "unat b mod unat cr \<noteq> unat cr" using mod_less_divisor [OF cr, of "unat b"] by simp
  moreover have "unat i mod (unat cr + 1) = unat b mod unat cr" "unat i div (unat cr + 1) = unat b div unat cr"
    unfolding i(2) by (rule bat_slot_div_mod [OF cr])+
  ultimately show ?thesis using i(1) by (metis div_mult_mod_eq)
qed

end
