(* ===== verification/Endian.thy ===== *)
theory Endian
  imports Prelude
begin

text \<open>
  \<open>src/endian.rs\<close>: the little-endian field reads every parser shares, and \<open>to_le_bytes\<close>,
  the standard library's inverse of \<open>from_le_bytes\<close> that the encoders use. A read whose
  bytes are not all there panics, exactly as the slice expression does; that no parser ever
  reaches that panic is proved component by component.
\<close>

section \<open>Byte order\<close>

primrec le_bytes :: "nat \<Rightarrow> nat \<Rightarrow> bytes" where
  "le_bytes 0 x = []"
| "le_bytes (Suc n) x = word_of_nat (x mod 256) # le_bytes n (x div 256)"

primrec le_value :: "bytes \<Rightarrow> nat" where
  "le_value [] = 0"
| "le_value (b # bs) = unat b + 256 * le_value bs"

definition from_le_bytes :: "bytes \<Rightarrow> 'a::len word" where
  "from_le_bytes bs = word_of_nat (le_value bs)"

definition to_le_bytes :: "'a::len word \<Rightarrow> bytes" where
  "to_le_bytes w = le_bytes (LENGTH('a) div 8) (unat w)"

lemma length_le_bytes [simp]: "length (le_bytes n x) = n"
  by (induction n arbitrary: x) auto

lemma le_value_le_bytes: "le_value (le_bytes n x) = x mod 256 ^ n"
proof (induction n arbitrary: x)
  case (Suc n)
  have "le_value (le_bytes (Suc n) x) = x mod 256 + 256 * (x div 256 mod 256 ^ n)"
    by (simp add: Suc.IH unat_of_nat)
  also have "\<dots> = x mod 256 ^ Suc n"
    by (simp add: mod_mult2_eq)
  finally show ?case .
qed simp

lemma le_bytes_le_value: "le_bytes (length bs) (le_value bs) = bs"
  by (induction bs) simp_all

lemma le_value_bound: "le_value bs < 256 ^ length bs"
proof (induction bs)
  case (Cons b bs)
  from Cons.IH show ?case
    using unat_lt_u8 [of b] by (simp del: unat_lt_u8)
qed simp

lemma length_to_le_bytes [simp]: "length (to_le_bytes (w :: 'a::len word)) = LENGTH('a) div 8"
  by (simp add: to_le_bytes_def)

lemma from_to_le_bytes:
  assumes "8 dvd LENGTH('a::len)"
  shows "from_le_bytes (to_le_bytes (w :: 'a word)) = w"
proof -
  obtain k where k: "LENGTH('a) = 8 * k" using assms by (elim dvdE)
  have "(256::nat) ^ (LENGTH('a) div 8) = 2 ^ LENGTH('a)"
    by (simp add: k power_mult)
  then show ?thesis
    by (simp add: from_le_bytes_def to_le_bytes_def le_value_le_bytes)
qed

lemma from_to_le_u16 [simp]: "from_le_bytes (to_le_bytes (w :: u16)) = w"
  by (rule from_to_le_bytes) simp

lemma from_to_le_u32 [simp]: "from_le_bytes (to_le_bytes (w :: u32)) = w"
  by (rule from_to_le_bytes) simp

lemma from_to_le_u64 [simp]: "from_le_bytes (to_le_bytes (w :: u64)) = w"
  by (rule from_to_le_bytes) simp

lemma to_from_le_bytes:
  assumes "length bs = LENGTH('a::len) div 8" "8 dvd LENGTH('a)"
  shows "to_le_bytes (from_le_bytes bs :: 'a word) = bs"
proof -
  obtain k where k: "LENGTH('a) = 8 * k" using assms(2) by (elim dvdE)
  have "le_value bs < 2 ^ LENGTH('a)"
    using le_value_bound [of bs] assms(1) by (simp add: k power_mult)
  then have "unat (from_le_bytes bs :: 'a word) = le_value bs"
    by (simp add: from_le_bytes_def unat_of_nat)
  then show ?thesis
    by (simp add: to_le_bytes_def le_bytes_le_value assms(1) [symmetric])
qed

lemma to_from_le_u32 [simp]: "length bs = 4 \<Longrightarrow> to_le_bytes (from_le_bytes bs :: u32) = bs"
  by (rule to_from_le_bytes) simp_all

lemma to_from_le_u64 [simp]: "length bs = 8 \<Longrightarrow> to_le_bytes (from_le_bytes bs :: u64) = bs"
  by (rule to_from_le_bytes) simp_all

lemma le_bytes_zero [simp]: "le_bytes n 0 = replicate n 0"
  by (induction n) simp_all

lemma to_le_bytes_zero [simp]:
  "to_le_bytes (0 :: u16) = replicate 2 0" "to_le_bytes (0 :: u32) = replicate 4 0"
  "to_le_bytes (0 :: u64) = replicate 8 0"
  by (simp_all only: to_le_bytes_def unsigned_0 le_bytes_zero) simp_all

lemma le_bytes_numeral:
  "le_bytes (numeral k) v = word_of_nat (v mod 256) # le_bytes (pred_numeral k) (v div 256)"
  by (subst numeral_eq_Suc) (simp only: le_bytes.simps)

lemma from_le_zeros: "from_le_bytes (replicate n 0) = 0"
proof -
  have "le_value (replicate n 0) = 0" by (induction n) simp_all
  then show ?thesis by (simp add: from_le_bytes_def)
qed

section \<open>The field reads\<close>

definition read_u16_le :: "bytes \<Rightarrow> nat \<Rightarrow> (u16, 'e) res" where
  "read_u16_le b off = res_bind (get_slice b off (off + 2)) (\<lambda>s. Ok (from_le_bytes s))"

definition read_u32_le :: "bytes \<Rightarrow> nat \<Rightarrow> (u32, 'e) res" where
  "read_u32_le b off = res_bind (get_slice b off (off + 4)) (\<lambda>s. Ok (from_le_bytes s))"

definition read_u64_le :: "bytes \<Rightarrow> nat \<Rightarrow> (u64, 'e) res" where
  "read_u64_le b off = res_bind (get_slice b off (off + 8)) (\<lambda>s. Ok (from_le_bytes s))"

lemma read_u16_le_Ok [simp]:
  "off + 2 \<le> length b \<Longrightarrow> read_u16_le b off = Ok (from_le_bytes (subslice off (off + 2) b))"
  by (simp add: read_u16_le_def)

lemma read_u32_le_Ok [simp]:
  "off + 4 \<le> length b \<Longrightarrow> read_u32_le b off = Ok (from_le_bytes (subslice off (off + 4) b))"
  by (simp add: read_u32_le_def)

lemma read_u64_le_Ok [simp]:
  "off + 8 \<le> length b \<Longrightarrow> read_u64_le b off = Ok (from_le_bytes (subslice off (off + 8) b))"
  by (simp add: read_u64_le_def)

end
