(* ===== verification/Vhdx_Error.thy ===== *)
theory Vhdx_Error
  imports Prelude
begin

text \<open>
  \<open>src/error.rs\<close>: the crate's error type and the messages it prints, together with the
  error type of the block-device library \<open>rust-fs-core\<close> as the two conversion functions of
  \<open>src/reader.rs\<close> spell out its variants, and those conversions. An \<open>io::Error\<close> is its
  kind and the message it prints.
\<close>

section \<open>Decimal and hexadecimal printing\<close>

definition digit_char :: "nat \<Rightarrow> char" where
  "digit_char d = (if d < 10 then char_of (48 + d) else char_of (87 + d))"

fun show_radix :: "nat \<Rightarrow> nat \<Rightarrow> string" where
  "show_radix r n =
     (if r < 2 then [] else if n < r then [digit_char n] else show_radix r (n div r) @ [digit_char (n mod r)])"

declare show_radix.simps [simp del]

definition show_nat :: "nat \<Rightarrow> string" where
  "show_nat n = show_radix 10 n"

definition show_hex :: "nat \<Rightarrow> string" where
  "show_hex n = ''0x'' @ show_radix 16 n"

section \<open>The errors\<close>

datatype io_kind = UnexpectedEof | BrokenPipe | OtherKind string

datatype io_error = IoError (io_kind: io_kind) (io_message: string)

datatype fs_error =
    FsIo io_error
  | FsShortRead u64 nat nat
  | FsReadOnly
  | FsOutOfBounds u64 u64 u64
  | FsCustom string

datatype error =
    Io io_error
  | NotVhdx
  | NoValidHeader
  | NoValidRegionTable
  | BadMetadata string
  | BadChecksum u32 u32 string
  | Corrupt string
  | Unsupported string
  | OutOfBounds u64 u64 u64
  | ReadOnly
  | LogNeedsReplay
  | LogUnassembled string
  | LogReplay string

fun error_to_string :: "error \<Rightarrow> string" where
  "error_to_string (Io e) = ''io: '' @ io_message e"
| "error_to_string NotVhdx = ''not a VHDX image (file-identifier mismatch)''"
| "error_to_string NoValidHeader = ''no valid VHDX header found in either slot''"
| "error_to_string NoValidRegionTable = ''no valid VHDX region table found''"
| "error_to_string (BadMetadata s) = ''bad metadata region: '' @ s"
| "error_to_string (BadChecksum expected found what) =
     what @ '' CRC-32C mismatch: expected '' @ show_hex (unat expected) @ '', found ''
       @ show_hex (unat found)"
| "error_to_string (Corrupt s) = ''corrupt VHDX: '' @ s"
| "error_to_string (Unsupported s) = ''unsupported VHDX feature: '' @ s"
| "error_to_string (OutOfBounds offset len sz) =
     ''read ['' @ show_nat (unat offset) @ '', '' @ show_nat (unat offset) @ ''+''
       @ show_nat (unat len) @ '') past virtual size '' @ show_nat (unat sz)"
| "error_to_string ReadOnly = ''VHDX reader is read-only''"
| "error_to_string LogNeedsReplay =
     ''the log holds unreplayed entries and the device is read-only; ''
       @ ''reopen the image writable so the log can be applied''"
| "error_to_string (LogUnassembled s) =
     ''the log holds entries but its active chain could not be ''
       @ ''assembled, so nothing was applied and the image is unchanged: '' @ s"
| "error_to_string (LogReplay s) = ''VHDX log replay failed: '' @ s"

text \<open>\<open>std::error::Error::source\<close>\<close>

fun error_source :: "error \<Rightarrow> io_error option" where
  "error_source (Io e) = Some e"
| "error_source _ = None"

text \<open>\<open>From<std::io::Error>\<close>\<close>

definition error_from_io :: "io_error \<Rightarrow> error" where
  "error_from_io e = Io e"

section \<open>Conversions at the block-device boundary\<close>

fun vhdx_to_fs_core_error :: "error \<Rightarrow> fs_error" where
  "vhdx_to_fs_core_error (Io io) = FsIo io"
| "vhdx_to_fs_core_error (OutOfBounds offset len sz) = FsOutOfBounds offset len sz"
| "vhdx_to_fs_core_error ReadOnly = FsReadOnly"
| "vhdx_to_fs_core_error LogNeedsReplay = FsReadOnly"
| "vhdx_to_fs_core_error other = FsCustom (error_to_string other)"

fun fs_core_to_vhdx_error :: "fs_error \<Rightarrow> error" where
  "fs_core_to_vhdx_error (FsIo io) = Io io"
| "fs_core_to_vhdx_error (FsShortRead offset want got) =
     Io (IoError UnexpectedEof
       (''short read at '' @ show_nat (unat offset) @ '': wanted '' @ show_nat want
          @ '' got '' @ show_nat got))"
| "fs_core_to_vhdx_error FsReadOnly = ReadOnly"
| "fs_core_to_vhdx_error (FsOutOfBounds offset len sz) = OutOfBounds offset len sz"
| "fs_core_to_vhdx_error (FsCustom s) = LogReplay s"

end
