(* ===== verification/External.thy ===== *)
theory External
  imports Vhdx_Error
begin

text \<open>
  Code the crate calls and does not contain: the \<open>crc32c\<close> crate's two entry points and the
  text \<open>rust-fs-core\<close> prints for one of its errors. They are parameters of every definition
  that uses them, passed as one record. \<open>crc_contract\<close> states what the log parser and
  encoder rely on: appending to a checksum continues it, as the \<open>crc32c\<close> crate documents.
\<close>

record ext =
  crc32c :: "bytes \<Rightarrow> u32"
  crc32c_append :: "u32 \<Rightarrow> bytes \<Rightarrow> u32"
  fs_error_to_string :: "fs_error \<Rightarrow> string"

definition crc_contract :: "ext \<Rightarrow> bool" where
  "crc_contract x \<longleftrightarrow> (\<forall>a b. crc32c_append x (crc32c x a) b = crc32c x (a @ b))"

lemma crc_contractD: "crc_contract x \<Longrightarrow> crc32c_append x (crc32c x a) b = crc32c x (a @ b)"
  by (simp add: crc_contract_def)

text \<open>
  A concrete instance of the contract, for the witnesses: a running byte sum, which is a
  checksum of the same shape (a fold that an append continues).
\<close>

definition byte_sum :: "u32 \<Rightarrow> bytes \<Rightarrow> u32" where
  "byte_sum c bs = fold (\<lambda>b acc. acc + ucast b) bs c"

definition sum_ext :: ext where
  "sum_ext = \<lparr> crc32c = byte_sum 0, crc32c_append = byte_sum, fs_error_to_string = (\<lambda>_. []) \<rparr>"

lemma sum_ext_contract: "crc_contract sum_ext"
  by (simp add: crc_contract_def sum_ext_def byte_sum_def)

lemma byte_sum_append: "byte_sum c (a @ b) = byte_sum (byte_sum c a) b"
  by (simp add: byte_sum_def)

lemma byte_sum_Nil [simp]: "byte_sum c [] = c"
  by (simp add: byte_sum_def)

lemma byte_sum_Cons [simp]: "byte_sum c (b # bs) = byte_sum (c + ucast b) bs"
  by (simp add: byte_sum_def)

lemma byte_sum_zeros [simp]: "byte_sum c (replicate n 0) = c"
  by (induction n) auto

end
