(* ===== verification/Header.thy ===== *)
theory Header
  imports Endian External
begin

text \<open>
  \<open>src/header.rs\<close> and the header encoder of \<open>src/reader.rs\<close>: the 4 KiB header, its
  checksum, its parser and its encoder. A GUID is its sixteen bytes.
\<close>

section \<open>The header\<close>

type_synonym guid = bytes

abbreviation HEADER_SIZE :: nat where "HEADER_SIZE \<equiv> 4096"
abbreviation HEADER1_OFFSET :: u64 where "HEADER1_OFFSET \<equiv> 0x10000"
abbreviation HEADER2_OFFSET :: u64 where "HEADER2_OFFSET \<equiv> 0x20000"
abbreviation HEADER_SIGNATURE :: bytes where "HEADER_SIGNATURE \<equiv> [0x68, 0x65, 0x61, 0x64]"
abbreviation HEADER_VERSION :: u16 where "HEADER_VERSION \<equiv> 1"
abbreviation LOG_VERSION_V0 :: u16 where "LOG_VERSION_V0 \<equiv> 0"

record header =
  hdr_sequence_number :: u64
  hdr_file_write_guid :: guid
  hdr_data_write_guid :: guid
  hdr_log_guid :: guid
  hdr_log_version :: u16
  hdr_version :: u16
  hdr_log_length :: u32
  hdr_log_offset :: u64

text \<open>What the Rust types say of the arrays, and the version every parsed header has.\<close>

definition header_wf :: "header \<Rightarrow> bool" where
  "header_wf h \<longleftrightarrow>
     length (hdr_file_write_guid h) = 16 \<and> length (hdr_data_write_guid h) = 16 \<and>
     length (hdr_log_guid h) = 16 \<and> hdr_version h = HEADER_VERSION"

definition header_compute_crc :: "ext \<Rightarrow> bytes \<Rightarrow> (u32, error) res" where
  "header_compute_crc x bytes =
     (if length bytes < HEADER_SIZE then Err (Corrupt ''header shorter than 4 KiB'')
      else
        res_bind (get_slice bytes 0 HEADER_SIZE) (\<lambda>whole.
        res_bind (copy_into whole 4 8 (replicate 4 0)) (\<lambda>buf.
        Ok (crc32c x buf))))"

definition header_parse :: "ext \<Rightarrow> bytes \<Rightarrow> (header, error) res" where
  "header_parse x bytes =
     (if length bytes < HEADER_SIZE then Err (Corrupt ''header shorter than 4 KiB'')
      else
        res_bind (get_slice bytes 0 4) (\<lambda>sig.
        if sig \<noteq> HEADER_SIGNATURE then Err (Corrupt ''header signature mismatch'')
        else
          res_bind (read_u32_le bytes 4) (\<lambda>stored_crc.
          res_bind (header_compute_crc x bytes) (\<lambda>computed.
          if stored_crc \<noteq> computed then Err (BadChecksum stored_crc computed ''header'')
          else
            res_bind (read_u64_le bytes 8) (\<lambda>sequence_number.
            res_bind (get_slice bytes 16 32) (\<lambda>file_write_guid.
            res_bind (get_slice bytes 32 48) (\<lambda>data_write_guid.
            res_bind (get_slice bytes 48 64) (\<lambda>log_guid.
            res_bind (read_u16_le bytes 64) (\<lambda>log_version.
            res_bind (read_u16_le bytes 66) (\<lambda>version.
            if version \<noteq> HEADER_VERSION then Err (Corrupt ''unsupported VHDX header version'')
            else
              res_bind (read_u32_le bytes 68) (\<lambda>log_length.
              res_bind (read_u64_le bytes 72) (\<lambda>log_offset.
              Ok \<lparr> hdr_sequence_number = sequence_number,
                   hdr_file_write_guid = file_write_guid,
                   hdr_data_write_guid = data_write_guid,
                   hdr_log_guid = log_guid,
                   hdr_log_version = log_version,
                   hdr_version = version,
                   hdr_log_length = log_length,
                   hdr_log_offset = log_offset \<rparr>))))))))))))"

definition encode_header :: "ext \<Rightarrow> header \<Rightarrow> (bytes, error) res" where
  "encode_header x h =
     res_bind (copy_into (replicate HEADER_SIZE 0) 0 4 HEADER_SIGNATURE) (\<lambda>buf.
     res_bind (copy_into buf 8 16 (to_le_bytes (hdr_sequence_number h))) (\<lambda>buf.
     res_bind (copy_into buf 16 32 (hdr_file_write_guid h)) (\<lambda>buf.
     res_bind (copy_into buf 32 48 (hdr_data_write_guid h)) (\<lambda>buf.
     res_bind (copy_into buf 48 64 (hdr_log_guid h)) (\<lambda>buf.
     res_bind (copy_into buf 64 66 (to_le_bytes (hdr_log_version h))) (\<lambda>buf.
     res_bind (copy_into buf 66 68 (to_le_bytes (hdr_version h))) (\<lambda>buf.
     res_bind (copy_into buf 68 72 (to_le_bytes (hdr_log_length h))) (\<lambda>buf.
     res_bind (copy_into buf 72 80 (to_le_bytes (hdr_log_offset h))) (\<lambda>buf.
     (case header_compute_crc x buf of
        Ok crc \<Rightarrow> copy_into buf 4 8 (to_le_bytes crc)
      | _ \<Rightarrow> Panic))))))))))"

section \<open>Lemmas\<close>

lemma header_compute_crc_Ok:
  "HEADER_SIZE \<le> length b \<Longrightarrow>
   header_compute_crc x b = Ok (crc32c x (overwrite 4 (replicate 4 0) (subslice 0 HEADER_SIZE b)))"
  by (simp add: header_compute_crc_def)

text \<open>The parser with its reads resolved: what it tests and what it returns.\<close>

definition header_fields :: "bytes \<Rightarrow> header" where
  "header_fields b =
     \<lparr> hdr_sequence_number = from_le_bytes (subslice 8 16 b),
       hdr_file_write_guid = subslice 16 32 b,
       hdr_data_write_guid = subslice 32 48 b,
       hdr_log_guid = subslice 48 64 b,
       hdr_log_version = from_le_bytes (subslice 64 66 b),
       hdr_version = from_le_bytes (subslice 66 68 b),
       hdr_log_length = from_le_bytes (subslice 68 72 b),
       hdr_log_offset = from_le_bytes (subslice 72 80 b) \<rparr>"

lemma header_parse_eq:
  assumes "HEADER_SIZE \<le> length b"
  shows "header_parse x b =
    (let stored = from_le_bytes (subslice 4 8 b);
         computed = crc32c x (overwrite 4 (replicate 4 0) (subslice 0 HEADER_SIZE b))
     in if subslice 0 4 b \<noteq> HEADER_SIGNATURE then Err (Corrupt ''header signature mismatch'')
        else if stored \<noteq> computed then Err (BadChecksum stored computed ''header'')
        else if hdr_version (header_fields b) \<noteq> HEADER_VERSION
             then Err (Corrupt ''unsupported VHDX header version'')
        else Ok (header_fields b))"
  using assms by (simp add: header_parse_def header_compute_crc_Ok header_fields_def Let_def)

lemma header_parse_short:
  "length b < HEADER_SIZE \<Longrightarrow> header_parse x b = Err (Corrupt ''header shorter than 4 KiB'')"
  by (simp add: header_parse_def)

lemma header_parse_not_Panic [simp]: "header_parse x b \<noteq> Panic"
  by (cases "length b < HEADER_SIZE") (auto simp: header_parse_short header_parse_eq Let_def)

lemma header_parse_wf: "header_parse x b = Ok h \<Longrightarrow> header_wf h"
  by (cases "length b < HEADER_SIZE")
    (auto simp: header_parse_short header_parse_eq header_fields_def header_wf_def Let_def
      split: if_splits)

text \<open>The bytes of an encoded header before its checksum is stored.\<close>

definition header_body :: "header \<Rightarrow> bytes" where
  "header_body h =
     overwrite 72 (to_le_bytes (hdr_log_offset h))
      (overwrite 68 (to_le_bytes (hdr_log_length h))
       (overwrite 66 (to_le_bytes (hdr_version h))
        (overwrite 64 (to_le_bytes (hdr_log_version h))
         (overwrite 48 (hdr_log_guid h)
          (overwrite 32 (hdr_data_write_guid h)
           (overwrite 16 (hdr_file_write_guid h)
            (overwrite 8 (to_le_bytes (hdr_sequence_number h))
             (overwrite 0 HEADER_SIGNATURE (replicate HEADER_SIZE 0)))))))))"

lemma length_header_body: "header_wf h \<Longrightarrow> length (header_body h) = HEADER_SIZE"
  by (simp add: header_body_def header_wf_def)

lemma header_body_crc_field: "header_wf h \<Longrightarrow> subslice 4 8 (header_body h) = replicate 4 0"
  by (simp add: header_body_def header_wf_def slice_simps)

lemma encode_header_eq:
  assumes "header_wf h"
  shows "encode_header x h = Ok (overwrite 4 (to_le_bytes (crc32c x (header_body h))) (header_body h))"
proof -
  have "overwrite 4 (replicate 4 0) (header_body h) = header_body h"
    by (rule overwrite_id [where j = 8])
      (simp_all add: assms length_header_body header_body_crc_field)
  then show ?thesis
    using assms by (simp add: encode_header_def header_body_def header_wf_def header_compute_crc_Ok)
qed

lemma encode_header_length:
  "header_wf h \<Longrightarrow> encode_header x h = Ok b \<Longrightarrow> length b = HEADER_SIZE"
  by (auto simp: encode_header_eq length_header_body)

lemma header_fields_body:
  "header_wf h \<Longrightarrow> header_fields (overwrite 4 crc (header_body h)) = h" if "length crc = 4"
  using that
  by (simp add: header_fields_def header_body_def header_wf_def slice_simps)

lemma header_parse_encode:
  assumes "header_wf h"
  shows "res_bind (encode_header x h) (header_parse x) = Ok h"
proof -
  let ?crc = "crc32c x (header_body h)"
  let ?b = "overwrite 4 (to_le_bytes ?crc) (header_body h)"
  have len: "length (header_body h) = HEADER_SIZE" by (rule length_header_body [OF assms])
  have zero: "overwrite 4 (replicate 4 0) (header_body h) = header_body h"
    by (rule overwrite_id [where j = 8]) (simp_all add: assms len header_body_crc_field)
  have sig: "subslice 0 4 ?b = HEADER_SIGNATURE"
    using assms by (simp add: header_body_def header_wf_def slice_simps)
  have stored: "from_le_bytes (subslice 4 8 ?b) = ?crc"
    by (simp add: slice_simps len)
  show ?thesis
    using assms by (simp add: encode_header_eq header_parse_eq len sig stored zero slice_simps
      header_fields_body header_wf_def Let_def)
qed

end
