(* ===== verification/Region_Table.thy ===== *)
theory Region_Table
  imports Header
begin

unbundle bit_operations_syntax

text \<open>
  \<open>src/region_table.rs\<close>: the 64 KiB region table, its checksum and parser, the lookup by
  GUID and the gate on regions marked Required that the reader does not know.
\<close>

section \<open>The region table\<close>

abbreviation MAX_REGION_ENTRIES :: nat where "MAX_REGION_ENTRIES \<equiv> 2047"
abbreviation REGION_TABLE_SIZE :: nat where "REGION_TABLE_SIZE \<equiv> 65536"
abbreviation REGION_TABLE1_OFFSET :: u64 where "REGION_TABLE1_OFFSET \<equiv> 0x30000"
abbreviation REGION_TABLE2_OFFSET :: u64 where "REGION_TABLE2_OFFSET \<equiv> 0x40000"
abbreviation REGION_TABLE_SIGNATURE :: bytes where
  "REGION_TABLE_SIGNATURE \<equiv> [0x72, 0x65, 0x67, 0x69]"

definition guid_BAT :: guid where
  "guid_BAT = [0x66, 0x77, 0xC2, 0x2D, 0x23, 0xF6, 0x00, 0x42, 0x9D, 0x64, 0x11, 0x5E, 0x9B,
     0xFD, 0x4A, 0x08]"

definition guid_METADATA :: guid where
  "guid_METADATA = [0x06, 0xA2, 0x7C, 0x8B, 0x90, 0x47, 0x9A, 0x4B, 0xB8, 0xFE, 0x57, 0x5F, 0x05,
     0x0F, 0x88, 0x6E]"

record region_entry =
  re_guid :: guid
  re_file_offset :: u64
  re_length :: u32
  re_required :: bool

type_synonym region_table = "region_entry list"

definition region_compute_crc :: "ext \<Rightarrow> bytes \<Rightarrow> (u32, error) res" where
  "region_compute_crc x bytes =
     (if length bytes < REGION_TABLE_SIZE then Err (Corrupt ''region table shorter than 64 KiB'')
      else
        res_bind (get_slice bytes 0 REGION_TABLE_SIZE) (\<lambda>whole.
        res_bind (copy_into whole 4 8 (replicate 4 0)) (\<lambda>buf.
        Ok (crc32c x buf))))"

definition region_entry_at :: "bytes \<Rightarrow> nat \<Rightarrow> (region_entry, error) res" where
  "region_entry_at bytes i =
     (let off = 16 + i * 32 in
      res_bind (get_slice bytes off (off + 16)) (\<lambda>guid.
      res_bind (read_u64_le bytes (off + 16)) (\<lambda>file_offset.
      res_bind (read_u32_le bytes (off + 24)) (\<lambda>length.
      res_bind (read_u32_le bytes (off + 28)) (\<lambda>flags.
      Ok \<lparr> re_guid = guid, re_file_offset = file_offset, re_length = length,
           re_required = (flags AND 1 \<noteq> 0) \<rparr>)))))"

definition region_table_parse :: "ext \<Rightarrow> bytes \<Rightarrow> (region_table, error) res" where
  "region_table_parse x bytes =
     (if length bytes < REGION_TABLE_SIZE then Err (Corrupt ''region table shorter than 64 KiB'')
      else
        res_bind (get_slice bytes 0 4) (\<lambda>sig.
        if sig \<noteq> REGION_TABLE_SIGNATURE then Err (Corrupt ''region-table signature mismatch'')
        else
          res_bind (read_u32_le bytes 4) (\<lambda>stored_crc.
          res_bind (region_compute_crc x bytes) (\<lambda>computed.
          if stored_crc \<noteq> computed then Err (BadChecksum stored_crc computed ''region-table'')
          else
            res_bind (read_u32_le bytes 8) (\<lambda>count.
            let entry_count = unat count in
            if MAX_REGION_ENTRIES < entry_count then Err (Corrupt ''region-table entry_count > 2047'')
            else res_map (region_entry_at bytes) [0..<entry_count])))))"

definition region_find :: "region_table \<Rightarrow> guid \<Rightarrow> region_entry option" where
  "region_find entries target = List.find (\<lambda>e. re_guid e = target) entries"

definition region_unknown_required :: "region_table \<Rightarrow> region_entry option" where
  "region_unknown_required entries =
     List.find (\<lambda>e. re_required e \<and> re_guid e \<noteq> guid_BAT \<and> re_guid e \<noteq> guid_METADATA) entries"

section \<open>Lemmas\<close>

definition region_fields :: "bytes \<Rightarrow> nat \<Rightarrow> region_entry" where
  "region_fields b i =
     (let off = 16 + i * 32 in
      \<lparr> re_guid = subslice off (off + 16) b,
        re_file_offset = from_le_bytes (subslice (off + 16) (off + 24) b),
        re_length = from_le_bytes (subslice (off + 24) (off + 28) b),
        re_required = ((from_le_bytes (subslice (off + 28) (off + 32) b) :: u32) AND 1 \<noteq> 0) \<rparr>)"

lemma region_entry_at_Ok:
  "48 + i * 32 \<le> length b \<Longrightarrow> region_entry_at b i = Ok (region_fields b i)"
  by (simp add: region_entry_at_def region_fields_def Let_def)

lemma region_compute_crc_Ok:
  "REGION_TABLE_SIZE \<le> length b \<Longrightarrow>
   region_compute_crc x b =
     Ok (crc32c x (overwrite 4 (replicate 4 0) (subslice 0 REGION_TABLE_SIZE b)))"
  by (simp add: region_compute_crc_def)

lemma region_table_parse_eq:
  assumes "REGION_TABLE_SIZE \<le> length b"
  shows "region_table_parse x b =
    (let stored = from_le_bytes (subslice 4 8 b);
         computed = crc32c x (overwrite 4 (replicate 4 0) (subslice 0 REGION_TABLE_SIZE b));
         n = unat (from_le_bytes (subslice 8 12 b) :: u32)
     in if subslice 0 4 b \<noteq> REGION_TABLE_SIGNATURE
        then Err (Corrupt ''region-table signature mismatch'')
        else if stored \<noteq> computed then Err (BadChecksum stored computed ''region-table'')
        else if MAX_REGION_ENTRIES < n then Err (Corrupt ''region-table entry_count > 2047'')
        else Ok (map (region_fields b) [0..<n]))"
proof -
  have "n \<le> MAX_REGION_ENTRIES \<Longrightarrow>
      res_map (region_entry_at b) [0..<n] = Ok (map (region_fields b) [0..<n])" for n
    using assms by (intro res_map_all_Ok region_entry_at_Ok) simp
  then show ?thesis
    using assms by (simp add: region_table_parse_def region_compute_crc_Ok Let_def)
qed

lemma region_table_parse_short:
  "length b < REGION_TABLE_SIZE \<Longrightarrow>
   region_table_parse x b = Err (Corrupt ''region table shorter than 64 KiB'')"
  by (simp add: region_table_parse_def)

lemma region_table_parse_not_Panic [simp]: "region_table_parse x b \<noteq> Panic"
  by (cases "length b < REGION_TABLE_SIZE")
    (auto simp: region_table_parse_short region_table_parse_eq Let_def)

lemma region_table_parse_Ok_length:
  "region_table_parse x b = Ok t \<Longrightarrow> length t \<le> MAX_REGION_ENTRIES"
  by (cases "length b < REGION_TABLE_SIZE")
    (auto simp: region_table_parse_short region_table_parse_eq Let_def split: if_splits)

lemma region_unknown_required_None_iff:
  "region_unknown_required t = None \<longleftrightarrow>
   (\<forall>e \<in> set t. re_required e \<longrightarrow> re_guid e = guid_BAT \<or> re_guid e = guid_METADATA)"
  by (auto simp: region_unknown_required_def find_None_iff)

lemma region_find_Some: "region_find t g = Some e \<Longrightarrow> e \<in> set t \<and> re_guid e = g"
  by (auto simp: region_find_def find_Some_iff)

end
