(* ===== verification/Metadata.thy ===== *)
theory Metadata
  imports Header
begin

unbundle bit_operations_syntax

text \<open>
  \<open>src/metadata.rs\<close>: the metadata table, the lookup of an item's bytes inside the region,
  the gate on items marked Required that the reader does not know, and the three item
  decoders.
\<close>

section \<open>The metadata table\<close>

abbreviation MAX_METADATA_ENTRIES :: nat where "MAX_METADATA_ENTRIES \<equiv> 2047"
abbreviation METADATA_HEADER_SIZE :: nat where "METADATA_HEADER_SIZE \<equiv> 32"
abbreviation METADATA_ENTRY_SIZE :: nat where "METADATA_ENTRY_SIZE \<equiv> 32"
abbreviation METADATA_SIGNATURE :: bytes where
  "METADATA_SIGNATURE \<equiv> [0x6D, 0x65, 0x74, 0x61, 0x64, 0x61, 0x74, 0x61]"
abbreviation METADATA_FLAG_IS_REQUIRED :: u32 where "METADATA_FLAG_IS_REQUIRED \<equiv> 0x4"

definition FILE_PARAMETERS :: guid where
  "FILE_PARAMETERS = [0x37, 0x67, 0xA1, 0xCA, 0x36, 0xFA, 0x43, 0x4D, 0xB3, 0xB6, 0x33, 0xF0, 0xAA,
     0x44, 0xE7, 0x6B]"

definition VIRTUAL_DISK_SIZE :: guid where
  "VIRTUAL_DISK_SIZE = [0x24, 0x42, 0xA5, 0x2F, 0x1B, 0xCD, 0x76, 0x48, 0xB2, 0x11, 0x5D, 0xBE, 0xD8,
     0x3B, 0xF4, 0xB8]"

definition LOGICAL_SECTOR_SIZE :: guid where
  "LOGICAL_SECTOR_SIZE = [0x1D, 0xBF, 0x41, 0x81, 0x6F, 0xA9, 0x09, 0x47, 0xBA, 0x47, 0xF2, 0x33,
     0xA8, 0xFA, 0xAB, 0x5F]"

definition PAGE_83_DATA :: guid where
  "PAGE_83_DATA = [0xAB, 0x12, 0xCA, 0xBE, 0xE6, 0xB2, 0x23, 0x45, 0x93, 0xEF, 0xC3, 0x09, 0xE0,
     0x00, 0xC7, 0x46]"

definition PHYSICAL_SECTOR_SIZE :: guid where
  "PHYSICAL_SECTOR_SIZE = [0xC7, 0x48, 0xA3, 0xCD, 0x5D, 0x44, 0x71, 0x44, 0x9C, 0xC9, 0xE9, 0x88,
     0x52, 0x51, 0xC5, 0x56]"

definition RECOGNISED_ITEMS :: "guid list" where
  "RECOGNISED_ITEMS =
     [FILE_PARAMETERS, VIRTUAL_DISK_SIZE, PAGE_83_DATA, LOGICAL_SECTOR_SIZE, PHYSICAL_SECTOR_SIZE]"

record metadata_entry =
  me_item_id :: guid
  me_offset :: u32
  me_length :: u32
  me_flags :: u32

record metadata_table =
  mt_entries :: "metadata_entry list"
  mt_region_bytes :: bytes

definition metadata_entry_at :: "bytes \<Rightarrow> nat \<Rightarrow> (metadata_entry, error) res" where
  "metadata_entry_at bytes i =
     (let off = METADATA_HEADER_SIZE + i * METADATA_ENTRY_SIZE in
      res_bind (get_slice bytes off (off + 16)) (\<lambda>item_id.
      res_bind (read_u32_le bytes (off + 16)) (\<lambda>item_offset.
      res_bind (read_u32_le bytes (off + 20)) (\<lambda>length.
      res_bind (read_u32_le bytes (off + 24)) (\<lambda>flags.
      Ok \<lparr> me_item_id = item_id, me_offset = item_offset, me_length = length,
           me_flags = flags \<rparr>)))))"

definition metadata_table_parse :: "bytes \<Rightarrow> (metadata_table, error) res" where
  "metadata_table_parse bytes =
     (if length bytes < METADATA_HEADER_SIZE then Err (BadMetadata ''region shorter than 32 bytes'')
      else
        res_bind (get_slice bytes 0 8) (\<lambda>sig.
        if sig \<noteq> METADATA_SIGNATURE then Err (BadMetadata ''signature mismatch'')
        else
          res_bind (read_u16_le bytes 10) (\<lambda>count.
          let entry_count = unat count in
          if MAX_METADATA_ENTRIES < entry_count then Err (BadMetadata ''entry_count > 2047'')
          else
            let total_entries_bytes = METADATA_HEADER_SIZE + entry_count * METADATA_ENTRY_SIZE in
            if length bytes < total_entries_bytes
            then Err (BadMetadata ''region truncated mid-entry'')
            else
              res_bind (res_map (metadata_entry_at bytes) [0..<entry_count]) (\<lambda>entries.
              Ok \<lparr> mt_entries = entries, mt_region_bytes = bytes \<rparr>))))"

definition metadata_unknown_required :: "metadata_table \<Rightarrow> metadata_entry option" where
  "metadata_unknown_required t =
     List.find (\<lambda>e. me_flags e AND METADATA_FLAG_IS_REQUIRED \<noteq> 0 \<and>
                    me_item_id e \<notin> set RECOGNISED_ITEMS) (mt_entries t)"

text \<open>\<open>None\<close> for an absent item and for one whose bytes leave the region.\<close>

definition item_data :: "metadata_table \<Rightarrow> guid \<Rightarrow> (bytes option, 'e) res" where
  "item_data t item_id =
     (case List.find (\<lambda>e. me_item_id e = item_id) (mt_entries t) of
        None \<Rightarrow> Ok None
      | Some entry \<Rightarrow>
          (let start = unat (me_offset entry);
               end = start + unat (me_length entry)
           in if length (mt_region_bytes t) < end then Ok None
              else res_bind (get_slice (mt_region_bytes t) start end) (\<lambda>s. Ok (Some s))))"

section \<open>Items\<close>

record file_parameters =
  fp_block_size :: u32
  fp_flags :: u32

definition file_parameters_parse :: "bytes \<Rightarrow> (file_parameters, error) res" where
  "file_parameters_parse bytes =
     (if length bytes < 8 then Err (BadMetadata ''FileParameters shorter than 8 bytes'')
      else
        res_bind (read_u32_le bytes 0) (\<lambda>block_size.
        res_bind (read_u32_le bytes 4) (\<lambda>flags.
        Ok \<lparr> fp_block_size = block_size, fp_flags = flags \<rparr>)))"

definition fp_has_parent :: "file_parameters \<Rightarrow> bool" where
  "fp_has_parent fp \<longleftrightarrow> fp_flags fp AND 0x2 \<noteq> 0"

definition read_virtual_disk_size :: "bytes \<Rightarrow> (u64, error) res" where
  "read_virtual_disk_size bytes =
     (if length bytes < 8 then Err (BadMetadata ''VirtualDiskSize shorter than 8 bytes'')
      else Ok (from_le_bytes (take 8 bytes)))"

definition read_sector_size :: "bytes \<Rightarrow> (u32, error) res" where
  "read_sector_size bytes =
     (if length bytes < 4 then Err (BadMetadata ''sector size shorter than 4 bytes'')
      else Ok (from_le_bytes (take 4 bytes)))"

section \<open>Lemmas\<close>

definition metadata_fields :: "bytes \<Rightarrow> nat \<Rightarrow> metadata_entry" where
  "metadata_fields b i =
     (let off = METADATA_HEADER_SIZE + i * METADATA_ENTRY_SIZE in
      \<lparr> me_item_id = subslice off (off + 16) b,
        me_offset = from_le_bytes (subslice (off + 16) (off + 20) b),
        me_length = from_le_bytes (subslice (off + 20) (off + 24) b),
        me_flags = from_le_bytes (subslice (off + 24) (off + 28) b) \<rparr>)"

lemma metadata_entry_at_Ok:
  "60 + i * METADATA_ENTRY_SIZE \<le> length b \<Longrightarrow> metadata_entry_at b i = Ok (metadata_fields b i)"
  by (simp add: metadata_entry_at_def metadata_fields_def Let_def)

lemma metadata_table_parse_eq:
  assumes "METADATA_HEADER_SIZE \<le> length b"
  shows "metadata_table_parse b =
    (let n = unat (from_le_bytes (subslice 10 12 b) :: u16)
     in if subslice 0 8 b \<noteq> METADATA_SIGNATURE then Err (BadMetadata ''signature mismatch'')
        else if MAX_METADATA_ENTRIES < n then Err (BadMetadata ''entry_count > 2047'')
        else if length b < METADATA_HEADER_SIZE + n * METADATA_ENTRY_SIZE
             then Err (BadMetadata ''region truncated mid-entry'')
        else Ok \<lparr> mt_entries = map (metadata_fields b) [0..<n], mt_region_bytes = b \<rparr>)"
proof -
  have "METADATA_HEADER_SIZE + n * METADATA_ENTRY_SIZE \<le> length b \<Longrightarrow>
      res_map (metadata_entry_at b) [0..<n] = Ok (map (metadata_fields b) [0..<n])" for n
    by (intro res_map_all_Ok metadata_entry_at_Ok) simp
  then show ?thesis
    using assms by (simp add: metadata_table_parse_def Let_def)
qed

lemma metadata_table_parse_short:
  "length b < METADATA_HEADER_SIZE \<Longrightarrow>
   metadata_table_parse b = Err (BadMetadata ''region shorter than 32 bytes'')"
  by (simp add: metadata_table_parse_def)

lemma metadata_table_parse_not_Panic [simp]: "metadata_table_parse b \<noteq> Panic"
  by (cases "length b < METADATA_HEADER_SIZE")
    (auto simp: metadata_table_parse_short metadata_table_parse_eq Let_def)

lemma item_data_not_Panic [simp]: "item_data t g \<noteq> Panic"
  by (auto simp: item_data_def Let_def split: option.splits)

lemma item_data_not_Err [simp]: "item_data t g \<noteq> Err e"
  by (auto simp: item_data_def Let_def split: option.splits)

lemma metadata_unknown_required_None_iff:
  "metadata_unknown_required t = None \<longleftrightarrow>
   (\<forall>e \<in> set (mt_entries t).
      me_flags e AND METADATA_FLAG_IS_REQUIRED \<noteq> 0 \<longrightarrow> me_item_id e \<in> set RECOGNISED_ITEMS)"
  by (auto simp: metadata_unknown_required_def find_None_iff)

lemma item_decoders_not_Panic [simp]:
  "file_parameters_parse b \<noteq> Panic" "read_virtual_disk_size b \<noteq> Panic" "read_sector_size b \<noteq> Panic"
  by (simp_all add: file_parameters_parse_def read_virtual_disk_size_def read_sector_size_def)

end
