(* ===== verification/Block_Device.thy ===== *)
theory Block_Device
  imports Header
begin

text \<open>
  The block-device interface of \<open>rust-fs-core\<close> as the crate uses it, and the helpers of
  \<open>src/reader.rs\<close> that work on a bare device. The traits \<open>BlockRead\<close> and \<open>BlockDevice\<close>
  are records of operations, a parameter of every definition that touches a device. What the
  crate relies on is the locales \<open>block_read\<close> and \<open>block_device\<close>: a device has contents; a
  read that succeeds returns them; a write that succeeds replaces exactly the bytes named and
  is refused past the end (a buffer is a slice, so its length is a \<open>usize\<close>); \<open>set_len\<close> alone changes the length, and new bytes read as zero.
  \<open>reliable_device\<close> adds that requests inside the bounds succeed. The in-memory overlay of
  the command-line tool (theory \<open>Overlay\<close>) and the byte vector below are instances.
\<close>

section \<open>The interface\<close>

record 'd read_ops =
  dev_size_bytes :: "'d \<Rightarrow> u64"
  dev_read_at :: "'d \<Rightarrow> u64 \<Rightarrow> nat \<Rightarrow> (bytes, fs_error) res"

record 'd dev_ops = "'d read_ops" +
  dev_write_at :: "u64 \<Rightarrow> bytes \<Rightarrow> ('d, unit, fs_error) io"
  dev_flush :: "('d, unit, fs_error) io"
  dev_set_len :: "u64 \<Rightarrow> ('d, unit, fs_error) io"
  dev_is_writable :: "'d \<Rightarrow> bool"
  dev_can_grow :: "'d \<Rightarrow> bool"

definition resize :: "nat \<Rightarrow> bytes \<Rightarrow> bytes" where
  "resize n c = take n c @ replicate (n - length c) 0"

locale block_read =
  fixes ops :: "('d, 'z) read_ops_scheme"
    and invar :: "'d \<Rightarrow> bool"
    and contents :: "'d \<Rightarrow> bytes"
  assumes size_law: "invar d \<Longrightarrow> unat (dev_size_bytes ops d) = length (contents d)"
    and read_law: "invar d \<Longrightarrow> n < 2 ^ 64 \<Longrightarrow> dev_read_at ops d off n = Ok bs \<Longrightarrow>
      length bs = n \<and> bs = subslice (unat off) (unat off + n) (contents d)"
begin

lemma contents_bound: "invar d \<Longrightarrow> length (contents d) < 2 ^ 64"
  using size_law [of d] unat_lt_u64 [of "dev_size_bytes ops d"] by (simp del: unat_lt_u64)

lemma read_in_bounds:
  assumes "invar d" "n < 2 ^ 64" "dev_read_at ops d off n = Ok bs" "0 < n"
  shows "unat off + n \<le> length (contents d)"
proof -
  have len: "length bs = n" and eq: "bs = subslice (unat off) (unat off + n) (contents d)"
    using read_law [OF assms(1-3)] by blast+
  from arg_cong [OF eq, of length] have "length bs = min n (length (contents d) - unat off)"
    by simp
  with len assms(4) show ?thesis by linarith
qed

end

locale block_device = block_read ops invar contents
  for ops :: "('d, 'z) dev_ops_scheme" and invar :: "'d \<Rightarrow> bool" and contents :: "'d \<Rightarrow> bytes" +
  assumes write_invar: "invar d \<Longrightarrow> dev_write_at ops off bs d = (r, d') \<Longrightarrow>
      invar d' \<and> length (contents d') = length (contents d)"
    and write_law: "invar d \<Longrightarrow> length bs < 2 ^ 64 \<Longrightarrow> dev_write_at ops off bs d = (Ok u, d') \<Longrightarrow>
      (bs \<noteq> [] \<longrightarrow> unat off + length bs \<le> length (contents d)) \<and>
      contents d' = overwrite (unat off) bs (contents d)"
    and flush_law: "invar d \<Longrightarrow> dev_flush ops d = (r, d') \<Longrightarrow> invar d' \<and> contents d' = contents d"
    and set_len_invar: "invar d \<Longrightarrow> dev_set_len ops m d = (r, d') \<Longrightarrow> invar d'"
    and set_len_law: "invar d \<Longrightarrow> dev_set_len ops m d = (Ok u, d') \<Longrightarrow>
      contents d' = resize (unat m) (contents d)"
    and set_len_refused: "invar d \<Longrightarrow> dev_set_len ops m d = (r, d') \<Longrightarrow> r \<noteq> Ok () \<Longrightarrow>
      contents d' = contents d"

locale reliable_device = block_device ops invar contents
  for ops :: "('d, 'z) dev_ops_scheme" and invar :: "'d \<Rightarrow> bool" and contents :: "'d \<Rightarrow> bytes" +
  assumes read_succeeds: "invar d \<Longrightarrow> unat off + n \<le> length (contents d) \<Longrightarrow>
      is_Ok (dev_read_at ops d off n)"
    and write_succeeds: "invar d \<Longrightarrow> unat off + length bs \<le> length (contents d) \<Longrightarrow>
      is_Ok (fst (dev_write_at ops off bs d))"
    and flush_succeeds: "invar d \<Longrightarrow> is_Ok (fst (dev_flush ops d))"
    and set_len_succeeds: "invar d \<Longrightarrow> length (contents d) \<le> unat m \<Longrightarrow>
      is_Ok (fst (dev_set_len ops m d))"

section \<open>A byte vector as a device\<close>

definition vec_ops :: "bytes dev_ops" where
  "vec_ops =
     \<lparr> dev_size_bytes = (\<lambda>v. word_of_nat (length v)),
       dev_read_at = (\<lambda>v off n.
         if unat off + n \<le> length v then Ok (subslice (unat off) (unat off + n) v)
         else Err (FsOutOfBounds off (word_of_nat n) (word_of_nat (length v)))),
       dev_write_at = (\<lambda>off bs v.
         if unat off + length bs \<le> length v then (Ok (), overwrite (unat off) bs v)
         else (Err (FsOutOfBounds off (word_of_nat (length bs)) (word_of_nat (length v))), v)),
       dev_flush = (\<lambda>v. (Ok (), v)),
       dev_set_len = (\<lambda>n v. (Ok (), resize (unat n) v)),
       dev_is_writable = (\<lambda>_. True),
       dev_can_grow = (\<lambda>_. True) \<rparr>"

definition vec_invar :: "bytes \<Rightarrow> bool" where
  "vec_invar v \<longleftrightarrow> length v < 2 ^ 64"

lemma length_resize [simp]: "length (resize n c) = n"
  by (simp add: resize_def)

lemma resize_grow: "length c \<le> n \<Longrightarrow> resize n c = c @ replicate (n - length c) 0"
  by (simp add: resize_def)

interpretation vec: reliable_device vec_ops vec_invar "\<lambda>v. v"
proof (unfold_locales, goal_cases)
  case (1 d)
  then show ?case by (simp add: vec_ops_def vec_invar_def unat_of_nat)
next
  case (4 d off bs u d')
  then show ?case by (auto simp: vec_ops_def split: if_splits)
qed (auto simp: vec_ops_def vec_invar_def is_Ok_iff split: if_splits)

section \<open>Writing zeros\<close>

abbreviation ZERO_CHUNK :: nat where "ZERO_CHUNK \<equiv> 1048576"

function write_zeros :: "('d, 'z) dev_ops_scheme \<Rightarrow> u64 \<Rightarrow> u64 \<Rightarrow> ('d, unit, fs_error) io" where
  "write_zeros ops cur remaining =
     (if remaining = 0 then io_return ()
      else
        let n = min (unat remaining) ZERO_CHUNK in
        io_bind (dev_write_at ops cur (replicate n 0)) (\<lambda>_.
        write_zeros ops (cur + word_of_nat n) (remaining - word_of_nat n)))"
  by pat_completeness auto

lemma unat_minus_of_nat: "n \<le> unat (w :: u64) \<Longrightarrow> unat (w - word_of_nat n) = unat w - n"
  by (metis le_unat_uoi unat_sub word_le_nat_alt)

termination write_zeros
  by (relation "measure (\<lambda>(ops, cur, remaining). unat remaining)")
    (auto simp: unat_minus_of_nat unat_gt_0)

declare write_zeros.simps [simp del]

lemma write_zeros_zero [simp]: "write_zeros ops cur 0 = io_return ()"
  by (simp add: write_zeros.simps)

lemma overwrite_zeros_split:
  assumes "off + (n + m) \<le> length c"
  shows "overwrite (off + n) (replicate m 0) (overwrite off (replicate n 0) c) =
    overwrite off (replicate (n + m) 0) c"
  using assms by (intro nth_equalityI) (auto simp: nth_overwrite)

context block_device
begin

lemma write_keeps: "io_keeps (\<lambda>d. invar d \<and> length (contents d) = n) (dev_write_at ops off bs)"
  by (rule io_keepsI) (auto dest: write_invar)

lemma flush_keeps: "io_keeps (\<lambda>d. invar d \<and> P (contents d)) (dev_flush ops)"
  by (rule io_keepsI) (auto dest: flush_law)

lemma write_zeros_keeps: "io_keeps (\<lambda>d. invar d \<and> length (contents d) = n) (write_zeros ops off len)"
proof (induction "unat len" arbitrary: off len rule: less_induct)
  case less
  show ?case
  proof (cases "len = 0")
    case False
    let ?k = "min (unat len) ZERO_CHUNK"
    have "unat (len - word_of_nat ?k) < unat len"
      using False by (simp add: unat_minus_of_nat unat_gt_0)
    then have "io_keeps (\<lambda>d. invar d \<and> length (contents d) = n)
        (write_zeros ops (off + word_of_nat ?k) (len - word_of_nat ?k))"
      by (rule less)
    then show ?thesis
      using False by (subst write_zeros.simps) (auto simp: Let_def intro: write_keeps)
  qed simp
qed

lemma write_zeros_Ok:
  assumes "invar d" "write_zeros ops off len d = (Ok u, d')"
  shows "invar d' \<and> (len \<noteq> 0 \<longrightarrow> unat off + unat len \<le> length (contents d)) \<and>
    contents d' = overwrite (unat off) (replicate (unat len) 0) (contents d)"
  using assms
proof (induction "unat len" arbitrary: off len d rule: less_induct)
  case less
  show ?case
  proof (cases "len = 0")
    case True
    with less.prems show ?thesis by (simp add: io_return_def overwrite_def)
  next
    case False
    define k where "k = min (unat len) ZERO_CHUNK"
    have k: "0 < k" "k \<le> unat len" using False by (auto simp: k_def unat_gt_0)
    obtain d1 where w: "dev_write_at ops off (replicate k 0) d = (Ok (), d1)"
      and rest: "write_zeros ops (off + word_of_nat k) (len - word_of_nat k) d1 = (Ok u, d')"
      using less.prems(2) False
      by (subst (asm) write_zeros.simps) (auto simp: Let_def io_bind_Ok_iff k_def)
    have d1: "invar d1" "length (contents d1) = length (contents d)"
      using write_invar [OF less.prems(1) w] by auto
    have in1: "unat off + k \<le> length (contents d)"
      and c1: "contents d1 = overwrite (unat off) (replicate k 0) (contents d)"
      using write_law [OF less.prems(1) _ w] k(1) by (auto simp: k_def)
    have off': "unat (off + word_of_nat k) = unat off + k"
      using in1 contents_bound [OF less.prems(1)] k
      by (subst unat_add_no_overflow) (simp_all add: unat_of_nat)
    have len': "unat (len - word_of_nat k) = unat len - k"
      using k by (simp add: unat_minus_of_nat)
    have IH: "invar d' \<and> (len - word_of_nat k \<noteq> 0 \<longrightarrow>
        unat off + k + (unat len - k) \<le> length (contents d)) \<and>
      contents d' = overwrite (unat off + k) (replicate (unat len - k) 0) (contents d1)"
      using less.hyps [OF _ d1(1) rest] k by (simp add: len' off' d1(2))
    show ?thesis
    proof (cases "len - word_of_nat k = 0")
      case True
      then have "unat len = k" using len' k by simp
      then show ?thesis using IH in1 c1 by (simp add: overwrite_def)
    next
      case False
      then have "unat off + (k + (unat len - k)) \<le> length (contents d)" using IH by simp
      then show ?thesis
        using IH k by (simp add: c1 overwrite_zeros_split)
    qed
  qed
qed

end

context reliable_device
begin

lemma write_zeros_succeeds:
  "invar d \<Longrightarrow> unat off + unat len \<le> length (contents d) \<Longrightarrow> is_Ok (fst (write_zeros ops off len d))"
proof (induction "unat len" arbitrary: off len d rule: less_induct)
  case less
  show ?case
  proof (cases "len = 0")
    case False
    define k where "k = min (unat len) ZERO_CHUNK"
    have k: "0 < k" "k \<le> unat len" using False by (auto simp: k_def unat_gt_0)
    obtain d1 where w: "dev_write_at ops off (replicate k 0) d = (Ok (), d1)"
      using write_succeeds [of d off "replicate k 0"] less.prems k
      by (cases "dev_write_at ops off (replicate k 0) d") (auto simp: is_Ok_iff)
    have d1: "invar d1" "length (contents d1) = length (contents d)"
      using write_invar [OF less.prems(1) w] by auto
    have off': "unat (off + word_of_nat k) = unat off + k"
      using less.prems contents_bound [OF less.prems(1)] k
      by (subst unat_add_no_overflow) (simp_all add: unat_of_nat)
    have len': "unat (len - word_of_nat k) = unat len - k"
      using k by (simp add: unat_minus_of_nat)
    have "is_Ok (fst (write_zeros ops (off + word_of_nat k) (len - word_of_nat k) d1))"
      using less.hyps [OF _ d1(1)] less.prems k by (simp add: off' len' d1(2))
    then show ?thesis
      using False w by (subst write_zeros.simps) (simp add: Let_def io_bind_def k_def)
  qed (simp add: io_return_def)
qed

end

section \<open>Probing a copy of a structure\<close>

definition probe_at ::
  "('d, 'z) read_ops_scheme \<Rightarrow> 'd \<Rightarrow> u64 \<Rightarrow> u64 \<Rightarrow> nat \<Rightarrow> (bytes \<Rightarrow> ('a, error) res) \<Rightarrow>
   ('a option, error) res" where
  "probe_at ops d dev_size off len parse =
     (if dev_size < off + word_of_nat len then Ok None
      else
        res_bind (res_map_err fs_core_to_vhdx_error (dev_read_at ops d off len)) (\<lambda>buf.
        res_ok (parse buf)))"

end
