(* ===== verification/Log_Entry.thy ===== *)
theory Log_Entry
  imports Block_Device
begin

unbundle bit_operations_syntax

text \<open>
  \<open>src/log.rs\<close>, the entry format: the parser of one log entry (with the checksum budget it
  is charged to, and an entry whose bytes run past the end of the circular region) and the
  encoder the writer journals with. The parser's two \<open>&mut\<close> counters are the state of its
  computation.
\<close>

section \<open>Entries and descriptors\<close>

abbreviation LOG_SECTOR_SIZE :: nat where "LOG_SECTOR_SIZE \<equiv> 4096"
abbreviation LOG_ENTRY_HEADER_SIZE :: nat where "LOG_ENTRY_HEADER_SIZE \<equiv> 64"
abbreviation LOG_DESCRIPTOR_SIZE :: nat where "LOG_DESCRIPTOR_SIZE \<equiv> 32"
abbreviation LOG_ENTRY_SIGNATURE :: bytes where "LOG_ENTRY_SIGNATURE \<equiv> [0x6C, 0x6F, 0x67, 0x65]"
abbreviation ZERO_DESC_SIGNATURE :: bytes where "ZERO_DESC_SIGNATURE \<equiv> [0x7A, 0x65, 0x72, 0x6F]"
abbreviation DATA_DESC_SIGNATURE :: bytes where "DATA_DESC_SIGNATURE \<equiv> [0x64, 0x65, 0x73, 0x63]"
abbreviation DATA_SECTOR_SIGNATURE :: bytes where
  "DATA_SECTOR_SIGNATURE \<equiv> [0x64, 0x61, 0x74, 0x61]"

datatype entry_reject = RejectEmpty | RejectCorrupt | RejectForeignChain | RejectMalformed

record log_entry_header =
  leh_entry_length :: u32
  leh_tail :: u32
  leh_sequence_number :: u64
  leh_descriptor_count :: u32
  leh_log_guid :: guid
  leh_flushed_file_offset :: u64
  leh_last_file_offset :: u64

datatype descriptor =
    ZeroDesc (zd_zero_length: u64) (desc_file_offset: u64) (desc_sequence_number: u64)
  | DataDesc (dd_trailing_bytes: u32) (dd_leading_bytes: u64) (desc_file_offset: u64)
      (desc_sequence_number: u64) (dd_sector: bytes)

record log_entry =
  le_header :: log_entry_header
  le_descriptors :: "descriptor list"
  le_log_offset_in_region :: u64

definition entry_crc :: "ext \<Rightarrow> bytes \<Rightarrow> (u32, 'e) res" where
  "entry_crc x bytes =
     res_bind (get_slice bytes 0 4) (\<lambda>a.
     res_bind (get_slice bytes 8 (length bytes)) (\<lambda>c.
     let crc = crc32c x a;
         crc = crc32c_append x crc (replicate 4 0)
     in Ok (crc32c_append x crc c)))"

definition round_up_sector :: "nat \<Rightarrow> nat" where
  "round_up_sector n =
     unat ((word_of_nat (n + LOG_SECTOR_SIZE - 1) :: u64) AND NOT (word_of_nat (LOG_SECTOR_SIZE - 1)))"

section \<open>Parsing\<close>

text \<open>The descriptor loop; \<open>data_sector_base\<close> moves on by a sector per data descriptor.\<close>

fun parse_descriptors ::
  "bytes \<Rightarrow> nat \<Rightarrow> u64 \<Rightarrow> nat list \<Rightarrow> nat \<Rightarrow> (descriptor list, entry_reject) res" where
  "parse_descriptors entry_bytes entry_length sequence_number [] data_sector_base = Ok []"
| "parse_descriptors entry_bytes entry_length sequence_number (i # is) data_sector_base =
     (let off = LOG_ENTRY_HEADER_SIZE + i * LOG_DESCRIPTOR_SIZE in
      res_bind (get_slice entry_bytes off (off + 4)) (\<lambda>sig.
      res_bind (read_u64_le entry_bytes (off + 24)) (\<lambda>desc_seq.
      if desc_seq \<noteq> sequence_number then Err RejectMalformed
      else if sig = ZERO_DESC_SIGNATURE then
        res_bind (read_u64_le entry_bytes (off + 8)) (\<lambda>zero_length.
        res_bind (read_u64_le entry_bytes (off + 16)) (\<lambda>file_offset.
        res_bind (parse_descriptors entry_bytes entry_length sequence_number is data_sector_base)
          (\<lambda>rest. Ok (ZeroDesc zero_length file_offset desc_seq # rest))))
      else if sig = DATA_DESC_SIGNATURE then
        res_bind (read_u32_le entry_bytes (off + 4)) (\<lambda>trailing_bytes.
        res_bind (read_u64_le entry_bytes (off + 8)) (\<lambda>leading_bytes.
        res_bind (read_u64_le entry_bytes (off + 16)) (\<lambda>file_offset.
        if entry_length < data_sector_base + LOG_SECTOR_SIZE then Err RejectMalformed
        else
          res_bind (get_slice entry_bytes data_sector_base (data_sector_base + LOG_SECTOR_SIZE))
            (\<lambda>sector.
          res_bind (get_slice sector 0 4) (\<lambda>sector_sig.
          if sector_sig \<noteq> DATA_SECTOR_SIGNATURE then Err RejectMalformed
          else
            res_bind (read_u32_le sector 4) (\<lambda>seq_hi.
            res_bind (read_u32_le sector (LOG_SECTOR_SIZE - 4)) (\<lambda>seq_lo.
            let assembled = push_bit 32 (ucast seq_hi) OR ucast seq_lo in
            if assembled \<noteq> sequence_number then Err RejectMalformed
            else
              res_bind (copy_into sector 0 8 (to_le_bytes leading_bytes)) (\<lambda>reconstructed.
              res_bind (copy_into reconstructed (LOG_SECTOR_SIZE - 4) LOG_SECTOR_SIZE
                (to_le_bytes trailing_bytes)) (\<lambda>reconstructed.
              res_bind (parse_descriptors entry_bytes entry_length sequence_number is
                (data_sector_base + LOG_SECTOR_SIZE)) (\<lambda>rest.
              Ok (DataDesc trailing_bytes leading_bytes file_offset desc_seq reconstructed
                # rest)))))))))))
      else Err RejectMalformed)))"

text \<open>What follows a verified checksum: the header fields and the descriptor table.\<close>

definition parse_entry_fields ::
  "bytes \<Rightarrow> nat \<Rightarrow> nat \<Rightarrow> guid \<Rightarrow> (log_entry, entry_reject) res" where
  "parse_entry_fields entry_bytes entry_length pos log_guid =
     res_bind (read_u32_le entry_bytes 12) (\<lambda>tail.
     res_bind (read_u64_le entry_bytes 16) (\<lambda>sequence_number.
     res_bind (read_u32_le entry_bytes 24) (\<lambda>descriptor_count.
     res_bind (read_u64_le entry_bytes 48) (\<lambda>flushed_file_offset.
     res_bind (read_u64_le entry_bytes 56) (\<lambda>last_file_offset.
     let descriptors_size = unat descriptor_count * LOG_DESCRIPTOR_SIZE in
     if 2 ^ 64 \<le> descriptors_size then Err RejectMalformed
     else if entry_length < LOG_ENTRY_HEADER_SIZE + descriptors_size then Err RejectMalformed
     else
       let descriptors_end = LOG_ENTRY_HEADER_SIZE + descriptors_size;
           data_sector_base = round_up_sector descriptors_end
       in
       res_bind (parse_descriptors entry_bytes entry_length sequence_number
         [0..<unat descriptor_count] data_sector_base) (\<lambda>descriptors.
       Ok \<lparr> le_header =
              \<lparr> leh_entry_length = word_of_nat entry_length,
                leh_tail = tail,
                leh_sequence_number = sequence_number,
                leh_descriptor_count = descriptor_count,
                leh_log_guid = log_guid,
                leh_flushed_file_offset = flushed_file_offset,
                leh_last_file_offset = last_file_offset \<rparr>,
            le_descriptors = descriptors,
            le_log_offset_in_region = word_of_nat pos \<rparr>))))))"

text \<open>Checksumming an entry that may wrap, and parsing what passes.\<close>

definition parse_entry_body ::
  "ext \<Rightarrow> bytes \<Rightarrow> nat \<Rightarrow> nat \<Rightarrow> guid \<Rightarrow> (log_entry, entry_reject) res" where
  "parse_entry_body x log_bytes pos entry_length log_guid =
     (let tail_len = (pos + entry_length) - length log_bytes in
      res_bind (get_slice log_bytes pos (pos + entry_length - tail_len)) (\<lambda>first.
      res_bind (get_slice log_bytes 0 tail_len) (\<lambda>second.
      res_bind (read_u32_le first 4) (\<lambda>stored_crc.
      res_bind (entry_crc x first) (\<lambda>first_crc.
      let computed = crc32c_append x first_crc second in
      if stored_crc \<noteq> computed then Err RejectCorrupt
      else
        let entry_bytes = (if tail_len = 0 then first else first @ second) in
        parse_entry_fields entry_bytes entry_length pos log_guid)))))"

definition parse_log_entry ::
  "ext \<Rightarrow> bytes \<Rightarrow> nat \<Rightarrow> guid \<Rightarrow> (nat \<times> bool, log_entry, entry_reject) io" where
  "parse_log_entry x log_bytes pos expected_log_guid = (\<lambda>(checksum_budget, budget_exhausted).
     if length log_bytes < pos + LOG_SECTOR_SIZE
     then (Err RejectEmpty, checksum_budget, budget_exhausted)
     else
       io_bind (io_lift (get_slice log_bytes pos (pos + LOG_SECTOR_SIZE))) (\<lambda>head.
       io_bind (io_lift (get_slice head 0 4)) (\<lambda>sig.
       if sig \<noteq> LOG_ENTRY_SIGNATURE then io_lift (Err RejectEmpty)
       else
         io_bind (io_lift (read_u32_le head 8)) (\<lambda>declared.
         let entry_length = unat declared in
         if entry_length < LOG_SECTOR_SIZE \<or> entry_length mod LOG_SECTOR_SIZE \<noteq> 0
            \<or> length log_bytes < entry_length
         then io_lift (Err RejectCorrupt)
         else
           io_bind (io_lift (get_slice head 32 48)) (\<lambda>log_guid.
           if log_guid \<noteq> expected_log_guid then io_lift (Err RejectForeignChain)
           else if checksum_budget < entry_length
           then (\<lambda>_. (Err RejectCorrupt, checksum_budget, True))
           else (\<lambda>_. (parse_entry_body x log_bytes pos entry_length log_guid,
                  checksum_budget - entry_length, budget_exhausted))))))
       (checksum_budget, budget_exhausted))"

section \<open>Encoding\<close>

record pending_write =
  pw_file_offset :: u64
  pw_sector :: bytes

definition encode_one_write ::
  "u64 \<Rightarrow> nat \<Rightarrow> nat \<Rightarrow> pending_write \<Rightarrow> bytes \<Rightarrow> (bytes, 'e) res" where
  "encode_one_write sequence_number data_sectors_base i w buf =
     (let seq_hi = ucast ((drop_bit 32 sequence_number) AND 0xFFFFFFFF) :: u32;
          seq_lo = ucast (sequence_number AND 0xFFFFFFFF) :: u32;
          desc_off = LOG_ENTRY_HEADER_SIZE + i * LOG_DESCRIPTOR_SIZE;
          sec_base = data_sectors_base + i * LOG_SECTOR_SIZE
      in
      res_bind (copy_into buf desc_off (desc_off + 4) DATA_DESC_SIGNATURE) (\<lambda>buf.
      res_bind (get_slice (pw_sector w) (LOG_SECTOR_SIZE - 4) LOG_SECTOR_SIZE) (\<lambda>trailing.
      res_bind (copy_into buf (desc_off + 4) (desc_off + 8) trailing) (\<lambda>buf.
      res_bind (get_slice (pw_sector w) 0 8) (\<lambda>leading.
      res_bind (copy_into buf (desc_off + 8) (desc_off + 16) leading) (\<lambda>buf.
      res_bind (copy_into buf (desc_off + 16) (desc_off + 24) (to_le_bytes (pw_file_offset w)))
        (\<lambda>buf.
      res_bind (copy_into buf (desc_off + 24) (desc_off + 32) (to_le_bytes sequence_number)) (\<lambda>buf.
      res_bind (copy_into buf sec_base (sec_base + LOG_SECTOR_SIZE) (pw_sector w)) (\<lambda>buf.
      res_bind (copy_into buf sec_base (sec_base + 4) DATA_SECTOR_SIGNATURE) (\<lambda>buf.
      res_bind (copy_into buf (sec_base + 4) (sec_base + 8) (to_le_bytes seq_hi)) (\<lambda>buf.
      copy_into buf (sec_base + LOG_SECTOR_SIZE - 4) (sec_base + LOG_SECTOR_SIZE)
        (to_le_bytes seq_lo))))))))))))"

primrec encode_writes ::
  "u64 \<Rightarrow> nat \<Rightarrow> nat \<Rightarrow> pending_write list \<Rightarrow> bytes \<Rightarrow> (bytes, 'e) res" where
  "encode_writes sequence_number data_sectors_base i [] buf = Ok buf"
| "encode_writes sequence_number data_sectors_base i (w # ws) buf =
     res_bind (encode_one_write sequence_number data_sectors_base i w buf) (\<lambda>buf.
     encode_writes sequence_number data_sectors_base (Suc i) ws buf)"

definition encode_entry ::
  "ext \<Rightarrow> u64 \<Rightarrow> u32 \<Rightarrow> guid \<Rightarrow> u64 \<Rightarrow> u64 \<Rightarrow> pending_write list \<Rightarrow> (bytes, 'e) res" where
  "encode_entry x sequence_number tail log_guid flushed_file_offset last_file_offset writes =
     (let descriptor_count = word_of_nat (length writes) :: u32;
          descriptors_bytes = unat descriptor_count * LOG_DESCRIPTOR_SIZE;
          header_and_descriptors = LOG_ENTRY_HEADER_SIZE + descriptors_bytes;
          data_sectors_base = round_up_sector header_and_descriptors;
          entry_length = data_sectors_base + length writes * LOG_SECTOR_SIZE;
          buf = replicate entry_length 0
      in
      res_bind (copy_into buf 0 4 LOG_ENTRY_SIGNATURE) (\<lambda>buf.
      res_bind (copy_into buf 8 12 (to_le_bytes (word_of_nat entry_length :: u32))) (\<lambda>buf.
      res_bind (copy_into buf 12 16 (to_le_bytes tail)) (\<lambda>buf.
      res_bind (copy_into buf 16 24 (to_le_bytes sequence_number)) (\<lambda>buf.
      res_bind (copy_into buf 24 28 (to_le_bytes descriptor_count)) (\<lambda>buf.
      res_bind (copy_into buf 32 48 log_guid) (\<lambda>buf.
      res_bind (copy_into buf 48 56 (to_le_bytes flushed_file_offset)) (\<lambda>buf.
      res_bind (copy_into buf 56 64 (to_le_bytes last_file_offset)) (\<lambda>buf.
      res_bind (encode_writes sequence_number data_sectors_base 0 writes buf) (\<lambda>buf.
      res_bind (entry_crc x buf) (\<lambda>crc.
      copy_into buf 4 8 (to_le_bytes crc))))))))))))"

section \<open>Lemmas: parsing\<close>

lemma round_up_sector_eq:
  assumes "n + 4095 < 2 ^ 64"
  shows "round_up_sector n = (n + 4095) div 4096 * 4096"
proof -
  have m: "word_of_nat (LOG_SECTOR_SIZE - 1) = (mask 12 :: u64)"
    by (simp add: mask_eq_exp_minus_1)
  have "unat (word_of_nat (n + LOG_SECTOR_SIZE - 1) :: u64) = n + 4095"
    using assms by (subst unat_of_nat_u64) simp_all
  then show ?thesis
    by (simp only: round_up_sector_def m unat_and_not_mask) simp
qed

lemma round_up_sector_bounds:
  assumes "n + 4095 < 2 ^ 64"
  shows "n \<le> round_up_sector n" "round_up_sector n < n + 4096" "round_up_sector n mod 4096 = 0"
  using div_mult_mod_eq [of "n + 4095" 4096] by (simp_all add: round_up_sector_eq [OF assms])

text \<open>The bytes of the entry at \<open>pos\<close>, read on from offset 0 past the end of the region.\<close>

definition entry_span :: "bytes \<Rightarrow> nat \<Rightarrow> nat \<Rightarrow> bytes" where
  "entry_span L pos n = take n (drop pos L @ L)"

lemma length_entry_span: "pos \<le> length L \<Longrightarrow> n \<le> length L \<Longrightarrow> length (entry_span L pos n) = n"
  by (simp add: entry_span_def)

lemma entry_span_halves:
  assumes "pos \<le> length L" "n \<le> length L"
  shows "subslice pos (pos + n - (pos + n - length L)) L @ subslice 0 (pos + n - length L) L =
    entry_span L pos n"
proof (cases "pos + n \<le> length L")
  case True
  then show ?thesis by (simp add: entry_span_def subslice_def)
next
  case False
  then show ?thesis using assms by (simp add: entry_span_def subslice_def add.commute)
qed

lemma entry_bytes_span:
  assumes "pos \<le> length L" "n \<le> length L"
  shows "(if pos + n - length L = 0 then subslice pos (pos + n - (pos + n - length L)) L
      else subslice pos (pos + n - (pos + n - length L)) L @ subslice 0 (pos + n - length L) L) =
    entry_span L pos n"
  using entry_span_halves [OF assms] by (cases "pos + n - length L = 0") auto

lemma entry_half_slices:
  assumes "pos \<le> length L" "n \<le> length L"
  shows "get_slice L pos (pos + n - (pos + n - length L)) =
      Ok (subslice pos (pos + n - (pos + n - length L)) L)"
    "get_slice L 0 (pos + n - length L) = Ok (subslice 0 (pos + n - length L) L)"
proof -
  have "pos \<le> pos + n - (pos + n - length L)" "pos + n - (pos + n - length L) \<le> length L"
    "pos + n - length L \<le> length L"
    using assms by linarith+
  then show "get_slice L pos (pos + n - (pos + n - length L)) =
      Ok (subslice pos (pos + n - (pos + n - length L)) L)"
    "get_slice L 0 (pos + n - length L) = Ok (subslice 0 (pos + n - length L) L)"
    by (intro get_slice_Ok; simp)+
qed

lemma entry_crc_Ok: "8 \<le> length b \<Longrightarrow> is_Ok (entry_crc x b)"
  by (simp add: entry_crc_def Let_def)

lemma entry_crc_eq:
  assumes "crc_contract x" "8 \<le> length b"
  shows "entry_crc x b = Ok (crc32c x (overwrite 4 (replicate 4 0) b))"
proof -
  have "take 4 b @ replicate 4 0 @ drop 8 b = overwrite 4 (replicate 4 0) b"
    by (simp add: overwrite_def)
  then show ?thesis
    using assms by (simp add: entry_crc_def Let_def crc_contractD subslice_def)
qed

lemma parse_entry_body_eq:
  assumes "crc_contract x" "pos + LOG_SECTOR_SIZE \<le> length L" "LOG_SECTOR_SIZE \<le> n" "n \<le> length L"
  defines "E \<equiv> entry_span L pos n"
  shows "parse_entry_body x L pos n g =
    (if from_le_bytes (subslice 4 8 E) \<noteq> crc32c x (overwrite 4 (replicate 4 0) E)
     then Err RejectCorrupt else parse_entry_fields E n pos g)"
proof -
  let ?t = "pos + n - length L"
  let ?f = "subslice pos (pos + n - ?t) L" and ?s = "subslice 0 ?t L"
  have len: "LOG_SECTOR_SIZE \<le> length ?f" using assms(2-4) by auto
  have E: "E = ?f @ ?s" unfolding E_def using assms(2,4) by (simp add: entry_span_halves)
  have crc: "crc32c_append x (crc32c x (overwrite 4 (replicate 4 0) ?f)) ?s =
      crc32c x (overwrite 4 (replicate 4 0) E)"
    unfolding E using assms(1) len by (simp add: crc_contractD overwrite_append_left)
  have stored: "subslice 4 8 ?f = subslice 4 8 E"
    unfolding E using len by simp
  have bytes: "(if ?t = 0 then ?f else ?f @ ?s) = E"
    unfolding E_def by (rule entry_bytes_span) (use assms in simp_all)
  have "get_slice L pos (pos + n - ?t) = (Ok ?f :: (bytes, entry_reject) res)"
    "get_slice L 0 ?t = (Ok ?s :: (bytes, entry_reject) res)"
    by (rule entry_half_slices; use assms in simp)+
  moreover have "read_u32_le ?f 4 = (Ok (from_le_bytes (subslice 4 8 ?f)) :: (u32, entry_reject) res)"
    using len by simp
  moreover have "entry_crc x ?f =
      (Ok (crc32c x (overwrite 4 (replicate 4 0) ?f)) :: (u32, entry_reject) res)"
    using len assms(1) by (intro entry_crc_eq) simp_all
  ultimately show ?thesis
    by (simp only: parse_entry_body_def Let_def res_bind.simps crc stored bytes)
qed

lemma parse_descriptors_not_Panic:
  assumes "entry_length = length E" "\<forall>i \<in> set is. 96 + i * 32 \<le> length E"
  shows "parse_descriptors E entry_length s is base \<noteq> Panic"
  using assms(2)
proof (induction "is" arbitrary: base)
  case (Cons i "is")
  have IH: "parse_descriptors E entry_length s is b \<noteq> Panic" for b
    using Cons by simp
  show ?case
    using Cons.prems IH by (auto simp: assms(1) Let_def res_bind_Panic_iff)
qed simp

lemma parse_entry_fields_not_Panic:
  assumes "length E = n" "64 \<le> n"
  shows "parse_entry_fields E n pos g \<noteq> Panic"
proof -
  have "parse_descriptors E n s [0..<c] b \<noteq> Panic" if "64 + c * 32 \<le> n" for s c b
    using assms that by (intro parse_descriptors_not_Panic) auto
  then show ?thesis
    using assms by (auto simp: parse_entry_fields_def Let_def res_bind_Panic_iff)
qed

lemma parse_entry_body_not_Panic:
  assumes "pos + LOG_SECTOR_SIZE \<le> length L" "LOG_SECTOR_SIZE \<le> n" "n \<le> length L"
  shows "parse_entry_body x L pos n g \<noteq> Panic"
proof -
  let ?t = "pos + n - length L"
  let ?f = "subslice pos (pos + n - ?t) L" and ?s = "subslice 0 ?t L"
  have len: "LOG_SECTOR_SIZE \<le> length ?f" using assms by auto
  have bytes: "(if ?t = 0 then ?f else ?f @ ?s) = entry_span L pos n"
    by (rule entry_bytes_span) (use assms in simp_all)
  have fields: "parse_entry_fields (entry_span L pos n) n pos g \<noteq> Panic"
    using assms by (intro parse_entry_fields_not_Panic) (simp_all add: length_entry_span)
  obtain c where "entry_crc x ?f = (Ok c :: (u32, entry_reject) res)"
    using entry_crc_Ok [of ?f x] len by (auto simp: is_Ok_iff)
  moreover have "get_slice L pos (pos + n - ?t) = (Ok ?f :: (bytes, entry_reject) res)"
    "get_slice L 0 ?t = (Ok ?s :: (bytes, entry_reject) res)"
    by (rule entry_half_slices; use assms in simp)+
  moreover have "read_u32_le ?f 4 = (Ok (from_le_bytes (subslice 4 8 ?f)) :: (u32, entry_reject) res)"
    using len by simp
  ultimately show ?thesis
    using fields
    by (simp only: parse_entry_body_def Let_def res_bind.simps bytes res.distinct simp_thms
        split: if_split)
qed

text \<open>The guards of the parser, with its reads resolved.\<close>

lemma parse_log_entry_eq:
  "parse_log_entry x L pos g (budget, exhausted) =
    (if length L < pos + LOG_SECTOR_SIZE then (Err RejectEmpty, budget, exhausted)
     else
       let n = unat (from_le_bytes (subslice (pos + 8) (pos + 12) L) :: u32) in
       if subslice pos (pos + 4) L \<noteq> LOG_ENTRY_SIGNATURE then (Err RejectEmpty, budget, exhausted)
       else if n < LOG_SECTOR_SIZE \<or> n mod LOG_SECTOR_SIZE \<noteq> 0 \<or> length L < n
       then (Err RejectCorrupt, budget, exhausted)
       else if subslice (pos + 32) (pos + 48) L \<noteq> g then (Err RejectForeignChain, budget, exhausted)
       else if budget < n then (Err RejectCorrupt, budget, True)
       else (parse_entry_body x L pos n g, budget - n, exhausted))"
  by (auto simp: parse_log_entry_def Let_def subslice_subslice io_lift_def add.assoc)

lemma parse_log_entry_not_Panic: "fst (parse_log_entry x L pos g st) \<noteq> Panic"
  by (cases st) (auto simp: parse_log_entry_eq Let_def not_less parse_entry_body_not_Panic)

lemma parse_descriptors_length:
  "parse_descriptors E n s is base = Ok ds \<Longrightarrow> length ds = length is"
  by (induction E n s "is" base arbitrary: ds rule: parse_descriptors.induct)
    (auto simp: Let_def res_bind_Ok_iff split: if_splits)

text \<open>A descriptor's payload is one sector, and its sequence number is the entry's.\<close>

fun descriptor_wf :: "u64 \<Rightarrow> descriptor \<Rightarrow> bool" where
  "descriptor_wf s (ZeroDesc z off q) = (q = s)"
| "descriptor_wf s (DataDesc t l off q sec) = (q = s \<and> length sec = LOG_SECTOR_SIZE)"

lemma parse_descriptors_wf:
  "parse_descriptors E n s is base = Ok ds \<Longrightarrow> \<forall>d \<in> set ds. descriptor_wf s d"
proof (induction E n s "is" base arbitrary: ds rule: parse_descriptors.induct)
  case (2 E n s i "is" base)
  then show ?case
    by (auto simp: Let_def res_bind_Ok_iff get_slice_Ok_iff copy_into_def split: if_splits)
qed simp

lemma parse_entry_fields_Ok:
  assumes "parse_entry_fields E n pos g = Ok e" "length E = n" "64 \<le> n"
  shows "leh_entry_length (le_header e) = word_of_nat n \<and> leh_log_guid (le_header e) = g \<and>
    leh_sequence_number (le_header e) = from_le_bytes (subslice 16 24 E) \<and>
    leh_tail (le_header e) = from_le_bytes (subslice 12 16 E) \<and>
    le_log_offset_in_region e = word_of_nat pos \<and>
    length (le_descriptors e) = unat (leh_descriptor_count (le_header e)) \<and>
    (\<forall>d \<in> set (le_descriptors e). descriptor_wf (leh_sequence_number (le_header e)) d)"
  using assms
  by (auto simp: parse_entry_fields_def Let_def res_bind_Ok_iff split: if_splits
      dest: parse_descriptors_length parse_descriptors_wf)

lemma parse_entry_body_Ok:
  assumes "parse_entry_body x L pos n g = Ok e"
    and "pos + LOG_SECTOR_SIZE \<le> length L" "LOG_SECTOR_SIZE \<le> n" "n \<le> length L"
  shows "parse_entry_fields (entry_span L pos n) n pos g = Ok e"
proof -
  have "pos \<le> length L" using assms(2) by simp
  from entry_bytes_span [OF this assms(4)] show ?thesis
    using assms(1)
    by (auto simp: parse_entry_body_def Let_def res_bind_Ok_iff get_slice_Ok_iff split: if_splits)
qed

lemma parse_log_entry_Ok:
  assumes "parse_log_entry x L pos g (budget, ex) = (Ok e, budget', ex')" "length L < 2 ^ 63"
  defines "n \<equiv> unat (leh_entry_length (le_header e))"
  shows "pos + LOG_SECTOR_SIZE \<le> length L \<and> LOG_SECTOR_SIZE \<le> n \<and> n mod LOG_SECTOR_SIZE = 0 \<and>
    n \<le> length L \<and> n \<le> budget \<and> budget' = budget - n \<and> ex' = ex \<and>
    leh_log_guid (le_header e) = g \<and> unat (le_log_offset_in_region e) = pos \<and>
    parse_entry_body x L pos n g = Ok e \<and>
    (\<forall>d \<in> set (le_descriptors e). descriptor_wf (leh_sequence_number (le_header e)) d)"
proof -
  define k where "k = unat (from_le_bytes (subslice (pos + 8) (pos + 12) L) :: u32)"
  have k: "pos + LOG_SECTOR_SIZE \<le> length L" "LOG_SECTOR_SIZE \<le> k" "k mod LOG_SECTOR_SIZE = 0"
    "k \<le> length L" "k \<le> budget" "budget' = budget - k" "ex' = ex"
    and body: "parse_entry_body x L pos k g = Ok e"
    using assms(1) by (auto simp: parse_log_entry_eq Let_def k_def not_less split: if_splits)
  have len: "length (entry_span L pos k) = k"
    using k by (simp add: length_entry_span)
  have fields: "leh_entry_length (le_header e) = word_of_nat k" "leh_log_guid (le_header e) = g"
    "le_log_offset_in_region e = word_of_nat pos"
    "\<forall>d \<in> set (le_descriptors e). descriptor_wf (leh_sequence_number (le_header e)) d"
    using parse_entry_fields_Ok [OF parse_entry_body_Ok [OF body k(1,2,4)] len] k by auto
  have nk: "n = k"
    unfolding n_def fields(1) by (simp add: k_def)
  have pos: "unat (le_log_offset_in_region e) = pos"
    using k(1) assms(2) by (simp add: fields(3) unat_of_nat)
  show ?thesis
    unfolding nk using k fields(2,4) body pos by simp
qed

end
