(* ===== verification/Log_Roundtrip.thy ===== *)
theory Log_Roundtrip
  imports Log_Entry
begin

unbundle bit_operations_syntax

text \<open>
  The encoder of \<open>src/log.rs\<close> against its parser: an encoded entry, wherever it lies in the
  circular region, parses back to the header fields and the sectors it was made from.
\<close>

section \<open>One descriptor and its sector\<close>

definition desc_bytes :: "u64 \<Rightarrow> pending_write \<Rightarrow> bytes" where
  "desc_bytes s w = DATA_DESC_SIGNATURE @ subslice 4092 4096 (pw_sector w) @
     subslice 0 8 (pw_sector w) @ to_le_bytes (pw_file_offset w) @ to_le_bytes s"

definition stamped_sector :: "u64 \<Rightarrow> pending_write \<Rightarrow> bytes" where
  "stamped_sector s w =
     overwrite 4092 (to_le_bytes (ucast (s AND 0xFFFFFFFF) :: u32))
      (overwrite 4 (to_le_bytes (ucast (drop_bit 32 s AND 0xFFFFFFFF) :: u32))
       (overwrite 0 DATA_SECTOR_SIGNATURE (pw_sector w)))"

definition decoded_write :: "u64 \<Rightarrow> pending_write \<Rightarrow> descriptor" where
  "decoded_write s w =
     DataDesc (from_le_bytes (subslice 4092 4096 (pw_sector w)))
       (from_le_bytes (subslice 0 8 (pw_sector w))) (pw_file_offset w) s (pw_sector w)"

lemma length_desc_bytes [simp]: "length (pw_sector w) = 4096 \<Longrightarrow> length (desc_bytes s w) = 32"
  by (simp add: desc_bytes_def)

lemma length_stamped_sector [simp]:
  "length (pw_sector w) = 4096 \<Longrightarrow> length (stamped_sector s w) = 4096"
  by (simp add: stamped_sector_def)

lemma encode_one_write_eq:
  assumes "length (pw_sector w) = 4096" "96 + i * 32 \<le> base + i * 4096"
    "base + i * 4096 + 4096 \<le> length buf"
  shows "encode_one_write s base i w buf =
    Ok (overwrite (base + i * 4096) (stamped_sector s w)
         (overwrite (64 + i * 32) (desc_bytes s w) buf))"
proof -
  let ?d = "64 + i * 32" and ?b = "base + i * 4096"
  let ?buf1 = "overwrite (?d + 24) (to_le_bytes s) (overwrite (?d + 16)
    (to_le_bytes (pw_file_offset w)) (overwrite (?d + 8) (subslice 0 8 (pw_sector w))
      (overwrite (?d + 4) (subslice 4092 4096 (pw_sector w)) (overwrite ?d DATA_DESC_SIGNATURE buf))))"
  have desc: "?buf1 = overwrite ?d (desc_bytes s w) buf"
    using assms by (simp add: desc_bytes_def overwrite_overwrite_adjacent)
  have "encode_one_write s base i w buf =
      Ok (overwrite (?b + 4092) (to_le_bytes (ucast (s AND 0xFFFFFFFF) :: u32))
        (overwrite (?b + 4) (to_le_bytes (ucast (drop_bit 32 s AND 0xFFFFFFFF) :: u32))
          (overwrite ?b DATA_SECTOR_SIGNATURE (overwrite ?b (pw_sector w) ?buf1))))"
    using assms by (simp add: encode_one_write_def Let_def ac_simps)
  then show ?thesis
    using assms unfolding desc
    by (simp add: stamped_sector_def overwrite_overwrite_inside)
qed

lemma assemble_sequence:
  "push_bit 32 (ucast (ucast (drop_bit 32 s AND 0xFFFFFFFF) :: u32)) OR
   ucast (ucast (s AND 0xFFFFFFFF) :: u32) = (s :: u64)"
proof -
  have m: "(0xFFFFFFFF :: u64) = mask 32" by (simp add: mask_eq_exp_minus_1)
  show ?thesis
    unfolding m by (rule bit_eqI) (auto simp: bit_simps)
qed

lemma stamped_sector_fields:
  assumes "length (pw_sector w) = 4096"
  shows "subslice 0 4 (stamped_sector s w) = DATA_SECTOR_SIGNATURE"
    "subslice 4 8 (stamped_sector s w) = to_le_bytes (ucast (drop_bit 32 s AND 0xFFFFFFFF) :: u32)"
    "subslice 4092 4096 (stamped_sector s w) = to_le_bytes (ucast (s AND 0xFFFFFFFF) :: u32)"
  using assms by (simp_all add: stamped_sector_def slice_simps)

lemma stamped_sector_restore:
  assumes "length (pw_sector w) = 4096"
  shows "overwrite 4092 (subslice 4092 4096 (pw_sector w))
    (overwrite 0 (subslice 0 8 (pw_sector w)) (stamped_sector s w)) = pw_sector w"
  using assms
  by (intro nth_equalityI) (auto simp: stamped_sector_def nth_overwrite nth_subslice)

lemma desc_bytes_fields:
  assumes "length (pw_sector w) = 4096"
  shows "subslice 0 4 (desc_bytes s w) = DATA_DESC_SIGNATURE"
    "subslice 4 8 (desc_bytes s w) = subslice 4092 4096 (pw_sector w)"
    "subslice 8 16 (desc_bytes s w) = subslice 0 8 (pw_sector w)"
    "subslice 16 24 (desc_bytes s w) = to_le_bytes (pw_file_offset w)"
    "subslice 24 32 (desc_bytes s w) = to_le_bytes s"
  using assms by (simp_all add: desc_bytes_def subslice_def)

section \<open>The descriptor table\<close>

text \<open>A buffer that holds the descriptors and stamped sectors of \<open>ws\<close> from index \<open>i\<close> on.\<close>

definition holds_writes :: "u64 \<Rightarrow> nat \<Rightarrow> nat \<Rightarrow> pending_write list \<Rightarrow> bytes \<Rightarrow> bool" where
  "holds_writes s base i ws E \<longleftrightarrow>
     (\<forall>j < length ws.
        subslice (64 + (i + j) * 32) (64 + (i + j) * 32 + 32) E = desc_bytes s (ws ! j) \<and>
        subslice (base + (i + j) * 4096) (base + (i + j) * 4096 + 4096) E = stamped_sector s (ws ! j))"

lemma holds_writes_Cons:
  "holds_writes s base i (w # ws) E \<longleftrightarrow>
     subslice (64 + i * 32) (64 + i * 32 + 32) E = desc_bytes s w \<and>
     subslice (base + i * 4096) (base + i * 4096 + 4096) E = stamped_sector s w \<and>
     holds_writes s base (Suc i) ws E"
  by (auto simp only: holds_writes_def list.size All_less_Suc2 nth_Cons_0 nth_Cons_Suc add_Suc
      add_Suc_right add_0_right)

lemma encode_writes_Ok:
  assumes "\<forall>w \<in> set ws. length (pw_sector w) = 4096"
    and "64 + (i + length ws) * 32 \<le> base" "base + (i + length ws) * 4096 \<le> length buf"
  shows "\<exists>buf'. encode_writes s base i ws buf = (Ok buf' :: (bytes, 'e) res) \<and> length buf' = length buf \<and>
    holds_writes s base i ws buf' \<and>
    (\<forall>a b. b \<le> 64 + i * 32 \<or> 64 + (i + length ws) * 32 \<le> a \<and> b \<le> base + i * 4096 \<longrightarrow>
       subslice a b buf' = subslice a b buf)"
  using assms
proof (induction ws arbitrary: i buf)
  case (Cons w ws)
  let ?buf = "overwrite (base + i * 4096) (stamped_sector s w) (overwrite (64 + i * 32) (desc_bytes s w) buf)"
  have w: "length (pw_sector w) = 4096" using Cons.prems by simp
  have one: "encode_one_write s base i w buf = (Ok ?buf :: (bytes, 'e) res)"
    using Cons.prems by (intro encode_one_write_eq) auto
  have len: "length ?buf = length buf"
    using Cons.prems w by simp
  have "\<exists>buf'. encode_writes s base (Suc i) ws ?buf = (Ok buf' :: (bytes, 'e) res) \<and> length buf' = length ?buf \<and>
    holds_writes s base (Suc i) ws buf' \<and>
    (\<forall>a b. b \<le> 64 + Suc i * 32 \<or> 64 + (Suc i + length ws) * 32 \<le> a \<and> b \<le> base + Suc i * 4096 \<longrightarrow>
       subslice a b buf' = subslice a b ?buf)"
    by (rule Cons.IH) (use Cons.prems len in simp_all)
  then obtain buf' where buf': "encode_writes s base (Suc i) ws ?buf = (Ok buf' :: (bytes, 'e) res)"
    "length buf' = length ?buf"
    "holds_writes s base (Suc i) ws buf'"
    and frame: "\<And>a b. b \<le> 64 + Suc i * 32 \<or> 64 + (Suc i + length ws) * 32 \<le> a \<and> b \<le> base + Suc i * 4096
       \<Longrightarrow> subslice a b buf' = subslice a b ?buf"
    by blast
  have d: "subslice (64 + i * 32) (64 + i * 32 + 32) buf' = desc_bytes s w"
    using Cons.prems w by (subst frame) (simp_all add: slice_simps)
  have sec: "subslice (base + i * 4096) (base + i * 4096 + 4096) buf' = stamped_sector s w"
    using Cons.prems w by (subst frame) (simp_all add: slice_simps)
  have "subslice a b buf' = subslice a b buf"
    if "b \<le> 64 + i * 32 \<or> 64 + (i + length (w # ws)) * 32 \<le> a \<and> b \<le> base + i * 4096" for a b
    using that Cons.prems w by (subst frame) (auto simp: slice_simps)
  then show ?case
    using one buf' d sec len by (auto simp: holds_writes_Cons)
qed (simp add: holds_writes_def)

lemma parse_descriptors_holds:
  assumes "\<forall>w \<in> set ws. length (pw_sector w) = 4096"
    and "64 + (i + length ws) * 32 \<le> base" "base + (i + length ws) * 4096 \<le> length E"
    and "holds_writes s base i ws E"
  shows "parse_descriptors E (length E) s [i..<i + length ws] (base + i * 4096) =
    Ok (map (decoded_write s) ws)"
  using assms
proof (induction ws arbitrary: i)
  case (Cons w ws)
  let ?d = "64 + i * 32" and ?b = "base + i * 4096"
  have w: "length (pw_sector w) = 4096" using Cons.prems by simp
  have d: "subslice ?d (?d + 32) E = desc_bytes s w"
    and sec: "subslice ?b (?b + 4096) E = stamped_sector s w"
    and rest: "holds_writes s base (Suc i) ws E"
    using Cons.prems by (simp_all add: holds_writes_Cons)
  have sub: "subslice (?d + a) (?d + b) E = subslice a b (desc_bytes s w)" if "b \<le> 32" for a b
    using that by (simp flip: d add: subslice_subslice)
  note fields = sub [of 4 0, simplified] sub [of 8 4, simplified] sub [of 16 8, simplified]
    sub [of 24 16, simplified] sub [of 32 24, simplified]
  define js where "js = [Suc i..<Suc i + length ws]"
  have "parse_descriptors E (length E) s js (base + Suc i * 4096) = Ok (map (decoded_write s) ws)"
    unfolding js_def using Cons.prems rest by (intro Cons.IH) auto
  moreover have "base + Suc i * 4096 = ?b + 4096" by simp
  ultimately have IH: "parse_descriptors E (length E) s js (?b + 4096) = Ok (map (decoded_write s) ws)"
    by (simp only:)
  have up: "[i..<i + length (w # ws)] = i # js"
    unfolding js_def by (simp add: upt_conv_Cons del: upt_Suc)
  show ?case
    unfolding up using Cons.prems w IH
    by (simp add: Let_def sec stamped_sector_fields desc_bytes_fields assemble_sequence
        stamped_sector_restore decoded_write_def fields)
qed simp

section \<open>The whole entry\<close>

lemma subslice_entry_span:
  "b \<le> n \<Longrightarrow> pos + b \<le> length L \<Longrightarrow>
   subslice a b (entry_span L pos n) = subslice (pos + a) (pos + b) L"
  by (cases "a \<le> b") (auto simp: entry_span_def subslice_def drop_take add.commute min_def)

text \<open>The fixed part of the header, in the order the encoder writes it.\<close>

definition entry_prefix :: "nat \<Rightarrow> u32 \<Rightarrow> u64 \<Rightarrow> u32 \<Rightarrow> guid \<Rightarrow> u64 \<Rightarrow> u64 \<Rightarrow> bytes" where
  "entry_prefix len tail s count g flushed lastoff =
     overwrite 56 (to_le_bytes lastoff) (overwrite 48 (to_le_bytes flushed) (overwrite 32 g
      (overwrite 24 (to_le_bytes count) (overwrite 16 (to_le_bytes s) (overwrite 12 (to_le_bytes tail)
       (overwrite 8 (to_le_bytes (word_of_nat len :: u32)) (overwrite 0 LOG_ENTRY_SIGNATURE
        (replicate len 0))))))))"

definition entry_header_bytes :: "nat \<Rightarrow> u32 \<Rightarrow> u64 \<Rightarrow> u32 \<Rightarrow> guid \<Rightarrow> u64 \<Rightarrow> u64 \<Rightarrow> bytes \<Rightarrow> bool" where
  "entry_header_bytes len tail s count g flushed lastoff E \<longleftrightarrow>
     subslice 0 4 E = LOG_ENTRY_SIGNATURE \<and> subslice 8 12 E = to_le_bytes (word_of_nat len :: u32) \<and>
     subslice 12 16 E = to_le_bytes tail \<and> subslice 16 24 E = to_le_bytes s \<and>
     subslice 24 28 E = to_le_bytes count \<and> subslice 32 48 E = g \<and>
     subslice 48 56 E = to_le_bytes flushed \<and> subslice 56 64 E = to_le_bytes lastoff"

lemma entry_prefix_header:
  assumes "64 \<le> len" "length g = 16"
  shows "length (entry_prefix len tail s count g flushed lastoff) = len"
    "entry_header_bytes len tail s count g flushed lastoff (entry_prefix len tail s count g flushed lastoff)"
  using assms by (simp_all add: entry_prefix_def entry_header_bytes_def slice_simps)

lemma entry_header_bytes_cong:
  assumes "entry_header_bytes len tail s count g flushed lastoff E"
    "subslice 0 4 E' = subslice 0 4 E" "subslice 8 64 E' = subslice 8 64 E"
  shows "entry_header_bytes len tail s count g flushed lastoff E'"
proof -
  have "subslice a b E' = subslice a b E" if "8 \<le> a" "b \<le> 64" for a b
  proof -
    have "subslice (a - 8) (b - 8) (subslice 8 64 E') = subslice (a - 8) (b - 8) (subslice 8 64 E)"
      by (simp only: assms(3))
    then show ?thesis
      using that by (cases "a \<le> b") (simp_all add: subslice_subslice)
  qed
  then show ?thesis
    using assms(1,2) by (simp add: entry_header_bytes_def)
qed

lemma parse_entry_fields_of_bytes:
  assumes "entry_header_bytes n tail s (word_of_nat (length ws)) g flushed lastoff E"
    and "\<forall>w \<in> set ws. length (pw_sector w) = 4096" "64 + 4095 + length ws * 4128 < 2 ^ 32"
    and "base = round_up_sector (64 + length ws * 32)" "n = base + length ws * 4096" "length E = n"
    and "holds_writes s base 0 ws E"
  shows "parse_entry_fields E n pos g =
    Ok \<lparr> le_header = \<lparr> leh_entry_length = word_of_nat n, leh_tail = tail, leh_sequence_number = s,
           leh_descriptor_count = word_of_nat (length ws), leh_log_guid = g,
           leh_flushed_file_offset = flushed, leh_last_file_offset = lastoff \<rparr>,
         le_descriptors = map (decoded_write s) ws,
         le_log_offset_in_region = word_of_nat pos \<rparr>"
proof -
  have count: "unat (word_of_nat (length ws) :: u32) = length ws"
    using assms(3) by (simp add: unat_of_nat)
  have base: "64 + length ws * 32 \<le> base"
    unfolding assms(4) using assms(3) by (intro round_up_sector_bounds) simp
  have len: "64 \<le> length E" using base assms(5,6) by simp
  have "parse_descriptors E (length E) s [0..<0 + length ws] (base + 0 * 4096) =
      Ok (map (decoded_write s) ws)"
    using assms base by (intro parse_descriptors_holds) simp_all
  then have "parse_descriptors E n s [0..<length ws] base = Ok (map (decoded_write s) ws)"
    using assms(6) by simp
  then show ?thesis
    using assms(1,3,6) base len count assms(4) [symmetric] assms(5)
    by (simp add: parse_entry_fields_def entry_header_bytes_def Let_def)
qed

lemma encode_entry_Ok:
  assumes "crc_contract x" "length g = 16"
    and "\<forall>w \<in> set ws. length (pw_sector w) = 4096" "64 + 4095 + length ws * 4128 < 2 ^ 32"
  defines "base \<equiv> round_up_sector (64 + length ws * 32)"
  defines "n \<equiv> base + length ws * 4096"
  shows "\<exists>E. encode_entry x s tail g flushed lastoff ws = (Ok E :: (bytes, 'e) res) \<and> length E = n \<and>
    holds_writes s base 0 ws E \<and>
    entry_header_bytes n tail s (word_of_nat (length ws)) g flushed lastoff E \<and>
    from_le_bytes (subslice 4 8 E) = crc32c x (overwrite 4 (replicate 4 0) E)"
proof -
  let ?P = "entry_prefix n tail s (word_of_nat (length ws)) g flushed lastoff"
  have count: "unat (word_of_nat (length ws) :: u32) = length ws"
    using assms(4) by (simp add: unat_of_nat)
  have base: "64 + length ws * 32 \<le> base" "4096 \<le> base"
    using round_up_sector_bounds [of "64 + length ws * 32"] assms(4) unfolding base_def by auto
  have n: "64 \<le> n" using base by (simp add: n_def)
  note P = entry_prefix_header [OF n assms(2), of tail s "word_of_nat (length ws)" flushed lastoff]
  have "\<exists>B. encode_writes s base 0 ws ?P = (Ok B :: (bytes, 'e) res) \<and> length B = length ?P \<and>
    holds_writes s base 0 ws B \<and>
    (\<forall>a b. b \<le> 64 + 0 * 32 \<or> 64 + (0 + length ws) * 32 \<le> a \<and> b \<le> base + 0 * 4096 \<longrightarrow>
       subslice a b B = subslice a b ?P)"
    using assms(3) base P(1) by (intro encode_writes_Ok) (simp_all add: n_def)
  then obtain B where B: "encode_writes s base 0 ws ?P = (Ok B :: (bytes, 'e) res)" "length B = n"
    "holds_writes s base 0 ws B"
    and frame: "\<And>a b. b \<le> 64 \<Longrightarrow> subslice a b B = subslice a b ?P"
    using P(1) by auto
  define c where "c = crc32c x (overwrite 4 (replicate 4 0) B)"
  define E where "E = overwrite 4 (to_le_bytes c) B"
  have lenE: "length E = n" using B(2) n by (simp add: E_def)
  have "holds_writes s base 0 ws E"
    using B(2,3) n base by (simp add: holds_writes_def E_def slice_simps)
  moreover have "entry_header_bytes n tail s (word_of_nat (length ws)) g flushed lastoff E"
    by (rule entry_header_bytes_cong [OF P(2)]) (use B(2) n frame in \<open>simp_all add: E_def slice_simps\<close>)
  moreover have "from_le_bytes (subslice 4 8 E) = crc32c x (overwrite 4 (replicate 4 0) E)"
    using B(2) n by (simp add: E_def slice_simps c_def)
  moreover have "encode_entry x s tail g flushed lastoff ws = (Ok E :: (bytes, 'e) res)"
  proof -
    have crc: "entry_crc x B = (Ok c :: (u32, 'e) res)"
      unfolding c_def using assms(1) B(2) n by (intro entry_crc_eq) simp_all
    show ?thesis
      using n assms(2) B(1,2) crc
      by (simp add: encode_entry_def Let_def count entry_prefix_def E_def
          del: of_nat_add of_nat_mult flip: base_def n_def)
  qed
  ultimately show ?thesis
    using lenE by blast
qed

text \<open>
  Property: for any region and position at which the encoded bytes lie (wrapping past the end
  included), the parser returns the entry.
\<close>

lemma parse_encoded_entry:
  assumes "crc_contract x" "length g = 16"
    and "\<forall>w \<in> set ws. length (pw_sector w) = 4096" "64 + 4095 + length ws * 4128 < 2 ^ 32"
    and "encode_entry x s tail g flushed lastoff ws = (Ok E :: (bytes, 'e) res)"
    and "pos + LOG_SECTOR_SIZE \<le> length L" "length E \<le> length L" "entry_span L pos (length E) = E"
    and "length E \<le> budget"
  shows "parse_log_entry x L pos g (budget, ex) =
    (Ok \<lparr> le_header = \<lparr> leh_entry_length = word_of_nat (length E), leh_tail = tail,
            leh_sequence_number = s, leh_descriptor_count = word_of_nat (length ws),
            leh_log_guid = g, leh_flushed_file_offset = flushed, leh_last_file_offset = lastoff \<rparr>,
          le_descriptors = map (decoded_write s) ws,
          le_log_offset_in_region = word_of_nat pos \<rparr>,
     budget - length E, ex)"
proof -
  define base where "base = round_up_sector (64 + length ws * 32)"
  define n where "n = base + length ws * 4096"
  have E: "length E = n" "holds_writes s base 0 ws E"
    "entry_header_bytes n tail s (word_of_nat (length ws)) g flushed lastoff E"
    "from_le_bytes (subslice 4 8 E) = crc32c x (overwrite 4 (replicate 4 0) E)"
    using encode_entry_Ok [OF assms(1-4), of s tail flushed lastoff, where ?'e = 'e] assms(5)
    unfolding base_def n_def by auto
  have b: "64 + length ws * 32 \<le> base" "base < 64 + length ws * 32 + 4096" "base mod 4096 = 0"
    using round_up_sector_bounds [of "64 + length ws * 32"] assms(4) unfolding base_def by auto
  have base: "4096 \<le> base"
  proof (rule ccontr)
    assume "\<not> 4096 \<le> base"
    then have "base mod 4096 = base" by (intro mod_less) simp
    then show False using b by simp
  qed
  have small: "n < 2 ^ 32" using b(2) assms(4) by (simp add: n_def)
  have n: "4096 \<le> n" "n mod 4096 = 0" using b base by (simp_all add: n_def mod_add_eq)
  have span: "entry_span L pos n = E" using assms(8) E(1) by simp
  have pre: "subslice (pos + a) (pos + b) L = subslice a b E" if "b \<le> 4096" for a b
    using that n assms(6) subslice_entry_span [of b n pos L a] by (simp add: span)
  have decl: "unat (from_le_bytes (subslice (pos + 8) (pos + 12) L) :: u32) = n"
    using pre [of 12 8] E(3) small by (simp add: entry_header_bytes_def unat_of_nat)
  have sig: "subslice pos (pos + 4) L = LOG_ENTRY_SIGNATURE"
    using pre [of 4 0] E(3) by (simp add: entry_header_bytes_def)
  have guid: "subslice (pos + 32) (pos + 48) L = g"
    using pre [of 48 32] E(3) by (simp add: entry_header_bytes_def)
  have body: "parse_entry_body x L pos n g = parse_entry_fields E n pos g"
    using assms(1,6,7) n E(1,4) by (subst parse_entry_body_eq) (simp_all add: span)
  have "parse_entry_fields E n pos g = Ok \<lparr> le_header = \<lparr> leh_entry_length = word_of_nat n,
      leh_tail = tail, leh_sequence_number = s, leh_descriptor_count = word_of_nat (length ws),
      leh_log_guid = g, leh_flushed_file_offset = flushed, leh_last_file_offset = lastoff \<rparr>,
      le_descriptors = map (decoded_write s) ws, le_log_offset_in_region = word_of_nat pos \<rparr>"
    using E assms(3,4) by (intro parse_entry_fields_of_bytes [where base = base])
      (simp_all add: base_def n_def)
  then show ?thesis
    using assms(6,7,9) n E(1) sig guid decl body by (simp add: parse_log_entry_eq Let_def)
qed

end
