(* ===== verification/Log_Chain.thy ===== *)
theory Log_Chain
  imports Log_Roundtrip
begin

text \<open>
  \<open>src/log.rs\<close>, finding the active chain: the scan of the region for entries under a
  checksum budget, and the selection of the chain the newest entry belongs to. The lemmas
  say what discovery finds and that it misses nothing while its budget lasts, and what the
  selected chain is: entries that lie end to end round the region and count up by one,
  from the entry the head's \<open>tail\<close> names, as far as they go.
\<close>

section \<open>Discovery\<close>

abbreviation DISCOVERY_CHECKSUM_PASSES :: nat where "DISCOVERY_CHECKSUM_PASSES \<equiv> 4"

abbreviation le_seq :: "log_entry \<Rightarrow> u64" where "le_seq e \<equiv> leh_sequence_number (le_header e)"
abbreviation le_len :: "log_entry \<Rightarrow> nat" where "le_len e \<equiv> unat (leh_entry_length (le_header e))"
abbreviation le_pos :: "log_entry \<Rightarrow> nat" where "le_pos e \<equiv> unat (le_log_offset_in_region e)"

definition entry_starting_at :: "log_entry list \<Rightarrow> nat \<Rightarrow> log_entry option" where
  "entry_starting_at found offset =
     List.find (\<lambda>e. le_log_offset_in_region e = word_of_nat offset) found"

function discover_from ::
  "ext \<Rightarrow> bytes \<Rightarrow> guid \<Rightarrow> nat \<Rightarrow> nat \<times> bool \<Rightarrow> (log_entry list, error) res \<times> nat \<times> bool" where
  "discover_from x log_bytes expected_log_guid pos st =
     (if length log_bytes < pos + LOG_SECTOR_SIZE then (Ok [], st)
      else
        case parse_log_entry x log_bytes pos expected_log_guid st of
          (Ok entry, st) \<Rightarrow>
            (case discover_from x log_bytes expected_log_guid (pos + le_len entry) st of
               (Ok found, st) \<Rightarrow> (Ok (entry # found), st)
             | (Err e, st) \<Rightarrow> (Err e, st)
             | (Panic, st) \<Rightarrow> (Panic, st))
        | (Err _, st) \<Rightarrow> discover_from x log_bytes expected_log_guid (pos + LOG_SECTOR_SIZE) st
        | (Panic, st) \<Rightarrow> (Panic, st))"
  by pat_completeness auto

lemma parse_log_entry_advances:
  assumes "parse_log_entry x L pos g st = (Ok e, st')"
  shows "LOG_SECTOR_SIZE \<le> le_len e \<and> pos + LOG_SECTOR_SIZE \<le> length L"
proof -
  obtain budget ex where st: "st = (budget, ex)" by (cases st)
  define k where "k = unat (from_le_bytes (subslice (pos + 8) (pos + 12) L) :: u32)"
  have k: "pos + LOG_SECTOR_SIZE \<le> length L" "LOG_SECTOR_SIZE \<le> k" "k \<le> length L"
    and body: "parse_entry_body x L pos k g = Ok e"
    using assms by (auto simp: st parse_log_entry_eq Let_def k_def not_less split: if_splits)
  have "leh_entry_length (le_header e) = word_of_nat k"
    using parse_entry_fields_Ok [OF parse_entry_body_Ok [OF body k]] k
    by (simp add: length_entry_span)
  then show ?thesis using k by (simp add: k_def)
qed

termination discover_from
  by (relation "measure (\<lambda>(x, L, g, pos, st). length L - pos)")
    (auto simp del: parse_log_entry_def dest!: parse_log_entry_advances [OF sym])

declare discover_from.simps [simp del]

definition discover :: "ext \<Rightarrow> bytes \<Rightarrow> guid \<Rightarrow> (log_entry list \<times> nat \<times> bool, error) res" where
  "discover x log_bytes expected_log_guid =
     (let allowance = min (length log_bytes * DISCOVERY_CHECKSUM_PASSES) (2 ^ 64 - 1) in
      case discover_from x log_bytes expected_log_guid 0 (allowance, False) of
        (Ok found, budget, exhausted) \<Rightarrow> Ok (found, allowance - budget, exhausted)
      | (Err e, _) \<Rightarrow> Err e
      | (Panic, _) \<Rightarrow> Panic)"

section \<open>Selection\<close>

definition chain_head :: "log_entry \<Rightarrow> log_entry list \<Rightarrow> log_entry" where
  "chain_head first rest =
     foldl (\<lambda>head entry. if le_seq head < le_seq entry then entry else head) first rest"

function walk_chain :: "nat \<Rightarrow> log_entry list \<Rightarrow> nat \<Rightarrow> u64 option \<Rightarrow> log_entry list" where
  "walk_chain region_len found pos expected_sequence =
     (case entry_starting_at found pos of
        None \<Rightarrow> []
      | Some entry \<Rightarrow>
          if expected_sequence \<noteq> None \<and> expected_sequence \<noteq> Some (le_seq entry) then []
          else
            let pos = pos + le_len entry;
                pos = (if region_len \<le> pos then pos - region_len else pos)
            in case checked_add (le_seq entry) 1 of
                 Some n \<Rightarrow> entry # walk_chain region_len found pos (Some n)
               | None \<Rightarrow> [entry])"
  by pat_completeness auto

termination walk_chain
  by (relation "measure (\<lambda>(n, found, pos, expected).
      case expected of None \<Rightarrow> 2 ^ 64 + 1 | Some s \<Rightarrow> 2 ^ 64 - unat s)")
    (auto simp: checked_add_Some_iff unat_add_no_overflow split: option.splits)

declare walk_chain.simps [simp del]

definition select_chain :: "bytes \<Rightarrow> log_entry list \<Rightarrow> (log_entry list, error) res" where
  "select_chain log_bytes found =
     (case found of
        [] \<Rightarrow> Ok found
      | e # es \<Rightarrow>
          let head = chain_head e es in
          (case entry_starting_at found (unat (leh_tail (le_header head))) of
             None \<Rightarrow> Err (LogUnassembled (''the head entry's tail names no entry in the log region, ''
               @ ''so where its sequence began is unknowable''))
           | Some first \<Rightarrow> Ok (walk_chain (length log_bytes) found (le_pos first) None)))"

definition collect_replay_chain :: "ext \<Rightarrow> bytes \<Rightarrow> guid \<Rightarrow> (log_entry list, error) res" where
  "collect_replay_chain x log_bytes expected_log_guid =
     (if list_all (\<lambda>b. b = 0) expected_log_guid then Ok []
      else
        res_bind (discover x log_bytes expected_log_guid) (\<lambda>(found, _, exhausted).
        if exhausted
        then Err (Corrupt (''the log region declares more entry bytes than discovery will checksum, ''
          @ ''so entries in it may not have been examined''))
        else select_chain log_bytes found))"

section \<open>Lemmas: discovery\<close>

text \<open>Discovery always returns, and what holds of a run is shown by following the scan.\<close>

lemma discover_from_Ok: "\<exists>es st'. discover_from x L g pos st = (Ok es, st')"
proof (induction "length L - pos" arbitrary: pos st rule: less_induct)
  case less
  obtain r st1 where p: "parse_log_entry x L pos g st = (r, st1)" by (metis surj_pair)
  have IH: "\<exists>es st'. discover_from x L g (pos + n) st1 = (Ok es, st')"
    if "0 < n" "pos < length L" for n
    by (rule less) (use that in linarith)
  show ?case
  proof (cases "length L < pos + LOG_SECTOR_SIZE")
    case False
    then show ?thesis
      using p parse_log_entry_not_Panic [of x L pos g st] parse_log_entry_advances [of x L pos g st]
        IH [of LOG_SECTOR_SIZE] IH [of "case r of Ok e \<Rightarrow> le_len e | _ \<Rightarrow> 1"]
      by (subst discover_from.simps) (cases r; fastforce)
  qed (subst discover_from.simps, simp)
qed

lemma discover_from_induct [consumes 1, case_names End Found Skip]:
  assumes "discover_from x L g pos st = (Ok found, st')"
    and end_case: "\<And>pos st. length L < pos + LOG_SECTOR_SIZE \<Longrightarrow> P pos st [] st"
    and found_case: "\<And>pos st e st1 es st2. parse_log_entry x L pos g st = (Ok e, st1) \<Longrightarrow>
      discover_from x L g (pos + le_len e) st1 = (Ok es, st2) \<Longrightarrow>
      P (pos + le_len e) st1 es st2 \<Longrightarrow> P pos st (e # es) st2"
    and skip_case: "\<And>pos st j st1 es st2. parse_log_entry x L pos g st = (Err j, st1) \<Longrightarrow>
      discover_from x L g (pos + LOG_SECTOR_SIZE) st1 = (Ok es, st2) \<Longrightarrow>
      P (pos + LOG_SECTOR_SIZE) st1 es st2 \<Longrightarrow> P pos st es st2"
  shows "P pos st found st'"
  using assms(1)
proof (induction "length L - pos" arbitrary: pos st found rule: less_induct)
  case less
  show ?case
  proof (cases "length L < pos + LOG_SECTOR_SIZE")
    case True
    then show ?thesis using less.prems end_case by (subst (asm) discover_from.simps) simp
  next
    case False
    obtain r st1 where p: "parse_log_entry x L pos g st = (r, st1)" by (metis surj_pair)
    show ?thesis
    proof (cases r)
      case (Ok e)
      have "length L - (pos + le_len e) < length L - pos"
        using parse_log_entry_advances [of x L pos g st] p Ok by fastforce
      moreover obtain es where "found = e # es"
        "discover_from x L g (pos + le_len e) st1 = (Ok es, st')"
        using less.prems False p Ok
        by (subst (asm) discover_from.simps) (auto split: prod.splits res.splits)
      ultimately show ?thesis using less.hyps found_case p Ok by blast
    next
      case (Err j)
      have "length L - (pos + LOG_SECTOR_SIZE) < length L - pos" using False by simp
      moreover have "discover_from x L g (pos + LOG_SECTOR_SIZE) st1 = (Ok found, st')"
        using less.prems False p Err by (subst (asm) discover_from.simps) simp
      ultimately show ?thesis using less.hyps skip_case p Err by blast
    next
      case Panic
      then show ?thesis using p parse_log_entry_not_Panic [of x L pos g st] by simp
    qed
  qed
qed

text \<open>The entries found lie one after another, each as the region holds it.\<close>

definition entry_of_region :: "ext \<Rightarrow> bytes \<Rightarrow> guid \<Rightarrow> log_entry \<Rightarrow> bool" where
  "entry_of_region x L g e \<longleftrightarrow>
     parse_entry_body x L (le_pos e) (le_len e) g = Ok e \<and>
     le_pos e + LOG_SECTOR_SIZE \<le> length L \<and> LOG_SECTOR_SIZE \<le> le_len e \<and>
     le_len e mod LOG_SECTOR_SIZE = 0 \<and> le_len e \<le> length L \<and>
     leh_log_guid (le_header e) = g \<and>
     (\<forall>d \<in> set (le_descriptors e). descriptor_wf (le_seq e) d)"

definition apart :: "log_entry \<Rightarrow> log_entry \<Rightarrow> bool" where
  "apart a b \<longleftrightarrow> le_pos a + le_len a \<le> le_pos b"

definition discovered :: "ext \<Rightarrow> bytes \<Rightarrow> guid \<Rightarrow> nat \<Rightarrow> log_entry list \<Rightarrow> bool" where
  "discovered x L g pos found \<longleftrightarrow>
     (\<forall>e \<in> set found. entry_of_region x L g e \<and> pos \<le> le_pos e) \<and> sorted_wrt apart found"

lemma discover_from_found:
  assumes "discover_from x L g pos st = (Ok found, st')" "length L < 2 ^ 63"
  shows "discovered x L g pos found"
  using assms(1)
proof (induction rule: discover_from_induct)
  case (Found pos st e st1 es st2)
  then have e: "entry_of_region x L g e" "le_pos e = pos"
    using parse_log_entry_Ok [of x L pos g "fst st" "snd st" e "fst st1" "snd st1"] assms(2)
    by (auto simp: entry_of_region_def)
  with Found.IH show ?case by (fastforce simp: discovered_def apart_def)
qed (auto simp: discovered_def)

lemma parse_log_entry_budget:
  "parse_log_entry x L pos g (b, ex) = (r, b', ex') \<Longrightarrow> b' \<le> b \<and> (ex \<longrightarrow> ex')"
  by (auto simp: parse_log_entry_eq Let_def split: if_splits)

lemma discover_from_budget:
  assumes "discover_from x L g pos st = (Ok found, st')" "length L < 2 ^ 63"
  shows "fst st' + sum_list (map le_len found) \<le> fst st \<and> (snd st \<longrightarrow> snd st')"
  using assms(1)
proof (induction rule: discover_from_induct)
  case (Found pos st e st1 es st2)
  then have "le_len e \<le> fst st" "fst st1 = fst st - le_len e" "snd st1 = snd st"
    using parse_log_entry_Ok [of x L pos g "fst st" "snd st" e "fst st1" "snd st1"] assms(2) by auto
  with Found.IH show ?case by auto
next
  case (Skip pos st j st1 es st2)
  then have "fst st1 \<le> fst st \<and> (snd st \<longrightarrow> snd st1)"
    using parse_log_entry_budget [of x L pos g "fst st" "snd st" "Err j" "fst st1" "snd st1"] by simp
  with Skip.IH show ?case by auto
qed simp

text \<open>
  While the budget lasts nothing is missed: whatever a slot on the scan's grid holds that
  parses on its own is found, or lies under an entry that was.
\<close>

definition parses_alone :: "ext \<Rightarrow> bytes \<Rightarrow> guid \<Rightarrow> nat \<Rightarrow> log_entry \<Rightarrow> bool" where
  "parses_alone x L g pos e \<longleftrightarrow> fst (parse_log_entry x L pos g (length L, False)) = Ok e"

lemma parses_alone_parse:
  assumes "parses_alone x L g pos e" "parse_log_entry x L pos g st = (r, st')" "\<not> snd st'"
  shows "r = Ok e"
  using assms by (cases st) (auto simp: parses_alone_def parse_log_entry_eq Let_def split: if_splits)

definition covers :: "bytes \<Rightarrow> ext \<Rightarrow> guid \<Rightarrow> nat \<Rightarrow> log_entry list \<Rightarrow> bool" where
  "covers L x g pos found \<longleftrightarrow>
     (\<forall>q e. pos \<le> q \<longrightarrow> (q - pos) mod LOG_SECTOR_SIZE = 0 \<longrightarrow> parses_alone x L g q e \<longrightarrow>
        e \<in> set found \<or> (\<exists>f \<in> set found. le_pos f < q \<and> q < le_pos f + le_len f))"

lemma covers_step:
  assumes "covers L x g (pos + n) es" "n mod LOG_SECTOR_SIZE = 0" "pos = le_pos e" "n = le_len e"
    and "\<And>e'. parses_alone x L g pos e' \<Longrightarrow> e' = e"
  shows "covers L x g pos (e # es)"
  unfolding covers_def
proof (intro allI impI)
  fix q e'
  assume q: "pos \<le> q" "(q - pos) mod LOG_SECTOR_SIZE = 0" "parses_alone x L g q e'"
  consider "q = pos" | "pos < q" "q < pos + n" | "pos + n \<le> q" using q(1) by linarith
  then show "e' \<in> set (e # es) \<or> (\<exists>f \<in> set (e # es). le_pos f < q \<and> q < le_pos f + le_len f)"
  proof cases
    case 3
    then have "(q - (pos + n)) mod LOG_SECTOR_SIZE = 0"
      using q(2) assms(2) by (metis diff_diff_left mod_0_imp_dvd dvd_diff_nat mod_0 dvd_imp_mod_0)
    then show ?thesis using assms(1) 3 q(3) by (auto simp: covers_def)
  qed (use assms q in auto)
qed

lemma covers_skip:
  assumes "covers L x g (pos + LOG_SECTOR_SIZE) es" "\<And>e'. \<not> parses_alone x L g pos e'"
  shows "covers L x g pos es"
  unfolding covers_def
proof (intro allI impI)
  fix q e'
  assume q: "pos \<le> q" "(q - pos) mod LOG_SECTOR_SIZE = 0" "parses_alone x L g q e'"
  then have "0 < q - pos" using assms(2) by (cases "q = pos") auto
  then have "LOG_SECTOR_SIZE \<le> q - pos" using q(2) by (meson mod_less leI not_less_zero less_irrefl mod_0_imp_dvd dvd_imp_le)
  then have "(q - (pos + LOG_SECTOR_SIZE)) mod LOG_SECTOR_SIZE = 0" "pos + LOG_SECTOR_SIZE \<le> q"
    using q(2) by (auto simp flip: diff_diff_left simp: le_mod_geq [symmetric])
  then show "e' \<in> set es \<or> (\<exists>f \<in> set es. le_pos f < q \<and> q < le_pos f + le_len f)"
    using assms(1) q(3) by (auto simp: covers_def)
qed

lemma covers_end: "length L < pos + LOG_SECTOR_SIZE \<Longrightarrow> covers L x g pos []"
  by (auto simp: covers_def parses_alone_def parse_log_entry_eq)

lemma discover_from_covers:
  assumes "discover_from x L g pos st = (Ok found, st')" "length L < 2 ^ 63" "\<not> snd st'"
  shows "covers L x g pos found"
  using assms(1,3)
proof (induction rule: discover_from_induct)
  case (End pos st)
  then show ?case by (simp add: covers_end)
next
  case (Found pos st e st1 es st2)
  have e: "le_len e mod LOG_SECTOR_SIZE = 0" "le_pos e = pos"
    using Found.hyps(1) parse_log_entry_Ok [of x L pos g "fst st" "snd st" e "fst st1" "snd st1"]
      assms(2) by auto
  have "\<not> snd st1"
    using discover_from_budget [OF Found.hyps(2) assms(2)] Found.prems by blast
  then have "e' = e" if "parses_alone x L g pos e'" for e'
    using parses_alone_parse [OF that Found.hyps(1)] by simp
  then show ?case
    using Found.IH [OF Found.prems] e by (auto intro!: covers_step)
next
  case (Skip pos st j st1 es st2)
  have "\<not> snd st1"
    using discover_from_budget [OF Skip.hyps(2) assms(2)] Skip.prems by blast
  then have "\<not> parses_alone x L g pos e'" for e'
    using parses_alone_parse [OF _ Skip.hyps(1)] by blast
  then show ?case
    using Skip.IH [OF Skip.prems] by (auto intro!: covers_skip)
qed

lemma discover_Ok: "\<exists>found n ex. discover x L g = Ok (found, n, ex)"
  using discover_from_Ok [of x L g 0 "(min (length L * DISCOVERY_CHECKSUM_PASSES) (2 ^ 64 - 1), False)"]
  by (auto simp: discover_def Let_def)

lemma discover_OkE:
  assumes "discover x L g = Ok (found, n, ex)"
  obtains b b' where "discover_from x L g 0 (b, False) = (Ok found, b', ex)"
    "b \<le> length L * DISCOVERY_CHECKSUM_PASSES" "n = b - b'"
  using assms by (auto simp: discover_def Let_def split: prod.splits res.splits)

lemma discover_spec:
  assumes "discover x L g = Ok (found, n, ex)" "length L < 2 ^ 63"
  shows "discovered x L g 0 found" "sum_list (map le_len found) \<le> n"
    "n \<le> length L * DISCOVERY_CHECKSUM_PASSES" "\<not> ex \<longrightarrow> covers L x g 0 found"
proof -
  obtain b b' where run: "discover_from x L g 0 (b, False) = (Ok found, b', ex)"
    and b: "b \<le> length L * DISCOVERY_CHECKSUM_PASSES" "n = b - b'"
    using assms(1) by (rule discover_OkE)
  show "discovered x L g 0 found" by (rule discover_from_found [OF run assms(2)])
  show "sum_list (map le_len found) \<le> n"
    using discover_from_budget [OF run assms(2)] b(2) by simp
  show "n \<le> length L * DISCOVERY_CHECKSUM_PASSES" using b by simp
  show "\<not> ex \<longrightarrow> covers L x g 0 found"
    using discover_from_covers [OF run assms(2)] by simp
qed

section \<open>Lemmas: selection\<close>

lemma chain_head_fold:
  "chain_head e es \<in> set (e # es) \<and> (\<forall>f \<in> set (e # es). le_seq f \<le> le_seq (chain_head e es))"
proof (induction es arbitrary: e)
  case (Cons a es)
  have step: "chain_head e (a # es) = chain_head (if le_seq e < le_seq a then a else e) es"
    by (simp add: chain_head_def)
  show ?case
    unfolding step using Cons [of "if le_seq e < le_seq a then a else e"]
    by (auto split: if_splits)
qed (simp add: chain_head_def)

lemma unat_u32_fits: "unat (w :: u32) < 18446744073709551616"
  using unat_lt_u32 [of w] by (simp del: unat_lt_u32)

lemma entry_starting_at_Some:
  assumes "entry_starting_at found p = Some e" "p < 2 ^ 64"
  shows "e \<in> set found \<and> le_pos e = p"
  using assms by (auto simp: entry_starting_at_def find_Some_iff unat_of_nat in_set_conv_nth)

text \<open>One entry follows another: it lies where the other ends, and counts one up.\<close>

definition region_next :: "nat \<Rightarrow> log_entry \<Rightarrow> nat" where
  "region_next n e = (if n \<le> le_pos e + le_len e then le_pos e + le_len e - n else le_pos e + le_len e)"

definition follows :: "nat \<Rightarrow> log_entry \<Rightarrow> log_entry \<Rightarrow> bool" where
  "follows n a b \<longleftrightarrow> le_pos b = region_next n a \<and> unat (le_seq b) = unat (le_seq a) + 1"

definition no_successor :: "nat \<Rightarrow> log_entry list \<Rightarrow> log_entry \<Rightarrow> bool" where
  "no_successor n found a \<longleftrightarrow>
     unat (le_seq a) = 2 ^ 64 - 1 \<or>
     (\<forall>b. entry_starting_at found (region_next n a) = Some b \<longrightarrow> \<not> follows n a b)"

definition walked :: "nat \<Rightarrow> log_entry list \<Rightarrow> nat \<Rightarrow> u64 option \<Rightarrow> log_entry list \<Rightarrow> bool" where
  "walked n found pos expected chain \<longleftrightarrow>
     set chain \<subseteq> set found \<and> successively (follows n) chain \<and>
     (case chain of
        [] \<Rightarrow> \<forall>e. entry_starting_at found pos = Some e \<longrightarrow> expected \<notin> {None, Some (le_seq e)}
      | e # _ \<Rightarrow> entry_starting_at found pos = Some e \<and> expected \<in> {None, Some (le_seq e)} \<and>
          no_successor n found (last chain))"

lemma walked_Cons:
  assumes "entry_starting_at found pos = Some e" "expected \<in> {None, Some (le_seq e)}" "e \<in> set found"
    and "walked n found (region_next n e) (Some s) chain" "region_next n e < 2 ^ 64"
    and "unat s = unat (le_seq e) + 1"
  shows "walked n found pos expected (e # chain)"
proof (cases chain)
  case Nil
  have "no_successor n found e"
    using assms(4,6) Nil by (auto simp: walked_def no_successor_def follows_def word_unat_eq_iff)
  then show ?thesis using assms Nil by (auto simp: walked_def)
next
  case (Cons c cs)
  then have c: "entry_starting_at found (region_next n e) = Some c" "le_seq c = s"
    using assms(4) by (auto simp: walked_def)
  then have "follows n e c"
    using entry_starting_at_Some [OF c(1) assms(5)] assms(6) by (simp add: follows_def)
  then show ?thesis using assms Cons by (auto simp: walked_def)
qed

lemma walk_chain_walked:
  assumes "\<forall>e \<in> set found. le_len e \<le> n" "n < 2 ^ 63" "pos < n"
  shows "walked n found pos expected (walk_chain n found pos expected)"
  using assms
proof (induction n found pos expected rule: walk_chain.induct)
  case (1 n found pos expected)
  show ?case
  proof (cases "entry_starting_at found pos")
    case None
    then show ?thesis by (subst walk_chain.simps) (simp add: walked_def)
  next
    case (Some e)
    have e: "e \<in> set found" "le_pos e = pos"
      using entry_starting_at_Some [OF Some] 1(3,4) by auto
    then have len: "le_len e \<le> n" using 1(2) by blast
    have nxt: "(if n \<le> pos + le_len e then pos + le_len e - n else pos + le_len e) = region_next n e"
      by (simp add: region_next_def e)
    have lt: "region_next n e < n" using len 1(4) by (auto simp: region_next_def e)
    consider (stop) "expected \<noteq> None \<and> expected \<noteq> Some (le_seq e)"
      | (top) "expected \<in> {None, Some (le_seq e)}" "checked_add (le_seq e) 1 = None"
      | (go) s where "expected \<in> {None, Some (le_seq e)}" "checked_add (le_seq e) 1 = Some s"
      by (cases "checked_add (le_seq e) 1"; cases expected) (simp_all, blast+)
    then show ?thesis
    proof cases
      case stop
      then show ?thesis using Some by (subst walk_chain.simps) (simp add: walked_def)
    next
      case top
      then have "no_successor n found e"
        using unat_lt_u64 [of "le_seq e"]
        by (auto simp: no_successor_def checked_add_None_iff simp del: unat_lt_u64)
      then show ?thesis
        using Some top e by (subst walk_chain.simps) (auto simp: walked_def Let_def)
    next
      case go
      have "walked n found (region_next n e) (Some s) (walk_chain n found (region_next n e) (Some s))"
        using 1(1) [OF Some _ refl refl go(2)] go(1) 1(2,3) lt by (simp add: nxt)
      moreover have "unat s = unat (le_seq e) + 1"
        using go(2) by (auto simp: checked_add_Some_iff unat_add_no_overflow)
      ultimately have "walked n found pos expected (e # walk_chain n found (region_next n e) (Some s))"
        using Some go e lt 1(3) by (intro walked_Cons) auto
      then show ?thesis
        using Some go by (subst walk_chain.simps) (auto simp: Let_def nxt)
    qed
  qed
qed

text \<open>What a selected chain is.\<close>

definition active_chain :: "nat \<Rightarrow> log_entry list \<Rightarrow> log_entry list \<Rightarrow> bool" where
  "active_chain n found chain \<longleftrightarrow>
     chain \<noteq> [] \<and> set chain \<subseteq> set found \<and> successively (follows n) chain \<and>
     (\<exists>head \<in> set found. (\<forall>f \<in> set found. le_seq f \<le> le_seq head) \<and>
        le_pos (hd chain) = unat (leh_tail (le_header head))) \<and>
     no_successor n found (last chain)"

lemma select_chain_active:
  assumes "select_chain L found = Ok chain" "found \<noteq> []" "length L < 2 ^ 63"
    and "\<forall>e \<in> set found. le_pos e < length L \<and> le_len e \<le> length L"
  shows "active_chain (length L) found chain"
proof -
  obtain e es where found: "found = e # es" using assms(2) by (cases found) auto
  obtain first where first:
    "entry_starting_at found (unat (leh_tail (le_header (chain_head e es)))) = Some first"
    and chain: "chain = walk_chain (length L) found (le_pos first) None"
    using assms(1) by (auto simp: select_chain_def Let_def found split: option.splits)
  have f: "first \<in> set found" "le_pos first = unat (leh_tail (le_header (chain_head e es)))"
    using entry_starting_at_Some [OF first] unat_u32_fits by auto
  have w: "walked (length L) found (le_pos first) None chain"
    unfolding chain using assms(3,4) f(1) by (intro walk_chain_walked) auto
  then obtain cs where cs: "chain = first # cs"
    using first f(2) by (cases chain) (auto simp: walked_def)
  then show ?thesis
    using w f chain_head_fold [of e es] by (auto simp: active_chain_def walked_def found)
qed

lemma select_chain_unassembled:
  assumes "select_chain L found = Err r"
  obtains head where "head \<in> set found" "\<forall>f \<in> set found. le_seq f \<le> le_seq head"
    "\<forall>e \<in> set found. le_pos e \<noteq> unat (leh_tail (le_header head))"
proof -
  obtain e es where found: "found = e # es"
    using assms by (cases found) (auto simp: select_chain_def)
  have none: "entry_starting_at found (unat (leh_tail (le_header (chain_head e es)))) = None"
    using assms by (auto simp: select_chain_def Let_def found split: option.splits)
  then have "\<forall>f \<in> set found. le_pos f \<noteq> unat (leh_tail (le_header (chain_head e es)))"
    by (force simp: entry_starting_at_def find_None_iff word_unat_eq_iff unat_of_nat unat_u32_fits
        simp del: of_nat_unat)
  then show ?thesis using that chain_head_fold [of e es] found by blast
qed

lemma select_chain_not_Panic: "select_chain L found \<noteq> Panic"
  by (auto simp: select_chain_def Let_def split: list.splits option.splits)

lemma collect_replay_chain_not_Panic: "collect_replay_chain x L g \<noteq> Panic"
  using discover_Ok [of x L g] select_chain_not_Panic
  by (auto simp: collect_replay_chain_def split: if_splits)

lemma discovered_bounds:
  "discovered x L g 0 found \<Longrightarrow> \<forall>e \<in> set found. le_pos e < length L \<and> le_len e \<le> length L"
  by (auto simp: discovered_def entry_of_region_def)

lemma collect_replay_chain_Ok:
  assumes "collect_replay_chain x L g = Ok chain" "chain \<noteq> []" "length L < 2 ^ 63"
  obtains found where "discovered x L g 0 found" "covers L x g 0 found"
    "active_chain (length L) found chain"
proof -
  obtain found n ex where d: "discover x L g = Ok (found, n, ex)" using discover_Ok by blast
  have ex: "\<not> ex" and sel: "select_chain L found = Ok chain"
    using assms(1,2) d by (auto simp: collect_replay_chain_def split: if_splits)
  have "found \<noteq> []" using sel assms(2) by (auto simp: select_chain_def)
  then show ?thesis
    using that discover_spec [OF d assms(3)] ex select_chain_active [OF sel _ assms(3)]
      discovered_bounds by blast
qed

text \<open>An empty chain means that the log was empty: no slot of the region parses.\<close>

lemma collect_replay_chain_empty:
  assumes "collect_replay_chain x L g = Ok []" "\<not> list_all (\<lambda>b. b = 0) g" "length L < 2 ^ 63"
    and "q mod LOG_SECTOR_SIZE = 0"
  shows "\<not> parses_alone x L g q e"
proof -
  obtain found n ex where d: "discover x L g = Ok (found, n, ex)" using discover_Ok by blast
  have ex: "\<not> ex" and sel: "select_chain L found = Ok []"
    using assms(1,2) d by (auto simp: collect_replay_chain_def split: if_splits)
  have "found = []"
    using select_chain_active [OF sel _ assms(3)] discovered_bounds discover_spec(1) [OF d assms(3)]
    by (auto simp: active_chain_def)
  then show ?thesis
    using discover_spec(4) [OF d assms(3)] ex assms(4) by (auto simp: covers_def)
qed

end
