(* ===== verification/Log_Replay.thy ===== *)
theory Log_Replay
  imports Log_Chain
begin

text \<open>
  \<open>src/log.rs\<close>, applying a chain to the device: the bound on how far the file may reach,
  the check of every descriptor before the first write, the growth of the file, and the
  writes with a flush after each entry. The abstract counterpart is \<open>replay\<close>: the
  descriptors overwrite a byte list in order. The lemmas say that a refused chain leaves the
  device alone, that an applied one performs exactly \<open>replay\<close> on the extended contents, and
  that replaying over any state that differs only inside the spans the chain writes gives
  the same contents.
\<close>

section \<open>Extents\<close>

abbreviation MAX_BLOCK_SIZE :: u64 where "MAX_BLOCK_SIZE \<equiv> 256 * 1024 * 1024"

definition max_or_zero :: "u64 list \<Rightarrow> u64" where
  "max_or_zero ws = foldr max ws 0"

definition allowed_extent :: "u64 \<Rightarrow> log_entry list \<Rightarrow> u64" where
  "allowed_extent current chain =
     (let descriptors = sum_list (map (\<lambda>entry. word_of_nat (length (le_descriptors entry))) chain);
          ceiling = saturating_add current (saturating_mul descriptors MAX_BLOCK_SIZE);
          claimed = min (max_or_zero (map (\<lambda>entry. leh_last_file_offset (le_header entry)) chain)) ceiling
      in max current claimed)"

primrec descriptor_span :: "descriptor \<Rightarrow> u64 \<times> u64" where
  "descriptor_span (ZeroDesc zero_length file_offset s) = (file_offset, zero_length)"
| "descriptor_span (DataDesc t l file_offset s sector) = (file_offset, word_of_nat (length sector))"

definition descriptor_extent :: "log_entry list \<Rightarrow> u64" where
  "descriptor_extent chain =
     max_or_zero (map (\<lambda>d. case descriptor_span d of (file_offset, len) \<Rightarrow> saturating_add file_offset len)
       (concat (map le_descriptors chain)))"

definition replayed_extent :: "u64 \<Rightarrow> log_entry list \<Rightarrow> u64" where
  "replayed_extent current chain = max (allowed_extent current chain) (descriptor_extent chain)"

section \<open>Applying a chain\<close>

definition check_descriptor :: "u64 \<Rightarrow> descriptor \<Rightarrow> (unit, error) res" where
  "check_descriptor dev_size d =
     (let (file_offset, len) = descriptor_span d in
      case checked_add file_offset len of
        None \<Rightarrow> Err (LogReplay (''descriptor at '' @ show_nat (unat file_offset) @ '' spans ''
          @ show_nat (unat len) @ '' bytes, which overflows''))
      | Some end \<Rightarrow>
          if dev_size < end
          then Err (LogReplay (''descriptor writes '' @ show_nat (unat len) @ '' bytes at ''
            @ show_nat (unat file_offset) @ '', ending at '' @ show_nat (unat end)
            @ '' on a device of '' @ show_nat (unat dev_size) @ '' bytes''))
          else Ok ())"

definition extend_device :: "ext \<Rightarrow> ('d, 'z) dev_ops_scheme \<Rightarrow> u64 \<Rightarrow> ('d, unit, error) io" where
  "extend_device x ops dev_size dev =
     (if dev_size_bytes ops dev < dev_size
      then
        case dev_set_len ops dev_size dev of
          (Ok _, dev) \<Rightarrow> (Ok (), dev)
        | (Err e, dev) \<Rightarrow>
            (Err (LogReplay (''the chain describes '' @ show_nat (unat dev_size)
               @ '' bytes and this device holds '' @ show_nat (unat (dev_size_bytes ops dev))
               @ '', which could not be extended: '' @ fs_error_to_string x e)), dev)
        | (Panic, dev) \<Rightarrow> (Panic, dev)
      else (Ok (), dev))"

definition log_io_error :: "ext \<Rightarrow> string \<Rightarrow> fs_error \<Rightarrow> error" where
  "log_io_error x what e = LogReplay (what @ fs_error_to_string x e)"

primrec apply_descriptor :: "ext \<Rightarrow> ('d, 'z) dev_ops_scheme \<Rightarrow> descriptor \<Rightarrow> ('d, unit, error) io" where
  "apply_descriptor x ops (ZeroDesc zero_length file_offset s) =
     (if zero_length = 0 then io_return ()
      else io_map_err (log_io_error x ''zero write: '') (write_zeros ops file_offset zero_length))"
| "apply_descriptor x ops (DataDesc t l file_offset s sector) =
     io_map_err (log_io_error x ''data write: '') (dev_write_at ops file_offset sector)"

definition apply_entry :: "ext \<Rightarrow> ('d, 'z) dev_ops_scheme \<Rightarrow> log_entry \<Rightarrow> ('d, unit, error) io" where
  "apply_entry x ops entry =
     io_bind (io_foreach (apply_descriptor x ops) (le_descriptors entry)) (\<lambda>_.
     io_map_err (log_io_error x ''flush after entry: '') (dev_flush ops))"

definition apply_chain :: "ext \<Rightarrow> ('d, 'z) dev_ops_scheme \<Rightarrow> log_entry list \<Rightarrow> ('d, unit, error) io" where
  "apply_chain x ops chain dev =
     (let dev_size = allowed_extent (dev_size_bytes ops dev) chain in
      io_bind (io_lift (res_map (check_descriptor dev_size) (concat (map le_descriptors chain)))) (\<lambda>_.
      io_bind (extend_device x ops dev_size) (\<lambda>_.
      io_foreach (apply_entry x ops) chain)) dev)"

section \<open>The abstract replay\<close>

primrec desc_payload :: "descriptor \<Rightarrow> bytes" where
  "desc_payload (ZeroDesc zero_length file_offset s) = replicate (unat zero_length) 0"
| "desc_payload (DataDesc t l file_offset s sector) = sector"

definition desc_start :: "descriptor \<Rightarrow> nat" where
  "desc_start d = unat (desc_file_offset d)"

definition desc_end :: "descriptor \<Rightarrow> nat" where
  "desc_end d = desc_start d + length (desc_payload d)"

definition apply_desc :: "descriptor \<Rightarrow> bytes \<Rightarrow> bytes" where
  "apply_desc d c = overwrite (desc_start d) (desc_payload d) c"

definition replay :: "descriptor list \<Rightarrow> bytes \<Rightarrow> bytes" where
  "replay ds c = fold apply_desc ds c"

abbreviation chain_descriptors :: "log_entry list \<Rightarrow> descriptor list" where
  "chain_descriptors chain \<equiv> concat (map le_descriptors chain)"

definition chain_wf :: "log_entry list \<Rightarrow> bool" where
  "chain_wf chain \<longleftrightarrow> (\<forall>e \<in> set chain. \<forall>d \<in> set (le_descriptors e). descriptor_wf (le_seq e) d)"

definition in_span :: "descriptor \<Rightarrow> nat \<Rightarrow> bool" where
  "in_span d i \<longleftrightarrow> desc_start d \<le> i \<and> i < desc_end d"

lemma length_apply_desc [simp]: "desc_end d \<le> length c \<Longrightarrow> length (apply_desc d c) = length c"
  by (simp add: apply_desc_def desc_end_def)

lemma length_replay: "\<forall>d \<in> set ds. desc_end d \<le> length c \<Longrightarrow> length (replay ds c) = length c"
  by (induction ds arbitrary: c) (simp_all add: replay_def)

lemma nth_apply_desc:
  "desc_end d \<le> length c \<Longrightarrow> i < length c \<Longrightarrow>
   apply_desc d c ! i = (if in_span d i then desc_payload d ! (i - desc_start d) else c ! i)"
  by (simp add: apply_desc_def desc_end_def in_span_def nth_overwrite)

text \<open>Bytes outside every span keep their value; the others do not depend on what was there.\<close>

lemma nth_replay_outside:
  "\<forall>d \<in> set ds. desc_end d \<le> length c \<and> \<not> in_span d i \<Longrightarrow> i < length c \<Longrightarrow> replay ds c ! i = c ! i"
  by (induction ds arbitrary: c) (simp_all add: replay_def nth_apply_desc)

lemma replay_agree:
  assumes "length c' = length c" "\<forall>d \<in> set ds. desc_end d \<le> length c"
    and "\<forall>i < length c. (\<forall>d \<in> set ds. \<not> in_span d i) \<longrightarrow> c' ! i = c ! i"
  shows "replay ds c' = replay ds c"
  using assms
proof (induction ds arbitrary: c c')
  case Nil
  then show ?case by (auto simp: replay_def intro: nth_equalityI)
next
  case (Cons d ds)
  have "replay ds (apply_desc d c') = replay ds (apply_desc d c)"
    using Cons.prems by (intro Cons.IH) (auto simp: nth_apply_desc)
  then show ?case by (simp add: replay_def)
qed

lemma replay_append: "replay (ds @ es) c = replay es (replay ds c)"
  by (simp add: replay_def)

lemma replay_over_replay:
  assumes "\<forall>d \<in> set ds. desc_end d \<le> length c" "set es \<subseteq> set ds"
  shows "replay ds (replay es c) = replay ds c"
  using assms by (intro replay_agree) (auto simp: length_replay nth_replay_outside subset_iff)

lemma replay_resize:
  "\<forall>d \<in> set ds. desc_end d \<le> length c \<Longrightarrow> length c \<le> m \<Longrightarrow> replay ds (resize m c) = resize m (replay ds c)"
proof (induction ds arbitrary: c)
  case (Cons d ds)
  have "apply_desc d (resize m c) = resize m (apply_desc d c)"
    using Cons.prems by (intro nth_equalityI) (auto simp: nth_apply_desc resize_grow nth_append in_span_def)
  then show ?case using Cons by (simp add: replay_def)
qed (simp add: replay_def)

section \<open>Lemmas: extents and checks\<close>

lemma max_or_zero_ge: "w \<in> set ws \<Longrightarrow> w \<le> max_or_zero ws"
  by (induction ws) (auto simp: max_or_zero_def le_max_iff_disj)

lemma max_or_zero_le: "(\<And>w. w \<in> set ws \<Longrightarrow> w \<le> b) \<Longrightarrow> max_or_zero ws \<le> b"
  by (induction ws) (auto simp: max_or_zero_def)

lemma allowed_extent_ge: "current \<le> allowed_extent current chain"
  by (simp add: allowed_extent_def Let_def)

lemma descriptor_span_eq:
  "descriptor_wf s d \<Longrightarrow> descriptor_span d = (desc_file_offset d, word_of_nat (length (desc_payload d)))
    \<and> length (desc_payload d) < 2 ^ 64"
  by (cases d) auto

lemma check_descriptor_Ok_iff:
  assumes "descriptor_wf s d"
  shows "check_descriptor n d = Ok () \<longleftrightarrow> desc_end d \<le> unat n"
proof -
  let ?w = "word_of_nat (length (desc_payload d)) :: u64"
  have len: "unat ?w = length (desc_payload d)"
    using descriptor_span_eq [OF assms] by (simp add: unat_of_nat)
  have "unat n < 2 ^ 64" by simp
  then show ?thesis
    using descriptor_span_eq [OF assms] len
    by (auto simp: check_descriptor_def desc_end_def desc_start_def checked_add_Some_iff
        checked_add_None_iff word_less_nat_alt unat_add_no_overflow split: option.splits
        simp del: unat_lt_u64)
qed

lemma check_descriptor_not_Panic: "check_descriptor n d \<noteq> Panic"
  by (auto simp: check_descriptor_def Let_def split: option.splits prod.splits)

lemma chain_wf_descriptors: "chain_wf chain \<Longrightarrow> d \<in> set (chain_descriptors chain) \<Longrightarrow> \<exists>s. descriptor_wf s d"
  by (auto simp: chain_wf_def)

lemma chain_wf_payload:
  "chain_wf chain \<Longrightarrow> \<forall>e \<in> set (chain_descriptors chain). length (desc_payload e) < 2 ^ 64"
proof (intro ballI)
  fix e assume "chain_wf chain" "e \<in> set (chain_descriptors chain)"
  then obtain s where "descriptor_wf s e" using chain_wf_descriptors by blast
  then show "length (desc_payload e) < 2 ^ 64" by (cases e) simp_all
qed

lemma check_chain_Ok_iff:
  assumes "chain_wf chain"
  shows "(\<exists>u. res_map (check_descriptor n) (chain_descriptors chain) = Ok u) \<longleftrightarrow>
    (\<forall>d \<in> set (chain_descriptors chain). desc_end d \<le> unat n)"
proof -
  have "(\<exists>u. res_map f ds = Ok (u :: unit list)) \<longleftrightarrow> (\<forall>d \<in> set ds. f d = Ok ())"
    for f :: "descriptor \<Rightarrow> (unit, error) res" and ds
    by (induction ds) (auto simp: res_bind_Ok_iff)
  moreover have "check_descriptor n d = Ok () \<longleftrightarrow> desc_end d \<le> unat n"
    if "d \<in> set (chain_descriptors chain)" for d
    using chain_wf_descriptors [OF assms that] check_descriptor_Ok_iff by blast
  ultimately show ?thesis by (simp del: set_concat)
qed

lemma descriptor_extent_le:
  assumes "chain_wf chain" "\<forall>d \<in> set (chain_descriptors chain). desc_end d \<le> unat n"
  shows "descriptor_extent chain \<le> n"
  unfolding descriptor_extent_def
proof (rule max_or_zero_le)
  fix w assume "w \<in> set (map (\<lambda>d. case descriptor_span d of (o', l) \<Rightarrow> saturating_add o' l)
    (chain_descriptors chain))"
  then obtain d where d: "d \<in> set (chain_descriptors chain)"
    "w = (case descriptor_span d of (o', l) \<Rightarrow> saturating_add o' l)" by auto
  obtain s where "descriptor_wf s d" using chain_wf_descriptors [OF assms(1) d(1)] by blast
  from descriptor_span_eq [OF this] show "w \<le> n"
    using d assms(2) by (force simp: word_le_nat_alt unat_saturating_add desc_end_def desc_start_def
      unat_of_nat min.coboundedI1 simp del: set_concat)
qed

lemma replayed_extent_eq:
  assumes "chain_wf chain" "\<forall>d \<in> set (chain_descriptors chain). desc_end d \<le> unat (allowed_extent n chain)"
  shows "replayed_extent n chain = allowed_extent n chain"
  using descriptor_extent_le [OF assms] by (simp add: replayed_extent_def max_absorb1)

text \<open>
  What an entry says the file became, and the room the ceiling leaves for it. A chain whose claims
  are honoured asks for no more when it is applied again; one whose claim was cut asks for more.
\<close>

definition claims_honoured :: "u64 \<Rightarrow> log_entry list \<Rightarrow> bool" where
  "claims_honoured current chain \<longleftrightarrow>
     (\<forall>e \<in> set chain. leh_last_file_offset (le_header e) \<le> allowed_extent current chain)"

definition claimed_end :: "log_entry list \<Rightarrow> nat" where
  "claimed_end chain = unat (max_or_zero (map (\<lambda>entry. leh_last_file_offset (le_header entry)) chain))"

definition growth_room :: "log_entry list \<Rightarrow> nat" where
  "growth_room chain = unat (saturating_mul
     (sum_list (map (\<lambda>entry. word_of_nat (length (le_descriptors entry)) :: u64) chain)) MAX_BLOCK_SIZE)"

lemma unat_max_u64: "unat (max a b :: u64) = max (unat a) (unat b)"
  by (simp add: max_def word_le_nat_alt)

lemma unat_min_u64: "unat (min a b :: u64) = min (unat a) (unat b)"
  by (simp add: min_def word_le_nat_alt)

lemma unat_allowed_extent:
  "unat (allowed_extent n chain) = max (unat n) (min (claimed_end chain) (unat n + growth_room chain))"
proof -
  have "claimed_end chain \<le> 2 ^ 64 - 1"
    using unat_lt_u64 [of "max_or_zero (map (\<lambda>entry. leh_last_file_offset (le_header entry)) chain)"]
    by (simp add: claimed_end_def del: unat_lt_u64)
  then show ?thesis
    by (simp add: allowed_extent_def Let_def unat_max_u64 unat_min_u64 unat_saturating_add
        claimed_end_def growth_room_def)
qed

lemma claims_honoured_iff: "claims_honoured n chain \<longleftrightarrow> claimed_end chain \<le> unat (allowed_extent n chain)"
proof -
  let ?w = "max_or_zero (map (\<lambda>entry. leh_last_file_offset (le_header entry)) chain)"
  have "claims_honoured n chain \<longleftrightarrow> ?w \<le> allowed_extent n chain"
  proof
    assume "?w \<le> allowed_extent n chain"
    then show "claims_honoured n chain"
      using max_or_zero_ge [of _ "map (\<lambda>entry. leh_last_file_offset (le_header entry)) chain"]
      by (fastforce simp: claims_honoured_def)
  qed (auto simp: claims_honoured_def intro!: max_or_zero_le)
  then show ?thesis by (simp add: claimed_end_def word_le_nat_alt)
qed

lemma growth_room_pos:
  assumes "chain_descriptors chain \<noteq> []" "length (chain_descriptors chain) < 2 ^ 64"
  shows "0 < growth_room chain"
proof -
  have "(\<Sum>entry\<leftarrow>chain. word_of_nat (length (le_descriptors entry))) =
      (word_of_nat (length (chain_descriptors chain)) :: u64)"
    by (induction chain) simp_all
  moreover have "unat (word_of_nat (length (chain_descriptors chain)) :: u64) = length (chain_descriptors chain)"
    using assms(2) by (intro unat_of_nat_u64) simp
  moreover have "0 < length (chain_descriptors chain)" using assms(1) by blast
  ultimately show ?thesis by (simp add: growth_room_def unat_saturating_mul)
qed

text \<open>A replay started again on the way there, from a length between the old and the new.\<close>

lemma allowed_extent_again:
  assumes "unat n \<le> unat m" "unat m \<le> unat (allowed_extent n chain)"
  shows "unat (allowed_extent n chain) \<le> unat (allowed_extent m chain)"
    and "claims_honoured n chain \<Longrightarrow> allowed_extent m chain = allowed_extent n chain"
    and "\<not> claims_honoured n chain \<Longrightarrow> unat m = unat (allowed_extent n chain) \<Longrightarrow> 0 < growth_room chain \<Longrightarrow>
      unat (allowed_extent n chain) < unat (allowed_extent m chain)"
proof -
  show "unat (allowed_extent n chain) \<le> unat (allowed_extent m chain)"
    using assms unfolding unat_allowed_extent by linarith
  show "allowed_extent m chain = allowed_extent n chain" if "claims_honoured n chain"
    using that assms unfolding claims_honoured_iff word_unat_eq_iff unat_allowed_extent by linarith
  show "unat (allowed_extent n chain) < unat (allowed_extent m chain)"
    if "\<not> claims_honoured n chain" "unat m = unat (allowed_extent n chain)" "0 < growth_room chain"
    using that unfolding claims_honoured_iff unat_allowed_extent by linarith
qed

section \<open>Lemmas: the device\<close>

lemma apply_chain_refused:
  assumes "chain_wf chain" "e \<in> set (chain_descriptors chain)"
    and "unat (allowed_extent (dev_size_bytes ops d) chain) < desc_end e"
  shows "\<exists>m. apply_chain x ops chain d = (Err (LogReplay m), d)"
proof -
  let ?n = "allowed_extent (dev_size_bytes ops d) chain"
  let ?r = "res_map (check_descriptor ?n) (chain_descriptors chain)"
  have "\<nexists>u. ?r = Ok u"
    using check_chain_Ok_iff [OF assms(1)] assms(2,3) by (meson not_less)
  moreover have "?r \<noteq> Panic"
    by (intro res_map_not_Panic check_descriptor_not_Panic)
  moreover have "\<exists>m. j = LogReplay m" if "res_map (check_descriptor ?n) ds = Err j" for ds j
    using that by (induction ds)
      (auto simp: res_bind_Err_iff check_descriptor_def Let_def split: option.splits prod.splits if_splits)
  ultimately obtain m where "?r = Err (LogReplay m)" by (cases ?r) blast+
  then show ?thesis by (simp add: apply_chain_def Let_def io_lift_def)
qed

context block_device
begin

lemma apply_descriptor_keeps:
  "io_keeps (\<lambda>d. invar d \<and> length (contents d) = n) (apply_descriptor x ops e)"
  by (cases e) (auto intro: write_keeps write_zeros_keeps)

lemma apply_descriptor_Ok:
  assumes "invar d" "length (desc_payload e) < 2 ^ 64" "apply_descriptor x ops e d = (Ok u, d')"
  shows "invar d' \<and> contents d' = apply_desc e (contents d)"
proof (cases e)
  case (ZeroDesc z off s)
  then show ?thesis
    using assms write_zeros_Ok [of d off z u d']
    by (auto simp: apply_desc_def desc_start_def io_return_def io_map_err_Ok_iff split: if_splits)
next
  case (DataDesc t l off s sec)
  then show ?thesis
    using assms write_law [of d sec off u d'] write_invar [of d off sec "Ok u" d']
    by (auto simp: apply_desc_def desc_start_def io_map_err_Ok_iff)
qed

lemma apply_descriptors_Ok:
  "invar d \<Longrightarrow> \<forall>e \<in> set ds. length (desc_payload e) < 2 ^ 64 \<Longrightarrow>
   io_foreach (apply_descriptor x ops) ds d = (Ok u, d') \<Longrightarrow>
   invar d' \<and> contents d' = replay ds (contents d)"
proof (induction ds arbitrary: d)
  case (Cons e ds)
  then show ?case
    using apply_descriptor_Ok by (fastforce simp: io_bind_Ok_iff replay_def)
qed (simp add: io_return_def replay_def)

lemma apply_entry_Ok:
  assumes "invar d" "\<forall>f \<in> set (le_descriptors e). length (desc_payload f) < 2 ^ 64"
    and "apply_entry x ops e d = (Ok u, d')"
  shows "invar d' \<and> contents d' = replay (le_descriptors e) (contents d)"
proof -
  obtain d1 where "io_foreach (apply_descriptor x ops) (le_descriptors e) d = (Ok (), d1)"
    "dev_flush ops d1 = (Ok u, d')"
    using assms(3) by (auto simp: apply_entry_def io_bind_Ok_iff io_map_err_Ok_iff)
  then show ?thesis using apply_descriptors_Ok [OF assms(1,2)] flush_law by metis
qed

lemma apply_entries_Ok:
  "invar d \<Longrightarrow> \<forall>e \<in> set (chain_descriptors chain). length (desc_payload e) < 2 ^ 64 \<Longrightarrow>
   io_foreach (apply_entry x ops) chain d = (Ok u, d') \<Longrightarrow>
   invar d' \<and> contents d' = replay (chain_descriptors chain) (contents d)"
proof (induction chain arbitrary: d)
  case (Cons e chain)
  obtain d1 where d1: "apply_entry x ops e d = (Ok (), d1)"
    "io_foreach (apply_entry x ops) chain d1 = (Ok u, d')"
    using Cons.prems(3) by (auto simp: io_bind_Ok_iff)
  have "invar d1 \<and> contents d1 = replay (le_descriptors e) (contents d)"
    by (rule apply_entry_Ok [OF Cons.prems(1) _ d1(1)]) (use Cons.prems(2) in simp)
  then show ?case using Cons.IH [OF _ _ d1(2)] Cons.prems(2) by (auto simp: replay_append)
qed (simp add: io_return_def replay_def)

lemma apply_entries_keep:
  "io_keeps (\<lambda>d. invar d \<and> length (contents d) = n) (io_foreach (apply_entry x ops) chain)"
  unfolding apply_entry_def
  by (intro io_keeps_foreach io_keeps_bind io_keeps_map_err apply_descriptor_keeps flush_keeps)

lemma extend_device_Ok:
  assumes "invar d" "extend_device x ops n d = (Ok u, d')" "dev_size_bytes ops d \<le> n"
  shows "invar d' \<and> contents d' = resize (unat n) (contents d)"
proof (cases "dev_size_bytes ops d < n")
  case True
  then show ?thesis
    using assms set_len_law set_len_invar
    by (auto simp: extend_device_def split: prod.splits res.splits)
next
  case False
  then have "unat n = length (contents d)" using assms(1,3) size_law by fastforce
  then show ?thesis using assms False by (simp add: extend_device_def resize_def)
qed

lemma apply_chain_Ok:
  assumes "invar d" "chain_wf chain" "apply_chain x ops chain d = (Ok u, d')"
  defines "n \<equiv> allowed_extent (dev_size_bytes ops d) chain"
  shows "invar d' \<and> contents d' = replay (chain_descriptors chain) (resize (unat n) (contents d))"
    "\<forall>e \<in> set (chain_descriptors chain). desc_end e \<le> unat n"
    "length (contents d') = unat (replayed_extent (dev_size_bytes ops d) chain)"
proof -
  obtain us d1 where chk: "res_map (check_descriptor n) (chain_descriptors chain) = Ok us"
    and ext: "extend_device x ops n d = (Ok (), d1)"
    and run: "io_foreach (apply_entry x ops) chain d1 = (Ok u, d')"
    using assms(3) by (auto simp: apply_chain_def Let_def n_def io_bind_Ok_iff io_lift_def)
  show fits: "\<forall>e \<in> set (chain_descriptors chain). desc_end e \<le> unat n"
    using check_chain_Ok_iff [OF assms(2)] chk by blast
  have d1: "invar d1" "contents d1 = resize (unat n) (contents d)"
    using extend_device_Ok [OF assms(1) ext] by (simp_all add: n_def allowed_extent_ge)
  show res: "invar d' \<and> contents d' = replay (chain_descriptors chain) (resize (unat n) (contents d))"
    using apply_entries_Ok [OF d1(1) chain_wf_payload [OF assms(2)] run] d1(2) by simp
  have "length (contents d') = unat n"
    using res fits by (simp add: length_replay del: set_concat)
  then show "length (contents d') = unat (replayed_extent (dev_size_bytes ops d) chain)"
    using replayed_extent_eq [OF assms(2)] fits by (simp add: n_def)
qed

text \<open>Starting again after a replay that got part of the way.\<close>

lemma apply_chain_again:
  assumes "invar d" "chain_wf chain" "apply_chain x ops chain d = (Ok u, d')"
    and "invar e" "apply_chain x ops chain e = (Ok v, e')"
    and "length (contents d) \<le> length (contents e)"
    and "length (contents e) \<le> unat (allowed_extent (dev_size_bytes ops d) chain)"
    and "\<forall>i < length (contents e). (\<forall>f \<in> set (chain_descriptors chain). \<not> in_span f i) \<longrightarrow>
      contents e ! i = resize (length (contents e)) (contents d) ! i"
  shows "length (contents d') \<le> length (contents e')"
    "contents e' = resize (length (contents e')) (contents d')"
    "claims_honoured (dev_size_bytes ops d) chain \<Longrightarrow> contents e' = contents d'"
    "\<not> claims_honoured (dev_size_bytes ops d) chain \<Longrightarrow> length (contents e) = length (contents d') \<Longrightarrow>
      chain_descriptors chain \<noteq> [] \<Longrightarrow> length (chain_descriptors chain) < 2 ^ 64 \<Longrightarrow>
      length (contents d') < length (contents e')"
proof -
  let ?ds = "chain_descriptors chain" and ?n = "unat (allowed_extent (dev_size_bytes ops d) chain)"
    and ?m = "unat (allowed_extent (dev_size_bytes ops e) chain)"
  note d' = apply_chain_Ok [OF assms(1-3)] and e' = apply_chain_Ok [OF assms(4,2,5)]
  have len: "length (contents d') = ?n" "length (contents e') = ?m"
    using d'(1,2) e'(1,2) by (simp_all add: length_replay del: set_concat)
  have sz: "unat (dev_size_bytes ops d) \<le> unat (dev_size_bytes ops e)" "unat (dev_size_bytes ops e) \<le> ?n"
    using assms(6,7) by (simp_all add: size_law [OF assms(1)] size_law [OF assms(4)])
  note again = allowed_extent_again [OF sz]
  have old: "length (contents d) \<le> ?n" using assms(6,7) by linarith
  have nm: "?n \<le> ?m" by (rule again(1))
  show le: "length (contents d') \<le> length (contents e')" using nm by (simp add: len)
  have "contents e' = replay ?ds (resize ?m (contents e))" using e'(1) by simp
  also have "\<dots> = replay ?ds (resize ?m (contents d))"
  proof (rule replay_agree)
    show "\<forall>i < length (resize ?m (contents d)). (\<forall>f \<in> set ?ds. \<not> in_span f i) \<longrightarrow>
        resize ?m (contents e) ! i = resize ?m (contents d) ! i"
      using assms(6-8) le by (auto simp: resize_grow nth_append len simp del: set_concat)
  qed (use e'(2) in \<open>simp_all del: set_concat\<close>)
  also have "resize ?m (contents d) = resize ?m (resize ?n (contents d))"
    using le old by (simp add: len resize_grow replicate_add [symmetric])
  also have "replay ?ds \<dots> = resize ?m (contents d')"
    using replay_resize [of ?ds "resize ?n (contents d)" ?m] d'(1,2) nm by (simp del: set_concat)
  finally show eq: "contents e' = resize (length (contents e')) (contents d')" by (simp add: len)
  show "contents e' = contents d'" if "claims_honoured (dev_size_bytes ops d) chain"
  proof -
    have "length (contents e') = length (contents d')" using again(2) [OF that] by (simp add: len)
    with eq show ?thesis by (simp add: resize_def)
  qed
  show "length (contents d') < length (contents e')"
    if "\<not> claims_honoured (dev_size_bytes ops d) chain" "length (contents e) = length (contents d')"
      "?ds \<noteq> []" "length ?ds < 2 ^ 64"
    using again(3) [OF that(1) _ growth_room_pos [OF that(3,4)]] that(2) by (simp add: len size_law [OF assms(4)])
qed

end

context reliable_device
begin

lemma apply_descriptor_succeeds:
  assumes "invar d" "desc_end e \<le> length (contents d)"
  shows "is_Ok (fst (apply_descriptor x ops e d))"
proof (cases e)
  case (ZeroDesc z off s)
  then show ?thesis
    using assms write_zeros_succeeds [of d off z]
    by (auto simp: desc_end_def desc_start_def io_return_def io_map_err_def is_Ok_iff split: prod.splits)
next
  case (DataDesc t l off s sec)
  then show ?thesis
    using assms write_succeeds [of d off sec]
    by (auto simp: desc_end_def desc_start_def io_map_err_def is_Ok_iff split: prod.splits)
qed

lemma apply_descriptors_succeed:
  "invar d \<Longrightarrow> \<forall>e \<in> set ds. desc_end e \<le> length (contents d) \<Longrightarrow>
   \<exists>d'. io_foreach (apply_descriptor x ops) ds d = (Ok (), d')"
proof (induction ds arbitrary: d)
  case (Cons e ds)
  obtain d1 where d1: "apply_descriptor x ops e d = (Ok (), d1)"
    using apply_descriptor_succeeds [of d e x] Cons.prems
    by (cases "apply_descriptor x ops e d") (auto simp: is_Ok_iff)
  have "invar d1" "length (contents d1) = length (contents d)"
    using io_keepsD [OF apply_descriptor_keeps _ d1, of "length (contents d)"] Cons.prems(1) by auto
  then show ?case using Cons.IH [of d1] Cons.prems(2) d1 by (simp add: io_bind_def)
qed (simp add: io_return_def)

lemma apply_entries_succeed:
  "invar d \<Longrightarrow> \<forall>e \<in> set (chain_descriptors chain). desc_end e \<le> length (contents d) \<Longrightarrow>
   \<exists>d'. io_foreach (apply_entry x ops) chain d = (Ok (), d')"
proof (induction chain arbitrary: d)
  case (Cons e chain)
  obtain d1 where d1: "io_foreach (apply_descriptor x ops) (le_descriptors e) d = (Ok (), d1)"
    using apply_descriptors_succeed [OF Cons.prems(1), of "le_descriptors e" x] Cons.prems(2) by auto
  have i1: "invar d1" "length (contents d1) = length (contents d)"
    using io_keepsD [OF io_keeps_foreach [OF apply_descriptor_keeps] _ d1, of "length (contents d)"]
      Cons.prems(1) by auto
  obtain d2 where d2: "dev_flush ops d1 = (Ok (), d2)"
    using flush_succeeds [OF i1(1)] by (cases "dev_flush ops d1") (auto simp: is_Ok_iff)
  have i2: "invar d2" "length (contents d2) = length (contents d)"
    using flush_law [OF i1(1) d2] i1(2) by auto
  then obtain d3 where d3: "io_foreach (apply_entry x ops) chain d2 = (Ok (), d3)"
    using Cons.IH [of d2] Cons.prems(2) by auto
  have "apply_entry x ops e d = (Ok (), d2)"
    using d1 d2 by (simp add: apply_entry_def io_bind_def io_map_err_def)
  then show ?case using d3 by (simp add: io_bind_def)
qed (simp add: io_return_def)

lemma apply_chain_succeeds:
  assumes "invar d" "chain_wf chain"
    and "\<forall>e \<in> set (chain_descriptors chain).
      desc_end e \<le> unat (allowed_extent (dev_size_bytes ops d) chain)"
  shows "\<exists>d'. apply_chain x ops chain d = (Ok (), d')"
proof -
  let ?n = "allowed_extent (dev_size_bytes ops d) chain"
  obtain us where chk: "res_map (check_descriptor ?n) (chain_descriptors chain) = Ok us"
    using check_chain_Ok_iff [OF assms(2)] assms(3) by blast
  have "length (contents d) \<le> unat ?n"
    using size_law [OF assms(1)] allowed_extent_ge [of "dev_size_bytes ops d" chain]
    by (simp add: word_le_nat_alt)
  then obtain d1 where d1: "extend_device x ops ?n d = (Ok (), d1)"
    using set_len_succeeds [OF assms(1), of ?n]
    by (cases "dev_size_bytes ops d < ?n"; cases "dev_set_len ops ?n d")
      (auto simp: extend_device_def is_Ok_iff)
  have "invar d1" "length (contents d1) = unat ?n"
    using extend_device_Ok [OF assms(1) d1 allowed_extent_ge] by auto
  then obtain d2 where "io_foreach (apply_entry x ops) chain d1 = (Ok (), d2)"
    using apply_entries_succeed [of d1 chain x] assms(3) by auto
  then show ?thesis using chk d1 by (simp add: apply_chain_def Let_def io_bind_def io_lift_def)
qed

end

end
