(* ===== verification/Reader_Parts.thy ===== *)
theory Reader_Parts
  imports Bat Region_Table Metadata Log_Replay
begin

unbundle bit_operations_syntax

text \<open>
  \<open>src/reader.rs\<close>, the parts the reader is assembled from: the two header slots and their
  rotation, the choice among the two copies of the header and of the region table, the
  checks on where a region may lie, the check that the BAT region covers the disk, and the
  GUID derivation. The lemmas say exactly what each check admits, that the slot picked is
  the valid one with the highest sequence number, and that a rewritten header is the one
  the next open picks.
\<close>

section \<open>Header slots\<close>

datatype header_slot = One | Two

primrec slot_offset :: "header_slot \<Rightarrow> u64" where
  "slot_offset One = HEADER1_OFFSET"
| "slot_offset Two = HEADER2_OFFSET"

primrec slot_other :: "header_slot \<Rightarrow> header_slot" where
  "slot_other One = Two"
| "slot_other Two = One"

abbreviation ONE_MIB :: u64 where "ONE_MIB \<equiv> 1024 * 1024"
abbreviation MIN_BLOCK_SIZE :: u32 where "MIN_BLOCK_SIZE \<equiv> 1024 * 1024"
abbreviation READER_MAX_BLOCK_SIZE :: u32 where "READER_MAX_BLOCK_SIZE \<equiv> 256 * 1024 * 1024"
abbreviation BAT_ENTRY_SIZE :: u64 where "BAT_ENTRY_SIZE \<equiv> 8"

definition reserved_state_message :: "u8 \<Rightarrow> string" where
  "reserved_state_message v =
     (if v = 4 then ''BAT entry reserved state 4''
      else if v = 5 then ''BAT entry reserved state 5''
      else ''BAT entry in a reserved payload state'')"

section \<open>Where a region may lie\<close>

definition span_inside_the_file :: "u64 \<Rightarrow> u64 \<Rightarrow> u64 \<Rightarrow> string \<Rightarrow> (nat, error) res" where
  "span_inside_the_file dev_size offset len outside =
     res_bind (ok_or (checked_add offset len) (Corrupt outside)) (\<lambda>end.
     if dev_size < end then Err (Corrupt outside) else Ok (unat len))"

definition validate_log_region :: "u64 \<Rightarrow> header \<Rightarrow> (unit, error) res" where
  "validate_log_region dev_size h =
     (if hdr_log_length h = 0 then Ok ()
      else
        let len = ucast (hdr_log_length h) in
        if \<not> is_multiple_of (hdr_log_offset h) ONE_MIB \<or> \<not> is_multiple_of len ONE_MIB
        then Err (Corrupt ''log region is not aligned to, or a whole number of, megabytes'')
        else if hdr_log_offset h < ONE_MIB
        then Err (Corrupt ''log region starts inside the file's header section'')
        else
          res_bind (span_inside_the_file dev_size (hdr_log_offset h) len
            ''log region reaches past the end of the file'') (\<lambda>_. Ok ()))"

definition log_region_clear_of_declared_regions :: "region_table \<Rightarrow> header \<Rightarrow> (unit, error) res" where
  "log_region_clear_of_declared_regions regions h =
     (if hdr_log_length h = 0 then Ok ()
      else
        let log_start = hdr_log_offset h;
            log_end = saturating_add log_start (ucast (hdr_log_length h))
        in if list_ex (\<lambda>entry.
                let start = re_file_offset entry;
                    end = saturating_add start (ucast (re_length entry))
                in log_start < end \<and> start < log_end) regions
           then Err (Corrupt ''log region overlaps a region the file declares'')
           else Ok ())"

definition bat_region_covers_the_disk :: "u32 \<Rightarrow> u64 \<Rightarrow> u32 \<Rightarrow> u64 \<Rightarrow> (u64, error) res" where
  "bat_region_covers_the_disk region_len virtual_size block_size chunk_ratio =
     (if \<not> is_multiple_of (ucast region_len) BAT_ENTRY_SIZE
      then Err (Corrupt ''the BAT region's length is not a whole number of 8-byte entries'')
      else if virtual_size = 0 then Ok 0
      else if block_size = 0 then Panic
      else
        let last_block = div_ceil virtual_size (ucast block_size) - 1 in
        res_bind (data_bat_index last_block chunk_ratio) (\<lambda>highest_index.
        res_bind (ok_or (checked_add highest_index 1)
          (Corrupt ''the disk needs more BAT entries than a u64 counts'')) (\<lambda>required_entries.
        let have_entries = ucast region_len div BAT_ENTRY_SIZE in
        if have_entries < required_entries
        then Err (Corrupt ''the BAT region is too short for the disk it describes'')
        else Ok required_entries)))"

section \<open>GUIDs\<close>

definition is_zero_guid :: "guid \<Rightarrow> bool" where
  "is_zero_guid g = list_all (\<lambda>b. b = 0) g"

definition stir_sequence_into_guid :: "guid \<Rightarrow> u64 \<Rightarrow> guid" where
  "stir_sequence_into_guid g seq =
     (let g = take 8 g @ map2 (XOR) (drop 8 g) (to_le_bytes seq) in
      if list_all (\<lambda>b. b = 0) g then g[0 := 1] else g)"

section \<open>Choosing between the copies\<close>

definition pick_header ::
  "ext \<Rightarrow> ('d, 'z) read_ops_scheme \<Rightarrow> 'd \<Rightarrow> u64 \<Rightarrow> (header \<times> header_slot, error) res" where
  "pick_header x ops dev dev_size =
     res_bind (probe_at ops dev dev_size HEADER1_OFFSET HEADER_SIZE (header_parse x)) (\<lambda>h1.
     res_bind (probe_at ops dev dev_size HEADER2_OFFSET HEADER_SIZE (header_parse x)) (\<lambda>h2.
     case (h1, h2) of
       (Some a, Some b) \<Rightarrow>
         if hdr_sequence_number b \<le> hdr_sequence_number a then Ok (a, One) else Ok (b, Two)
     | (Some a, None) \<Rightarrow> Ok (a, One)
     | (None, Some b) \<Rightarrow> Ok (b, Two)
     | (None, None) \<Rightarrow> Err NoValidHeader))"

definition pick_region_table ::
  "ext \<Rightarrow> ('d, 'z) read_ops_scheme \<Rightarrow> 'd \<Rightarrow> u64 \<Rightarrow> (region_table, error) res" where
  "pick_region_table x ops dev dev_size =
     res_bind (probe_at ops dev dev_size REGION_TABLE1_OFFSET REGION_TABLE_SIZE (region_table_parse x))
       (\<lambda>t1. case t1 of
          Some t \<Rightarrow> Ok t
        | None \<Rightarrow>
            res_bind (probe_at ops dev dev_size REGION_TABLE2_OFFSET REGION_TABLE_SIZE
              (region_table_parse x)) (\<lambda>t2.
            ok_or t2 NoValidRegionTable))"

section \<open>Consuming a replayed log\<close>

definition zero_log_region :: "('d, 'z) dev_ops_scheme \<Rightarrow> u64 \<Rightarrow> u32 \<Rightarrow> ('d, unit, error) io" where
  "zero_log_region ops off len =
     io_bind (io_map_err fs_core_to_vhdx_error (write_zeros ops off (ucast len))) (\<lambda>_.
     io_map_err fs_core_to_vhdx_error (dev_flush ops))"

definition rewrite_header_clear_log ::
  "ext \<Rightarrow> ('d, 'z) dev_ops_scheme \<Rightarrow> header \<Rightarrow> header_slot \<Rightarrow> ('d, header \<times> header_slot, error) io" where
  "rewrite_header_clear_log x ops h active_slot =
     (let new_header = h\<lparr> hdr_sequence_number := hdr_sequence_number h + 1,
            hdr_log_guid := replicate 16 0 \<rparr>;
          other = slot_other active_slot
      in
      io_bind (io_lift (encode_header x new_header)) (\<lambda>bytes.
      io_bind (io_map_err fs_core_to_vhdx_error (dev_write_at ops (slot_offset other) bytes)) (\<lambda>_.
      io_bind (io_map_err fs_core_to_vhdx_error (dev_flush ops)) (\<lambda>_.
      io_return (new_header, other)))))"

section \<open>Lemmas: regions\<close>

lemma span_inside_the_file_Ok_iff:
  "span_inside_the_file n off len m = Ok k \<longleftrightarrow> unat off + unat len \<le> unat n \<and> k = unat len"
proof -
  have "unat n < 2 ^ 64" by simp
  then show ?thesis
    by (auto simp: span_inside_the_file_def res_bind_Ok_iff checked_add_Some_iff word_less_nat_alt
        unat_add_no_overflow simp del: unat_lt_u64)
qed

lemma span_inside_the_file_cases:
  "span_inside_the_file n off len m = Ok (unat len) \<or> span_inside_the_file n off len m = Err (Corrupt m)"
  by (cases "checked_add off len") (auto simp: span_inside_the_file_def)

lemma is_multiple_of_mib: "is_multiple_of w ONE_MIB \<longleftrightarrow> 2 ^ 20 dvd unat (w :: u64)"
  by (simp add: is_multiple_of_def word_unat_eq_iff unat_mod mod_eq_0_iff_dvd)

definition log_region_ok :: "u64 \<Rightarrow> header \<Rightarrow> bool" where
  "log_region_ok dev_size h \<longleftrightarrow>
     hdr_log_length h = 0 \<or>
     2 ^ 20 dvd unat (hdr_log_offset h) \<and> 2 ^ 20 dvd unat (hdr_log_length h) \<and>
     2 ^ 20 \<le> unat (hdr_log_offset h) \<and>
     unat (hdr_log_offset h) + unat (hdr_log_length h) \<le> unat dev_size"

lemma validate_log_region_Ok_iff: "validate_log_region n h = Ok () \<longleftrightarrow> log_region_ok n h"
proof (cases "hdr_log_length h = 0")
  case False
  let ?m = "''log region reaches past the end of the file''"
  have "res_bind (span_inside_the_file n (hdr_log_offset h) (ucast (hdr_log_length h)) ?m) (\<lambda>_. Ok ()) = Ok ()
      \<longleftrightarrow> unat (hdr_log_offset h) + unat (hdr_log_length h) \<le> unat n"
    by (simp add: res_bind_Ok_iff span_inside_the_file_Ok_iff)
  then show ?thesis
    using False unfolding validate_log_region_def log_region_ok_def Let_def is_multiple_of_mib
    by (auto simp: word_less_nat_alt not_less)
qed (simp add: validate_log_region_def log_region_ok_def)

lemma validate_log_region_cases:
  "validate_log_region n h = Ok () \<or> (\<exists>m. validate_log_region n h = Err (Corrupt m))"
  using span_inside_the_file_cases [of n "hdr_log_offset h" "ucast (hdr_log_length h)"]
  by (auto simp: validate_log_region_def Let_def res_bind_Ok_iff res_bind_Err_iff)

text \<open>Two spans of the file with no byte in common.\<close>

definition apart_spans :: "nat \<Rightarrow> nat \<Rightarrow> nat \<Rightarrow> nat \<Rightarrow> bool" where
  "apart_spans a n b m \<longleftrightarrow> a + n \<le> b \<or> b + m \<le> a"

lemma log_region_clear_cases:
  "log_region_clear_of_declared_regions t h = Ok () \<or>
   log_region_clear_of_declared_regions t h = Err (Corrupt ''log region overlaps a region the file declares'')"
  by (simp add: log_region_clear_of_declared_regions_def Let_def)

lemma log_region_clear_Ok:
  assumes "log_region_clear_of_declared_regions t h = Ok ()" "hdr_log_length h \<noteq> 0" "e \<in> set t"
    and "unat (hdr_log_offset h) + unat (hdr_log_length h) < 2 ^ 64"
    and "unat (re_file_offset e) + unat (re_length e) < 2 ^ 64"
  shows "apart_spans (unat (hdr_log_offset h)) (unat (hdr_log_length h))
    (unat (re_file_offset e)) (unat (re_length e))"
proof -
  let ?le = "saturating_add (hdr_log_offset h) (ucast (hdr_log_length h))"
  let ?ee = "saturating_add (re_file_offset e) (ucast (re_length e))"
  have "\<not> (hdr_log_offset h < ?ee \<and> re_file_offset e < ?le)"
    using assms(1-3) by (auto simp: log_region_clear_of_declared_regions_def Let_def list_ex_iff
        split: if_splits)
  moreover have "unat ?le = unat (hdr_log_offset h) + unat (hdr_log_length h)"
    "unat ?ee = unat (re_file_offset e) + unat (re_length e)"
    using assms(4,5) by (simp_all add: unat_saturating_add)
  ultimately show ?thesis
    by (auto simp: apart_spans_def word_less_nat_alt)
qed

lemma log_region_clear_refuses:
  assumes "e \<in> set t" "hdr_log_length h \<noteq> 0" "re_length e \<noteq> 0"
    and "\<not> apart_spans (unat (hdr_log_offset h)) (unat (hdr_log_length h))
      (unat (re_file_offset e)) (unat (re_length e))"
    and "unat (hdr_log_offset h) + unat (hdr_log_length h) < 2 ^ 64"
    and "unat (re_file_offset e) + unat (re_length e) < 2 ^ 64"
  shows "log_region_clear_of_declared_regions t h =
    Err (Corrupt ''log region overlaps a region the file declares'')"
  using assms log_region_clear_Ok log_region_clear_cases by blast

section \<open>Lemmas: the BAT covers the disk\<close>

lemma unat_div_ceil:
  assumes "b \<noteq> 0" "a \<noteq> 0"
  shows "unat (div_ceil a b - 1 :: u64) = (unat a - 1) div unat b"
proof -
  have b: "0 < unat b" using assms(1) by (simp add: unat_gt_0)
  have a: "0 < unat a" using assms(2) by (simp add: unat_gt_0)
  show ?thesis
  proof (cases "a mod b = 0")
    case True
    then have m: "unat a mod unat b = 0" by (metis unat_mod unat_0)
    then obtain k where k: "unat a = unat b * k" by (metis mod_eq_0_iff_dvd dvdE)
    then have "0 < k" using a by (cases k) auto
    then have pos: "a div b \<noteq> 0" using k b by (auto simp: word_unat_eq_iff unat_div)
    have "(unat b * k - 1) div unat b = k - 1"
      using b \<open>0 < k\<close> by (intro div_nat_eqI) (auto simp: algebra_simps)
    moreover have "unat (a div b - 1) = unat (a div b) - 1"
      using pos by (metis measure_unat unat_minus_one)
    ultimately show ?thesis
      using True b k by (simp add: div_ceil_def unat_div)
  next
    case False
    then have m: "unat a mod unat b \<noteq> 0" by (auto simp: word_unat_eq_iff unat_mod)
    have "(unat a - 1) div unat b = unat a div unat b"
    proof (rule div_nat_eqI)
      show "unat b * (unat a div unat b) \<le> unat a - 1"
        using m mult_div_mod_eq [of "unat b" "unat a"] by linarith
      show "unat a - 1 < unat b * Suc (unat a div unat b)"
        using b dividend_less_div_times [of "unat b" "unat a"] by (simp add: algebra_simps)
    qed
    then show ?thesis using False by (simp add: div_ceil_def unat_div)
  qed
qed

lemma bat_region_covers_the_disk_Ok:
  assumes "bat_region_covers_the_disk len vs bs cr = Ok n" "vs \<noteq> 0" "2 \<le> unat bs"
  shows "unat n = bat_slot (unat cr) ((unat vs - 1) div unat bs) + 1" "8 * unat n \<le> unat len" "cr \<noteq> 0"
proof -
  let ?last = "div_ceil vs (ucast bs) - 1 :: u64"
  have bs: "(ucast bs :: u64) \<noteq> 0" "bs \<noteq> 0" using assms(3) by (auto simp: word_unat_eq_iff)
  have last: "unat ?last = (unat vs - 1) div unat bs"
    using unat_div_ceil [OF bs(1) assms(2)] by simp
  obtain hi where hi: "data_bat_index ?last cr = (Ok hi :: (u64, error) res)"
    and n: "checked_add hi 1 = Some n" and len: "n \<le> ucast len div 8"
    using assms(1,2) bs(2)
    by (auto simp: bat_region_covers_the_disk_def Let_def res_bind_Ok_iff split: if_splits)
  show cr: "cr \<noteq> 0" using hi by (auto simp: data_bat_index_def)
  have "(unat vs - 1) div unat bs \<le> (unat vs - 1) div 2"
    using assms(3) by (intro div_le_mono2) auto
  moreover have "(unat vs - 1) div 2 < 2 ^ 63"
    using unat_lt_u64 [of vs] by (intro less_mult_imp_div_less) (simp del: unat_lt_u64)
  ultimately have "unat ?last < 2 ^ 63" unfolding last by (rule le_less_trans)
  then obtain i where "data_bat_index ?last cr = (Ok i :: (u64, error) res)"
    "unat i = bat_slot (unat cr) (unat ?last)"
    using data_bat_index_Ok [OF cr] by blast
  then have "unat hi = bat_slot (unat cr) (unat ?last)" using hi by simp
  then show "unat n = bat_slot (unat cr) ((unat vs - 1) div unat bs) + 1"
    using n by (auto simp: last checked_add_Some_iff unat_add_no_overflow)
  show "8 * unat n \<le> unat len"
    using len by (simp add: word_le_nat_alt unat_div)
qed

section \<open>Lemmas: GUIDs\<close>

lemma xor_byte_cancel: "(a XOR b = a XOR c) \<longleftrightarrow> b = (c :: u8)"
  by (metis xor.assoc xor.left_neutral xor_self_eq)

lemma map2_xor_cancel:
  assumes "length a = length b" "length g = length (a :: bytes)"
  shows "map2 (XOR) g a = map2 (XOR) g b \<longleftrightarrow> a = b"
  using assms
proof (induction a b arbitrary: g rule: list_induct2)
  case (Cons x xs y ys)
  then show ?case by (cases g) (auto simp: xor_byte_cancel)
qed simp

lemma length_stir [simp]: "length g = 16 \<Longrightarrow> length (stir_sequence_into_guid g seq) = 16"
  by (simp add: stir_sequence_into_guid_def Let_def)

lemma stir_not_zero: "length g = 16 \<Longrightarrow> \<not> is_zero_guid (stir_sequence_into_guid g seq)"
  by (cases g) (auto simp: stir_sequence_into_guid_def is_zero_guid_def Let_def)

lemma to_le_u64_inj: "to_le_bytes a = to_le_bytes (b :: u64) \<longleftrightarrow> a = b"
  by (metis from_to_le_u64)

lemma take_eight_stir:
  assumes "length g = 16"
  shows "stir_sequence_into_guid g seq =
    (if list_all (\<lambda>b. b = 0) (take 8 g) \<and> drop 8 g = to_le_bytes seq then 1 # replicate 15 0
     else take 8 g @ map2 (XOR) (drop 8 g) (to_le_bytes seq))"
proof -
  let ?h = "take 8 g" and ?t = "drop 8 g" and ?s = "to_le_bytes seq"
  have len: "length ?h = 8" "length ?t = 8" "length ?s = 8" using assms by simp_all
  have "list_all (\<lambda>b. b = 0) (map2 (XOR) t u) \<longleftrightarrow> t = u" if "length t = length u" for t u :: bytes
    using that
  proof (induction t u rule: list_induct2)
    case (Cons a as b bs)
    then show ?case using xor_byte_cancel [of a b a] by auto
  qed simp
  then have z: "list_all (\<lambda>b. b = 0) (?h @ map2 (XOR) ?t ?s) \<longleftrightarrow> list_all (\<lambda>b. b = 0) ?h \<and> ?t = ?s"
    using len by simp
  moreover have "(?h @ map2 (XOR) ?t ?s)[0 := 1] = 1 # replicate 15 0"
    if "list_all (\<lambda>b. b = 0) ?h \<and> ?t = ?s"
  proof -
    have "?h @ map2 (XOR) ?t ?s = replicate 16 0"
      using that z len by (intro replicate_eqI) (auto simp: list_all_iff)
    then show ?thesis by (simp add: numeral_eq_Suc)
  qed
  ultimately show ?thesis by (simp add: stir_sequence_into_guid_def Let_def)
qed

text \<open>A different sequence number gives a different GUID, and a GUID always changes.\<close>

lemma guid_heads_differ:
  assumes "list_all (\<lambda>b. b = 0) (take 8 g)" "length g = 16"
  shows "(1 :: u8) # replicate 15 0 \<noteq> take 8 g @ t"
  using assms by (cases g) auto

lemma stir_inj:
  assumes "length g = 16" "stir_sequence_into_guid g a = stir_sequence_into_guid g b"
  shows "a = b"
proof -
  have x: "map2 (XOR) (drop 8 g) (to_le_bytes a) = map2 (XOR) (drop 8 g) (to_le_bytes b) \<Longrightarrow> a = b"
    using assms(1) map2_xor_cancel [of "to_le_bytes a" "to_le_bytes b" "drop 8 g"]
    by (simp add: to_le_u64_inj)
  let ?z = "list_all (\<lambda>b. b = 0) (take 8 g)"
  consider "?z" "drop 8 g = to_le_bytes a" "drop 8 g = to_le_bytes b"
    | "?z" "drop 8 g = to_le_bytes a" "drop 8 g \<noteq> to_le_bytes b"
    | "?z" "drop 8 g \<noteq> to_le_bytes a" "drop 8 g = to_le_bytes b"
    | "\<not> ?z \<or> drop 8 g \<noteq> to_le_bytes a \<and> drop 8 g \<noteq> to_le_bytes b" by blast
  then show ?thesis
  proof cases
    case 1
    then show ?thesis by (simp add: to_le_u64_inj)
  next
    case 2
    then show ?thesis
      using assms(2) guid_heads_differ [OF 2(1) assms(1)] by (simp add: take_eight_stir [OF assms(1)])
  next
    case 3
    then show ?thesis
      using assms(2) guid_heads_differ [OF 3(1) assms(1), THEN not_sym]
      by (simp add: take_eight_stir [OF assms(1)])
  next
    case 4
    then have "map2 (XOR) (drop 8 g) (to_le_bytes a) = map2 (XOR) (drop 8 g) (to_le_bytes b)"
      using assms(2) unfolding take_eight_stir [OF assms(1)] by auto
    then show ?thesis by (rule x)
  qed
qed

lemma stir_changes:
  assumes "length g = 16" "seq \<noteq> 0"
  shows "stir_sequence_into_guid g seq \<noteq> g"
proof (cases "list_all (\<lambda>b. b = 0) (take 8 g) \<and> drop 8 g = to_le_bytes seq")
  case True
  then have "stir_sequence_into_guid g seq = 1 # replicate 15 0" by (simp add: take_eight_stir [OF assms(1)])
  moreover have "1 # replicate 15 0 \<noteq> take 8 g @ drop 8 g"
    using True assms(1) by (intro guid_heads_differ) auto
  ultimately show ?thesis by (simp only: append_take_drop_id) simp
next
  case False
  then have eq: "stir_sequence_into_guid g seq = take 8 g @ map2 (XOR) (drop 8 g) (to_le_bytes seq)"
    unfolding take_eight_stir [OF assms(1)] by auto
  have zero: "map2 (XOR) t (replicate (length t) 0) = (t :: bytes)" for t
    by (induction t) auto
  have "map2 (XOR) (drop 8 g) (to_le_bytes seq) \<noteq> drop 8 g"
  proof
    assume "map2 (XOR) (drop 8 g) (to_le_bytes seq) = drop 8 g"
    then have "map2 (XOR) (drop 8 g) (to_le_bytes seq) = map2 (XOR) (drop 8 g) (to_le_bytes (0 :: u64))"
      using zero [of "drop 8 g"] assms(1) by simp
    then have "seq = 0"
      using map2_xor_cancel [of "to_le_bytes seq" "to_le_bytes (0 :: u64)" "drop 8 g"] assms(1)
      by (simp add: to_le_u64_inj del: to_le_bytes_zero)
    then show False using assms(2) by simp
  qed
  then show ?thesis
    using append_take_drop_id [of 8 g] by (metis eq same_append_eq)
qed

text \<open>
  Stirring is not free of repetition over several writes: the four sequence numbers from a
  multiple of four on cancel out.
\<close>

lemma stir_four:
  assumes "length g = 16" "\<not> list_all (\<lambda>b. b = 0) (take 8 g)"
  shows "foldl stir_sequence_into_guid g [4, 5, 6, 7] = g"
proof -
  have step: "stir_sequence_into_guid (take 8 g @ t) s = take 8 g @ map2 (XOR) t (to_le_bytes s)"
    if "length t = 8" for t s
    using that assms by (simp add: take_eight_stir)
  obtain t where t: "drop 8 g = t" "length t = 8" using assms(1) by simp
  have le: "to_le_bytes (w :: u64) = word_of_nat (unat w) # replicate 7 0" if "unat w < 256" for w
    using that le_bytes.simps(2) [of 7 "unat w"] by (simp add: to_le_bytes_def)
  have "foldl stir_sequence_into_guid (take 8 g @ t) [4, 5, 6, 7] =
      take 8 g @ map2 (XOR) (map2 (XOR) (map2 (XOR) (map2 (XOR) t (to_le_bytes (4 :: u64)))
        (to_le_bytes (5 :: u64))) (to_le_bytes (6 :: u64))) (to_le_bytes (7 :: u64))"
    by (simp add: step t(2))
  also have "\<dots> = take 8 g @ t"
  proof -
    have byte: "(((b XOR 4) XOR 5) XOR 6) XOR 7 = b" for b :: u8 by (simp add: xor.assoc)
    obtain b bs where "t = b # bs" "length bs = 7" using t(2) by (cases t) auto
    moreover have "map2 (XOR) bs (replicate 7 0) = bs"
      using \<open>length bs = 7\<close> by (intro nth_equalityI) auto
    ultimately show ?thesis by (simp add: le byte)
  qed
  finally show ?thesis using t(1) by (metis append_take_drop_id)
qed

section \<open>Lemmas: header slots\<close>

definition res_some :: "('a, 'e) res \<Rightarrow> 'a option" where
  "res_some r = (case r of Ok a \<Rightarrow> Some a | _ \<Rightarrow> None)"

lemma res_ok_Ok_iff: "res_ok m = Ok r \<longleftrightarrow> m \<noteq> Panic \<and> r = res_some m"
  by (cases m) (auto simp: res_some_def)

text \<open>What a slot of the file holds: its header, if one parses.\<close>

definition slot_start :: "header_slot \<Rightarrow> nat" where
  "slot_start s = unat (slot_offset s)"

definition slot_header :: "ext \<Rightarrow> bytes \<Rightarrow> header_slot \<Rightarrow> header option" where
  "slot_header x c s =
     (if length c < slot_start s + HEADER_SIZE then None
      else res_some (header_parse x (subslice (slot_start s) (slot_start s + HEADER_SIZE) c)))"

lemma slot_start_simps [simp]: "slot_start One = 65536" "slot_start Two = 131072"
  by (simp_all add: slot_start_def)

lemma slot_other_other [simp]: "slot_other (slot_other s) = s"
  by (cases s) auto

lemma slot_header_wf: "slot_header x c s = Some h \<Longrightarrow> header_wf h"
  by (auto simp: slot_header_def res_some_def split: if_splits res.splits dest: header_parse_wf)

text \<open>The choice on the contents: the newest valid slot, the first on a tie.\<close>

definition newest_header :: "ext \<Rightarrow> bytes \<Rightarrow> (header \<times> header_slot) option" where
  "newest_header x c =
     (case (slot_header x c One, slot_header x c Two) of
        (Some a, Some b) \<Rightarrow>
          if hdr_sequence_number b \<le> hdr_sequence_number a then Some (a, One) else Some (b, Two)
      | (Some a, None) \<Rightarrow> Some (a, One)
      | (None, Some b) \<Rightarrow> Some (b, Two)
      | (None, None) \<Rightarrow> None)"

lemma newest_header_Some:
  assumes "newest_header x c = Some (h, s)"
  shows "slot_header x c s = Some h"
    and "slot_header x c (slot_other s) = Some h' \<Longrightarrow> hdr_sequence_number h' \<le> hdr_sequence_number h"
  using assms by (cases s; auto simp: newest_header_def split: option.splits if_splits)+

lemma newest_header_newer:
  assumes "slot_header x c s = Some h"
    and "\<And>h'. slot_header x c (slot_other s) = Some h' \<Longrightarrow> hdr_sequence_number h' < hdr_sequence_number h"
  shows "newest_header x c = Some (h, s)"
  using assms by (cases s) (auto simp: newest_header_def split: option.splits)

lemma newest_header_exists:
  "slot_header x c s = Some h \<Longrightarrow> \<exists>h' s'. newest_header x c = Some (h', s')"
  by (cases s) (auto simp: newest_header_def split: option.splits)

context block_read
begin

lemma probe_at_Ok:
  assumes "invar d" "probe_at ops d (dev_size_bytes ops d) off n parse = Ok r" "unat off + n < 2 ^ 64"
  shows "r = (if length (contents d) < unat off + n then None
    else res_some (parse (subslice (unat off) (unat off + n) (contents d))))"
proof -
  have u: "unat (off + word_of_nat n) = unat off + n"
    using assms(3) by (subst unat_add_no_overflow) (simp_all add: unat_of_nat)
  have c: "dev_size_bytes ops d < off + word_of_nat n \<longleftrightarrow> length (contents d) < unat off + n"
    using size_law [OF assms(1)] by (simp add: word_less_nat_alt u)
  show ?thesis
  proof (cases "length (contents d) < unat off + n")
    case True
    then show ?thesis using assms(2) c by (simp add: probe_at_def)
  next
    case False
    then obtain buf where "dev_read_at ops d off n = Ok buf" "r = res_some (parse buf)"
      using assms(2) c by (auto simp: probe_at_def res_bind_Ok_iff res_ok_Ok_iff)
    then show ?thesis
      using False read_law [OF assms(1) _, of n off buf] assms(3) by simp
  qed
qed

lemma pick_header_Ok:
  assumes "invar d" "pick_header x ops d (dev_size_bytes ops d) = Ok hs"
  shows "newest_header x (contents d) = Some hs"
proof -
  obtain h1 h2 where
    p: "probe_at ops d (dev_size_bytes ops d) HEADER1_OFFSET HEADER_SIZE (header_parse x) = Ok h1"
      "probe_at ops d (dev_size_bytes ops d) HEADER2_OFFSET HEADER_SIZE (header_parse x) = Ok h2"
    and pick: "(case (h1, h2) of
        (Some a, Some b) \<Rightarrow>
          if hdr_sequence_number b \<le> hdr_sequence_number a then Ok (a, One) else Ok (b, Two)
      | (Some a, None) \<Rightarrow> Ok (a, One)
      | (None, Some b) \<Rightarrow> Ok (b, Two)
      | (None, None) \<Rightarrow> Err NoValidHeader) = Ok hs"
    using assms(2) unfolding pick_header_def res_bind_Ok_iff by blast
  have "slot_header x (contents d) One = h1" "slot_header x (contents d) Two = h2"
    using probe_at_Ok [OF assms(1) p(1)] probe_at_Ok [OF assms(1) p(2)]
    by (simp_all add: slot_header_def)
  then show ?thesis
    using pick by (auto simp: newest_header_def split: option.splits if_splits)
qed

end

context block_device
begin

lemma rewrite_header_clear_log_Ok:
  assumes "invar d" "header_wf h" "rewrite_header_clear_log x ops h s d = (Ok (h', s'), d')"
  shows "h' = h\<lparr> hdr_sequence_number := hdr_sequence_number h + 1, hdr_log_guid := replicate 16 0 \<rparr>"
    and "s' = slot_other s" "invar d'" "header_wf h'"
    and "\<exists>b. encode_header x h' = Ok b \<and> slot_start s' + HEADER_SIZE \<le> length (contents d) \<and>
      contents d' = overwrite (slot_start s') b (contents d)"
proof -
  obtain b d1 where h': "h' = h\<lparr> hdr_sequence_number := hdr_sequence_number h + 1,
      hdr_log_guid := replicate 16 0 \<rparr>" and s': "s' = slot_other s"
    and b: "encode_header x h' = Ok b"
    and w: "dev_write_at ops (slot_offset s') b d = (Ok (), d1)"
    and f: "dev_flush ops d1 = (Ok (), d')"
    using assms(3) by (auto simp: rewrite_header_clear_log_def Let_def io_Ok_iffs)
  show "h' = h\<lparr> hdr_sequence_number := hdr_sequence_number h + 1, hdr_log_guid := replicate 16 0 \<rparr>"
    "s' = slot_other s" by fact+
  show wf: "header_wf h'" using assms(2) by (simp add: h' header_wf_def)
  have "invar d1" using write_invar [OF assms(1) w] by simp
  then show "invar d'" using flush_law [OF _ f] by simp
  have "length b = HEADER_SIZE" by (rule encode_header_length [OF wf b])
  then show "\<exists>b. encode_header x h' = Ok b \<and> slot_start s' + HEADER_SIZE \<le> length (contents d) \<and>
      contents d' = overwrite (slot_start s') b (contents d)"
    using write_law [OF assms(1) _ w] flush_law [OF \<open>invar d1\<close> f] b
    by (auto simp: slot_start_def)
qed

end

text \<open>A header written over one slot: that slot holds it, the other is as it was.\<close>

lemma slot_header_overwritten:
  assumes "header_wf h" "encode_header x h = Ok b" "slot_start s + HEADER_SIZE \<le> length c"
  shows "slot_header x (overwrite (slot_start s) b c) s = Some h"
    and "slot_header x (overwrite (slot_start s) b c) (slot_other s) = slot_header x c (slot_other s)"
proof -
  have len: "length b = HEADER_SIZE" by (rule encode_header_length [OF assms(1,2)])
  have "header_parse x b = Ok h"
    using header_parse_encode [OF assms(1), of x] assms(2) by simp
  then show "slot_header x (overwrite (slot_start s) b c) s = Some h"
    using assms(3) len by (simp add: slot_header_def slice_simps res_some_def)
  show "slot_header x (overwrite (slot_start s) b c) (slot_other s) = slot_header x c (slot_other s)"
    using assms(3) len by (cases s) (simp_all add: slot_header_def slice_simps)
qed

lemma slot_header_agree:
  assumes "length c' = length c"
    and "subslice (slot_start s) (slot_start s + HEADER_SIZE) c' =
      subslice (slot_start s) (slot_start s + HEADER_SIZE) c"
  shows "slot_header x c' s = slot_header x c s"
  using assms by (simp add: slot_header_def)

text \<open>The header written to the other slot is the one the next open picks.\<close>

lemma newest_header_rotated:
  assumes "newest_header x c = Some (h, s)" "header_wf h'" "encode_header x h' = Ok b"
    and "slot_start (slot_other s) + HEADER_SIZE \<le> length c"
    and "hdr_sequence_number h < hdr_sequence_number h'"
  shows "newest_header x (overwrite (slot_start (slot_other s)) b c) = Some (h', slot_other s)"
  using assms slot_header_overwritten [OF assms(2,3,4)] newest_header_Some(1) [OF assms(1)]
  by (intro newest_header_newer) auto

text \<open>
  Whatever a torn write left in the other slot, the open picks the header that was current
  or the one in the other slot.
\<close>

lemma newest_header_torn:
  assumes "newest_header x c = Some (h, s)" "length c' = length c"
    and "subslice (slot_start s) (slot_start s + HEADER_SIZE) c' =
      subslice (slot_start s) (slot_start s + HEADER_SIZE) c"
  shows "newest_header x c' = Some (h, s) \<or>
    (\<exists>h'. slot_header x c' (slot_other s) = Some h' \<and> newest_header x c' = Some (h', slot_other s) \<and>
      hdr_sequence_number h \<le> hdr_sequence_number h')"
proof -
  have h: "slot_header x c' s = Some h"
    using slot_header_agree [OF assms(2,3), of x] newest_header_Some(1) [OF assms(1)] by simp
  obtain h' s' where n: "newest_header x c' = Some (h', s')"
    using newest_header_exists [OF h] by blast
  have "s' = s \<or> s' = slot_other s" by (cases s; cases s') auto
  then show ?thesis
    using n h newest_header_Some [OF n] by auto
qed

end
