(* ===== verification/Reader.thy ===== *)
theory Reader
  imports Reader_Parts
begin

unbundle bit_operations_syntax

text \<open>
  \<open>src/reader.rs\<close>, the open reader: its state and the operations on it. The mutexes of the
  struct guard single fields and every operation here runs to its end, so the record holds
  the guarded values themselves; theory \<open>Reader_Threads\<close> interleaves the allocations of several threads. The device
  \<open>dev\<close> is a field of the state and its operations a parameter. A read returns the buffer
  it filled; the bytes a failed read leaves in the caller's buffer are not modelled.
\<close>

section \<open>The state\<close>

record 'd vhdx_reader =
  rd_dev :: 'd
  rd_dev_size :: u64
  rd_header :: header
  rd_active_header_slot :: header_slot
  rd_virtual_size :: u64
  rd_block_size :: u32
  rd_sector_size :: u32
  rd_physical_sector_size :: "u32 option"
  rd_chunk_ratio :: u64
  rd_bat_region_off :: u64
  rd_bat :: "bat_entry list"
  rd_writable :: bool

text \<open>What a caller may ask of an open reader.\<close>

definition reader_virtual_size :: "'d vhdx_reader \<Rightarrow> u64" where
  "reader_virtual_size r = rd_virtual_size r"

definition reader_block_size :: "'d vhdx_reader \<Rightarrow> u32" where
  "reader_block_size r = rd_block_size r"

definition reader_sector_size :: "'d vhdx_reader \<Rightarrow> u32" where
  "reader_sector_size r = rd_sector_size r"

definition reader_physical_sector_size :: "'d vhdx_reader \<Rightarrow> u32 option" where
  "reader_physical_sector_size r = rd_physical_sector_size r"

definition reader_is_writable :: "'d vhdx_reader \<Rightarrow> bool" where
  "reader_is_writable r = rd_writable r"

definition has_parent :: "'d vhdx_reader \<Rightarrow> bool" where
  "has_parent r = False"

text \<open>A device operation, with its error in the crate's vocabulary.\<close>

definition on_dev :: "('d, 'a, fs_error) io \<Rightarrow> ('d vhdx_reader, 'a, error) io" where
  "on_dev m r =
     (case m (rd_dev r) of (res, d) \<Rightarrow> (res_map_err fs_core_to_vhdx_error res, r\<lparr> rd_dev := d \<rparr>))"

definition reader_dev_read ::
  "('d, 'z) dev_ops_scheme \<Rightarrow> 'd vhdx_reader \<Rightarrow> u64 \<Rightarrow> nat \<Rightarrow> (bytes, error) res" where
  "reader_dev_read ops r off n = res_map_err fs_core_to_vhdx_error (dev_read_at ops (rd_dev r) off n)"

definition reader_dev_write ::
  "('d, 'z) dev_ops_scheme \<Rightarrow> u64 \<Rightarrow> bytes \<Rightarrow> ('d vhdx_reader, unit, error) io" where
  "reader_dev_write ops off buf = on_dev (dev_write_at ops off buf)"

definition reader_dev_flush :: "('d, 'z) dev_ops_scheme \<Rightarrow> ('d vhdx_reader, unit, error) io" where
  "reader_dev_flush ops = on_dev (dev_flush ops)"

section \<open>Addresses\<close>

definition host_offset :: "'d vhdx_reader \<Rightarrow> u64 \<Rightarrow> u64 \<Rightarrow> nat \<Rightarrow> (u64, error) res" where
  "host_offset r file_offset in_block len =
     res_bind (ok_or (checked_add file_offset in_block)
       (Corrupt ''BAT entry names an offset past the file'')) (\<lambda>start.
     res_bind (ok_or (checked_add start (word_of_nat len))
       (Corrupt ''BAT entry names an offset past the file'')) (\<lambda>end.
     if rd_dev_size r < end then Err (Corrupt ''BAT entry names an offset past the file'')
     else Ok start))"

definition transfer_end :: "'d vhdx_reader \<Rightarrow> u64 \<Rightarrow> u64 \<Rightarrow> (u64 option, error) res" where
  "transfer_end r offset len =
     (if len = 0 then Ok None
      else
        res_bind (ok_or (checked_add offset len) (Corrupt ''offset+len overflow'')) (\<lambda>end.
        if rd_virtual_size r < end then Err (OutOfBounds offset len (rd_virtual_size r))
        else Ok (Some end)))"

definition bat_entry_at :: "'d vhdx_reader \<Rightarrow> nat \<Rightarrow> (bat_entry, error) res" where
  "bat_entry_at r bat_idx =
     (if bat_idx < length (rd_bat r) then Ok (rd_bat r ! bat_idx)
      else Err (Corrupt ''BAT index out of range''))"

record block_chunk =
  bc_in_block :: u64
  bc_bat_idx :: nat
  bc_buf_pos :: nat
  bc_chunk_len :: nat

function block_chunks_from ::
  "u64 \<Rightarrow> u64 \<Rightarrow> u64 \<Rightarrow> u64 \<Rightarrow> nat \<Rightarrow> (block_chunk list, error) res" where
  "block_chunks_from block_size chunk_ratio end cursor buf_pos =
     (if end \<le> cursor then Ok []
      else if block_size = 0 then Panic
      else
        let in_block = cursor AND (block_size - 1);
            virt_block_idx = cursor div block_size;
            chunk_len = unat (min (block_size - in_block) (end - cursor))
        in
        res_bind (data_bat_index virt_block_idx chunk_ratio) (\<lambda>bat_idx.
        res_bind (block_chunks_from block_size chunk_ratio end (cursor + word_of_nat chunk_len)
          (buf_pos + chunk_len)) (\<lambda>chunks.
        Ok (\<lparr> bc_in_block = in_block, bc_bat_idx = unat bat_idx, bc_buf_pos = buf_pos,
              bc_chunk_len = chunk_len \<rparr> # chunks))))"
  by pat_completeness auto

lemma and_pred_less:
  assumes "b \<noteq> 0"
  shows "c AND (b - 1) < (b :: u64)"
proof -
  have "unat (c AND (b - 1)) \<le> unat (b - 1)"
    by (rule word_and_le1 [THEN word_le_nat_alt [THEN iffD1]])
  also have "\<dots> < unat b"
    using assms by (metis One_nat_def diff_less unat_gt_0 unat_minus_one zero_less_one)
  finally show ?thesis by (simp add: word_less_nat_alt)
qed

lemma chunk_len_bounds:
  assumes "\<not> end \<le> cursor" "b \<noteq> (0 :: u64)"
  shows "0 < min (b - (cursor AND (b - 1))) (end - cursor)"
    "min (b - (cursor AND (b - 1))) (end - cursor) \<le> end - cursor"
proof -
  have "b - (cursor AND (b - 1)) \<noteq> 0" using and_pred_less [OF assms(2), of cursor] by auto
  moreover have "end - cursor \<noteq> 0" using assms(1) by auto
  ultimately show "0 < min (b - (cursor AND (b - 1))) (end - cursor)"
    by (simp add: word_gt_0)
qed simp

termination block_chunks_from
proof (relation "measure (\<lambda>(b, cr, end, cursor, p). unat (end - cursor))", goal_cases)
  case (2 b cr "end" cursor p in_block vb len idx)
  let ?m = "min (b - (cursor AND (b - 1))) (end - cursor)"
  have "unat (end - (cursor + ?m)) = unat (end - cursor) - unat ?m"
    using chunk_len_bounds(2) [OF 2(1,2)] by (simp only: diff_diff_eq [symmetric] unat_sub)
  moreover have "0 < unat ?m" "unat ?m \<le> unat (end - cursor)"
    using chunk_len_bounds [OF 2(1,2)] by (simp_all only: unat_gt_0 word_le_nat_alt)
  ultimately show ?case
    using 2 by simp
qed simp

declare block_chunks_from.simps [simp del]

definition block_chunks :: "'d vhdx_reader \<Rightarrow> u64 \<Rightarrow> u64 \<Rightarrow> (block_chunk list, error) res" where
  "block_chunks r offset end =
     block_chunks_from (ucast (rd_block_size r)) (rd_chunk_ratio r) end offset 0"

section \<open>Reading\<close>

definition read_chunk ::
  "('d, 'z) dev_ops_scheme \<Rightarrow> 'd vhdx_reader \<Rightarrow> block_chunk \<Rightarrow> bytes \<Rightarrow> (bytes, error) res" where
  "read_chunk ops r chunk buf =
     (let lo = bc_buf_pos chunk; hi = bc_buf_pos chunk + bc_chunk_len chunk in
      res_bind (get_slice buf lo hi) (\<lambda>dst.
      res_bind (bat_entry_at r (bc_bat_idx chunk)) (\<lambda>entry.
      case be_state entry of
        FullyPresent \<Rightarrow>
          res_bind (host_offset r (be_file_offset entry) (bc_in_block chunk) (length dst)) (\<lambda>host_off.
          res_bind (reader_dev_read ops r host_off (length dst)) (\<lambda>bytes.
          copy_into buf lo hi bytes))
      | NotPresent \<Rightarrow> copy_into buf lo hi (replicate (length dst) 0)
      | Undefined \<Rightarrow> copy_into buf lo hi (replicate (length dst) 0)
      | ZeroState \<Rightarrow> copy_into buf lo hi (replicate (length dst) 0)
      | Unmapped \<Rightarrow> copy_into buf lo hi (replicate (length dst) 0)
      | PartiallyPresent \<Rightarrow>
          Err (Unsupported ''PartiallyPresent block (sector-bitmap walking not implemented)'')
      | Reserved v \<Rightarrow> Err (Unsupported (reserved_state_message v)))))"

primrec read_chunks ::
  "('d, 'z) dev_ops_scheme \<Rightarrow> 'd vhdx_reader \<Rightarrow> block_chunk list \<Rightarrow> bytes \<Rightarrow> (bytes, error) res" where
  "read_chunks ops r [] buf = Ok buf"
| "read_chunks ops r (c # cs) buf = res_bind (read_chunk ops r c buf) (read_chunks ops r cs)"

definition read_at ::
  "('d, 'z) dev_ops_scheme \<Rightarrow> 'd vhdx_reader \<Rightarrow> u64 \<Rightarrow> bytes \<Rightarrow> (bytes, error) res" where
  "read_at ops r offset buf =
     res_bind (transfer_end r offset (word_of_nat (length buf))) (\<lambda>e.
     case e of
       None \<Rightarrow> Ok buf
     | Some end \<Rightarrow> res_bind (block_chunks r offset end) (\<lambda>chunks. read_chunks ops r chunks buf))"

section \<open>Journalling and allocation\<close>

definition journal_sector_write ::
  "ext \<Rightarrow> ('d, 'z) dev_ops_scheme \<Rightarrow> u64 \<Rightarrow> bytes \<Rightarrow> ('d vhdx_reader, unit, error) io" where
  "journal_sector_write x ops file_offset sector r =
     (let h = rd_header r; active_slot = rd_active_header_slot r in
      if hdr_log_length h = 0 \<or> hdr_log_offset h = 0 \<or> hdr_log_length h < 8192 then (Ok (), r)
      else
        let new_seq = hdr_sequence_number h + 1;
            new_log_guid = stir_sequence_into_guid (hdr_log_guid h) new_seq;
            dev_size = rd_dev_size r
        in
        io_bind (io_lift (encode_entry x new_seq 0 new_log_guid dev_size dev_size
          [\<lparr> pw_file_offset = file_offset, pw_sector = sector \<rparr>])) (\<lambda>entry.
        if unat (hdr_log_length h) < length entry then io_return ()
        else
          io_bind (reader_dev_write ops (hdr_log_offset h) entry) (\<lambda>_.
          io_bind (reader_dev_flush ops) (\<lambda>_.
          let next_slot = slot_other active_slot;
              new_header = h\<lparr> hdr_sequence_number := new_seq, hdr_log_guid := new_log_guid,
                hdr_file_write_guid := stir_sequence_into_guid (hdr_file_write_guid h) new_seq,
                hdr_data_write_guid := stir_sequence_into_guid (hdr_data_write_guid h) new_seq \<rparr>
          in
          io_bind (io_lift (encode_header x new_header)) (\<lambda>header_bytes.
          io_bind (reader_dev_write ops (slot_offset next_slot) header_bytes) (\<lambda>_.
          io_bind (reader_dev_flush ops) (\<lambda>_.
          (\<lambda>r. (Ok (), r\<lparr> rd_header := new_header, rd_active_header_slot := next_slot \<rparr>))))))))
        r)"

text \<open>The tail of the device is claimed: the file is extended, then the recorded size.\<close>

definition claim_tail :: "('d, 'z) dev_ops_scheme \<Rightarrow> ('d vhdx_reader, u64, error) io" where
  "claim_tail ops r =
     (let block_size = ucast (rd_block_size r);
          new_block_off = (rd_dev_size r + (block_size - 1)) AND NOT (block_size - 1);
          new_dev_size = new_block_off + block_size
      in
      io_bind (on_dev (dev_set_len ops new_dev_size)) (\<lambda>_.
      (\<lambda>r. (Ok new_block_off, r\<lparr> rd_dev_size := new_dev_size \<rparr>))) r)"

text \<open>The BAT entry for a block at \<open>new_block_off\<close> is journalled, written and cached.\<close>

definition publish_bat_entry ::
  "ext \<Rightarrow> ('d, 'z) dev_ops_scheme \<Rightarrow> nat \<Rightarrow> u64 \<Rightarrow> ('d vhdx_reader, unit, error) io" where
  "publish_bat_entry x ops bat_idx new_block_off r =
     (let new_raw = (new_block_off AND NOT (push_bit 20 1 - 1)) OR 6;
          entry_off_in_region = word_of_nat bat_idx * BAT_ENTRY_SIZE;
          entry_off_on_disk = rd_bat_region_off r + entry_off_in_region;
          sector_off = entry_off_on_disk AND NOT (word_of_nat LOG_SECTOR_SIZE - 1);
          entry_off_in_sector = unat (entry_off_on_disk - sector_off)
      in
      io_bind (\<lambda>r. (reader_dev_read ops r sector_off LOG_SECTOR_SIZE, r)) (\<lambda>sector.
      io_bind (io_lift (copy_into sector entry_off_in_sector (entry_off_in_sector + 8)
        (to_le_bytes new_raw))) (\<lambda>sector.
      io_bind (journal_sector_write x ops sector_off sector) (\<lambda>_.
      io_bind (reader_dev_write ops sector_off sector) (\<lambda>_.
      io_bind (reader_dev_flush ops) (\<lambda>_.
      (\<lambda>r. if bat_idx < length (rd_bat r)
           then (Ok (), r\<lparr> rd_bat := (rd_bat r)[bat_idx := bat_entry_from_u64 new_raw] \<rparr>)
           else (Panic, r))))))) r)"

definition allocate_block_for ::
  "ext \<Rightarrow> ('d, 'z) dev_ops_scheme \<Rightarrow> nat \<Rightarrow> ('d vhdx_reader, u64, error) io" where
  "allocate_block_for x ops bat_idx r =
     (let block_size = unat (rd_block_size r) in
      io_bind (claim_tail ops) (\<lambda>new_block_off.
      io_bind (reader_dev_write ops new_block_off (replicate block_size 0)) (\<lambda>_.
      io_bind (reader_dev_flush ops) (\<lambda>_.
      io_bind (publish_bat_entry x ops bat_idx new_block_off) (\<lambda>_.
      io_return new_block_off)))) r)"

section \<open>Writing\<close>

definition block_for_write ::
  "ext \<Rightarrow> ('d, 'z) dev_ops_scheme \<Rightarrow> nat \<Rightarrow> bat_entry \<Rightarrow> ('d vhdx_reader, u64, error) io" where
  "block_for_write x ops bat_idx entry =
     (case be_state entry of
        FullyPresent \<Rightarrow> io_return (be_file_offset entry)
      | NotPresent \<Rightarrow> allocate_block_for x ops bat_idx
      | Undefined \<Rightarrow> allocate_block_for x ops bat_idx
      | ZeroState \<Rightarrow> allocate_block_for x ops bat_idx
      | Unmapped \<Rightarrow> allocate_block_for x ops bat_idx
      | PartiallyPresent \<Rightarrow> io_lift (Err (Unsupported
          ''write to a PartiallyPresent block (sector-bitmap walking not implemented)''))
      | Reserved v \<Rightarrow> io_lift (Err (Unsupported (reserved_state_message v))))"

definition write_chunk ::
  "ext \<Rightarrow> ('d, 'z) dev_ops_scheme \<Rightarrow> bytes \<Rightarrow> block_chunk \<Rightarrow> ('d vhdx_reader, unit, error) io" where
  "write_chunk x ops buf chunk =
     io_bind (io_lift (get_slice buf (bc_buf_pos chunk) (bc_buf_pos chunk + bc_chunk_len chunk))) (\<lambda>src.
     io_bind (\<lambda>r. (bat_entry_at r (bc_bat_idx chunk), r)) (\<lambda>entry.
     io_bind (block_for_write x ops (bc_bat_idx chunk) entry) (\<lambda>host_block_off.
     io_bind (\<lambda>r. (host_offset r host_block_off (bc_in_block chunk) (length src), r)) (\<lambda>host_off.
     reader_dev_write ops host_off src))))"

definition write_at ::
  "ext \<Rightarrow> ('d, 'z) dev_ops_scheme \<Rightarrow> u64 \<Rightarrow> bytes \<Rightarrow> ('d vhdx_reader, unit, error) io" where
  "write_at x ops offset buf r =
     (if \<not> rd_writable r then (Err ReadOnly, r)
      else
        io_bind (io_lift (transfer_end r offset (word_of_nat (length buf)))) (\<lambda>e.
        case e of
          None \<Rightarrow> io_return ()
        | Some end \<Rightarrow>
            io_bind (io_lift (block_chunks r offset end)) (\<lambda>chunks.
            io_bind (io_foreach (write_chunk x ops buf) chunks) (\<lambda>_.
            reader_dev_flush ops))) r)"

definition reader_flush :: "('d, 'z) dev_ops_scheme \<Rightarrow> ('d vhdx_reader, unit, error) io" where
  "reader_flush ops r = (if \<not> rd_writable r then (Ok (), r) else reader_dev_flush ops r)"

section \<open>The reader as a block device\<close>

definition reader_ops :: "ext \<Rightarrow> ('d, 'z) dev_ops_scheme \<Rightarrow> 'd vhdx_reader dev_ops" where
  "reader_ops x ops =
     \<lparr> dev_size_bytes = rd_virtual_size,
       dev_read_at = (\<lambda>r offset n.
         res_map_err vhdx_to_fs_core_error (read_at ops r offset (replicate n 0))),
       dev_write_at = (\<lambda>offset buf. io_map_err vhdx_to_fs_core_error (write_at x ops offset buf)),
       dev_flush = io_map_err vhdx_to_fs_core_error (reader_flush ops),
       dev_set_len = (\<lambda>_ r. (Err FsReadOnly, r)),
       dev_is_writable = rd_writable,
       dev_can_grow = (\<lambda>_. False) \<rparr>"

end
