(* ===== verification/Reader_Open.thy ===== *)
theory Reader_Open
  imports Reader
begin

text \<open>
  \<open>src/reader.rs\<close>, \<open>open_inner\<close> and its four callers: opening an image. The one long
  function is a definition per numbered step of its comments, composed in the same order:
  the file identifier, the header, the log region's place, the replay, the region table, the
  consumption of the log, the metadata, the BAT.
\<close>

section \<open>Steps 1 to 2c: identification\<close>

abbreviation FILE_IDENTIFIER_OFFSET :: u64 where "FILE_IDENTIFIER_OFFSET \<equiv> 0"
abbreviation FILE_IDENTIFIER_SIGNATURE :: bytes where
  "FILE_IDENTIFIER_SIGNATURE \<equiv> [0x76, 0x68, 0x64, 0x78, 0x66, 0x69, 0x6C, 0x65]"

definition em_dash :: string where
  "em_dash = [CHR 0xE2, CHR 0x80, CHR 0x94]"

definition check_file_identifier :: "('d, 'z) read_ops_scheme \<Rightarrow> 'd \<Rightarrow> (unit, error) res" where
  "check_file_identifier ops dev =
     res_bind (res_map_err fs_core_to_vhdx_error (dev_read_at ops dev FILE_IDENTIFIER_OFFSET 8)) (\<lambda>sig.
     if sig \<noteq> FILE_IDENTIFIER_SIGNATURE then Err NotVhdx else Ok ())"

definition identify ::
  "ext \<Rightarrow> ('d, 'z) read_ops_scheme \<Rightarrow> 'd \<Rightarrow> u64 \<Rightarrow> (header \<times> header_slot, error) res" where
  "identify x ops dev dev_size =
     res_bind (check_file_identifier ops dev) (\<lambda>_.
     res_bind (pick_header x ops dev dev_size) (\<lambda>(h, active_slot).
     if hdr_log_version h \<noteq> LOG_VERSION_V0
     then Err (Unsupported ''log version other than 0 (this crate parses only the v0 log format)'')
     else
       res_bind (validate_log_region dev_size h) (\<lambda>_.
       res_bind (pick_region_table x ops dev dev_size) (\<lambda>regions_before_replay.
       res_bind (log_region_clear_of_declared_regions regions_before_replay h) (\<lambda>_.
       Ok (h, active_slot))))))"

section \<open>Step 3: replay\<close>

text \<open>The chain pending in the log, empty when there is none.\<close>

definition pending_chain ::
  "ext \<Rightarrow> ('d, 'z) read_ops_scheme \<Rightarrow> 'd \<Rightarrow> u64 \<Rightarrow> header \<Rightarrow> (log_entry list, error) res" where
  "pending_chain x ops dev dev_size h =
     (if \<not> is_zero_guid (hdr_log_guid h) \<and> 0 < hdr_log_length h \<and> 0 < hdr_log_offset h
      then
        res_bind (span_inside_the_file dev_size (hdr_log_offset h) (ucast (hdr_log_length h))
          ''log region reaches past the end of the file'') (\<lambda>n.
        res_bind (res_map_err fs_core_to_vhdx_error (dev_read_at ops dev (hdr_log_offset h) n)) (\<lambda>log_bytes.
        collect_replay_chain x log_bytes (hdr_log_guid h)))
      else Ok [])"

text \<open>The replay; it returns whether a chain was applied and the size of the device after it.\<close>

definition replay_log ::
  "ext \<Rightarrow> ('d, 'z) dev_ops_scheme \<Rightarrow> bool \<Rightarrow> u64 \<Rightarrow> header \<Rightarrow> ('d, bool \<times> u64, error) io" where
  "replay_log x ops replay_capable dev_size h =
     io_bind (\<lambda>dev. (pending_chain x ops dev dev_size h, dev)) (\<lambda>chain.
     if chain = [] then io_return (False, dev_size)
     else if \<not> replay_capable then io_lift (Err LogNeedsReplay)
     else
       io_bind (apply_chain x ops chain) (\<lambda>_.
       io_return (True, replayed_extent dev_size chain)))"

section \<open>Steps 4 to 4c: the region table, and the log marked consumed\<close>

definition governing_regions ::
  "ext \<Rightarrow> ('d, 'z) read_ops_scheme \<Rightarrow> 'd \<Rightarrow> u64 \<Rightarrow> header \<Rightarrow> (region_table, error) res" where
  "governing_regions x ops dev dev_size h =
     res_bind (pick_region_table x ops dev dev_size) (\<lambda>regions.
     if region_unknown_required regions \<noteq> None
     then Err (Unsupported (''a region marked Required whose GUID this crate does not recognise ''
       @ em_dash
       @ '' the file may transform its payload in a way reading it raw would ignore''))
     else
       res_bind (log_region_clear_of_declared_regions regions h) (\<lambda>_.
       Ok regions))"

definition consume_log ::
  "ext \<Rightarrow> ('d, 'z) dev_ops_scheme \<Rightarrow> bool \<Rightarrow> header \<Rightarrow> header_slot \<Rightarrow> ('d, header \<times> header_slot, error) io" where
  "consume_log x ops replayed h active_slot =
     (if replayed
      then
        io_bind (zero_log_region ops (hdr_log_offset h) (hdr_log_length h)) (\<lambda>_.
        rewrite_header_clear_log x ops h active_slot)
      else io_return (h, active_slot))"

section \<open>Step 5: metadata\<close>

record geometry =
  geo_virtual_size :: u64
  geo_block_size :: u32
  geo_sector_size :: u32
  geo_physical_sector_size :: "u32 option"
  geo_chunk_ratio :: u64

definition is_power_of_two :: "u32 \<Rightarrow> bool" where
  "is_power_of_two w \<longleftrightarrow> list_ex (\<lambda>k. w = 2 ^ k) [0..<32]"

definition metadata_item :: "metadata_table \<Rightarrow> guid \<Rightarrow> string \<Rightarrow> (bytes, error) res" where
  "metadata_item t g missing = res_bind (item_data t g) (\<lambda>b. ok_or b (BadMetadata missing))"

definition load_metadata ::
  "('d, 'z) read_ops_scheme \<Rightarrow> 'd \<Rightarrow> u64 \<Rightarrow> region_table \<Rightarrow> (metadata_table, error) res" where
  "load_metadata ops dev dev_size regions =
     res_bind (ok_or (region_find regions guid_METADATA) (Corrupt ''metadata region missing'')) (\<lambda>e.
     res_bind (span_inside_the_file dev_size (re_file_offset e) (ucast (re_length e))
       ''metadata region reaches past the end of the file'') (\<lambda>n.
     res_bind (res_map_err fs_core_to_vhdx_error (dev_read_at ops dev (re_file_offset e) n)) (\<lambda>bytes.
     metadata_table_parse bytes)))"

definition check_geometry ::
  "metadata_table \<Rightarrow> file_parameters \<Rightarrow> u64 \<Rightarrow> u32 \<Rightarrow> u32 option \<Rightarrow> (geometry, error) res" where
  "check_geometry metadata file_params virtual_size sector_size physical_sector_size =
     (if \<not> is_power_of_two (fp_block_size file_params)
      then Err (Corrupt ''block_size not a power of two'')
      else if fp_block_size file_params < MIN_BLOCK_SIZE
              \<or> READER_MAX_BLOCK_SIZE < fp_block_size file_params
      then Err (Corrupt ''block_size outside [1 MiB, 256 MiB]'')
      else if sector_size \<noteq> 512 \<and> sector_size \<noteq> 4096
      then Err (Corrupt ''sector_size must be 512 or 4096'')
      else if fp_has_parent file_params
      then Err (Unsupported (''a differencing VHDX (one with a parent chain), which this crate does not ''
        @ ''implement '' @ em_dash @ '' the data lives partly in the parent, so reading this file ''
        @ ''alone would serve zeros for everything the parent still owns''))
      else if metadata_unknown_required metadata \<noteq> None
      then Err (Unsupported (''a metadata item marked Required whose GUID this crate does not recognise ''
        @ em_dash @ '' the file needs something to be read correctly that this crate does not implement''))
      else
        res_bind (chunk_ratio_of (fp_block_size file_params) sector_size) (\<lambda>chunk_ratio.
        if chunk_ratio = 0 then Err (Corrupt ''chunk_ratio = 0'')
        else Ok \<lparr> geo_virtual_size = virtual_size,
                  geo_block_size = fp_block_size file_params,
                  geo_sector_size = sector_size,
                  geo_physical_sector_size = physical_sector_size,
                  geo_chunk_ratio = chunk_ratio \<rparr>))"

definition read_geometry ::
  "('d, 'z) read_ops_scheme \<Rightarrow> 'd \<Rightarrow> u64 \<Rightarrow> region_table \<Rightarrow> (geometry, error) res" where
  "read_geometry ops dev dev_size regions =
     res_bind (load_metadata ops dev dev_size regions) (\<lambda>metadata.
     res_bind (metadata_item metadata FILE_PARAMETERS ''FileParameters item missing'') (\<lambda>fpb.
     res_bind (file_parameters_parse fpb) (\<lambda>file_params.
     res_bind (metadata_item metadata VIRTUAL_DISK_SIZE ''VirtualDiskSize item missing'') (\<lambda>vsb.
     res_bind (read_virtual_disk_size vsb) (\<lambda>virtual_size.
     res_bind (metadata_item metadata LOGICAL_SECTOR_SIZE ''LogicalSectorSize item missing'') (\<lambda>ssb.
     res_bind (read_sector_size ssb) (\<lambda>sector_size.
     res_bind (item_data metadata PHYSICAL_SECTOR_SIZE) (\<lambda>psb.
     res_bind (case psb of None \<Rightarrow> Ok None | Some b \<Rightarrow> res_ok (read_sector_size b))
       (\<lambda>physical_sector_size.
     check_geometry metadata file_params virtual_size sector_size physical_sector_size)))))))))"

section \<open>Step 6: the BAT\<close>

primrec bat_from_bytes :: "nat \<Rightarrow> bytes \<Rightarrow> bat_entry list" where
  "bat_from_bytes 0 bytes = []"
| "bat_from_bytes (Suc n) bytes =
     bat_entry_from_u64 (from_le_bytes (take 8 bytes)) # bat_from_bytes n (drop 8 bytes)"

definition load_bat ::
  "('d, 'z) read_ops_scheme \<Rightarrow> 'd \<Rightarrow> u64 \<Rightarrow> region_table \<Rightarrow> geometry \<Rightarrow> (u64 \<times> bat_entry list, error) res" where
  "load_bat ops dev dev_size regions geo =
     res_bind (ok_or (region_find regions guid_BAT) (Corrupt ''BAT region missing'')) (\<lambda>bat_region.
     res_bind (span_inside_the_file dev_size (re_file_offset bat_region) (ucast (re_length bat_region))
       ''BAT region reaches past the end of the file'') (\<lambda>_.
     res_bind (bat_region_covers_the_disk (re_length bat_region) (geo_virtual_size geo)
       (geo_block_size geo) (geo_chunk_ratio geo)) (\<lambda>entries.
     res_bind (ok_or (checked_mul entries BAT_ENTRY_SIZE)
       (Corrupt ''the BAT is larger than this platform can hold'')) (\<lambda>bat_len.
     res_bind (res_map_err fs_core_to_vhdx_error
       (dev_read_at ops dev (re_file_offset bat_region) (unat bat_len))) (\<lambda>bat_bytes.
     Ok (re_file_offset bat_region, bat_from_bytes (length bat_bytes div 8) bat_bytes))))))"

section \<open>Opening\<close>

definition new_reader ::
  "bool \<Rightarrow> u64 \<Rightarrow> header \<Rightarrow> header_slot \<Rightarrow> geometry \<Rightarrow> u64 \<Rightarrow> bat_entry list \<Rightarrow> 'd \<Rightarrow> 'd vhdx_reader" where
  "new_reader writable dev_size h active_slot geo bat_region_off bat dev =
     \<lparr> rd_dev = dev,
       rd_dev_size = dev_size,
       rd_header = h,
       rd_active_header_slot = active_slot,
       rd_virtual_size = geo_virtual_size geo,
       rd_block_size = geo_block_size geo,
       rd_sector_size = geo_sector_size geo,
       rd_physical_sector_size = geo_physical_sector_size geo,
       rd_chunk_ratio = geo_chunk_ratio geo,
       rd_bat_region_off = bat_region_off,
       rd_bat = bat,
       rd_writable = writable \<rparr>"

definition open_sized ::
  "ext \<Rightarrow> ('d, 'z) dev_ops_scheme \<Rightarrow> bool \<Rightarrow> bool \<Rightarrow> u64 \<Rightarrow> ('d, 'd vhdx_reader, error) io" where
  "open_sized x ops writable replay_capable dev_size =
     io_bind (\<lambda>dev. (identify x ops dev dev_size, dev)) (\<lambda>(h, active_slot).
     io_bind (replay_log x ops replay_capable dev_size h) (\<lambda>(replayed, dev_size).
     io_bind (\<lambda>dev. (governing_regions x ops dev dev_size h, dev)) (\<lambda>regions.
     io_bind (consume_log x ops replayed h active_slot) (\<lambda>(h, active_slot).
     io_bind (\<lambda>dev. (read_geometry ops dev dev_size regions, dev)) (\<lambda>geo.
     io_bind (\<lambda>dev. (load_bat ops dev dev_size regions geo, dev)) (\<lambda>(bat_region_off, bat).
     (\<lambda>dev. (Ok (new_reader writable dev_size h active_slot geo bat_region_off bat dev), dev))))))))"

definition open_inner ::
  "ext \<Rightarrow> ('d, 'z) dev_ops_scheme \<Rightarrow> bool \<Rightarrow> bool \<Rightarrow> ('d, 'd vhdx_reader, error) io" where
  "open_inner x ops writable replay_capable dev =
     open_sized x ops writable replay_capable (dev_size_bytes ops dev) dev"

definition open_on_device :: "ext \<Rightarrow> ('d, 'z) dev_ops_scheme \<Rightarrow> ('d, 'd vhdx_reader, error) io" where
  "open_on_device x ops dev = open_inner x ops False (dev_is_writable ops dev) dev"

definition open_rw_on_device :: "ext \<Rightarrow> ('d, 'z) dev_ops_scheme \<Rightarrow> ('d, 'd vhdx_reader, error) io" where
  "open_rw_on_device x ops dev =
     (if \<not> dev_is_writable ops dev then (Err ReadOnly, dev) else open_inner x ops True True dev)"

text \<open>
  The two openers by path: what \<open>FileDevice\<close> returns for the path is an argument.
\<close>

definition open_path ::
  "ext \<Rightarrow> ('d, 'z) dev_ops_scheme \<Rightarrow> ('d, fs_error) res \<Rightarrow> ('d vhdx_reader, error) res" where
  "open_path x ops open_best_effort =
     res_bind (res_map_err fs_core_to_vhdx_error open_best_effort) (\<lambda>dev.
     fst (open_inner x ops False (dev_is_writable ops dev) dev))"

definition open_rw_path ::
  "ext \<Rightarrow> ('d, 'z) dev_ops_scheme \<Rightarrow> ('d, fs_error) res \<Rightarrow> ('d vhdx_reader, error) res" where
  "open_rw_path x ops open_rw =
     res_bind (res_map_err fs_core_to_vhdx_error open_rw) (\<lambda>dev. fst (open_inner x ops True True dev))"

end
