(* ===== verification/Reader_Read.thy ===== *)
theory Reader_Read
  imports Reader
begin

unbundle bit_operations_syntax

text \<open>
  The reading side of the open reader. The virtual disk a reader presents is the function
  \<open>vbyte\<close>: the byte at a virtual offset comes from the block its BAT entry names, or is
  zero. The lemmas say that a transfer is cut into pieces that tile it, one block each, and
  that a successful read returns exactly the bytes of the virtual disk.
\<close>

section \<open>Geometry\<close>

definition block_size_ok :: "u32 \<Rightarrow> bool" where
  "block_size_ok bs \<longleftrightarrow> (\<exists>k. 20 \<le> k \<and> k \<le> 28 \<and> unat bs = 2 ^ k)"

abbreviation block_bytes :: "'d vhdx_reader \<Rightarrow> nat" where
  "block_bytes r \<equiv> unat (rd_block_size r)"

definition slot_of :: "'d vhdx_reader \<Rightarrow> nat \<Rightarrow> nat" where
  "slot_of r v = bat_slot (unat (rd_chunk_ratio r)) (v div block_bytes r)"

definition geometry_ok :: "'d vhdx_reader \<Rightarrow> bool" where
  "geometry_ok r \<longleftrightarrow>
     block_size_ok (rd_block_size r) \<and> rd_chunk_ratio r \<noteq> 0 \<and>
     (\<forall>v < unat (rd_virtual_size r). slot_of r v < length (rd_bat r))"

text \<open>The bytes of the virtual disk, given the contents of the device.\<close>

definition vbyte :: "'d vhdx_reader \<Rightarrow> bytes \<Rightarrow> nat \<Rightarrow> u8" where
  "vbyte r c v =
     (let e = rd_bat r ! slot_of r v in
      if be_state e = FullyPresent then c ! (unat (be_file_offset e) + v mod block_bytes r) else 0)"

definition vdisk :: "'d vhdx_reader \<Rightarrow> bytes \<Rightarrow> bytes" where
  "vdisk r c = map (vbyte r c) [0..<unat (rd_virtual_size r)]"

lemma length_vdisk [simp]: "length (vdisk r c) = unat (rd_virtual_size r)"
  by (simp add: vdisk_def)

lemma nth_vdisk [simp]: "v < unat (rd_virtual_size r) \<Longrightarrow> vdisk r c ! v = vbyte r c v"
  by (simp add: vdisk_def)

lemma block_size_okD:
  assumes "block_size_ok bs"
  obtains k where "20 \<le> k" "k \<le> 28" "unat bs = 2 ^ k"
  using assms by (auto simp: block_size_ok_def)

lemma block_size_ok_pos: "block_size_ok bs \<Longrightarrow> 2 \<le> unat bs"
  by (erule block_size_okD) (metis one_le_numeral order_trans power_increasing power_one_right)

text \<open>Masking with the block size less one is the remainder.\<close>

lemma and_block_mask:
  assumes "unat b = 2 ^ k" "k < 64"
  shows "unat (c AND (b - 1) :: u64) = unat c mod unat b"
proof -
  have "b = word_of_nat (unat b)" by simp
  also have "\<dots> = 2 ^ k" by (simp only: assms(1) of_nat_power of_nat_numeral)
  finally have "c AND (b - 1) = take_bit k c"
    by (simp add: take_bit_eq_mask mask_eq_exp_minus_1)
  then show ?thesis
    using assms(1) by (simp only: unsigned_take_bit_eq) (simp add: take_bit_eq_mod)
qed

section \<open>Cutting a transfer\<close>

primrec tiles :: "nat \<Rightarrow> nat \<Rightarrow> nat \<Rightarrow> nat \<Rightarrow> nat \<Rightarrow> block_chunk list \<Rightarrow> bool" where
  "tiles bs cr end cursor p [] \<longleftrightarrow> cursor = end"
| "tiles bs cr end cursor p (c # cs) \<longleftrightarrow>
     cursor < end \<and>
     unat (bc_in_block c) = cursor mod bs \<and>
     bc_bat_idx c = bat_slot cr (cursor div bs) \<and>
     bc_buf_pos c = p \<and>
     bc_chunk_len c = min (bs - cursor mod bs) (end - cursor) \<and>
     tiles bs cr end (cursor + bc_chunk_len c) (p + bc_chunk_len c) cs"

lemma block_chunks_from_tiles:
  assumes "unat b = 2 ^ k" "0 < k" "k < 64" "cr \<noteq> 0" "unat cursor \<le> unat end"
  shows "\<exists>cs. block_chunks_from b cr end cursor p = Ok cs \<and>
    tiles (unat b) (unat cr) (unat end) (unat cursor) p cs"
  using assms(5)
proof (induction "unat end - unat cursor" arbitrary: cursor p rule: less_induct)
  case less
  show ?case
  proof (cases "end \<le> cursor")
    case True
    then have "unat cursor = unat end" using less.prems by (simp add: word_le_nat_alt)
    then show ?thesis using True by (subst block_chunks_from.simps) simp
  next
    case False
    define in_block where "in_block = cursor AND (b - 1)"
    define m where "m = min (b - in_block) (end - cursor)"
    have b0: "b \<noteq> 0" using assms(1) by (auto simp: word_unat_eq_iff)
    have lt: "unat cursor < unat end" using False by (simp add: word_le_nat_alt)
    have ib: "unat in_block = unat cursor mod unat b"
      unfolding in_block_def by (rule and_block_mask [OF assms(1,3)])
    have "in_block \<le> b" "cursor \<le> end"
      using and_pred_less [OF b0, of cursor] lt
      by (simp_all add: in_block_def word_le_nat_alt word_less_nat_alt)
    then have um: "unat m = min (unat b - unat cursor mod unat b) (unat end - unat cursor)"
      by (simp add: m_def unat_sub ib min_def word_le_nat_alt)
    have m: "0 < unat m" "unat m \<le> unat end - unat cursor"
      using lt assms(1) unfolding um by simp_all
    have next': "unat (cursor + m) = unat cursor + unat m"
      using m(2) lt unat_lt_u64 [of "end"]
      by (subst unat_add_no_overflow) (simp_all del: unat_lt_u64)
    have "2 \<le> unat b" using assms(1,2) by (cases k) auto
    then have "unat cursor div unat b \<le> unat cursor div 2" by (intro div_le_mono2) auto
    also have "\<dots> < 2 ^ 63"
      using unat_lt_u64 [of cursor] by (intro less_mult_imp_div_less) (simp del: unat_lt_u64)
    finally obtain idx where idx: "data_bat_index (cursor div b) cr = (Ok idx :: (u64, error) res)"
      "unat idx = bat_slot (unat cr) (unat cursor div unat b)"
      using data_bat_index_Ok [OF assms(4), of "cursor div b"] by (auto simp: unat_div)
    obtain cs where cs: "block_chunks_from b cr end (cursor + m) (p + unat m) = Ok cs"
      "tiles (unat b) (unat cr) (unat end) (unat cursor + unat m) (p + unat m) cs"
    proof -
      have "unat end - unat (cursor + m) < unat end - unat cursor" "unat (cursor + m) \<le> unat end"
        using m lt unfolding next' by linarith+
      from less.hyps [OF this, of "p + unat m"] show ?thesis using that by (auto simp: next')
    qed
    have "block_chunks_from b cr end cursor p =
      Ok (\<lparr> bc_in_block = in_block, bc_bat_idx = unat idx, bc_buf_pos = p, bc_chunk_len = unat m \<rparr> # cs)"
      using False b0 idx(1) cs(1)
      by (subst block_chunks_from.simps) (simp add: Let_def in_block_def m_def)
    then show ?thesis
      using lt ib idx(2) cs(2) um by simp
  qed
qed

lemma transfer_end_Ok_iff:
  "transfer_end r off len = Ok e \<longleftrightarrow>
    (if len = 0 then e = None
     else unat off + unat len \<le> unat (rd_virtual_size r) \<and> e = Some (off + len))"
proof -
  have "unat (rd_virtual_size r) < 2 ^ 64" by simp
  then show ?thesis
    by (auto simp: transfer_end_def res_bind_Ok_iff checked_add_Some_iff word_less_nat_alt
        unat_add_no_overflow simp del: unat_lt_u64)
qed

lemma host_offset_Ok_iff:
  assumes "n < 2 ^ 64"
  shows "host_offset r fo ib n = Ok h \<longleftrightarrow>
    unat fo + unat ib + n \<le> unat (rd_dev_size r) \<and> h = fo + ib"
proof -
  have "unat (rd_dev_size r) < 2 ^ 64" by simp
  then show ?thesis
    using assms
    by (auto simp: host_offset_def res_bind_Ok_iff checked_add_Some_iff word_less_nat_alt
        unat_add_no_overflow unat_of_nat simp del: unat_lt_u64)
qed

lemma host_offset_cases:
  "(\<exists>h. host_offset r fo ib n = Ok h) \<or>
   host_offset r fo ib n = Err (Corrupt ''BAT entry names an offset past the file'')"
proof (cases "checked_add fo ib")
  case (Some s)
  then show ?thesis
    by (cases "checked_add s (word_of_nat n)") (auto simp: host_offset_def)
qed (simp add: host_offset_def)

section \<open>Reading\<close>

text \<open>A read changes one piece of the buffer, and fills it with the virtual disk's bytes.\<close>

definition filled :: "(nat \<Rightarrow> u8) \<Rightarrow> nat \<Rightarrow> nat \<Rightarrow> nat \<Rightarrow> bytes \<Rightarrow> bytes \<Rightarrow> bool" where
  "filled f v n p buf buf' \<longleftrightarrow>
     length buf' = length buf \<and>
     (\<forall>i < length buf. buf' ! i = (if p \<le> i \<and> i < p + n then f (v + (i - p)) else buf ! i))"

lemma filled_overwrite:
  assumes "length bs = n" "p + n \<le> length buf" "\<And>j. j < n \<Longrightarrow> bs ! j = f (v + j)"
  shows "filled f v n p buf (overwrite p bs buf)"
  using assms by (auto simp: filled_def nth_overwrite)

lemma filled_split:
  assumes "filled f v n p buf buf1" "filled f (v + n) m (p + n) buf1 buf'"
  shows "filled f v (n + m) p buf buf'"
proof -
  have "v + n + (i - (p + n)) = v + (i - p)" if "p + n \<le> i" for i using that by simp
  then show ?thesis using assms by (auto simp: filled_def)
qed

text \<open>Within a piece the block and its slot do not change.\<close>

lemma within_block:
  fixes bs j v :: nat
  assumes "0 < bs" "j < bs - v mod bs"
  shows "(v + j) div bs = v div bs" "(v + j) mod bs = v mod bs + j"
proof -
  have "v + j = v div bs * bs + (v mod bs + j)" using div_mult_mod_eq [of v bs] by linarith
  moreover have "v mod bs + j < bs" using assms by linarith
  ultimately show "(v + j) div bs = v div bs" "(v + j) mod bs = v mod bs + j"
    by (metis add.right_neutral assms(1) div_less div_mult_self3 less_not_refl2,
        metis mod_less mod_mult_self3)
qed

lemma vbyte_within:
  assumes "0 < block_bytes r" "j < block_bytes r - v mod block_bytes r"
  shows "vbyte r c (v + j) =
    (let e = rd_bat r ! slot_of r v in
     if be_state e = FullyPresent then c ! (unat (be_file_offset e) + (v mod block_bytes r + j)) else 0)"
  using within_block [OF assms] by (simp add: vbyte_def slot_of_def Let_def)

context block_device
begin

lemma read_chunk_Ok:
  assumes "invar (rd_dev r)" "geometry_ok r" "read_chunk ops r ch buf = Ok buf'"
    and "unat (bc_in_block ch) = v mod block_bytes r" "bc_bat_idx ch = slot_of r v"
    and "bc_chunk_len ch \<le> block_bytes r - v mod block_bytes r" "length buf < 2 ^ 64"
  shows "filled (vbyte r (contents (rd_dev r))) v (bc_chunk_len ch) (bc_buf_pos ch) buf buf'"
proof -
  let ?p = "bc_buf_pos ch" and ?n = "bc_chunk_len ch" and ?e = "rd_bat r ! slot_of r v"
  have pos: "0 < block_bytes r"
    using assms(2) block_size_ok_pos by (fastforce simp: geometry_ok_def)
  have fits: "?p + ?n \<le> length buf"
    using assms(3) by (auto simp: read_chunk_def Let_def res_bind_Ok_iff get_slice_Ok_iff)
  have vb: "vbyte r c (v + j) = (if be_state ?e = FullyPresent
      then c ! (unat (be_file_offset ?e) + (v mod block_bytes r + j)) else 0)" if "j < ?n" for c j
    using vbyte_within [OF pos, of j v c] that assms(6) by (simp add: Let_def)
  have n: "?n < 2 ^ 64" using fits assms(7) by simp
  have dl: "length (subslice ?p (?p + ?n) buf) = ?n" using fits by simp
  consider (full) h bs where "be_state ?e = FullyPresent"
      "host_offset r (be_file_offset ?e) (bc_in_block ch) ?n = Ok h"
      "dev_read_at ops (rd_dev r) h ?n = Ok bs" "buf' = overwrite ?p bs buf" "length bs = ?n"
    | (zero) "be_state ?e \<noteq> FullyPresent" "buf' = overwrite ?p (replicate ?n 0) buf"
    using assms(3,5) fits
    by (cases "be_state ?e") (auto simp: read_chunk_def Let_def res_bind_Ok_iff bat_entry_at_def
        reader_dev_read_def copy_into_def dl simp del: length_subslice split: if_splits)
  then show ?thesis
  proof cases
    case full
    have h: "unat (be_file_offset ?e) + v mod block_bytes r + ?n \<le> unat (rd_dev_size r)"
      "h = be_file_offset ?e + bc_in_block ch"
      using host_offset_Ok_iff [OF n, THEN iffD1, OF full(2)] assms(4) by simp_all
    have uh: "unat h = unat (be_file_offset ?e) + v mod block_bytes r"
      using h unat_lt_u64 [of "rd_dev_size r"] assms(4)
      by (simp add: unat_add_no_overflow del: unat_lt_u64)
    have bs: "bs = subslice (unat h) (unat h + ?n) (contents (rd_dev r))"
      using read_law [OF assms(1) n full(3)] by blast
    show ?thesis
      unfolding full(4)
    proof (rule filled_overwrite [OF full(5) fits])
      fix j assume j: "j < ?n"
      then have "unat h + ?n \<le> length (contents (rd_dev r))"
        using read_in_bounds [OF assms(1) n full(3)] by simp
      then show "bs ! j = vbyte r (contents (rd_dev r)) (v + j)"
        using j full(1) by (simp add: bs vb nth_subslice uh add.assoc)
    qed
  next
    case zero
    show ?thesis
      unfolding zero(2) using fits zero(1) by (intro filled_overwrite) (simp_all add: vb)
  qed
qed

lemma read_chunks_Ok:
  assumes "invar (rd_dev r)" "geometry_ok r" "length buf < 2 ^ 64"
    and "tiles (block_bytes r) (unat (rd_chunk_ratio r)) e v p cs" "read_chunks ops r cs buf = Ok buf'"
  shows "filled (vbyte r (contents (rd_dev r))) v (e - v) p buf buf'"
  using assms(3-5)
proof (induction cs arbitrary: v p buf)
  case Nil
  then show ?case by (auto simp: filled_def)
next
  case (Cons ch cs)
  let ?f = "vbyte r (contents (rd_dev r))" and ?n = "bc_chunk_len ch"
  obtain buf1 where c: "read_chunk ops r ch buf = Ok buf1" "read_chunks ops r cs buf1 = Ok buf'"
    using Cons.prems(3) by (auto simp: res_bind_Ok_iff)
  have t: "v < e" "unat (bc_in_block ch) = v mod block_bytes r" "bc_bat_idx ch = slot_of r v"
    "bc_buf_pos ch = p" "?n = min (block_bytes r - v mod block_bytes r) (e - v)"
    "tiles (block_bytes r) (unat (rd_chunk_ratio r)) e (v + ?n) (p + ?n) cs"
    using Cons.prems(2) by (auto simp: slot_of_def)
  have f1: "filled ?f v ?n p buf buf1"
    using read_chunk_Ok [OF assms(1,2) c(1) t(2,3)] Cons.prems(1) t(4,5) by simp
  have "filled ?f (v + ?n) (e - (v + ?n)) (p + ?n) buf1 buf'"
    using Cons.IH [OF _ t(6) c(2)] f1 Cons.prems(1) by (simp add: filled_def)
  from filled_split [OF f1 this] show ?case using t(1,5) by simp
qed

lemma read_at_Ok:
  assumes "invar (rd_dev r)" "geometry_ok r" "length buf < 2 ^ 64" "read_at ops r off buf = Ok bs"
  shows "(buf \<noteq> [] \<longrightarrow> unat off + length buf \<le> unat (rd_virtual_size r)) \<and>
    length bs = length buf \<and>
    (\<forall>i < length buf. bs ! i = vbyte r (contents (rd_dev r)) (unat off + i))"
proof (cases "buf = []")
  case True
  then show ?thesis using assms(4) by (simp add: read_at_def transfer_end_def)
next
  case False
  let ?len = "word_of_nat (length buf) :: u64"
  have len: "unat ?len = length buf" "?len \<noteq> 0"
    using assms(3) False by (simp_all add: unat_of_nat word_unat_eq_iff)
  obtain cs where e: "unat off + length buf \<le> unat (rd_virtual_size r)"
    and cs: "block_chunks r off (off + ?len) = Ok cs" "read_chunks ops r cs buf = Ok bs"
    using assms(4) len by (auto simp: read_at_def res_bind_Ok_iff transfer_end_Ok_iff)
  have ue: "unat (off + ?len) = unat off + length buf"
    using e len(1) unat_lt_u64 [of "rd_virtual_size r"] by (simp add: unat_add_no_overflow del: unat_lt_u64)
  obtain k where k: "20 \<le> k" "k \<le> 28" "block_bytes r = 2 ^ k"
    using assms(2) by (auto simp: geometry_ok_def elim: block_size_okD)
  have "tiles (block_bytes r) (unat (rd_chunk_ratio r)) (unat off + length buf) (unat off) 0 cs"
    using block_chunks_from_tiles [of "ucast (rd_block_size r)" k "rd_chunk_ratio r" off "off + ?len" 0]
      k assms(2) cs(1) ue by (auto simp: block_chunks_def geometry_ok_def)
  from read_chunks_Ok [OF assms(1-3) this cs(2)] show ?thesis
    using e by (simp add: filled_def)
qed

end

section \<open>When a read succeeds\<close>

definition readable :: "'d vhdx_reader \<Rightarrow> nat \<Rightarrow> bool" where
  "readable r v \<longleftrightarrow>
     (let e = rd_bat r ! slot_of r v in
      zero_fill (be_state e) \<or>
      be_state e = FullyPresent \<and> unat (be_file_offset e) + block_bytes r \<le> unat (rd_dev_size r))"

lemma tiles_buf:
  "tiles bs cr e v p cs \<Longrightarrow> 0 < bs \<Longrightarrow> c \<in> set cs \<Longrightarrow>
   \<exists>w. v \<le> w \<and> w < e \<and> bc_buf_pos c = p + (w - v) \<and> bc_chunk_len c \<le> e - w \<and>
     bc_chunk_len c \<le> bs - w mod bs \<and> unat (bc_in_block c) = w mod bs \<and>
     bc_bat_idx c = bat_slot cr (w div bs)"
proof (induction cs arbitrary: v p)
  case (Cons a cs)
  show ?case
  proof (cases "c = a")
    case True
    then show ?thesis using Cons.prems by (intro exI [of _ v]) auto
  next
    case False
    then have "c \<in> set cs" "tiles bs cr e (v + bc_chunk_len a) (p + bc_chunk_len a) cs"
      using Cons.prems(1,3) by auto
    from Cons.IH [OF this(2) Cons.prems(2) this(1)] obtain w where w: "v + bc_chunk_len a \<le> w"
      "w < e" "bc_buf_pos c = p + bc_chunk_len a + (w - (v + bc_chunk_len a))"
      and rest: "bc_chunk_len c \<le> e - w" "bc_chunk_len c \<le> bs - w mod bs"
      "unat (bc_in_block c) = w mod bs" "bc_bat_idx c = bat_slot cr (w div bs)"
      by blast
    have "v \<le> w" "bc_buf_pos c = p + (w - v)" using w by linarith+
    with w(2) rest show ?thesis by blast
  qed
qed simp

text \<open>A piece of a transfer of \<open>len\<close> bytes at \<open>off\<close>, starting at the virtual offset \<open>w\<close>.\<close>

definition piece :: "'d vhdx_reader \<Rightarrow> nat \<Rightarrow> nat \<Rightarrow> block_chunk \<Rightarrow> nat \<Rightarrow> bool" where
  "piece r off len c w \<longleftrightarrow>
     off \<le> w \<and> w < off + len \<and> bc_buf_pos c = w - off \<and> bc_buf_pos c + bc_chunk_len c \<le> len \<and>
     unat (bc_in_block c) = w mod block_bytes r \<and>
     unat (bc_in_block c) + bc_chunk_len c \<le> block_bytes r \<and>
     bc_bat_idx c = slot_of r w \<and> slot_of r w < length (rd_bat r)"

lemma block_chunks_pieces:
  assumes "geometry_ok r" "unat off + n \<le> unat (rd_virtual_size r)"
  shows "\<exists>cs. block_chunks r off (off + word_of_nat n) = Ok cs \<and>
    tiles (block_bytes r) (unat (rd_chunk_ratio r)) (unat off + n) (unat off) 0 cs \<and>
    (\<forall>c \<in> set cs. \<exists>w. piece r (unat off) n c w)"
proof -
  obtain k where k: "20 \<le> k" "k \<le> 28" "block_bytes r = 2 ^ k"
    using assms(1) by (auto simp: geometry_ok_def elim: block_size_okD)
  have n: "n < 2 ^ 64" using assms(2) unat_lt_u64 [of "rd_virtual_size r"] by (simp del: unat_lt_u64)
  have ue: "unat (off + word_of_nat n) = unat off + n"
    using assms(2) n unat_lt_u64 [of "rd_virtual_size r"]
    by (simp add: unat_add_no_overflow unat_of_nat del: unat_lt_u64)
  obtain cs where cs: "block_chunks r off (off + word_of_nat n) = Ok cs"
    "tiles (block_bytes r) (unat (rd_chunk_ratio r)) (unat off + n) (unat off) 0 cs"
    using block_chunks_from_tiles [of "ucast (rd_block_size r)" k "rd_chunk_ratio r" off
        "off + word_of_nat n" 0] k assms(1) ue by (auto simp: block_chunks_def geometry_ok_def)
  have "\<exists>w. piece r (unat off) n c w" if c: "c \<in> set cs" for c
  proof -
    obtain w where w: "unat off \<le> w" "w < unat off + n" "bc_buf_pos c = w - unat off"
      "bc_chunk_len c \<le> unat off + n - w"
      "bc_chunk_len c \<le> block_bytes r - w mod block_bytes r"
      "unat (bc_in_block c) = w mod block_bytes r"
      "bc_bat_idx c = bat_slot (unat (rd_chunk_ratio r)) (w div block_bytes r)"
      using tiles_buf [OF cs(2) _ c] k by auto
    moreover have "w mod block_bytes r < block_bytes r" using k by simp
    moreover have "slot_of r w < length (rd_bat r)"
      using assms w(2) by (simp add: geometry_ok_def)
    moreover have "w - unat off + bc_chunk_len c \<le> n" "w mod block_bytes r + bc_chunk_len c \<le> block_bytes r"
      using calculation by linarith+
    ultimately have "piece r (unat off) n c w" by (simp add: piece_def slot_of_def)
    then show ?thesis ..
  qed
  with cs show ?thesis by blast
qed

lemma transfer_end_cases:
  assumes "n < 2 ^ 64"
  obtains (empty) "n = 0" "transfer_end r off (word_of_nat n) = Ok None"
    | (refused) e where "transfer_end r off (word_of_nat n) = Err e"
        "unat (rd_virtual_size r) < unat off + n"
    | (transfer) "0 < n" "transfer_end r off (word_of_nat n) = Ok (Some (off + word_of_nat n))"
        "unat off + n \<le> unat (rd_virtual_size r)"
proof -
  have u: "unat (word_of_nat n :: u64) = n" using assms by (simp add: unat_of_nat)
  then have z: "(word_of_nat n :: u64) = 0 \<longleftrightarrow> n = 0" by (metis unat_eq_zero)
  have np: "transfer_end r off (word_of_nat n) \<noteq> Panic"
    by (simp add: transfer_end_def res_bind_Panic_iff)
  show ?thesis
  proof (cases "n = 0 \<or> unat off + n \<le> unat (rd_virtual_size r)")
    case True
    then have "transfer_end r off (word_of_nat n) = Ok (if n = 0 then None else Some (off + word_of_nat n))"
      using u z by (subst transfer_end_Ok_iff) auto
    then show ?thesis using True that(1,3) by (cases "n = 0") auto
  next
    case False
    then have "transfer_end r off (word_of_nat n) \<noteq> Ok e" for e
      using u z by (subst transfer_end_Ok_iff) auto
    then show ?thesis using False np that(2) by (cases "transfer_end r off (word_of_nat n)") auto
  qed
qed

context reliable_device
begin

lemma read_chunk_present:
  assumes "invar (rd_dev r)" "unat (rd_dev_size r) \<le> length (contents (rd_dev r))" "n < 2 ^ 64"
    and "host_offset r fo ib n = Ok h"
  shows "\<exists>bs. reader_dev_read ops r h n = Ok bs \<and> length bs = n"
proof -
  have h: "unat fo + unat ib + n \<le> unat (rd_dev_size r)" "h = fo + ib"
    using host_offset_Ok_iff [OF assms(3), THEN iffD1, OF assms(4)] by simp_all
  then have "unat h = unat fo + unat ib"
    using unat_lt_u64 [of "rd_dev_size r"] by (simp add: unat_add_no_overflow del: unat_lt_u64)
  then obtain bs where "dev_read_at ops (rd_dev r) h n = Ok bs"
    using read_succeeds [OF assms(1), of h n] h(1) assms(2) by (auto simp: is_Ok_iff)
  then show ?thesis using read_law [OF assms(1,3)] by (auto simp: reader_dev_read_def)
qed

text \<open>What reading a piece does, by the state of its block.\<close>

lemma read_chunk_eq:
  assumes "invar (rd_dev r)" "unat (rd_dev_size r) \<le> length (contents (rd_dev r))"
    and "piece r off (length buf) ch w" "length buf < 2 ^ 64"
  shows "(\<exists>bs. read_chunk ops r ch buf = Ok (overwrite (bc_buf_pos ch) bs buf) \<and>
      length bs = bc_chunk_len ch) \<or>
    \<not> readable r w \<and> (\<exists>e. read_chunk ops r ch buf = Err e)"
proof -
  let ?p = "bc_buf_pos ch" and ?n = "bc_chunk_len ch" and ?e = "rd_bat r ! slot_of r w"
  have fits: "?p + ?n \<le> length buf" and idx: "bc_bat_idx ch = slot_of r w" "slot_of r w < length (rd_bat r)"
    using assms(3) by (auto simp: piece_def)
  have dl: "length (subslice ?p (?p + ?n) buf) = ?n" using fits by simp
  have n: "?n < 2 ^ 64" using fits assms(4) by simp
  note defs = read_chunk_def Let_def bat_entry_at_def idx dl
  show ?thesis
  proof (cases "be_state ?e = FullyPresent")
    case True
    show ?thesis
    proof (cases "\<exists>h. host_offset r (be_file_offset ?e) (bc_in_block ch) ?n = Ok h")
      case yes: True
      then obtain h bs where "host_offset r (be_file_offset ?e) (bc_in_block ch) ?n = Ok h"
        "reader_dev_read ops r h ?n = Ok bs" "length bs = ?n"
        using read_chunk_present [OF assms(1,2) n] by blast
      then show ?thesis using True fits by (auto simp: defs simp del: length_subslice)
    next
      case False
      then have "\<not> unat (be_file_offset ?e) + unat (bc_in_block ch) + ?n \<le> unat (rd_dev_size r)"
        using host_offset_Ok_iff [OF n, of r "be_file_offset ?e" "bc_in_block ch"] by blast
      then have "\<not> readable r w"
        using True assms(3) by (auto simp: readable_def Let_def piece_def)
      then show ?thesis
        using True False host_offset_cases [of r "be_file_offset ?e" "bc_in_block ch" ?n] fits
        by (auto simp: defs simp del: length_subslice)
    qed
  next
    case False
    have "\<exists>bs. overwrite ?p (replicate ?n 0) buf = overwrite ?p bs buf \<and> length bs = ?n"
      by (rule exI [of _ "replicate ?n 0"]) simp
    then show ?thesis
      using False fits by (cases "be_state ?e") (simp_all add: defs readable_def del: length_subslice)
  qed
qed

lemma read_chunks_total:
  assumes "invar (rd_dev r)" "unat (rd_dev_size r) \<le> length (contents (rd_dev r))"
    and "\<forall>c \<in> set cs. \<exists>w. piece r off (length buf) c w" "length buf < 2 ^ 64"
  shows "(\<exists>buf'. read_chunks ops r cs buf = Ok buf') \<or>
    (\<exists>v. off \<le> v \<and> v < off + length buf \<and> \<not> readable r v) \<and> (\<exists>e. read_chunks ops r cs buf = Err e)"
  using assms(3,4)
proof (induction cs arbitrary: buf)
  case (Cons c cs)
  then obtain w where w: "piece r off (length buf) c w" by auto
  from read_chunk_eq [OF assms(1,2) w Cons.prems(2)] show ?case
  proof (elim disjE)
    assume "\<exists>bs. read_chunk ops r c buf = Ok (overwrite (bc_buf_pos c) bs buf) \<and> length bs = bc_chunk_len c"
    then obtain bs where bs: "read_chunk ops r c buf = Ok (overwrite (bc_buf_pos c) bs buf)"
      "length bs = bc_chunk_len c" by blast
    have "length (overwrite (bc_buf_pos c) bs buf) = length buf"
      using w bs(2) unfolding piece_def by (intro length_overwrite) metis
    then show ?thesis using Cons.IH [of "overwrite (bc_buf_pos c) bs buf"] Cons.prems bs(1) by simp
  next
    assume "\<not> readable r w \<and> (\<exists>e. read_chunk ops r c buf = Err e)"
    then show ?thesis using w by (auto simp: piece_def)
  qed
qed simp

text \<open>Every read inside the disk returns the bytes, unless a block it touches is not readable.\<close>

lemma read_at_total:
  assumes "invar (rd_dev r)" "unat (rd_dev_size r) \<le> length (contents (rd_dev r))"
    and "geometry_ok r" "length buf < 2 ^ 64"
  shows "(\<exists>bs. read_at ops r off buf = Ok bs) \<or>
    (unat (rd_virtual_size r) < unat off + length buf \<or>
     (\<exists>v. unat off \<le> v \<and> v < unat off + length buf \<and> \<not> readable r v)) \<and>
    (\<exists>e. read_at ops r off buf = Err e)"
proof (rule transfer_end_cases [OF assms(4), of r off])
  assume t: "transfer_end r off (word_of_nat (length buf)) = Ok (Some (off + word_of_nat (length buf)))"
    "unat off + length buf \<le> unat (rd_virtual_size r)"
  obtain cs where "block_chunks r off (off + word_of_nat (length buf)) = Ok cs"
    "\<forall>c \<in> set cs. \<exists>w. piece r (unat off) (length buf) c w"
    using block_chunks_pieces [OF assms(3) t(2)] by blast
  then show ?thesis
    using read_chunks_total [OF assms(1,2) _ assms(4)] t(1) by (auto simp: read_at_def)
qed (auto simp: read_at_def)

end

end
