(* ===== verification/Reader_Opened.thy ===== *)
theory Reader_Opened
  imports Reader_Open Reader_Read
begin

text \<open>
  What opening an image does. A device that cannot take a replay is never changed; no image
  makes the open panic; a reader that comes back has the geometry the read and write paths
  rely on, a BAT that is the table on the device, and the newest header; and an image that
  has been opened is not changed by being opened again.
\<close>

section \<open>Opening without the means to replay\<close>

lemma replay_log_incapable:
  assumes "replay_log x ops False n h d = (r, d')"
  shows "d' = d \<and> (\<forall>a. r = Ok a \<longrightarrow> a = (False, n))"
  using assms
  by (auto simp: replay_log_def io_bind_def io_return_def io_lift_def
      split: res.splits if_splits)

lemma consume_log_not_replayed [simp]: "consume_log x ops False h s = io_return (h, s)"
  by (simp add: consume_log_def)

lemma io_bind_pure:
  "io_bind (\<lambda>d. (f d, d)) g d = (case f d of Ok a \<Rightarrow> g a d | Err e \<Rightarrow> (Err e, d) | Panic \<Rightarrow> (Panic, d))"
  by (simp add: io_bind_def split: res.splits)

lemma open_inner_incapable:
  assumes "open_inner x ops w False d = (r, d')"
  shows "d' = d"
proof -
  have rl: "\<exists>r1. replay_log x ops False (dev_size_bytes ops d) h d = (r1, d) \<and>
      (\<forall>a. r1 = Ok a \<longrightarrow> a = (False, dev_size_bytes ops d))" for h
    using replay_log_incapable by (metis surj_pair)
  show ?thesis
  proof (cases "identify x ops d (dev_size_bytes ops d)")
    case (Ok hs)
    obtain h s where hs: "hs = (h, s)" by (cases hs)
    obtain r1 where r1: "replay_log x ops False (dev_size_bytes ops d) h d = (r1, d)"
      "\<forall>a. r1 = Ok a \<longrightarrow> a = (False, dev_size_bytes ops d)"
      using rl by blast
    show ?thesis
      using assms Ok hs r1
      by (cases r1) (auto simp: open_inner_def open_sized_def io_bind_pure
          io_bind_def [of "replay_log x ops False n h" for n h] split: res.splits prod.splits)
  qed (use assms in \<open>auto simp: open_inner_def open_sized_def io_bind_pure\<close>)
qed

section \<open>No image makes the open panic\<close>

lemma span_inside_the_file_not_Panic [simp]: "span_inside_the_file n off len m \<noteq> Panic"
  using span_inside_the_file_cases [of n off len m] by auto

lemma probe_at_Ok_Some:
  assumes "probe_at ops d n off len parse = Ok (Some a)"
  shows "\<exists>b. parse b = Ok a"
proof -
  obtain b where "res_ok (parse b) = (Ok (Some a) :: ('a option, error) res)"
    using assms by (auto simp: probe_at_def res_bind_Ok_iff split: if_splits)
  then show ?thesis by (cases "parse b") auto
qed

lemma pick_header_wf: "pick_header x ops d n = Ok (h, s) \<Longrightarrow> header_wf h"
  by (auto simp: pick_header_def res_bind_Ok_iff split: option.splits if_splits
      dest!: probe_at_Ok_Some header_parse_wf)

lemma identify_Ok:
  assumes "identify x ops d n = Ok (h, s)"
  shows "check_file_identifier ops d = Ok ()" "pick_header x ops d n = Ok (h, s)"
    "hdr_log_version h = LOG_VERSION_V0" "log_region_ok n h"
    "\<exists>t. pick_region_table x ops d n = Ok t \<and> log_region_clear_of_declared_regions t h = Ok ()"
  using assms
  by (auto simp: identify_def res_bind_Ok_iff validate_log_region_Ok_iff split: if_splits)

lemma identify_wf: "identify x ops d n = Ok (h, s) \<Longrightarrow> header_wf h"
  by (blast dest: identify_Ok(2) pick_header_wf)

definition geometry_checked :: "geometry \<Rightarrow> bool" where
  "geometry_checked geo \<longleftrightarrow>
     block_size_ok (geo_block_size geo) \<and> geo_block_size geo \<noteq> 0 \<and>
     (geo_sector_size geo = 512 \<or> geo_sector_size geo = 4096) \<and>
     geo_chunk_ratio geo \<noteq> 0 \<and>
     unat (geo_chunk_ratio geo) = 2 ^ 23 * unat (geo_sector_size geo) div unat (geo_block_size geo)"

lemma power_of_two_block_size:
  assumes "is_power_of_two w" "MIN_BLOCK_SIZE \<le> w" "w \<le> READER_MAX_BLOCK_SIZE"
  shows "block_size_ok w"
proof -
  obtain k where k: "k < 32" "w = 2 ^ k"
    using assms(1) by (auto simp: is_power_of_two_def list_ex_iff)
  have "(2 :: nat) ^ k < 2 ^ 32" using k(1) by (intro power_strict_increasing) auto
  then have "unat (word_of_nat (2 ^ k) :: u32) = 2 ^ k"
    by (simp only: unat_of_nat) simp
  then have u: "unat w = 2 ^ k" using k(2) by simp
  have "(2 :: nat) ^ 20 \<le> 2 ^ k" "(2 :: nat) ^ k \<le> 2 ^ 28"
    using assms(2,3) by (simp_all add: word_le_nat_alt flip: u)
  then have "20 \<le> k" "k \<le> 28"
    by (simp_all only: power_increasing_iff one_less_numeral_iff semiring_norm)
  with u show ?thesis by (auto simp: block_size_ok_def)
qed

lemma check_geometry_Ok:
  assumes "check_geometry t fp vs ss ps = Ok geo"
  shows "geometry_checked geo" "geo_virtual_size geo = vs"
proof -
  have c: "is_power_of_two (fp_block_size fp)" "MIN_BLOCK_SIZE \<le> fp_block_size fp"
    "fp_block_size fp \<le> READER_MAX_BLOCK_SIZE" "ss = 512 \<or> ss = 4096"
    and cr: "chunk_ratio_of (fp_block_size fp) ss = (Ok (geo_chunk_ratio geo) :: (u64, error) res)"
    "geo_chunk_ratio geo \<noteq> 0"
    and geo: "geo_virtual_size geo = vs" "geo_block_size geo = fp_block_size fp" "geo_sector_size geo = ss"
    using assms by (auto simp: check_geometry_def res_bind_Ok_iff not_less split: if_splits)
  have "unat (push_bit 23 1 * ucast ss :: u64) = 2 ^ 23 * unat ss"
    using c(4) by (subst unat_mult_no_overflow) auto
  then have "unat (geo_chunk_ratio geo) = 2 ^ 23 * unat ss div unat (fp_block_size fp)"
    using cr(1) by (simp add: chunk_ratio_of_def split: if_splits) (metis unat_div unat_ucast_u32)
  moreover have "fp_block_size fp \<noteq> 0" using cr(1) by (auto simp: chunk_ratio_of_def)
  ultimately show "geometry_checked geo"
    using power_of_two_block_size [OF c(1-3)] c(4) cr(2) by (simp add: geometry_checked_def geo)
qed (use assms in \<open>auto simp: check_geometry_def res_bind_Ok_iff split: if_splits\<close>)

lemma read_geometry_checked: "read_geometry ops d n t = Ok geo \<Longrightarrow> geometry_checked geo"
  by (auto simp: read_geometry_def res_bind_Ok_iff dest: check_geometry_Ok(1))

locale calm_device = block_device ops invar contents
  for ops :: "('d, 'z) dev_ops_scheme" and invar :: "'d \<Rightarrow> bool" and contents :: "'d \<Rightarrow> bytes" +
  assumes read_calm: "invar d \<Longrightarrow> dev_read_at ops d off n \<noteq> Panic"
    and write_calm: "invar d \<Longrightarrow> fst (dev_write_at ops off bs d) \<noteq> Panic"
    and flush_calm: "invar d \<Longrightarrow> fst (dev_flush ops d) \<noteq> Panic"
    and set_len_calm: "invar d \<Longrightarrow> fst (dev_set_len ops m d) \<noteq> Panic"
begin

lemma io_calm_write: "io_calm invar (dev_write_at ops off bs) (\<lambda>_. True)"
  using write_calm write_invar by (auto intro!: io_calmI) (metis fst_conv)

lemma io_calm_flush: "io_calm invar (dev_flush ops) (\<lambda>_. True)"
  using flush_calm flush_law by (auto intro!: io_calmI) (metis fst_conv)

lemma io_calm_set_len: "io_calm invar (dev_set_len ops m) (\<lambda>_. True)"
  using set_len_calm set_len_invar by (auto intro!: io_calmI) (metis fst_conv)

lemma io_calm_write_zeros: "io_calm invar (write_zeros ops off n) (\<lambda>_. True)"
proof (induction "unat n" arbitrary: off n rule: less_induct)
  case less
  show ?case
  proof (cases "n = 0")
    case False
    let ?k = "min (unat n) ZERO_CHUNK"
    have "unat (n - word_of_nat ?k) < unat n"
      using False by (simp add: unat_minus_of_nat unat_gt_0)
    then have "io_calm invar (write_zeros ops (off + word_of_nat ?k) (n - word_of_nat ?k)) (\<lambda>_. True)"
      by (rule less)
    then show ?thesis
      using False io_calm_bind [OF io_calm_write] by (subst write_zeros.simps) (simp add: Let_def)
  qed (simp add: io_calm_return)
qed

lemma io_calm_apply_chain: "io_calm invar (apply_chain x ops chain) (\<lambda>_. True)"
proof -
  have d: "io_calm invar (apply_descriptor x ops e) (\<lambda>_. True)" for e
    by (cases e) (simp_all add: io_calm_return io_calm_map_err io_calm_write io_calm_write_zeros)
  have e: "io_calm invar (apply_entry x ops e) (\<lambda>_. True)" for e
    unfolding apply_entry_def
    by (rule io_calm_bind [OF io_calm_foreach [OF d] io_calm_map_err [OF io_calm_flush]])
  have g: "io_calm invar (extend_device x ops n) (\<lambda>_. True)" for n
    using io_calm_set_len [of n]
    by (auto simp: io_calm_def extend_device_def split: prod.splits res.splits)
  have c: "res_map (check_descriptor n) ds \<noteq> Panic" for n ds
    by (intro res_map_not_Panic check_descriptor_not_Panic)
  have "io_calm invar (\<lambda>dev. io_bind (io_lift (res_map (check_descriptor n) ds)) (\<lambda>_.
      io_bind (extend_device x ops n) (\<lambda>_. io_foreach (apply_entry x ops) chain)) dev) (\<lambda>_. True)" for n ds
    by (rule io_calm_bind [OF io_calm_lift [OF c, where Q = "\<lambda>_. True"]
          io_calm_bind [OF g io_calm_foreach [OF e]]]) simp
  then show ?thesis
    unfolding apply_chain_def io_calm_def Let_def by blast
qed

lemma probe_calm: "invar d \<Longrightarrow> (\<And>b. parse b \<noteq> Panic) \<Longrightarrow> probe_at ops d n off len parse \<noteq> Panic"
proof -
  assume d: "invar d" and p: "\<And>b. parse b \<noteq> Panic"
  have "res_ok (parse b) \<noteq> Panic" for b using p [of b] by (cases "parse b") auto
  then show ?thesis
    using read_calm [OF d, of off len] by (auto simp: probe_at_def res_bind_Panic_iff)
qed

lemma identify_calm:
  assumes "invar d"
  shows "identify x ops d n \<noteq> Panic"
proof -
  have h: "pick_header x ops d n \<noteq> Panic"
    using probe_calm [OF assms header_parse_not_Panic]
    by (auto simp: pick_header_def res_bind_Panic_iff split: option.splits)
  have t: "pick_region_table x ops d n \<noteq> Panic"
    using probe_calm [OF assms region_table_parse_not_Panic]
    by (auto simp: pick_region_table_def res_bind_Panic_iff split: option.splits)
  have "check_file_identifier ops d \<noteq> Panic"
    using read_calm [OF assms] by (auto simp: check_file_identifier_def res_bind_Panic_iff)
  moreover have "validate_log_region n hh \<noteq> Panic" for hh
    using validate_log_region_cases [of n hh] by auto
  moreover have "log_region_clear_of_declared_regions rt hh \<noteq> Panic" for rt hh
    using log_region_clear_cases [of rt hh] by auto
  ultimately show ?thesis
    using h t by (auto simp: identify_def res_bind_Panic_iff)
qed

lemma replay_log_calm: "io_calm invar (replay_log x ops rc n h) (\<lambda>_. True)"
proof -
  have "pending_chain x ops d n h \<noteq> Panic" if "invar d" for d
    using read_calm [OF that] collect_replay_chain_not_Panic
    by (auto simp: pending_chain_def res_bind_Panic_iff)
  then have "io_calm invar (\<lambda>d. (pending_chain x ops d n h, d)) (\<lambda>_. True)"
    by (simp add: io_calm_def)
  then show ?thesis
    unfolding replay_log_def
    by (rule io_calm_bind)
      (auto intro: io_calm_return io_calm_lift io_calm_bind [OF io_calm_apply_chain])
qed

lemma consume_log_calm:
  assumes "header_wf h"
  shows "io_calm invar (consume_log x ops b h s) (\<lambda>_. True)"
proof -
  let ?h = "h\<lparr> hdr_sequence_number := hdr_sequence_number h + 1, hdr_log_guid := replicate 16 0 \<rparr>"
  have "encode_header x ?h \<noteq> Panic"
    using assms by (subst encode_header_eq) (simp_all add: header_wf_def)
  then have "io_calm invar (rewrite_header_clear_log x ops h s) (\<lambda>_. True)"
    unfolding rewrite_header_clear_log_def Let_def
    by (intro io_calm_bind [OF io_calm_lift] io_calm_bind [OF io_calm_map_err [OF io_calm_write]]
        io_calm_bind [OF io_calm_map_err [OF io_calm_flush]] io_calm_return TrueI)
  moreover have "io_calm invar (zero_log_region ops off n) (\<lambda>_. True)" for off n
    unfolding zero_log_region_def
    by (rule io_calm_bind [OF io_calm_map_err [OF io_calm_write_zeros] io_calm_map_err [OF io_calm_flush]])
  ultimately show ?thesis
    unfolding consume_log_def by (auto intro: io_calm_return io_calm_bind)
qed

lemma governing_regions_calm: "invar d \<Longrightarrow> governing_regions x ops d n h \<noteq> Panic"
proof -
  assume d: "invar d"
  have "pick_region_table x ops d n \<noteq> Panic"
    using probe_calm [OF d region_table_parse_not_Panic]
    by (auto simp: pick_region_table_def res_bind_Panic_iff split: option.splits)
  moreover have "log_region_clear_of_declared_regions rt h \<noteq> Panic" for rt
    using log_region_clear_cases [of rt h] by auto
  ultimately show ?thesis by (auto simp: governing_regions_def res_bind_Panic_iff)
qed

lemma check_geometry_calm: "check_geometry t fp vs ss ps \<noteq> Panic"
  by (auto simp: check_geometry_def res_bind_Panic_iff chunk_ratio_of_def)

lemma read_geometry_calm:
  assumes "invar d"
  shows "read_geometry ops d n regions \<noteq> Panic"
proof -
  have m: "load_metadata ops d n regions \<noteq> Panic"
    using read_calm [OF assms] by (auto simp: load_metadata_def res_bind_Panic_iff)
  have i: "metadata_item t g s \<noteq> Panic" for t g s
    by (auto simp: metadata_item_def res_bind_Panic_iff)
  have p: "(case b of None \<Rightarrow> Ok None | Some b \<Rightarrow> res_ok (read_sector_size b)) \<noteq> (Panic :: (u32 option, error) res)"
    for b by (cases b) (auto simp: read_sector_size_def)
  show ?thesis
    using m i p check_geometry_calm by (simp add: read_geometry_def res_bind_Panic_iff)
qed

lemma load_bat_calm:
  assumes "invar d" "geo_block_size geo \<noteq> 0" "geo_chunk_ratio geo \<noteq> 0"
  shows "load_bat ops d n regions geo \<noteq> Panic"
proof -
  have "bat_region_covers_the_disk a b (geo_block_size geo) (geo_chunk_ratio geo) \<noteq> Panic" for a b
    using assms(2,3)
    by (auto simp: bat_region_covers_the_disk_def data_bat_index_def Let_def res_bind_Panic_iff)
  then show ?thesis
    using read_calm [OF assms(1)] by (auto simp: load_bat_def res_bind_Panic_iff)
qed

lemma open_inner_calm: "io_calm invar (open_inner x ops w rc) (\<lambda>_. True)"
proof -
  have i: "io_calm invar (\<lambda>d. (identify x ops d n, d)) (\<lambda>(h, s). header_wf h)" for n
    using identify_calm identify_wf by (fastforce simp: io_calm_def)
  have g: "io_calm invar (\<lambda>d. (governing_regions x ops d n h, d)) (\<lambda>_. True)" for n h
    using governing_regions_calm by (simp add: io_calm_def)
  have m: "io_calm invar (\<lambda>d. (read_geometry ops d n t, d)) geometry_checked" for n t
    using read_geometry_calm read_geometry_checked by (fastforce simp: io_calm_def)
  have b: "io_calm invar (\<lambda>d. (load_bat ops d n t geo, d)) (\<lambda>_. True)" if "geometry_checked geo" for n t geo
    using that load_bat_calm by (auto simp: io_calm_def geometry_checked_def)
  have f: "io_calm invar (\<lambda>d. (Ok (k d), d)) (\<lambda>_. True)" for k
    by (simp add: io_calm_def)
  have "io_calm invar (open_sized x ops w rc n) (\<lambda>_. True)" for n
    unfolding open_sized_def
    by (intro io_calm_bind [OF i] io_calm_bind [OF replay_log_calm] io_calm_bind [OF g]
        io_calm_bind [OF consume_log_calm] io_calm_bind [OF m] io_calm_bind [OF b]
        | clarsimp split: prod.splits | rule f)+
  then show ?thesis
    unfolding open_inner_def io_calm_def by blast
qed

end

interpretation vec_calm: calm_device vec_ops vec_invar "\<lambda>v. v"
  by unfold_locales (auto simp: vec_ops_def)

section \<open>What an open reader is\<close>

lemma open_inner_OkE:
  assumes "open_inner x ops w rc d = (Ok r, d')"
  obtains h s replayed n d1 regions h' s' geo off bat where
    "identify x ops d (dev_size_bytes ops d) = Ok (h, s)"
    "replay_log x ops rc (dev_size_bytes ops d) h d = (Ok (replayed, n), d1)"
    "governing_regions x ops d1 n h = Ok regions"
    "consume_log x ops replayed h s d1 = (Ok (h', s'), d')"
    "read_geometry ops d' n regions = Ok geo"
    "load_bat ops d' n regions geo = Ok (off, bat)"
    "r = new_reader w n h' s' geo off bat d'"
  using assms by (fastforce simp: open_inner_def open_sized_def io_bind_Ok_iff)

lemma length_bat_from_bytes [simp]: "length (bat_from_bytes n bs) = n"
  by (induction n arbitrary: bs) simp_all

lemma nth_bat_from_bytes:
  "i < n \<Longrightarrow> bat_from_bytes n bs ! i = bat_entry_from_u64 (from_le_bytes (subslice (8 * i) (8 * i + 8) bs))"
proof (induction n arbitrary: i bs)
  case (Suc n)
  then show ?case
    by (cases i) (simp_all add: subslice_def add.commute)
qed simp

text \<open>The BAT a reader holds is the one on the device.\<close>

definition disk_bat_entry :: "bytes \<Rightarrow> nat \<Rightarrow> nat \<Rightarrow> bat_entry" where
  "disk_bat_entry c off i = bat_entry_from_u64 (from_le_bytes (subslice (off + 8 * i) (off + 8 * i + 8) c))"

definition bat_synced :: "'d vhdx_reader \<Rightarrow> bytes \<Rightarrow> bool" where
  "bat_synced r c \<longleftrightarrow>
     unat (rd_bat_region_off r) + 8 * length (rd_bat r) \<le> length c \<and>
     (\<forall>i < length (rd_bat r). rd_bat r ! i = disk_bat_entry c (unat (rd_bat_region_off r)) i)"

lemma unat_succ: "w \<noteq> - 1 \<Longrightarrow> unat (w + 1 :: u64) = unat w + 1"
proof -
  assume "w \<noteq> - 1"
  then have "unat w \<noteq> 2 ^ 64 - 1"
    using unat_minus_one_max [where ?'a = 64] by (auto simp: word_unat_eq_iff)
  then show ?thesis
    using unat_lt_u64 [of w] by (subst unat_add_no_overflow) (simp_all del: unat_lt_u64)
qed

lemma collect_replay_chain_wf:
  assumes "collect_replay_chain x L g = Ok chain" "length L < 2 ^ 63"
  shows "chain_wf chain"
proof (cases "chain = []")
  case False
  obtain found where "discovered x L g 0 found" "active_chain (length L) found chain"
    using collect_replay_chain_Ok [OF assms(1) False assms(2)] by blast
  then show ?thesis
    by (auto simp: chain_wf_def discovered_def active_chain_def entry_of_region_def)
qed (simp add: chain_wf_def)

context block_device
begin

lemma pending_chain_wf:
  assumes "invar d" "pending_chain x ops d n h = Ok chain"
  shows "chain_wf chain"
proof (cases "chain = []")
  case False
  obtain k L where k: "span_inside_the_file n (hdr_log_offset h) (ucast (hdr_log_length h))
      ''log region reaches past the end of the file'' = Ok k"
    and L: "dev_read_at ops d (hdr_log_offset h) k = Ok L"
    and c: "collect_replay_chain x L (hdr_log_guid h) = Ok chain"
    using assms(2) False by (auto simp: pending_chain_def res_bind_Ok_iff split: if_splits)
  have kl: "k = unat (hdr_log_length h)" using k by (simp add: span_inside_the_file_Ok_iff)
  have "k < 2 ^ 64" using unat_lt_u32 [of "hdr_log_length h"] by (simp add: kl del: unat_lt_u32)
  then have "length L = k" using read_law [OF assms(1) _ L] by blast
  then have "length L < 2 ^ 63"
    unfolding kl
    using unat_lt_u32 [of "hdr_log_length h"] by (simp del: unat_lt_u32)
  then show ?thesis by (rule collect_replay_chain_wf [OF c])
qed (simp add: chain_wf_def)

lemma replay_log_Ok:
  assumes "invar d" "replay_log x ops rc (dev_size_bytes ops d) h d = (Ok (replayed, n), d1)"
  shows "invar d1" "unat n = length (contents d1)" "\<not> replayed \<Longrightarrow> d1 = d"
    "replayed \<Longrightarrow> rc \<and> (\<exists>chain. chain \<noteq> [] \<and> pending_chain x ops d (dev_size_bytes ops d) h = Ok chain \<and>
       apply_chain x ops chain d = (Ok (), d1))"
proof -
  consider (none) "\<not> replayed" "d1 = d" "n = dev_size_bytes ops d"
    | (chain) chain where "replayed" "rc" "chain \<noteq> []"
        "pending_chain x ops d (dev_size_bytes ops d) h = Ok chain"
        "apply_chain x ops chain d = (Ok (), d1)" "n = replayed_extent (dev_size_bytes ops d) chain"
    using assms(2)
    by (auto simp: replay_log_def io_bind_Ok_iff io_return_def io_lift_def split: if_splits)
  then have "invar d1 \<and> unat n = length (contents d1) \<and> (\<not> replayed \<longrightarrow> d1 = d) \<and>
    (replayed \<longrightarrow> rc \<and> (\<exists>chain. chain \<noteq> [] \<and> pending_chain x ops d (dev_size_bytes ops d) h = Ok chain \<and>
       apply_chain x ops chain d = (Ok (), d1)))"
  proof cases
    case none
    then show ?thesis using assms(1) size_law by simp
  next
    case (chain c)
    then show ?thesis
      using apply_chain_Ok [OF assms(1) pending_chain_wf [OF assms(1) chain(4)] chain(5)] by auto
  qed
  then show "invar d1" "unat n = length (contents d1)" "\<not> replayed \<Longrightarrow> d1 = d"
    "replayed \<Longrightarrow> rc \<and> (\<exists>chain. chain \<noteq> [] \<and> pending_chain x ops d (dev_size_bytes ops d) h = Ok chain \<and>
       apply_chain x ops chain d = (Ok (), d1))"
    by blast+
qed

lemma zero_log_region_Ok:
  assumes "invar d" "zero_log_region ops off len d = (Ok u, d')"
  shows "invar d'" "(len \<noteq> 0 \<longrightarrow> unat off + unat len \<le> length (contents d)) \<and>
    contents d' = overwrite (unat off) (replicate (unat len) 0) (contents d)"
proof -
  obtain d1 where z: "write_zeros ops off (ucast len) d = (Ok (), d1)" "dev_flush ops d1 = (Ok u, d')"
    using assms(2) by (auto simp: zero_log_region_def io_Ok_iffs)
  have z1: "invar d1" "ucast len \<noteq> (0 :: u64) \<longrightarrow> unat off + unat len \<le> length (contents d)"
    "contents d1 = overwrite (unat off) (replicate (unat len) 0) (contents d)"
    using write_zeros_Ok [OF assms(1) z(1)] by auto
  show "invar d'" using flush_law [OF z1(1) z(2)] by simp
  have "len \<noteq> 0 \<longrightarrow> ucast len \<noteq> (0 :: u64)" by (auto simp: word_unat_eq_iff)
  then show "(len \<noteq> 0 \<longrightarrow> unat off + unat len \<le> length (contents d)) \<and>
    contents d' = overwrite (unat off) (replicate (unat len) 0) (contents d)"
    using z1 flush_law [OF z1(1) z(2)] by auto
qed

lemma load_bat_Ok:
  assumes "invar d" "load_bat ops d n regions geo = Ok (off, bat)" "geometry_checked geo"
    "unat n = length (contents d)"
  shows "unat off + 8 * length bat \<le> length (contents d)"
    and "\<And>i. i < length bat \<Longrightarrow> bat ! i = disk_bat_entry (contents d) (unat off) i"
    and "\<And>v. v < unat (geo_virtual_size geo) \<Longrightarrow>
      bat_slot (unat (geo_chunk_ratio geo)) (v div unat (geo_block_size geo)) < length bat"
proof -
  let ?vs = "geo_virtual_size geo" and ?bs = "geo_block_size geo" and ?cr = "geo_chunk_ratio geo"
  obtain e :: region_entry and entries k bytes where
    span: "unat (re_file_offset e) + unat (re_length e) \<le> unat n"
    and cov: "bat_region_covers_the_disk (re_length e) ?vs ?bs ?cr = Ok entries"
    and k: "checked_mul entries BAT_ENTRY_SIZE = Some k"
    and rd: "dev_read_at ops d (re_file_offset e) (unat k) = Ok bytes"
    and out: "off = re_file_offset e" "bat = bat_from_bytes (length bytes div 8) bytes"
    using assms(2) by (simp add: load_bat_def res_bind_Ok_iff span_inside_the_file_Ok_iff) blast
  have bs2: "2 \<le> unat ?bs" using assms(3) by (simp add: geometry_checked_def block_size_ok_pos)
  have uk: "unat k = 8 * unat entries"
    using k by (auto simp: checked_mul_def unat_mult_no_overflow split: if_splits)
  have e8: "8 * unat entries \<le> unat (re_length e)"
    using bat_region_covers_the_disk_Ok(2) [OF cov _ bs2] cov
    by (cases "?vs = 0") (auto simp: bat_region_covers_the_disk_def split: if_splits)
  have bl: "length bytes = unat k" "bytes = subslice (unat off) (unat off + unat k) (contents d)"
    using read_law [OF assms(1) _ rd] by (auto simp: out)
  have lb: "length bat = unat entries" by (simp add: out(2) bl(1) uk)
  show "unat off + 8 * length bat \<le> length (contents d)"
    using span e8 assms(4) by (simp add: lb out(1))
  show "bat ! i = disk_bat_entry (contents d) (unat off) i" if "i < length bat" for i
  proof -
    have "i < length bytes div 8" using that by (simp add: lb bl(1) uk)
    then have "bat ! i = bat_entry_from_u64 (from_le_bytes (subslice (8 * i) (8 * i + 8) bytes))"
      by (simp add: out(2) nth_bat_from_bytes)
    moreover have "8 * i + 8 \<le> unat k" using that by (simp add: lb uk)
    ultimately show ?thesis
      by (simp add: disk_bat_entry_def bl(2) subslice_subslice add.assoc)
  qed
  show "bat_slot (unat ?cr) (v div unat ?bs) < length bat" if "v < unat ?vs" for v
  proof -
    have "?vs \<noteq> 0" using that by auto
    note c = bat_region_covers_the_disk_Ok(1) [OF cov this bs2]
    have "v div unat ?bs \<le> (unat ?vs - 1) div unat ?bs" using that by (intro div_le_mono) auto
    then have "bat_slot (unat ?cr) (v div unat ?bs) \<le> bat_slot (unat ?cr) ((unat ?vs - 1) div unat ?bs)"
      by (metis bat_slot_strict_mono le_less order_refl)
    then show ?thesis using c by (simp add: lb)
  qed
qed

lemma consume_log_Ok:
  assumes "invar d" "header_wf h" "log_region_ok n h" "newest_header x (contents d) = Some (h, s)"
    and "consume_log x ops replayed h s d = (Ok (h', s'), d')"
    and "replayed \<Longrightarrow> hdr_sequence_number h \<noteq> - 1"
  shows "invar d'" "length (contents d') = length (contents d)" "header_wf h'"
    "newest_header x (contents d') = Some (h', s')"
    "replayed \<Longrightarrow> is_zero_guid (hdr_log_guid h')" "\<not> replayed \<Longrightarrow> d' = d \<and> h' = h"
    "hdr_log_offset h' = hdr_log_offset h" "hdr_log_length h' = hdr_log_length h"
proof -
  have "invar d' \<and> length (contents d') = length (contents d) \<and> header_wf h' \<and>
    newest_header x (contents d') = Some (h', s') \<and>
    (replayed \<longrightarrow> is_zero_guid (hdr_log_guid h')) \<and> (\<not> replayed \<longrightarrow> d' = d \<and> h' = h) \<and>
    hdr_log_offset h' = hdr_log_offset h \<and> hdr_log_length h' = hdr_log_length h"
  proof (cases replayed)
    case False
    then show ?thesis using assms(1,2,4,5) by (simp add: io_return_def)
  next
    case True
    then obtain d1 where z: "zero_log_region ops (hdr_log_offset h) (hdr_log_length h) d = (Ok (), d1)"
      and w: "rewrite_header_clear_log x ops h s d1 = (Ok (h', s'), d')"
      using assms(5) by (auto simp: consume_log_def io_bind_Ok_iff)
    note z1 = zero_log_region_Ok [OF assms(1) z]
    have len1: "length (contents d1) = length (contents d)"
      using z1(2) by (cases "hdr_log_length h = 0") auto
    note w1 = rewrite_header_clear_log_Ok [OF z1(1) assms(2) w]
    obtain b where b: "encode_header x h' = Ok b" "slot_start s' + HEADER_SIZE \<le> length (contents d1)"
      "contents d' = overwrite (slot_start s') b (contents d1)" using w1(5) by blast
    have "slot_header x (contents d1) t = slot_header x (contents d) t" for t
    proof (rule slot_header_agree [OF len1])
      have "hdr_log_length h = 0 \<or> slot_start t + HEADER_SIZE \<le> unat (hdr_log_offset h)"
        using assms(3) by (cases t) (auto simp: log_region_ok_def)
      then show "subslice (slot_start t) (slot_start t + HEADER_SIZE) (contents d1) =
          subslice (slot_start t) (slot_start t + HEADER_SIZE) (contents d)"
        using z1(2) by (auto simp: slice_simps)
    qed
    then have "newest_header x (contents d1) = Some (h, s)"
      using assms(4) by (simp add: newest_header_def)
    moreover have "hdr_sequence_number h < hdr_sequence_number h'"
      using unat_succ [OF assms(6) [OF True]] w1(1) by (simp add: word_less_nat_alt)
    ultimately have "newest_header x (contents d') = Some (h', s')"
      using newest_header_rotated [of x "contents d1" h s h' b] w1(2,4) b by simp
    then show ?thesis
      using w1 b True len1 encode_header_length [OF w1(4) b(1)]
      by (simp add: is_zero_guid_def list_all_iff)
  qed
  then show "invar d'" "length (contents d') = length (contents d)" "header_wf h'"
    "newest_header x (contents d') = Some (h', s')"
    "replayed \<Longrightarrow> is_zero_guid (hdr_log_guid h')" "\<not> replayed \<Longrightarrow> d' = d \<and> h' = h"
    "hdr_log_offset h' = hdr_log_offset h" "hdr_log_length h' = hdr_log_length h"
    by blast+
qed

lemma consume_log_keeps:
  assumes "invar d" "header_wf h" "consume_log x ops replayed h s d = (Ok (h', s'), d')"
  shows "invar d'" "length (contents d') = length (contents d)" "header_wf h'"
    "hdr_log_offset h' = hdr_log_offset h" "hdr_log_length h' = hdr_log_length h"
proof -
  have "invar d' \<and> length (contents d') = length (contents d) \<and> header_wf h' \<and>
    hdr_log_offset h' = hdr_log_offset h \<and> hdr_log_length h' = hdr_log_length h"
  proof (cases replayed)
    case False
    then show ?thesis using assms by (simp add: io_return_def)
  next
    case True
    then obtain d1 where z: "zero_log_region ops (hdr_log_offset h) (hdr_log_length h) d = (Ok (), d1)"
      and w: "rewrite_header_clear_log x ops h s d1 = (Ok (h', s'), d')"
      using assms(3) by (auto simp: consume_log_def io_bind_Ok_iff)
    note z1 = zero_log_region_Ok [OF assms(1) z]
    note w1 = rewrite_header_clear_log_Ok [OF z1(1) assms(2) w]
    have "length (contents d1) = length (contents d)"
      using z1(2) by (cases "hdr_log_length h = 0") auto
    then show ?thesis
      using w1 encode_header_length [OF w1(4)] by auto
  qed
  then show "invar d'" "length (contents d') = length (contents d)" "header_wf h'"
    "hdr_log_offset h' = hdr_log_offset h" "hdr_log_length h' = hdr_log_length h"
    by blast+
qed

end

text \<open>
  An open reader over a device with contents \<open>c\<close>: the size it records, its geometry, its BAT
  and the place of its log are the device's.
\<close>

definition reader_ok :: "bytes \<Rightarrow> 'd vhdx_reader \<Rightarrow> bool" where
  "reader_ok c r \<longleftrightarrow>
     unat (rd_dev_size r) = length c \<and> geometry_ok r \<and> bat_synced r c \<and>
     header_wf (rd_header r) \<and> log_region_ok (rd_dev_size r) (rd_header r)"

context block_device
begin

lemma open_inner_reader_ok:
  assumes "invar d" "open_inner x ops w rc d = (Ok r, d')"
  shows "rd_dev r = d'" "invar d'" "rd_writable r = w" "reader_ok (contents d') r"
proof -
  obtain h s replayed n d1 regions h' s' geo off bat where
    id: "identify x ops d (dev_size_bytes ops d) = Ok (h, s)" and
    rp: "replay_log x ops rc (dev_size_bytes ops d) h d = (Ok (replayed, n), d1)" and
    cl: "consume_log x ops replayed h s d1 = (Ok (h', s'), d')" and
    rg: "read_geometry ops d' n regions = Ok geo" and
    lb: "load_bat ops d' n regions geo = Ok (off, bat)" and
    r: "r = new_reader w n h' s' geo off bat d'"
    using assms(2) by (rule open_inner_OkE)
  note rp1 = replay_log_Ok [OF assms(1) rp]
  note c1 = consume_log_keeps [OF rp1(1) identify_wf [OF id] cl]
  have n: "unat n = length (contents d')" using rp1(2) c1(2) by simp
  note lb1 = load_bat_Ok [OF c1(1) lb read_geometry_checked [OF rg] n]
  show "rd_dev r = d'" "rd_writable r = w" by (simp_all add: r new_reader_def)
  show "invar d'" by (rule c1(1))
  have "geometry_ok r"
    using lb1(3) read_geometry_checked [OF rg]
    by (simp add: geometry_ok_def slot_of_def r new_reader_def geometry_checked_def)
  moreover have "bat_synced r (contents d')"
    using lb1(1,2) by (simp add: bat_synced_def r new_reader_def)
  moreover have "log_region_ok n h'"
  proof -
    have "dev_size_bytes ops d \<le> n"
    proof (cases replayed)
      case True
      then obtain chain where c: "pending_chain x ops d (dev_size_bytes ops d) h = Ok chain"
        "apply_chain x ops chain d = (Ok (), d1)" using rp1(4) by blast
      note ac = apply_chain_Ok [OF assms(1) pending_chain_wf [OF assms(1) c(1)] c(2)]
      have "unat n = unat (replayed_extent (dev_size_bytes ops d) chain)" using ac(3) rp1(2) by simp
      then show ?thesis
        using allowed_extent_ge [of "dev_size_bytes ops d" chain]
        by (simp add: word_le_nat_alt replayed_extent_def max_def split: if_splits)
    next
      case False
      then show ?thesis using rp1(2,3) size_law [OF assms(1)] by (simp add: word_le_nat_alt)
    qed
    then show ?thesis
      using identify_Ok(4) [OF id] c1(4,5) by (auto simp: log_region_ok_def word_le_nat_alt)
  qed
  ultimately show "reader_ok (contents d') r"
    using n c1(3) by (simp add: reader_ok_def r new_reader_def)
qed

text \<open>An image with an empty log is not changed by any open.\<close>

lemma open_inner_empty_log:
  assumes "invar d" "newest_header x (contents d) = Some (h, s)" "is_zero_guid (hdr_log_guid h)"
    and "open_inner x ops w rc d = (r, d')"
  shows "d' = d"
proof (cases "identify x ops d (dev_size_bytes ops d)")
  case (Ok hs)
  then have "pick_header x ops d (dev_size_bytes ops d) = Ok hs"
    using identify_Ok(2) [of x ops d "dev_size_bytes ops d" "fst hs" "snd hs"] by simp
  then have "hs = (h, s)" using pick_header_Ok [OF assms(1)] assms(2) by simp
  then have i: "identify x ops d (dev_size_bytes ops d) = Ok (h, s)" using Ok by simp
  have "replay_log x ops rc (dev_size_bytes ops d) h d = (Ok (False, dev_size_bytes ops d), d)"
    using assms(3) by (simp add: replay_log_def pending_chain_def io_bind_def io_return_def)
  then show ?thesis
    using assms(4) i by (auto simp: open_inner_def open_sized_def io_bind_pure
        io_bind_def [of "replay_log x ops rc n h" for n h] split: res.splits prod.splits)
qed (use assms(4) in \<open>auto simp: open_inner_def open_sized_def io_bind_pure\<close>)

end

text \<open>A chain that writes to neither header slot.\<close>

definition spares_headers :: "log_entry list \<Rightarrow> bool" where
  "spares_headers chain \<longleftrightarrow>
     (\<forall>e \<in> set (chain_descriptors chain). \<forall>t. apart_spans (desc_start e) (length (desc_payload e))
        (slot_start t) HEADER_SIZE)"

lemma replay_spares_slot:
  assumes "spares_headers chain" "\<forall>e \<in> set (chain_descriptors chain). desc_end e \<le> length c"
  shows "subslice (slot_start t) (slot_start t + HEADER_SIZE) (replay (chain_descriptors chain) c) =
    subslice (slot_start t) (slot_start t + HEADER_SIZE) c"
proof (rule nth_equalityI)
  fix i
  assume i: "i < length (subslice (slot_start t) (slot_start t + HEADER_SIZE)
    (replay (chain_descriptors chain) c))"
  have len: "length (replay (chain_descriptors chain) c) = length c"
    using assms(2) by (rule length_replay)
  have "i < HEADER_SIZE" using i by simp
  then have "\<not> in_span e (slot_start t + i)"
    if "apart_spans (desc_start e) (length (desc_payload e)) (slot_start t) HEADER_SIZE" for e
    using that by (auto simp: apart_spans_def in_span_def desc_end_def)
  then have "\<forall>e \<in> set (chain_descriptors chain). desc_end e \<le> length c \<and> \<not> in_span e (slot_start t + i)"
    using assms unfolding spares_headers_def by blast
  then have "replay (chain_descriptors chain) c ! (slot_start t + i) = c ! (slot_start t + i)"
    using i len by (intro nth_replay_outside) auto
  then show "subslice (slot_start t) (slot_start t + HEADER_SIZE) (replay (chain_descriptors chain) c) ! i =
      subslice (slot_start t) (slot_start t + HEADER_SIZE) c ! i"
    using i len by (auto simp: nth_subslice)
qed (use assms(2) in \<open>simp add: length_replay\<close>)

context block_device
begin

lemma newest_header_replayed:
  assumes "invar d" "newest_header x (contents d) = Some (h, s)" "chain_wf chain" "spares_headers chain"
    and "apply_chain x ops chain d = (Ok u, d1)" "slot_start Two + HEADER_SIZE \<le> length (contents d)"
  shows "newest_header x (contents d1) = Some (h, s)"
proof -
  let ?n = "unat (allowed_extent (dev_size_bytes ops d) chain)"
  note ac = apply_chain_Ok [OF assms(1,3,5)]
  have ge: "length (contents d) \<le> ?n"
    using allowed_extent_ge [of "dev_size_bytes ops d" chain] size_law [OF assms(1)]
    by (simp add: word_le_nat_alt)
  have "slot_header x (contents d1) t = slot_header x (contents d) t" for t
  proof -
    have t: "slot_start t + HEADER_SIZE \<le> length (contents d)" using assms(6) by (cases t) auto
    have "subslice (slot_start t) (slot_start t + HEADER_SIZE) (contents d1) =
        subslice (slot_start t) (slot_start t + HEADER_SIZE) (resize ?n (contents d))"
      using ac(1,2) replay_spares_slot [OF assms(4), of "resize ?n (contents d)" t] by simp
    also have "\<dots> = subslice (slot_start t) (slot_start t + HEADER_SIZE) (contents d)"
      using ge t by (simp add: resize_grow)
    finally show ?thesis
      using t ac(1,2) ge by (simp add: slot_header_def length_replay)
  qed
  then show ?thesis using assms(2) by (simp add: newest_header_def)
qed

text \<open>Opening an image that has just been opened changes nothing.\<close>

lemma open_inner_again:
  assumes "invar d" "open_inner x ops w rc d = (Ok r, d')"
    and "slot_start Two + HEADER_SIZE \<le> length (contents d)"
    and "newest_header x (contents d) = Some (h, s)" "hdr_sequence_number h \<noteq> - 1"
    and "\<And>chain. pending_chain x ops d (dev_size_bytes ops d) h = Ok chain \<Longrightarrow> spares_headers chain"
    and "open_inner x ops w' rc d' = (r', d'')"
  shows "d'' = d'"
proof -
  obtain h0 s0 replayed n d1 regions h' s' geo off bat where
    id: "identify x ops d (dev_size_bytes ops d) = Ok (h0, s0)" and
    rp: "replay_log x ops rc (dev_size_bytes ops d) h0 d = (Ok (replayed, n), d1)" and
    cl: "consume_log x ops replayed h0 s0 d1 = (Ok (h', s'), d')"
    using assms(2) by (rule open_inner_OkE)
  have hs: "h0 = h" "s0 = s"
    using pick_header_Ok [OF assms(1) identify_Ok(2) [OF id]] assms(4) by simp_all
  note rp1 = replay_log_Ok [OF assms(1) rp]
  show ?thesis
  proof (cases replayed)
    case True
    then obtain chain where c: "pending_chain x ops d (dev_size_bytes ops d) h = Ok chain"
      "apply_chain x ops chain d = (Ok (), d1)" using rp1(4) hs by blast
    have nh: "newest_header x (contents d1) = Some (h, s)"
      using newest_header_replayed [OF assms(1,4) pending_chain_wf [OF assms(1) c(1)]
          assms(6) [OF c(1)] c(2) assms(3)] .
    note co = consume_log_Ok [OF rp1(1) identify_wf [OF id] identify_Ok(4) [OF id]
        nh [folded hs] cl assms(5) [folded hs]]
    show ?thesis
      by (rule open_inner_empty_log [OF co(1,4) co(5) [OF True] assms(7)])
  next
    case False
    then have d': "d' = d" using cl rp1(3) by (simp add: io_return_def)
    have "replay_log x ops rc (dev_size_bytes ops d) h d = (Ok (False, dev_size_bytes ops d), d)"
      using rp False rp1(2,3) size_law [OF assms(1)] hs by (simp add: word_unat_eq_iff)
    then show ?thesis
      using assms(7) id hs d' by (auto simp: open_inner_def open_sized_def io_bind_pure
        io_bind_def [of "replay_log x ops rc n h" for n h] split: res.splits prod.splits)
  qed
qed

end

end
