(* ===== verification/Overlay.thy ===== *)
theory Overlay
  imports Reader_Opened
begin

text \<open>
  \<open>src/cli/vhdx/overlay.rs\<close>: the copy-on-write view of an image file the read-only verbs of
  the command-line tool hand to the library, so that a log can be replayed without writing to
  the file. The base is any \<open>BlockRead\<close>, a value no operation replaces; the pages are a map
  from page index to whole pages. The locales \<open>overlay_base\<close>, \<open>calm_base\<close> and
  \<open>reliable_base\<close> turn the contract of the base into the contract of the overlay as a
  \<open>BlockDevice\<close>, so that every lemma about the reader holds over an overlay.
\<close>

section \<open>The overlay\<close>

abbreviation PAGE :: u64 where "PAGE \<equiv> 4096"
abbreviation PAGE_BYTES :: nat where "PAGE_BYTES \<equiv> 4096"

record 'b overlay =
  ov_base :: 'b
  ov_base_len :: u64
  ov_len :: u64
  ov_pages :: "u64 \<rightharpoonup> bytes"
  ov_written :: bool

definition overlay_new :: "('b, 'z) read_ops_scheme \<Rightarrow> 'b \<Rightarrow> 'b overlay" where
  "overlay_new bops base =
     \<lparr> ov_base = base, ov_base_len = dev_size_bytes bops base, ov_len = dev_size_bytes bops base,
       ov_pages = Map.empty, ov_written = False \<rparr>"

definition overlay_written :: "'b overlay \<Rightarrow> bool" where
  "overlay_written ov = ov_written ov"

definition read_base ::
  "('b, 'z) read_ops_scheme \<Rightarrow> 'b overlay \<Rightarrow> u64 \<Rightarrow> nat \<Rightarrow> (bytes, fs_error) res" where
  "read_base bops ov offset len =
     (let have_len = min (unat (ov_base_len ov) - unat offset) len in
      res_bind (if 0 < have_len then dev_read_at bops (ov_base ov) offset have_len else Ok []) (\<lambda>bs.
      Ok (bs @ replicate (len - have_len) 0)))"

definition bound :: "'b overlay \<Rightarrow> u64 \<Rightarrow> nat \<Rightarrow> (unit, fs_error) res" where
  "bound ov offset len =
     (if unat offset + len < 2 ^ 64 \<and> unat offset + len \<le> unat (ov_len ov) then Ok ()
      else Err (FsOutOfBounds offset (word_of_nat len) (ov_len ov)))"

text \<open>A piece: page index, offset in the page, position in the caller's buffer, length.\<close>

type_synonym piece = "u64 \<times> nat \<times> nat \<times> nat"

function pieces_from :: "u64 \<Rightarrow> u64 \<Rightarrow> u64 \<Rightarrow> piece list" where
  "pieces_from offset end at =
     (if end \<le> at then []
      else
        let index = at div PAGE;
            in_page = unat (at mod PAGE);
            n = min (PAGE_BYTES - in_page) (unat (end - at))
        in
        (index, in_page, unat (at - offset), n) # pieces_from offset end (at + word_of_nat n))"
  by pat_completeness auto

lemma unat_at_mod: "unat (at mod PAGE) = unat at mod PAGE_BYTES"
  by (simp add: unat_mod)

lemma piece_step:
  fixes "end" at :: u64
  assumes "\<not> end \<le> at"
  defines "n \<equiv> min (PAGE_BYTES - unat (at mod PAGE)) (unat (end - at))"
  shows "0 < n" "unat at + n \<le> unat end" "unat (at + word_of_nat n) = unat at + n"
    "unat at mod PAGE_BYTES + n \<le> PAGE_BYTES"
    "n = min (PAGE_BYTES - unat at mod PAGE_BYTES) (unat end - unat at)"
proof -
  have le: "unat at < unat end" using assms(1) by (simp add: word_less_nat_alt not_le)
  then have d: "unat (end - at) = unat end - unat at"
    by (intro unat_sub) (simp add: word_le_nat_alt)
  show n: "n = min (PAGE_BYTES - unat at mod PAGE_BYTES) (unat end - unat at)"
    by (simp add: n_def d unat_at_mod)
  have m: "unat at mod PAGE_BYTES < PAGE_BYTES" by simp
  show "0 < n" using le m by (simp add: n)
  show e: "unat at + n \<le> unat end" using le by (simp add: n)
  show "unat at mod PAGE_BYTES + n \<le> PAGE_BYTES"
    using m unfolding n by linarith
  have "n < 2 ^ 64" "unat at + n < 2 ^ 64"
    using e unat_lt_u64 [of "end"] by (simp_all del: unat_lt_u64)
  then show "unat (at + word_of_nat n) = unat at + n"
    by (subst unat_add_no_overflow) (simp_all add: unat_of_nat)
qed

termination pieces_from
proof (relation "measure (\<lambda>(offset, end, at). unat end - unat at)", goal_cases)
  case (2 offset "end" at index in_page n)
  then have n: "n = min (PAGE_BYTES - unat (at mod PAGE)) (unat (end - at))" by simp
  have "0 < n" "unat at + n \<le> unat end" "unat (at + word_of_nat n) = unat at + n"
    unfolding n by (rule piece_step [OF 2(1)])+
  then have "unat end - unat (at + word_of_nat n) < unat end - unat at" by linarith
  then show ?case by (simp only: in_measure prod.case)
qed simp

declare pieces_from.simps [simp del]

definition pieces :: "u64 \<Rightarrow> nat \<Rightarrow> piece list" where
  "pieces offset len = pieces_from offset (offset + word_of_nat len) offset"

section \<open>The block-device operations\<close>

definition read_piece ::
  "('b, 'z) read_ops_scheme \<Rightarrow> 'b overlay \<Rightarrow> piece \<Rightarrow> bytes \<Rightarrow> (bytes, fs_error) res" where
  "read_piece bops ov =
     (\<lambda>(index, in_page, pos, n) buf.
        res_bind (get_slice buf pos (pos + n)) (\<lambda>dst.
        res_bind
          (case ov_pages ov index of
             Some page \<Rightarrow> get_slice page in_page (in_page + n)
           | None \<Rightarrow> read_base bops ov (index * PAGE + word_of_nat in_page) (length dst)) (\<lambda>bs.
        copy_into buf pos (pos + n) bs)))"

primrec read_pieces ::
  "('b, 'z) read_ops_scheme \<Rightarrow> 'b overlay \<Rightarrow> piece list \<Rightarrow> bytes \<Rightarrow> (bytes, fs_error) res" where
  "read_pieces bops ov [] buf = Ok buf"
| "read_pieces bops ov (p # ps) buf = res_bind (read_piece bops ov p buf) (read_pieces bops ov ps)"

definition overlay_read_at ::
  "('b, 'z) read_ops_scheme \<Rightarrow> 'b overlay \<Rightarrow> u64 \<Rightarrow> bytes \<Rightarrow> (bytes, fs_error) res" where
  "overlay_read_at bops ov offset buf =
     res_bind (bound ov offset (length buf)) (\<lambda>_.
     read_pieces bops ov (pieces offset (length buf)) buf)"

text \<open>\<open>pages.entry(index)\<close>: the page as it is, or a fresh one filled from the base and kept.\<close>

definition page_for ::
  "('b, 'z) read_ops_scheme \<Rightarrow> u64 \<Rightarrow> ('b overlay, bytes, fs_error) io" where
  "page_for bops index ov =
     (case ov_pages ov index of
        Some page \<Rightarrow> (Ok page, ov)
      | None \<Rightarrow>
          io_bind (io_lift (read_base bops ov (index * PAGE) PAGE_BYTES)) (\<lambda>page.
          (\<lambda>ov. (Ok page, ov\<lparr> ov_pages := (ov_pages ov)(index \<mapsto> page) \<rparr>))) ov)"

definition write_piece ::
  "('b, 'z) read_ops_scheme \<Rightarrow> bytes \<Rightarrow> piece \<Rightarrow> ('b overlay, unit, fs_error) io" where
  "write_piece bops buf =
     (\<lambda>(index, in_page, pos, n).
        io_bind (page_for bops index) (\<lambda>page.
        io_bind (io_lift (get_slice buf pos (pos + n))) (\<lambda>src.
        io_bind (io_lift (copy_into page in_page (in_page + n) src)) (\<lambda>page.
        (\<lambda>ov. (Ok (), ov\<lparr> ov_pages := (ov_pages ov)(index \<mapsto> page) \<rparr>))))))"

definition overlay_write_at ::
  "('b, 'z) read_ops_scheme \<Rightarrow> u64 \<Rightarrow> bytes \<Rightarrow> ('b overlay, unit, fs_error) io" where
  "overlay_write_at bops offset buf =
     io_bind (\<lambda>ov. (bound ov offset (length buf), ov)) (\<lambda>_.
     io_bind (io_foreach (write_piece bops buf) (pieces offset (length buf))) (\<lambda>_.
     (\<lambda>ov. (Ok (), ov\<lparr> ov_written := True \<rparr>))))"

definition overlay_set_len :: "u64 \<Rightarrow> ('b overlay, unit, fs_error) io" where
  "overlay_set_len new_len ov =
     (if new_len < ov_len ov
      then (Err (FsCustom (''the in-memory view of the image does not shrink (''
        @ show_nat (unat (ov_len ov)) @ '' to '' @ show_nat (unat new_len) @ '' bytes)'')), ov)
      else (Ok (), ov\<lparr> ov_len := new_len, ov_written := True \<rparr>))"

definition overlay_ops :: "('b, 'z) read_ops_scheme \<Rightarrow> 'b overlay dev_ops" where
  "overlay_ops bops =
     \<lparr> dev_size_bytes = ov_len,
       dev_read_at = (\<lambda>ov offset n. overlay_read_at bops ov offset (replicate n 0)),
       dev_write_at = overlay_write_at bops,
       dev_flush = io_return (),
       dev_set_len = overlay_set_len,
       dev_is_writable = (\<lambda>_. True),
       dev_can_grow = (\<lambda>_. True) \<rparr>"

section \<open>What the overlay holds\<close>

text \<open>The byte at a position: the page's where one was written, else the base's, else zero.\<close>

definition base_byte :: "bytes \<Rightarrow> nat \<Rightarrow> u8" where
  "base_byte c i = (if i < length c then c ! i else 0)"

definition ov_byte :: "bytes \<Rightarrow> 'b overlay \<Rightarrow> nat \<Rightarrow> u8" where
  "ov_byte c ov i =
     (case ov_pages ov (word_of_nat (i div PAGE_BYTES)) of
        Some page \<Rightarrow> page ! (i mod PAGE_BYTES)
      | None \<Rightarrow> base_byte c i)"

definition overlay_contents :: "('b \<Rightarrow> bytes) \<Rightarrow> 'b overlay \<Rightarrow> bytes" where
  "overlay_contents bcontents ov =
     map (ov_byte (bcontents (ov_base ov)) ov) [0..<unat (ov_len ov)]"

definition pages_ok :: "'b overlay \<Rightarrow> bool" where
  "pages_ok ov \<longleftrightarrow>
     (\<forall>k page. ov_pages ov k = Some page \<longrightarrow> length page = PAGE_BYTES \<and>
        (\<forall>j < PAGE_BYTES. unat (ov_len ov) \<le> unat k * PAGE_BYTES + j \<longrightarrow> page ! j = 0))"

definition overlay_invar ::
  "('b, 'z) read_ops_scheme \<Rightarrow> ('b \<Rightarrow> bool) \<Rightarrow> 'b overlay \<Rightarrow> bool" where
  "overlay_invar bops binvar ov \<longleftrightarrow>
     binvar (ov_base ov) \<and> ov_base_len ov = dev_size_bytes bops (ov_base ov) \<and>
     ov_base_len ov \<le> ov_len ov \<and> pages_ok ov"

lemma bound_Ok_iff: "bound ov offset len = Ok u \<longleftrightarrow> unat offset + len \<le> unat (ov_len ov)"
  using unat_lt_u64 [of "ov_len ov"] by (auto simp: bound_def simp del: unat_lt_u64)

lemma bound_not_Panic [simp]: "bound ov offset len \<noteq> Panic"
  by (simp add: bound_def)

lemma length_overlay_contents [simp]: "length (overlay_contents bc ov) = unat (ov_len ov)"
  by (simp add: overlay_contents_def)

lemma nth_overlay_contents:
  "i < unat (ov_len ov) \<Longrightarrow> overlay_contents bc ov ! i = ov_byte (bc (ov_base ov)) ov i"
  by (simp add: overlay_contents_def)

lemma page_span:
  assumes "i mod PAGE_BYTES + k < (PAGE_BYTES :: nat)"
  shows "(i + k) div PAGE_BYTES = i div PAGE_BYTES" "(i + k) mod PAGE_BYTES = i mod PAGE_BYTES + k"
proof -
  have e: "i + k = (i mod PAGE_BYTES + k) + i div PAGE_BYTES * PAGE_BYTES" by simp
  have "(i mod PAGE_BYTES + k + i div PAGE_BYTES * PAGE_BYTES) div PAGE_BYTES =
      i div PAGE_BYTES + (i mod PAGE_BYTES + k) div PAGE_BYTES"
    by (rule div_mult_self1) simp
  then show "(i + k) div PAGE_BYTES = i div PAGE_BYTES" unfolding e [symmetric] using assms by simp
  have "(i mod PAGE_BYTES + k + i div PAGE_BYTES * PAGE_BYTES) mod PAGE_BYTES =
      (i mod PAGE_BYTES + k) mod PAGE_BYTES"
    by (rule mod_mult_self1)
  then show "(i + k) mod PAGE_BYTES = i mod PAGE_BYTES + k" unfolding e [symmetric] using assms by simp
qed

lemma unat_numeral_page: "unat PAGE = PAGE_BYTES"
  by simp

lemma index_of_page: "word_of_nat (unat at div PAGE_BYTES) = (at div PAGE :: u64)"
  by (rule word_unat_eq_iff [THEN iffD2]) (simp add: unat_div unat_of_nat div_le_dividend [THEN le_less_trans])

lemma page_index_eq:
  assumes "i < 2 ^ 64"
  shows "word_of_nat (i div PAGE_BYTES) = (at div PAGE :: u64) \<longleftrightarrow>
    i div PAGE_BYTES = unat at div PAGE_BYTES"
proof
  have "i div PAGE_BYTES < 18446744073709551616" using le_less_trans [OF div_le_dividend assms] by simp
  moreover assume "word_of_nat (i div PAGE_BYTES) = at div PAGE"
  ultimately show "i div PAGE_BYTES = unat at div PAGE_BYTES"
    by (metis unat_of_nat_u64 unat_div unat_numeral_page)
qed (simp only: index_of_page)

lemma page_for_eq:
  "page_for bops index ov =
     (case ov_pages ov index of
        Some page \<Rightarrow> (Ok page, ov)
      | None \<Rightarrow>
          (case read_base bops ov (index * PAGE) PAGE_BYTES of
             Ok page \<Rightarrow> (Ok page, ov\<lparr> ov_pages := (ov_pages ov)(index \<mapsto> page) \<rparr>)
           | Err e \<Rightarrow> (Err e, ov)
           | Panic \<Rightarrow> (Panic, ov)))"
  by (auto simp: page_for_def io_bind_def io_lift_def split: option.splits res.splits)

lemma ov_byte_in_page:
  assumes "k < n" "unat at mod PAGE_BYTES + n \<le> PAGE_BYTES"
  shows "ov_byte c ov (unat at + k) =
    (case ov_pages ov (at div PAGE) of
       Some page \<Rightarrow> page ! (unat at mod PAGE_BYTES + k)
     | None \<Rightarrow> base_byte c (unat at + k))"
proof -
  have "unat at mod PAGE_BYTES + k < PAGE_BYTES" using assms by linarith
  from page_span [OF this] show ?thesis by (simp only: ov_byte_def index_of_page)
qed

lemma page_start:
  "unat (at div PAGE * PAGE) = unat at div PAGE_BYTES * PAGE_BYTES"
  "at div PAGE * PAGE + word_of_nat (unat (at mod PAGE)) = at"
proof -
  have "unat at div PAGE_BYTES * PAGE_BYTES < 2 ^ 64"
    by (rule le_less_trans [OF div_times_less_eq_dividend]) simp
  then show "unat (at div PAGE * PAGE) = unat at div PAGE_BYTES * PAGE_BYTES"
    by (subst unat_mult_no_overflow) (simp_all add: unat_div)
  show "at div PAGE * PAGE + word_of_nat (unat (at mod PAGE)) = at"
    by (simp add: div_mult_mod_eq)
qed

lemma read_piece_at:
  assumes "p + n \<le> length buf"
  shows "read_piece bops ov (at div PAGE, unat (at mod PAGE), p, n) buf =
    res_bind
      (case ov_pages ov (at div PAGE) of
         Some page \<Rightarrow> get_slice page (unat (at mod PAGE)) (unat (at mod PAGE) + n)
       | None \<Rightarrow> read_base bops ov at n)
      (copy_into buf p (p + n))"
proof -
  have "length (subslice p (p + n) buf) = n" using assms by simp
  then show ?thesis using assms unfolding read_piece_def by (simp add: div_mult_mod_eq cong: option.case_cong)
qed

section \<open>The overlay keeps the contract of a block device\<close>

locale overlay_base = block_read bops binvar bcontents
  for bops :: "('b, 'z) read_ops_scheme" and binvar :: "'b \<Rightarrow> bool" and bcontents :: "'b \<Rightarrow> bytes"
begin

abbreviation ov_ok :: "'b overlay \<Rightarrow> bool" where
  "ov_ok \<equiv> overlay_invar bops binvar"

abbreviation base_of :: "'b overlay \<Rightarrow> bytes" where
  "base_of ov \<equiv> bcontents (ov_base ov)"

lemma base_len: "ov_ok ov \<Longrightarrow> unat (ov_base_len ov) = length (base_of ov)"
  using size_law by (simp add: overlay_invar_def)

lemma read_base_Ok:
  assumes "ov_ok ov" "read_base bops ov offset n = Ok bs"
  shows "length bs = n" "k < n \<Longrightarrow> bs ! k = base_byte (base_of ov) (unat offset + k)"
proof -
  let ?c = "base_of ov" and ?h = "min (unat (ov_base_len ov) - unat offset) n"
  obtain a where bs: "bs = a @ replicate (n - ?h) 0"
    and a: "(if 0 < ?h then dev_read_at bops (ov_base ov) offset ?h else Ok []) = Ok a"
    using assms(2) by (auto simp: read_base_def Let_def res_bind_Ok_iff)
  have inv: "binvar (ov_base ov)" using assms(1) by (simp add: overlay_invar_def)
  have "?h < 2 ^ 64" by (rule le_less_trans [OF min.cobounded1]) (simp add: less_imp_diff_less)
  then have h: "?h < 18446744073709551616" by simp
  have a2: "length a = ?h" "a = subslice (unat offset) (unat offset + ?h) ?c"
    using a read_law [OF inv, of ?h offset a] h by (auto split: if_splits)
  show len: "length bs = n" using a2(1) by (simp add: bs)
  assume k: "k < n"
  show "bs ! k = base_byte ?c (unat offset + k)"
  proof (cases "k < ?h")
    case True
    then have i: "unat offset + k < length ?c" using base_len [OF assms(1)] by linarith
    have "bs ! k = a ! k" using True a2(1) by (simp add: bs nth_append)
    also have "\<dots> = ?c ! (unat offset + k)"
      using True i by (subst a2(2)) (rule nth_subslice, simp_all)
    finally show ?thesis using i by (simp add: base_byte_def)
  next
    case False
    then have "\<not> unat offset + k < length ?c" using base_len [OF assms(1)] k by linarith
    then show ?thesis using False k a2(1) by (simp add: bs nth_append base_byte_def)
  qed
qed

lemma read_piece_Ok:
  assumes "ov_ok ov" "\<not> end \<le> at" "offset \<le> at" "length buf = unat end - unat offset"
  defines "n \<equiv> min (PAGE_BYTES - unat (at mod PAGE)) (unat (end - at))"
  assumes "read_piece bops ov (at div PAGE, unat (at mod PAGE), unat (at - offset), n) buf = Ok buf'"
  shows "length buf' = length buf"
    "k < length buf \<Longrightarrow> buf' ! k =
       (if unat at \<le> unat offset + k \<and> unat offset + k < unat at + n
        then ov_byte (base_of ov) ov (unat offset + k) else buf ! k)"
proof -
  let ?p = "unat (at - offset)"
  have p: "?p = unat at - unat offset" "unat offset \<le> unat at"
    using assms(3) by (simp_all add: unat_sub word_le_nat_alt)
  note st = piece_step [OF assms(2), folded n_def]
  have fits: "?p + n \<le> length buf" using st(2) assms(4) p by linarith
  obtain bs where src: "(case ov_pages ov (at div PAGE) of
         Some page \<Rightarrow> get_slice page (unat (at mod PAGE)) (unat (at mod PAGE) + n)
       | None \<Rightarrow> read_base bops ov at n) = Ok bs"
    and cp: "copy_into buf ?p (?p + n) bs = (Ok buf' :: (bytes, fs_error) res)"
    using assms(6) unfolding read_piece_at [OF fits] by (auto simp: res_bind_Ok_iff)
  have bs: "length bs = n" and buf': "buf' = overwrite ?p bs buf"
    using cp by (auto simp: copy_into_def split: if_splits)
  show "length buf' = length buf" using fits bs by (simp add: buf')
  have byte: "bs ! j = ov_byte (base_of ov) ov (unat at + j)" if j: "j < n" for j
  proof (cases "ov_pages ov (at div PAGE)")
    case None
    then show ?thesis
      using src read_base_Ok(2) [OF assms(1) _ j] ov_byte_in_page [OF j st(4), of "base_of ov" ov] by simp
  next
    case (Some page)
    then have "bs = subslice (unat (at mod PAGE)) (unat (at mod PAGE) + n) page"
      "unat (at mod PAGE) + n \<le> length page"
      using src by (auto simp: get_slice_Ok_iff)
    then show ?thesis
      using Some j ov_byte_in_page [OF j st(4), of "base_of ov" ov] by (simp add: nth_subslice unat_at_mod)
  qed
  assume k: "k < length buf"
  show "buf' ! k = (if unat at \<le> unat offset + k \<and> unat offset + k < unat at + n
        then ov_byte (base_of ov) ov (unat offset + k) else buf ! k)"
    using k fits bs p byte [of "k - ?p"] by (auto simp: buf' nth_overwrite ac_simps)
qed

lemma read_pieces_Ok:
  assumes "ov_ok ov" "offset \<le> at" "length buf = unat end - unat offset"
    and "read_pieces bops ov (pieces_from offset end at) buf = Ok buf'"
  shows "length buf' = length buf \<and> (\<forall>k < length buf. buf' ! k =
    (if unat at \<le> unat offset + k then ov_byte (base_of ov) ov (unat offset + k) else buf ! k))"
  using assms(2-4)
proof (induction "unat end - unat at" arbitrary: at buf rule: less_induct)
  case less
  show ?case
  proof (cases "end \<le> at")
    case True
    then have "buf' = buf" using less.prems(3) by (simp add: pieces_from.simps)
    then show ?thesis using True less.prems(2) by (auto simp: word_le_nat_alt)
  next
    case False
    define n where "n = min (PAGE_BYTES - unat (at mod PAGE)) (unat (end - at))"
    obtain b1 where p: "read_piece bops ov (at div PAGE, unat (at mod PAGE), unat (at - offset), n) buf = Ok b1"
      and rest: "read_pieces bops ov (pieces_from offset end (at + word_of_nat n)) b1 = Ok buf'"
      using less.prems(3) False by (subst (asm) pieces_from.simps) (auto simp: Let_def res_bind_Ok_iff n_def)
    note st = piece_step [OF False, folded n_def]
    note b1 = read_piece_Ok [OF assms(1) False less.prems(1,2) p [unfolded n_def], folded n_def]
    have "unat end - unat (at + word_of_nat n) < unat end - unat at"
      using st(1-3) by linarith
    moreover have "offset \<le> at + word_of_nat n"
      using less.prems(1) st(3) by (simp add: word_le_nat_alt)
    ultimately have IH: "length buf' = length b1 \<and> (\<forall>k < length b1. buf' ! k =
        (if unat at + n \<le> unat offset + k then ov_byte (base_of ov) ov (unat offset + k) else b1 ! k))"
      using less.hyps [OF _ _ _ rest] less.prems(2) b1(1) by (simp add: st(3))
    then show ?thesis using b1 st(1) by auto
  qed
qed

lemma overlay_read_Ok:
  assumes "ov_ok ov" "overlay_read_at bops ov offset buf = Ok bs"
  shows "length bs = length buf \<and>
    bs = subslice (unat offset) (unat offset + length buf) (overlay_contents bcontents ov)"
proof -
  let ?stop = "offset + word_of_nat (length buf)"
  have b: "unat offset + length buf \<le> unat (ov_len ov)"
    and r: "read_pieces bops ov (pieces_from offset ?stop offset) buf = Ok bs"
    using assms(2) by (auto simp: overlay_read_at_def res_bind_Ok_iff bound_Ok_iff pieces_def)
  have "unat offset + length buf < 2 ^ 64" "length buf < 2 ^ 64"
    using b unat_lt_u64 [of "ov_len ov"] by (simp_all del: unat_lt_u64)
  then have "unat ?stop = unat offset + length buf"
    by (subst unat_add_no_overflow) (simp_all add: unat_of_nat)
  then have R: "length bs = length buf" "\<forall>k < length buf. bs ! k = ov_byte (base_of ov) ov (unat offset + k)"
    using read_pieces_Ok [OF assms(1) _ _ r] by simp_all
  then show ?thesis
    using b by (auto intro!: nth_equalityI simp: nth_subslice nth_overlay_contents)
qed

text \<open>What a write may change: the pages, and the flag at its end.\<close>

definition ov_frame :: "'b overlay \<Rightarrow> 'b overlay \<Rightarrow> bool" where
  "ov_frame ov ov' \<longleftrightarrow> ov_base ov' = ov_base ov \<and> ov_base_len ov' = ov_base_len ov \<and>
     ov_len ov' = ov_len ov"

lemma page_for_load:
  assumes "ov_ok ov" "ov_pages ov (at div PAGE) = None"
    and "read_base bops ov (at div PAGE * PAGE) PAGE_BYTES = Ok page"
  defines "ov' \<equiv> ov\<lparr> ov_pages := (ov_pages ov)(at div PAGE \<mapsto> page) \<rparr>"
  shows "ov_ok ov'" "i < 2 ^ 64 \<Longrightarrow> ov_byte (base_of ov) ov' i = ov_byte (base_of ov) ov i"
proof -
  note rb = read_base_Ok [OF assms(1,3), unfolded page_start(1)]
  have "unat (ov_base_len ov) \<le> unat (ov_len ov)"
    using assms(1) unfolding overlay_invar_def word_le_nat_alt by blast
  then have "page ! j = 0" if "j < PAGE_BYTES" "unat (ov_len ov) \<le> unat (at div PAGE) * PAGE_BYTES + j" for j
    using rb(2) [OF that(1)] that(2) base_len [OF assms(1)] by (simp add: base_byte_def unat_div)
  then show "ov_ok ov'" using assms(1) rb(1) by (auto simp: overlay_invar_def pages_ok_def ov'_def)
  assume i: "i < 2 ^ 64"
  show "ov_byte (base_of ov) ov' i = ov_byte (base_of ov) ov i"
  proof (cases "word_of_nat (i div PAGE_BYTES) = at div PAGE")
    case True
    then have "i div PAGE_BYTES = unat at div PAGE_BYTES" by (simp only: page_index_eq [OF i])
    then have "unat at div PAGE_BYTES * PAGE_BYTES + i mod PAGE_BYTES = i"
      by (metis div_mult_mod_eq)
    then have "page ! (i mod PAGE_BYTES) = base_byte (base_of ov) i"
      using rb(2) [of "i mod PAGE_BYTES"] by simp
    then show ?thesis using True assms(2) by (simp add: ov_byte_def ov'_def)
  qed (simp add: ov_byte_def ov'_def)
qed

lemma page_for_keeps:
  assumes "ov_ok ov" "page_for bops (at div PAGE) ov = (r, ov')"
  shows "ov_ok ov'" "ov_frame ov ov'" "i < 2 ^ 64 \<Longrightarrow> ov_byte (base_of ov) ov' i = ov_byte (base_of ov) ov i"
    "r = Ok page \<Longrightarrow> ov_pages ov' (at div PAGE) = Some page"
proof -
  have "ov_ok ov' \<and> ov_frame ov ov' \<and>
    (i < 2 ^ 64 \<longrightarrow> ov_byte (base_of ov) ov' i = ov_byte (base_of ov) ov i) \<and>
    (r = Ok page \<longrightarrow> ov_pages ov' (at div PAGE) = Some page)"
  proof (cases "ov_pages ov (at div PAGE)")
    case None
    show ?thesis
    proof (cases "read_base bops ov (at div PAGE * PAGE) PAGE_BYTES")
      case (Ok q)
      then have "r = Ok q" "ov' = ov\<lparr> ov_pages := (ov_pages ov)(at div PAGE \<mapsto> q) \<rparr>"
        using assms(2) None by (simp_all add: page_for_eq)
      then show ?thesis using page_for_load [OF assms(1) None Ok] by (simp add: ov_frame_def)
    qed (use assms None in \<open>auto simp: page_for_eq ov_frame_def\<close>)
  qed (use assms in \<open>auto simp: page_for_eq ov_frame_def\<close>)
  then show "ov_ok ov'" "ov_frame ov ov'"
    "i < 2 ^ 64 \<Longrightarrow> ov_byte (base_of ov) ov' i = ov_byte (base_of ov) ov i"
    "r = Ok page \<Longrightarrow> ov_pages ov' (at div PAGE) = Some page"
    by blast+
qed

text \<open>Splicing bytes into a page already kept.\<close>

lemma splice_page:
  assumes "ov_ok ov" "ov_pages ov (at div PAGE) = Some page"
    and "unat at mod PAGE_BYTES + length src \<le> PAGE_BYTES" "unat at + length src \<le> unat (ov_len ov)"
  defines "ov' \<equiv> ov\<lparr> ov_pages := (ov_pages ov)(at div PAGE \<mapsto>
      overwrite (unat at mod PAGE_BYTES) src page) \<rparr>"
  shows "ov_ok ov'"
    "i < 2 ^ 64 \<Longrightarrow> ov_byte c ov' i =
       (if unat at \<le> i \<and> i < unat at + length src then src ! (i - unat at) else ov_byte c ov i)"
proof -
  let ?m = "unat at mod PAGE_BYTES" and ?d = "unat at div PAGE_BYTES"
  have page: "length page = PAGE_BYTES"
    "\<And>j. j < PAGE_BYTES \<Longrightarrow> unat (ov_len ov) \<le> ?d * PAGE_BYTES + j \<Longrightarrow> page ! j = 0"
    using assms(1,2) by (auto simp: overlay_invar_def pages_ok_def unat_div)
  have at: "?d * PAGE_BYTES + ?m = unat at" by (rule div_mult_mod_eq)
  have new: "overwrite ?m src page ! j =
      (if ?m \<le> j \<and> j < ?m + length src then src ! (j - ?m) else page ! j)" if "j < PAGE_BYTES" for j
    using that page(1) assms(3) by (simp add: nth_overwrite)
  have "overwrite ?m src page ! j = 0" if j: "j < PAGE_BYTES" "unat (ov_len ov) \<le> ?d * PAGE_BYTES + j" for j
  proof -
    have "\<not> j < ?m + length src" using j(2) assms(4) at by linarith
    then show ?thesis using new [OF j(1)] page(2) [OF j] by simp
  qed
  then show "ov_ok ov'"
    using assms(1,3) page(1) by (auto simp: overlay_invar_def pages_ok_def ov'_def unat_div)
  assume i: "i < 2 ^ 64"
  show "ov_byte c ov' i =
       (if unat at \<le> i \<and> i < unat at + length src then src ! (i - unat at) else ov_byte c ov i)"
  proof (cases "i div PAGE_BYTES = ?d")
    case True
    have im: "?d * PAGE_BYTES + i mod PAGE_BYTES = i" unfolding True [symmetric] by (rule div_mult_mod_eq)
    have w: "word_of_nat (i div PAGE_BYTES) = at div PAGE" by (simp only: True index_of_page)
    have "?m \<le> i mod PAGE_BYTES \<and> i mod PAGE_BYTES < ?m + length src \<longleftrightarrow>
        unat at \<le> i \<and> i < unat at + length src" "i mod PAGE_BYTES - ?m = i - unat at"
      using im at by linarith+
    then show ?thesis
      using new [of "i mod PAGE_BYTES"] w assms(2) by (simp add: ov_byte_def ov'_def)
  next
    case False
    then have "word_of_nat (i div PAGE_BYTES) \<noteq> at div PAGE" by (simp only: page_index_eq [OF i] simp_thms)
    moreover have "\<not> (unat at \<le> i \<and> i < unat at + length src)"
    proof
      assume "unat at \<le> i \<and> i < unat at + length src"
      then have k: "i = unat at + (i - unat at)" "?m + (i - unat at) < PAGE_BYTES"
        using assms(3) by linarith+
      from page_span(1) [OF k(2)] k(1) False show False by simp
    qed
    ultimately have "ov_byte c ov' i = ov_byte c ov i" "\<not> (unat at \<le> i \<and> i < unat at + length src)"
      unfolding ov_byte_def ov'_def by simp_all
    then show ?thesis by (simp only: if_False)
  qed
qed

lemma write_piece_ok:
  assumes "ov_ok ov" "\<not> end \<le> at" "offset \<le> at" "length buf = unat end - unat offset"
    and "unat end \<le> unat (ov_len ov)"
  defines "n \<equiv> min (PAGE_BYTES - unat (at mod PAGE)) (unat (end - at))"
  assumes "write_piece bops buf (at div PAGE, unat (at mod PAGE), unat (at - offset), n) ov = (r, ov')"
  shows "ov_ok ov'" "ov_frame ov ov'"
    "r = Ok () \<Longrightarrow> i < 2 ^ 64 \<Longrightarrow> ov_byte (base_of ov) ov' i =
       (if unat at \<le> i \<and> i < unat at + n then buf ! (i - unat offset) else ov_byte (base_of ov) ov i)"
proof -
  let ?p = "unat (at - offset)"
  have p: "?p = unat at - unat offset" "unat offset \<le> unat at"
    using assms(3) by (simp_all add: unat_sub word_le_nat_alt)
  note st = piece_step [OF assms(2), folded n_def]
  have fits: "?p + n \<le> length buf" using st(2) assms(4) p by linarith
  let ?src = "subslice ?p (?p + n) buf"
  have sl: "length ?src = n" using fits by simp
  obtain r1 ov1 where pf: "page_for bops (at div PAGE) ov = (r1, ov1)" by (metis surj_pair)
  note keeps = page_for_keeps [OF assms(1) pf]
  have "ov_ok ov' \<and> ov_frame ov ov' \<and> (r = Ok () \<longrightarrow> i < 2 ^ 64 \<longrightarrow> ov_byte (base_of ov) ov' i =
       (if unat at \<le> i \<and> i < unat at + n then buf ! (i - unat offset) else ov_byte (base_of ov) ov i))"
  proof (cases "\<exists>page. r1 = Ok page")
    case False
    then have "r \<noteq> Ok () \<and> ov' = ov1"
      using assms(7) pf by (cases r1) (auto simp: write_piece_def io_bind_def)
    then show ?thesis using keeps by blast
  next
    case True
    then obtain page where page: "r1 = Ok page" by blast
    then have pg: "ov_pages ov1 (at div PAGE) = Some page" by (rule keeps(4))
    have pl: "length page = PAGE_BYTES"
      using keeps(1) pg by (simp add: overlay_invar_def pages_ok_def)
    have ov': "r = Ok ()" "ov' = ov1\<lparr> ov_pages := (ov_pages ov1)(at div PAGE \<mapsto>
        overwrite (unat at mod PAGE_BYTES) ?src page) \<rparr>"
      using assms(7) pf page fits sl st(4) pl
      by (auto simp: write_piece_def io_bind_step unat_at_mod)
    have fr: "ov_base ov1 = ov_base ov" "ov_len ov1 = ov_len ov"
      using keeps(2) by (simp_all add: ov_frame_def)
    have "unat at mod PAGE_BYTES + length ?src \<le> PAGE_BYTES" "unat at + length ?src \<le> unat (ov_len ov1)"
      unfolding sl fr using st(2,4) assms(5) by linarith+
    note sp = splice_page [OF keeps(1) pg this, folded ov'(2), unfolded sl]
    have "?src ! (i - unat at) = buf ! (i - unat offset)" if "unat at \<le> i" "i < unat at + n"
      using that fits p by (simp add: nth_subslice)
    then show ?thesis
      using sp keeps(2) keeps(3) [of i] by (auto simp: ov_frame_def ov'(2))
  qed
  then show "ov_ok ov'" "ov_frame ov ov'"
    "r = Ok () \<Longrightarrow> i < 2 ^ 64 \<Longrightarrow> ov_byte (base_of ov) ov' i =
       (if unat at \<le> i \<and> i < unat at + n then buf ! (i - unat offset) else ov_byte (base_of ov) ov i)"
    by blast+
qed

lemma write_pieces_ok:
  assumes "ov_ok ov" "offset \<le> at" "length buf = unat end - unat offset" "unat end \<le> unat (ov_len ov)"
    and "io_foreach (write_piece bops buf) (pieces_from offset end at) ov = (r, ov')"
  shows "ov_ok ov' \<and> ov_frame ov ov' \<and> (r = Ok () \<longrightarrow> (\<forall>i < 2 ^ 64. ov_byte (base_of ov) ov' i =
    (if unat at \<le> i \<and> i < unat end then buf ! (i - unat offset) else ov_byte (base_of ov) ov i)))"
  using assms
proof (induction "unat end - unat at" arbitrary: at ov rule: less_induct)
  case less
  show ?case
  proof (cases "end \<le> at")
    case True
    then have "ov' = ov" using less.prems(5) by (simp add: pieces_from.simps io_return_def)
    then show ?thesis using True less.prems(1) by (auto simp: word_le_nat_alt ov_frame_def)
  next
    case False
    define n where "n = min (PAGE_BYTES - unat (at mod PAGE)) (unat (end - at))"
    note st = piece_step [OF False, folded n_def]
    obtain r1 ov1 where w: "write_piece bops buf
        (at div PAGE, unat (at mod PAGE), unat (at - offset), n) ov = (r1, ov1)" by (metis surj_pair)
    note ov1 = write_piece_ok [OF less.prems(1) False less.prems(2-4) w [unfolded n_def], folded n_def]
    have run: "io_bind (\<lambda>_. (r1, ov1)) (\<lambda>_. io_foreach (write_piece bops buf)
        (pieces_from offset end (at + word_of_nat n))) ov = (r, ov')"
      using less.prems(5) False w by (subst (asm) pieces_from.simps) (simp add: Let_def n_def io_bind_def)
    show ?thesis
    proof (cases "r1 = Ok ()")
      case True
      have fr: "ov_base ov1 = ov_base ov" "ov_len ov1 = ov_len ov" using ov1(2) by (simp_all add: ov_frame_def)
      have "unat end - unat (at + word_of_nat n) < unat end - unat at" using st(1-3) by linarith
      moreover have "offset \<le> at + word_of_nat n" using less.prems(2) st(3) by (simp add: word_le_nat_alt)
      ultimately have IH: "ov_ok ov' \<and> ov_frame ov1 ov' \<and> (r = Ok () \<longrightarrow>
          (\<forall>i < 2 ^ 64. ov_byte (base_of ov) ov' i =
          (if unat at + n \<le> i \<and> i < unat end then buf ! (i - unat offset) else ov_byte (base_of ov) ov1 i)))"
        using less.hyps [of "at + word_of_nat n" ov1] ov1(1) less.prems(3,4) run True
        by (simp add: st(3) fr io_bind_def)
      have "ov_frame ov ov'" using IH ov1(2) by (simp add: ov_frame_def)
      moreover have "ov_byte (base_of ov) ov' i =
          (if unat at \<le> i \<and> i < unat end then buf ! (i - unat offset) else ov_byte (base_of ov) ov i)"
        if "r = Ok ()" "i < 2 ^ 64" for i
        using IH ov1(3) [OF True that(2)] that st(2) by auto
      ultimately show ?thesis using IH by blast
    next
      case False
      then have "r \<noteq> Ok () \<and> ov' = ov1" using run by (cases r1) (auto simp: io_bind_def)
      then show ?thesis using ov1(1,2) by blast
    qed
  qed
qed

lemma overlay_write_ok:
  assumes "ov_ok ov" "overlay_write_at bops offset buf ov = (r, ov')"
  shows "ov_ok ov'" "ov_frame ov ov'"
    "r = Ok u \<Longrightarrow> unat offset + length buf \<le> unat (ov_len ov) \<and> ov_written ov' \<and>
       overlay_contents bcontents ov' = overwrite (unat offset) buf (overlay_contents bcontents ov)"
proof -
  let ?stop = "offset + word_of_nat (length buf)"
  have "ov_ok ov' \<and> ov_frame ov ov' \<and> (r = Ok () \<longrightarrow>
      unat offset + length buf \<le> unat (ov_len ov) \<and> ov_written ov' \<and>
      overlay_contents bcontents ov' = overwrite (unat offset) buf (overlay_contents bcontents ov))"
  proof (cases "unat offset + length buf \<le> unat (ov_len ov)")
    case False
    then have "ov' = ov \<and> r \<noteq> Ok ()"
      using assms(2) bound_Ok_iff [of ov offset "length buf" "()"]
      by (auto simp: overlay_write_at_def io_bind_def split: res.splits)
    then show ?thesis using assms(1) by (simp add: ov_frame_def)
  next
    case True
    have "unat offset + length buf < 2 ^ 64" "length buf < 2 ^ 64"
      using True unat_lt_u64 [of "ov_len ov"] by (simp_all del: unat_lt_u64)
    then have e: "unat ?stop = unat offset + length buf"
      by (subst unat_add_no_overflow) (simp_all add: unat_of_nat)
    obtain r1 ov1 where w: "io_foreach (write_piece bops buf) (pieces_from offset ?stop offset) ov = (r1, ov1)"
      by (metis surj_pair)
    have run: "(r, ov') = (case r1 of Ok _ \<Rightarrow> (Ok (), ov1\<lparr> ov_written := True \<rparr>)
        | Err e \<Rightarrow> (Err e, ov1) | Panic \<Rightarrow> (Panic, ov1))"
      using assms(2) w True bound_Ok_iff [of ov offset "length buf" "()"]
      by (simp add: overlay_write_at_def io_bind_def pieces_def split: res.splits)
    have ov1: "ov_ok ov1" "ov_frame ov ov1" "r1 = Ok () \<longrightarrow> (\<forall>i < 2 ^ 64. ov_byte (base_of ov) ov1 i =
      (if unat offset \<le> i \<and> i < unat offset + length buf then buf ! (i - unat offset)
       else ov_byte (base_of ov) ov i))"
      using write_pieces_ok [OF assms(1) _ _ _ w] e True by simp_all
    have flag: "ov_ok (ov1\<lparr> ov_written := True \<rparr>)" "ov_frame ov (ov1\<lparr> ov_written := True \<rparr>)"
      "ov_byte c (ov1\<lparr> ov_written := True \<rparr>) i = ov_byte c ov1 i" for c i
      using ov1(1,2) by (auto simp: overlay_invar_def pages_ok_def ov_frame_def ov_byte_def)
    have fr: "ov_base ov1 = ov_base ov" "ov_len ov1 = ov_len ov" using ov1(2) by (simp_all add: ov_frame_def)
    have "overlay_contents bcontents (ov1\<lparr> ov_written := True \<rparr>) =
        overwrite (unat offset) buf (overlay_contents bcontents ov)" if "r1 = Ok ()"
    proof (rule nth_equalityI)
      fix i assume "i < length (overlay_contents bcontents (ov1\<lparr> ov_written := True \<rparr>))"
      then have i: "i < unat (ov_len ov)" "i < 2 ^ 64"
        using unat_lt_u64 [of "ov_len ov"] by (simp_all add: fr del: unat_lt_u64)
      then show "overlay_contents bcontents (ov1\<lparr> ov_written := True \<rparr>) ! i =
          overwrite (unat offset) buf (overlay_contents bcontents ov) ! i"
        using that ov1(3) True by (simp add: nth_overlay_contents nth_overwrite fr flag(3))
    qed (use True in \<open>simp add: fr\<close>)
    then show ?thesis
      using run flag(1,2) ov1(1,2) True by (auto split: res.splits)
  qed
  then show "ov_ok ov'" "ov_frame ov ov'"
    "r = Ok u \<Longrightarrow> unat offset + length buf \<le> unat (ov_len ov) \<and> ov_written ov' \<and>
       overlay_contents bcontents ov' = overwrite (unat offset) buf (overlay_contents bcontents ov)"
    by simp_all
qed

text \<open>An operation inside the bounds fails only as a read of the base inside its bounds fails.\<close>

definition base_gives :: "'b \<Rightarrow> (bytes, fs_error) res \<Rightarrow> bool" where
  "base_gives b r \<longleftrightarrow>
     (\<exists>off n. unat off + n \<le> length (bcontents b) \<and> dev_read_at bops b off n = r)"

lemma read_base_fails:
  assumes "ov_ok ov" "read_base bops ov offset n = r" "\<not> is_Ok r"
  shows "base_gives (ov_base ov) r"
proof -
  let ?h = "min (unat (ov_base_len ov) - unat offset) n"
  have "0 < ?h \<and> dev_read_at bops (ov_base ov) offset ?h = r"
    using assms(2,3)
    by (cases "0 < ?h"; cases "dev_read_at bops (ov_base ov) offset ?h") (auto simp: read_base_def Let_def)
  moreover have "unat offset + ?h \<le> length (base_of ov)" if "0 < ?h"
    using that base_len [OF assms(1)] by linarith
  ultimately show ?thesis unfolding base_gives_def by blast
qed

lemma read_pieces_fails:
  assumes "ov_ok ov" "offset \<le> at" "length buf = unat end - unat offset"
    and "read_pieces bops ov (pieces_from offset end at) buf = r" "\<not> is_Ok r"
  shows "base_gives (ov_base ov) r"
  using assms(2-4)
proof (induction "unat end - unat at" arbitrary: at buf rule: less_induct)
  case less
  show ?case
  proof (cases "end \<le> at")
    case True
    then show ?thesis using less.prems(3) assms(5) by (auto simp: pieces_from.simps)
  next
    case False
    define n where "n = min (PAGE_BYTES - unat (at mod PAGE)) (unat (end - at))"
    note st = piece_step [OF False, folded n_def]
    let ?p = "unat (at - offset)"
    let ?rp = "read_piece bops ov (at div PAGE, unat (at mod PAGE), ?p, n) buf"
    have "?p = unat at - unat offset" "unat offset \<le> unat at"
      using less.prems(1) by (simp_all add: unat_sub word_le_nat_alt)
    then have fits: "?p + n \<le> length buf" using st(2) less.prems(2) by linarith
    have run: "res_bind ?rp (read_pieces bops ov (pieces_from offset end (at + word_of_nat n))) = r"
      using less.prems(3) False by (subst (asm) pieces_from.simps) (simp add: Let_def n_def)
    show ?thesis
    proof (cases "\<exists>b1. ?rp = Ok b1")
      case True
      then obtain b1 where b1: "?rp = Ok b1" by blast
      have "unat end - unat (at + word_of_nat n) < unat end - unat at" using st(1-3) by linarith
      moreover have "offset \<le> at + word_of_nat n" using less.prems(1) st(3) by (simp add: word_le_nat_alt)
      moreover have "length b1 = length buf"
        using read_piece_Ok(1) [OF assms(1) False less.prems(1,2) b1 [unfolded n_def]] .
      ultimately show ?thesis using less.hyps [of "at + word_of_nat n" b1] less.prems(2) run b1 by simp
    next
      case bad: False
      have "ov_pages ov (at div PAGE) = None \<and> read_base bops ov at n = r"
      proof (cases "ov_pages ov (at div PAGE)")
        case (Some page)
        then have "length page = PAGE_BYTES" using assms(1) by (simp add: overlay_invar_def pages_ok_def)
        then show ?thesis
          using bad Some st(4) fits unfolding read_piece_at [OF fits] by (simp add: unat_at_mod)
      next
        case None
        show ?thesis
        proof (cases "read_base bops ov at n")
          case (Ok bs)
          then show ?thesis
            using bad None fits read_base_Ok(1) [OF assms(1) Ok] unfolding read_piece_at [OF fits] by simp
        qed (use None run fits in \<open>simp_all add: read_piece_at\<close>)
      qed
      then show ?thesis using read_base_fails [OF assms(1) _ assms(5)] by blast
    qed
  qed
qed

lemma overlay_read_fails:
  assumes "ov_ok ov" "unat offset + length buf \<le> unat (ov_len ov)"
    and "\<not> is_Ok (overlay_read_at bops ov offset buf)"
  shows "base_gives (ov_base ov) (overlay_read_at bops ov offset buf)"
proof -
  have "unat offset + length buf < 2 ^ 64" "length buf < 2 ^ 64"
    using assms(2) unat_lt_u64 [of "ov_len ov"] by (simp_all del: unat_lt_u64)
  then have "unat (offset + word_of_nat (length buf)) = unat offset + length buf"
    by (subst unat_add_no_overflow) (simp_all add: unat_of_nat)
  moreover have "overlay_read_at bops ov offset buf =
      read_pieces bops ov (pieces_from offset (offset + word_of_nat (length buf)) offset) buf"
    using assms(2) bound_Ok_iff [of ov offset "length buf" "()"] by (simp add: overlay_read_at_def pieces_def)
  ultimately show ?thesis
    using assms(3) by (intro read_pieces_fails [OF assms(1), of offset offset buf]) simp_all
qed

lemma page_for_fails:
  assumes "ov_ok ov" "page_for bops index ov = (r, ov')" "\<not> is_Ok r"
  shows "base_gives (ov_base ov) r"
proof -
  have "read_base bops ov (index * PAGE) PAGE_BYTES = r"
    using assms(2,3)
    by (cases "ov_pages ov index"; cases "read_base bops ov (index * PAGE) PAGE_BYTES")
      (auto simp: page_for_eq)
  then show ?thesis by (rule read_base_fails [OF assms(1) _ assms(3)])
qed

lemma write_piece_fails:
  assumes "ov_ok ov" "\<not> end \<le> at" "offset \<le> at" "length buf = unat end - unat offset"
  defines "n \<equiv> min (PAGE_BYTES - unat (at mod PAGE)) (unat (end - at))"
  assumes "write_piece bops buf (at div PAGE, unat (at mod PAGE), unat (at - offset), n) ov = (r, ov')"
    and "r \<noteq> Ok ()"
  shows "\<exists>r1. base_gives (ov_base ov) r1 \<and> \<not> is_Ok r1 \<and> (r = Panic \<longrightarrow> r1 = Panic)"
proof -
  let ?p = "unat (at - offset)"
  have "?p = unat at - unat offset" "unat offset \<le> unat at"
    using assms(3) by (simp_all add: unat_sub word_le_nat_alt)
  note st = piece_step [OF assms(2), folded n_def]
  have fits: "?p + n \<le> length buf" using st(2) assms(4) \<open>?p = _\<close> \<open>unat offset \<le> unat at\<close> by linarith
  obtain r1 ov1 where pf: "page_for bops (at div PAGE) ov = (r1, ov1)" by (metis surj_pair)
  note keeps = page_for_keeps [OF assms(1) pf]
  show ?thesis
  proof (cases "\<exists>page. r1 = Ok page")
    case True
    then obtain page where page: "r1 = Ok page" by blast
    then have "length page = PAGE_BYTES"
      using keeps(1) keeps(4) by (simp add: overlay_invar_def pages_ok_def)
    then have False
      using assms(6,7) pf page fits st(4) by (auto simp: write_piece_def io_bind_step unat_at_mod)
    then show ?thesis ..
  next
    case False
    then have n: "\<not> is_Ok r1" by (simp add: is_Ok_iff)
    then have "r = Panic \<longrightarrow> r1 = Panic"
      using assms(6) pf by (cases r1) (auto simp: write_piece_def io_bind_def)
    then show ?thesis using page_for_fails [OF assms(1) pf n] n by blast
  qed
qed

lemma write_pieces_fails:
  assumes "ov_ok ov" "offset \<le> at" "length buf = unat end - unat offset" "unat end \<le> unat (ov_len ov)"
    and "io_foreach (write_piece bops buf) (pieces_from offset end at) ov = (r, ov')" "r \<noteq> Ok ()"
  shows "\<exists>r1. base_gives (ov_base ov) r1 \<and> \<not> is_Ok r1 \<and> (r = Panic \<longrightarrow> r1 = Panic)"
  using assms
proof (induction "unat end - unat at" arbitrary: at ov rule: less_induct)
  case less
  show ?case
  proof (cases "end \<le> at")
    case True
    then show ?thesis using less.prems(5,6) by (simp add: pieces_from.simps io_return_def)
  next
    case False
    define n where "n = min (PAGE_BYTES - unat (at mod PAGE)) (unat (end - at))"
    note st = piece_step [OF False, folded n_def]
    obtain r1 ov1 where w: "write_piece bops buf
        (at div PAGE, unat (at mod PAGE), unat (at - offset), n) ov = (r1, ov1)" by (metis surj_pair)
    have run: "io_bind (\<lambda>_. (r1, ov1)) (\<lambda>_. io_foreach (write_piece bops buf)
        (pieces_from offset end (at + word_of_nat n))) ov = (r, ov')"
      using less.prems(5) False w by (subst (asm) pieces_from.simps) (simp add: Let_def n_def io_bind_def)
    show ?thesis
    proof (cases "r1 = Ok ()")
      case True
      note ov1 = write_piece_ok(1,2) [OF less.prems(1) False less.prems(2-4) w [unfolded n_def]]
      have fr: "ov_base ov1 = ov_base ov" "ov_len ov1 = ov_len ov" using ov1(2) by (simp_all add: ov_frame_def)
      have "unat end - unat (at + word_of_nat n) < unat end - unat at" using st(1-3) by linarith
      moreover have "offset \<le> at + word_of_nat n" using less.prems(2) st(3) by (simp add: word_le_nat_alt)
      ultimately show ?thesis
        using less.hyps [of "at + word_of_nat n" ov1] ov1(1) less.prems(3,4,6) run True
        by (simp add: fr io_bind_def)
    next
      case bad: False
      then have "r = Panic \<longrightarrow> r1 = Panic" using run by (cases r1) (auto simp: io_bind_def)
      moreover have "\<exists>r2. base_gives (ov_base ov) r2 \<and> \<not> is_Ok r2 \<and> (r1 = Panic \<longrightarrow> r2 = Panic)"
        by (rule write_piece_fails [OF less.prems(1) False less.prems(2,3) w [unfolded n_def] bad])
      ultimately show ?thesis by blast
    qed
  qed
qed

lemma overlay_write_fails:
  assumes "ov_ok ov" "unat offset + length buf \<le> unat (ov_len ov)"
    and "overlay_write_at bops offset buf ov = (r, ov')" "r \<noteq> Ok ()"
  shows "\<exists>r1. base_gives (ov_base ov) r1 \<and> \<not> is_Ok r1 \<and> (r = Panic \<longrightarrow> r1 = Panic)"
proof -
  let ?stop = "offset + word_of_nat (length buf)"
  have "unat offset + length buf < 2 ^ 64" "length buf < 2 ^ 64"
    using assms(2) unat_lt_u64 [of "ov_len ov"] by (simp_all del: unat_lt_u64)
  then have e: "unat ?stop = unat offset + length buf"
    by (subst unat_add_no_overflow) (simp_all add: unat_of_nat)
  obtain r1 ov1 where w: "io_foreach (write_piece bops buf) (pieces_from offset ?stop offset) ov = (r1, ov1)"
    by (metis surj_pair)
  have "r1 \<noteq> Ok () \<and> (r = Panic \<longrightarrow> r1 = Panic)"
    using assms(2-4) w bound_Ok_iff [of ov offset "length buf" "()"]
    by (cases r1) (auto simp: overlay_write_at_def io_bind_def pieces_def)
  then show ?thesis using write_pieces_fails [OF assms(1) _ _ _ w] e assms(2) by auto
qed

lemma overlay_read_out_of_bounds:
  "\<not> unat offset + length buf \<le> unat (ov_len ov) \<Longrightarrow> overlay_read_at bops ov offset buf =
     Err (FsOutOfBounds offset (word_of_nat (length buf)) (ov_len ov))"
  by (simp add: overlay_read_at_def bound_def)

lemma overlay_write_out_of_bounds:
  "\<not> unat offset + length buf \<le> unat (ov_len ov) \<Longrightarrow> overlay_write_at bops offset buf ov =
     (Err (FsOutOfBounds offset (word_of_nat (length buf)) (ov_len ov)), ov)"
  by (simp add: overlay_write_at_def bound_def io_bind_def)

lemma overlay_set_len_Ok:
  assumes "ov_ok ov" "overlay_set_len m ov = (Ok u, ov')"
  shows "ov_ok ov'" "ov_base ov' = ov_base ov"
    "overlay_contents bcontents ov' = resize (unat m) (overlay_contents bcontents ov)"
proof -
  have m: "ov_len ov \<le> m" and ov': "ov' = ov\<lparr> ov_len := m, ov_written := True \<rparr>"
    using assms(2) by (auto simp: overlay_set_len_def split: if_splits)
  have le: "unat (ov_len ov) \<le> unat m" using m by (simp add: word_le_nat_alt)
  show "ov_ok ov'" "ov_base ov' = ov_base ov"
    using assms(1) m le by (auto simp: ov' overlay_invar_def pages_ok_def)
  have z: "ov_byte (base_of ov) ov i = 0" if i: "unat (ov_len ov) \<le> i" "i < 2 ^ 64" for i
  proof (cases "ov_pages ov (word_of_nat (i div PAGE_BYTES))")
    case None
    have "unat (ov_base_len ov) \<le> unat (ov_len ov)"
      using assms(1) unfolding overlay_invar_def word_le_nat_alt by blast
    then show ?thesis using None i(1) base_len [OF assms(1)] by (simp add: ov_byte_def base_byte_def)
  next
    case (Some page)
    have "i div PAGE_BYTES < 18446744073709551616" using le_less_trans [OF div_le_dividend i(2)] by simp
    then have "unat (word_of_nat (i div PAGE_BYTES) :: u64) * PAGE_BYTES + i mod PAGE_BYTES = i"
      by (simp only: unat_of_nat_u64 div_mult_mod_eq)
    then have "page ! (i mod PAGE_BYTES) = 0"
      using assms(1) Some i(1) unfolding overlay_invar_def pages_ok_def by simp
    then show ?thesis using Some by (simp add: ov_byte_def)
  qed
  show "overlay_contents bcontents ov' = resize (unat m) (overlay_contents bcontents ov)"
  proof (rule nth_equalityI)
    fix i assume "i < length (overlay_contents bcontents ov')"
    then have i: "i < unat m" "i < 2 ^ 64" using unat_lt_u64 [of m] by (simp_all add: ov' del: unat_lt_u64)
    then show "overlay_contents bcontents ov' ! i = resize (unat m) (overlay_contents bcontents ov) ! i"
      using z [of i] le
      by (auto simp: resize_grow nth_append nth_overlay_contents ov' ov_byte_def)
  qed (use le in \<open>simp add: ov'\<close>)
qed

lemma overlay_set_len_outcome:
  assumes "ov_ok ov" "overlay_set_len m ov = (res, ov')"
  shows "ov_base ov' = ov_base ov \<and>
    (if unat m < length (overlay_contents bcontents ov) then (\<exists>e. res = Err e) \<and> ov' = ov
     else res = Ok () \<and> overlay_contents bcontents ov' = overlay_contents bcontents ov @
       replicate (unat m - length (overlay_contents bcontents ov)) 0)"
proof (cases "m < ov_len ov")
  case True
  then show ?thesis using assms(2) by (auto simp: overlay_set_len_def word_less_nat_alt)
next
  case False
  then have "overlay_set_len m ov = (Ok (), ov')" "res = Ok ()" using assms(2) by (auto simp: overlay_set_len_def)
  then show ?thesis
    using overlay_set_len_Ok(2,3) [OF assms(1)] False by (simp add: resize_grow word_less_nat_alt not_less)
qed

lemma overlay_new_ok:
  assumes "binvar b"
  shows "ov_ok (overlay_new bops b)" "overlay_contents bcontents (overlay_new bops b) = bcontents b"
proof -
  show "ov_ok (overlay_new bops b)" using assms by (simp add: overlay_invar_def overlay_new_def pages_ok_def)
  show "overlay_contents bcontents (overlay_new bops b) = bcontents b"
    using size_law [OF assms]
    by (intro nth_equalityI) (simp_all add: nth_overlay_contents, simp_all add: overlay_new_def ov_byte_def base_byte_def)
qed

end

sublocale overlay_base \<subseteq> ov: block_device "overlay_ops bops" "overlay_invar bops binvar"
  "overlay_contents bcontents"
proof (unfold_locales, goal_cases)
  case (2 d n off bs)
  then have "overlay_read_at bops d off (replicate n 0) = Ok bs" by (simp add: overlay_ops_def)
  from overlay_read_Ok [OF 2(1) this] show ?case unfolding length_replicate by blast
next
  case (3 d off bs r d')
  then show ?case using overlay_write_ok(1,2) [of d off bs r d'] by (simp add: overlay_ops_def ov_frame_def)
next
  case (4 d bs off u d')
  then show ?case using overlay_write_ok(3) [of d off bs "Ok u" d' u] by (simp add: overlay_ops_def)
next
  case (5 d r d')
  then show ?case by (auto simp: overlay_ops_def io_return_def)
next
  case (6 d m r d')
  then show ?case
    using overlay_set_len_Ok(1) [of d m _ d']
    by (auto simp: overlay_ops_def overlay_set_len_def split: if_splits)
next
  case (7 d m u d')
  then show ?case using overlay_set_len_Ok(3) [of d m u d'] by (simp add: overlay_ops_def)
next
  case (8 d m r d')
  then show ?case by (auto simp: overlay_ops_def overlay_set_len_def split: if_splits)
qed (simp add: overlay_ops_def)

locale calm_base = overlay_base bops binvar bcontents
  for bops :: "('b, 'z) read_ops_scheme" and binvar :: "'b \<Rightarrow> bool" and bcontents :: "'b \<Rightarrow> bytes" +
  assumes base_calm: "binvar b \<Longrightarrow> dev_read_at bops b off n \<noteq> Panic"

sublocale calm_base \<subseteq> ovc: calm_device "overlay_ops bops" "overlay_invar bops binvar"
  "overlay_contents bcontents"
proof (unfold_locales, goal_cases)
  case (1 d off n)
  then show ?case
    using overlay_read_fails [of d off "replicate n 0"] base_calm [of "ov_base d"]
      overlay_read_out_of_bounds [of off "replicate n 0" d]
    by (cases "unat off + n \<le> unat (ov_len d)")
      (auto simp: overlay_ops_def base_gives_def overlay_invar_def)
next
  case (2 d off bs)
  then show ?case
    using overlay_write_fails [of d off bs] base_calm [of "ov_base d"]
      overlay_write_out_of_bounds [of off bs d]
    by (cases "unat off + length bs \<le> unat (ov_len d)"; cases "overlay_write_at bops off bs d")
      (auto simp: overlay_ops_def base_gives_def overlay_invar_def)
qed (auto simp: overlay_ops_def io_return_def overlay_set_len_def)

locale reliable_base = overlay_base bops binvar bcontents
  for bops :: "('b, 'z) read_ops_scheme" and binvar :: "'b \<Rightarrow> bool" and bcontents :: "'b \<Rightarrow> bytes" +
  assumes base_reads: "binvar b \<Longrightarrow> unat off + n \<le> length (bcontents b) \<Longrightarrow>
      is_Ok (dev_read_at bops b off n)"

sublocale reliable_base \<subseteq> ovr: reliable_device "overlay_ops bops" "overlay_invar bops binvar"
  "overlay_contents bcontents"
proof (unfold_locales, goal_cases)
  case (1 d off n)
  then show ?case
    using overlay_read_fails [of d off "replicate n 0"] base_reads [of "ov_base d"]
    by (auto simp: overlay_ops_def base_gives_def overlay_invar_def) metis
next
  case (2 d off bs)
  then show ?case
    using overlay_write_fails [of d off bs] base_reads [of "ov_base d"]
    by (cases "overlay_write_at bops off bs d")
      (auto simp: overlay_ops_def base_gives_def overlay_invar_def is_Ok_iff, metis)
qed (auto simp: overlay_ops_def io_return_def overlay_set_len_def word_less_nat_alt)

context reliable_base
begin

lemma overlay_reliable:
  "reliable_device (overlay_ops bops) (overlay_invar bops binvar) (overlay_contents bcontents)"
  by (rule ovr.reliable_device_axioms)

lemma overlay_write_keeps_base:
  "ov_ok ov \<Longrightarrow> overlay_write_at bops off bs ov = (res, ov') \<Longrightarrow> ov_base ov' = ov_base ov"
  using overlay_write_ok(2) by (simp add: ov_frame_def)

text \<open>A new overlay answers every read as the base would, were it asked.\<close>

lemma overlay_new_reads:
  assumes "binvar b" "unat off + n \<le> length (bcontents b)"
  shows "dev_read_at (overlay_ops bops) (overlay_new bops b) off n = Ok (subslice (unat off) (unat off + n) (bcontents b))"
proof -
  note new = overlay_new_ok [OF assms(1)]
  obtain bs where bs: "dev_read_at (overlay_ops bops) (overlay_new bops b) off n = Ok bs"
    using ovr.read_succeeds [OF new(1), of off n] assms(2) by (auto simp: new(2) is_Ok_iff)
  then show ?thesis using ov.read_law [OF new(1) _ bs] assms(2) contents_bound [OF assms(1)] by (simp add: new(2))
qed

end

interpretation vec_base: reliable_base vec_ops vec_invar "\<lambda>v. v"
  by unfold_locales (rule vec.read_succeeds)

interpretation vec_calm_base: calm_base vec_ops vec_invar "\<lambda>v. v"
  by unfold_locales (rule vec_calm.read_calm)

end
