(* ===== verification/Reader_Write.thy ===== *)
theory Reader_Write
  imports Reader_Opened
begin

unbundle bit_operations_syntax

text \<open>
  The writing side of the open reader, over a device whose requests inside its bounds
  succeed. The invariant \<open>disk_inv\<close> says what an open, well-laid-out image looks like: the
  reader agrees with the device, and the payload blocks, the BAT, the log and the header
  section do not overlap. The lemmas say what journalling, allocation and a write do to the
  device, that every outcome of a write keeps the invariant, that allocation is invisible on
  the virtual disk, and that a successful write replaces exactly the bytes it names. The locale
  \<open>piece_writer\<close> goes from the pieces of a write to the whole of it, for any device.
\<close>

section \<open>Layout\<close>

definition payload_slot :: "'d vhdx_reader \<Rightarrow> nat \<Rightarrow> bool" where
  "payload_slot r i \<longleftrightarrow> (\<exists>v < unat (rd_virtual_size r). i = slot_of r v)"

definition present :: "'d vhdx_reader \<Rightarrow> nat \<Rightarrow> bool" where
  "present r i \<longleftrightarrow> payload_slot r i \<and> be_state (rd_bat r ! i) = FullyPresent"

abbreviation block_start :: "'d vhdx_reader \<Rightarrow> nat \<Rightarrow> nat" where
  "block_start r i \<equiv> unat (be_file_offset (rd_bat r ! i))"

text \<open>The bytes outside the header section, the log and the BAT.\<close>

definition log_span :: "header \<Rightarrow> nat \<times> nat" where
  "log_span h = (if hdr_log_length h = 0 then (0, 0)
     else (unat (hdr_log_offset h), unat (hdr_log_length h)))"

definition apart_from_log :: "header \<Rightarrow> nat \<Rightarrow> nat \<Rightarrow> bool" where
  "apart_from_log h a n \<longleftrightarrow> apart_spans a n (fst (log_span h)) (snd (log_span h))"

definition layout_ok :: "bytes \<Rightarrow> 'd vhdx_reader \<Rightarrow> bool" where
  "layout_ok c r \<longleftrightarrow>
     2 ^ 20 dvd unat (rd_bat_region_off r) \<and> 2 ^ 20 \<le> unat (rd_bat_region_off r) \<and>
     apart_from_log (rd_header r) (unat (rd_bat_region_off r)) (8 * length (rd_bat r)) \<and>
     (\<forall>i. present r i \<longrightarrow>
        2 ^ 20 \<le> block_start r i \<and> block_start r i + block_bytes r \<le> length c \<and>
        apart_spans (block_start r i) (block_bytes r)
          (unat (rd_bat_region_off r)) (8 * length (rd_bat r)) \<and>
        apart_from_log (rd_header r) (block_start r i) (block_bytes r)) \<and>
     (\<forall>i j. present r i \<longrightarrow> present r j \<longrightarrow> i \<noteq> j \<longrightarrow>
        apart_spans (block_start r i) (block_bytes r) (block_start r j) (block_bytes r))"

text \<open>Room to allocate every block still missing without the file size leaving 64 bits.\<close>

definition missing_blocks :: "'d vhdx_reader \<Rightarrow> nat" where
  "missing_blocks r = length (filter (\<lambda>e. be_state e \<noteq> FullyPresent) (rd_bat r))"

definition disk_inv :: "bytes \<Rightarrow> 'd vhdx_reader \<Rightarrow> bool" where
  "disk_inv c r \<longleftrightarrow>
     reader_ok c r \<and> layout_ok c r \<and> length c + 2 * block_bytes r * missing_blocks r < 2 ^ 64"

section \<open>A BAT entry and its word\<close>

lemma bat_entry_of_word:
  assumes "2 ^ 20 dvd unat off"
  shows "bat_entry_from_u64 ((off AND NOT (push_bit 20 1 - 1)) OR 6) =
    \<lparr> be_state = FullyPresent, be_file_offset = (off :: u64) \<rparr>"
proof -
  have m: "push_bit 20 1 - 1 = (mask 20 :: u64)" by (simp add: mask_eq_exp_minus_1)
  have "unat (off AND NOT (mask 20)) = unat off"
    using assms by (simp add: unat_and_not_mask)
  then have off: "off AND NOT (mask 20) = off" by (simp add: word_unat_eq_iff)
  have "off AND 7 = off AND (NOT (mask 20) AND 7)" using off by (metis and.assoc)
  also have "NOT (mask 20) AND 7 = (0 :: u64)" by (simp add: mask_eq_exp_minus_1)
  finally have "off AND 7 = 0" by simp
  then have "(off OR 6) AND 7 = 6" by (simp add: bit.conj_disj_distrib2)
  moreover have "push_bit 20 (drop_bit 20 (off OR 6)) = off"
  proof -
    have "drop_bit 20 (off OR 6) = drop_bit 20 off" by (simp add: drop_bit_or)
    moreover have "push_bit 20 (drop_bit 20 off) = off AND NOT (mask 20)"
      by (rule bit_eqI) (auto simp: bit_simps)
    ultimately show ?thesis by (simp add: off)
  qed
  ultimately show ?thesis
    unfolding bat_entry_from_u64_def m off by (simp add: payload_state_from_u8_def)
qed

section \<open>Device steps\<close>

context reliable_device
begin

lemma write_ok:
  assumes "invar d" "unat off + length bs \<le> length (contents d)"
  obtains d' where "dev_write_at ops off bs d = (Ok (), d')" "invar d'"
    "contents d' = overwrite (unat off) bs (contents d)"
proof -
  obtain d' where w: "dev_write_at ops off bs d = (Ok (), d')"
    using write_succeeds [OF assms] by (cases "dev_write_at ops off bs d") (auto simp: is_Ok_iff)
  then show thesis
    using that write_invar [OF assms(1) w] write_law [OF assms(1) _ w] assms(2) contents_bound [OF assms(1)] by simp
qed

lemma flush_ok:
  assumes "invar d"
  obtains d' where "dev_flush ops d = (Ok (), d')" "invar d'" "contents d' = contents d"
proof -
  obtain d' where w: "dev_flush ops d = (Ok (), d')"
    using flush_succeeds [OF assms] by (cases "dev_flush ops d") (auto simp: is_Ok_iff)
  then show thesis using that flush_law [OF assms w] by blast
qed

lemma grow_ok:
  assumes "invar d" "length (contents d) \<le> unat n"
  obtains d' where "dev_set_len ops n d = (Ok (), d')" "invar d'"
    "contents d' = contents d @ replicate (unat n - length (contents d)) 0"
proof -
  obtain d' where w: "dev_set_len ops n d = (Ok (), d')"
    using set_len_succeeds [OF assms] by (cases "dev_set_len ops n d") (auto simp: is_Ok_iff)
  then show thesis
    using that set_len_invar [OF assms(1) w] set_len_law [OF assms(1) w] assms(2)
    by (simp add: resize_grow)
qed

text \<open>The same steps on the reader.\<close>

lemma reader_write_ok:
  assumes "invar (rd_dev r)" "unat off + length bs \<le> length (contents (rd_dev r))"
  obtains d' where "reader_dev_write ops off bs r = (Ok (), r\<lparr> rd_dev := d' \<rparr>)" "invar d'"
    "contents d' = overwrite (unat off) bs (contents (rd_dev r))"
proof (rule write_ok [OF assms])
  fix d'
  assume "dev_write_at ops off bs (rd_dev r) = (Ok (), d')" "invar d'"
    "contents d' = overwrite (unat off) bs (contents (rd_dev r))"
  then show thesis by (intro that [of d']) (simp_all add: reader_dev_write_def on_dev_def)
qed

lemma reader_flush_ok:
  assumes "invar (rd_dev r)"
  obtains d' where "reader_dev_flush ops r = (Ok (), r\<lparr> rd_dev := d' \<rparr>)" "invar d'"
    "contents d' = contents (rd_dev r)"
proof (rule flush_ok [OF assms])
  fix d'
  assume "dev_flush ops (rd_dev r) = (Ok (), d')" "invar d'" "contents d' = contents (rd_dev r)"
  then show thesis by (intro that [of d']) (simp_all add: reader_dev_flush_def on_dev_def)
qed

lemma reader_read_ok:
  assumes "invar (rd_dev r)" "unat off + n \<le> length (contents (rd_dev r))"
  shows "reader_dev_read ops r off n = Ok (subslice (unat off) (unat off + n) (contents (rd_dev r)))"
proof -
  obtain bs where bs: "dev_read_at ops (rd_dev r) off n = Ok bs"
    using read_succeeds [OF assms] by (auto simp: is_Ok_iff)
  then show ?thesis
    using read_law [OF assms(1) _ bs] assms(2) contents_bound [OF assms(1)] by (simp add: reader_dev_read_def)
qed

end

section \<open>Journalling\<close>

text \<open>What journalling leaves alone: everything but the header section and the log.\<close>

definition journal_frame :: "header \<Rightarrow> bytes \<Rightarrow> bytes \<Rightarrow> bool" where
  "journal_frame h c c' \<longleftrightarrow>
     length c' = length c \<and>
     (\<forall>a n. 2 ^ 20 \<le> a \<longrightarrow> apart_from_log h a n \<longrightarrow> subslice a (a + n) c' = subslice a (a + n) c)"

lemma journal_frame_refl [simp]: "journal_frame h c c"
  by (simp add: journal_frame_def)

lemma journal_frame_log_write:
  assumes "hdr_log_length h \<noteq> 0" "length bs \<le> unat (hdr_log_length h)"
    and "unat (hdr_log_offset h) + unat (hdr_log_length h) \<le> length c"
  shows "journal_frame h c (overwrite (unat (hdr_log_offset h)) bs c)"
  using assms
  by (auto simp: journal_frame_def apart_from_log_def log_span_def apart_spans_def
      intro!: subslice_overwrite_disjoint)

lemma journal_frame_header_write:
  assumes "length bs = HEADER_SIZE" "slot_start s + HEADER_SIZE \<le> length c"
  shows "journal_frame h c (overwrite (slot_start s) bs c)"
  using assms by (cases s) (auto simp: journal_frame_def intro!: subslice_overwrite_disjoint)

lemma journal_frame_trans: "journal_frame h a b \<Longrightarrow> journal_frame h b c \<Longrightarrow> journal_frame h a c"
  by (simp add: journal_frame_def)

definition journal_header :: "header \<Rightarrow> header" where
  "journal_header h =
     (let new_seq = hdr_sequence_number h + 1 in
      h\<lparr> hdr_sequence_number := new_seq,
         hdr_log_guid := stir_sequence_into_guid (hdr_log_guid h) new_seq,
         hdr_file_write_guid := stir_sequence_into_guid (hdr_file_write_guid h) new_seq,
         hdr_data_write_guid := stir_sequence_into_guid (hdr_data_write_guid h) new_seq \<rparr>)"

lemma journal_header_wf: "header_wf h \<Longrightarrow> header_wf (journal_header h)"
  by (simp add: journal_header_def header_wf_def Let_def)

lemma journal_header_log [simp]:
  "hdr_log_offset (journal_header h) = hdr_log_offset h"
  "hdr_log_length (journal_header h) = hdr_log_length h"
  by (simp_all add: journal_header_def Let_def)

lemma single_entry_length: "round_up_sector (64 + length [w] * 32) + length [w] * 4096 = 8192"
  by (simp add: round_up_sector_eq)

text \<open>The entry journalled for one sector.\<close>

definition journal_entry :: "ext \<Rightarrow> header \<Rightarrow> u64 \<Rightarrow> u64 \<Rightarrow> bytes \<Rightarrow> bytes" where
  "journal_entry x h dev_size off sector =
     (case encode_entry x (hdr_sequence_number (journal_header h)) 0 (hdr_log_guid (journal_header h))
        dev_size dev_size [\<lparr> pw_file_offset = off, pw_sector = sector \<rparr>] :: (bytes, error) res of
      Ok e \<Rightarrow> e | _ \<Rightarrow> [])"

lemma journal_entry_Ok:
  assumes "crc_contract x" "header_wf h" "length sector = LOG_SECTOR_SIZE"
  shows "encode_entry x (hdr_sequence_number h + 1) 0
      (stir_sequence_into_guid (hdr_log_guid h) (hdr_sequence_number h + 1)) n n
      [\<lparr> pw_file_offset = off, pw_sector = sector \<rparr>] = (Ok (journal_entry x h n off sector) :: (bytes, error) res)"
    and "length (journal_entry x h n off sector) = 8192"
proof -
  let ?g = "stir_sequence_into_guid (hdr_log_guid h) (hdr_sequence_number h + 1)"
  let ?ws = "[\<lparr> pw_file_offset = off, pw_sector = sector \<rparr>]"
  have g: "length ?g = 16" using assms(2) by (simp add: header_wf_def)
  obtain E where E: "encode_entry x (hdr_sequence_number h + 1) 0 ?g n n ?ws = (Ok E :: (bytes, error) res)"
    "length E = 8192"
    using encode_entry_Ok [OF assms(1) g, of ?ws "hdr_sequence_number h + 1" 0 n n] assms(3)
      single_entry_length by fastforce
  then show "encode_entry x (hdr_sequence_number h + 1) 0 ?g n n ?ws =
      (Ok (journal_entry x h n off sector) :: (bytes, error) res)"
    "length (journal_entry x h n off sector) = 8192"
    by (simp_all add: journal_entry_def journal_header_def Let_def)
qed

context reliable_device
begin

text \<open>Where it journals: the entry at the start of the log, then the header in the other slot.\<close>

lemma journal_sector_write_journals:
  assumes "invar (rd_dev r)" "crc_contract x" "header_wf (rd_header r)" "length sector = LOG_SECTOR_SIZE"
    and "log_region_ok (rd_dev_size r) (rd_header r)" "unat (rd_dev_size r) = length (contents (rd_dev r))"
    and "8192 \<le> unat (hdr_log_length (rd_header r))"
  defines "h \<equiv> rd_header r" and "s \<equiv> slot_other (rd_active_header_slot r)"
  obtains d' b where
    "journal_sector_write x ops off sector r =
       (Ok (), r\<lparr> rd_dev := d', rd_header := journal_header h, rd_active_header_slot := s \<rparr>)"
    "invar d'" "encode_header x (journal_header h) = Ok b" "length b = HEADER_SIZE"
    "slot_start s + HEADER_SIZE \<le> length (contents (rd_dev r))"
    "contents d' = overwrite (slot_start s) b
       (overwrite (unat (hdr_log_offset h)) (journal_entry x h (rd_dev_size r) off sector) (contents (rd_dev r)))"
proof -
  let ?c = "contents (rd_dev r)" and ?H = "journal_header h"
  let ?e = "journal_entry x h (rd_dev_size r) off sector"
  note e = journal_entry_Ok [OF assms(2,3,4), of "rd_dev_size r" off, folded h_def]
  have nz: "hdr_log_length h \<noteq> 0" "\<not> hdr_log_length h < 8192"
    using assms(7) by (auto simp: h_def word_less_nat_alt)
  have log: "unat (hdr_log_offset h) + unat (hdr_log_length h) \<le> length ?c"
    "2 ^ 20 \<le> unat (hdr_log_offset h)"
    using nz assms(5,6) by (auto simp: log_region_ok_def h_def)
  have off: "hdr_log_offset h \<noteq> 0" using log(2) by auto
  obtain d1 where d1: "reader_dev_write ops (hdr_log_offset h) ?e r = (Ok (), r\<lparr> rd_dev := d1 \<rparr>)"
    "invar d1" "contents d1 = overwrite (unat (hdr_log_offset h)) ?e ?c"
    using reader_write_ok [OF assms(1), of "hdr_log_offset h" ?e] log assms(7) e(2) by (auto simp: h_def)
  have len1: "length (contents d1) = length ?c" using d1(3) log assms(7) e(2) by (simp add: h_def)
  obtain d2 where d2: "reader_dev_flush ops (r\<lparr> rd_dev := d1 \<rparr>) = (Ok (), r\<lparr> rd_dev := d2 \<rparr>)"
    "invar d2" "contents d2 = contents d1"
    using reader_flush_ok [of "r\<lparr> rd_dev := d1 \<rparr>"] d1(2) by auto
  obtain b where b: "encode_header x ?H = Ok b" "length b = HEADER_SIZE"
    using encode_header_eq [OF journal_header_wf [OF assms(3)]]
      encode_header_length [OF journal_header_wf [OF assms(3)]] by (auto simp: h_def)
  have slot: "slot_start s + HEADER_SIZE \<le> length ?c"
    using log by (cases s) simp_all
  obtain d3 where d3: "reader_dev_write ops (slot_offset s) b (r\<lparr> rd_dev := d2 \<rparr>) = (Ok (), r\<lparr> rd_dev := d3 \<rparr>)"
    "invar d3" "contents d3 = overwrite (slot_start s) b (contents d2)"
    using reader_write_ok [of "r\<lparr> rd_dev := d2 \<rparr>" "slot_offset s" b] d2(2,3) slot b(2) len1
    by (auto simp: slot_start_def)
  obtain d4 where d4: "reader_dev_flush ops (r\<lparr> rd_dev := d3 \<rparr>) = (Ok (), r\<lparr> rd_dev := d4 \<rparr>)"
    "invar d4" "contents d4 = contents d3"
    using reader_flush_ok [of "r\<lparr> rd_dev := d3 \<rparr>"] d3(2) by auto
  have "journal_sector_write x ops off sector r =
      (Ok (), r\<lparr> rd_dev := d4, rd_header := ?H, rd_active_header_slot := s \<rparr>)"
    using nz off e assms(7) d1(1) d2(1) d3(1) d4(1) b(1)
    by (simp add: journal_sector_write_def Let_def io_bind_def io_lift_def journal_header_def h_def s_def)
  from that [OF this d4(2) b slot] show thesis by (simp add: d4(3) d3(3) d2(3) d1(3))
qed

lemma journal_sector_write_ok:
  assumes "invar (rd_dev r)" "crc_contract x" "header_wf (rd_header r)" "length sector = LOG_SECTOR_SIZE"
    and "log_region_ok (rd_dev_size r) (rd_header r)" "unat (rd_dev_size r) = length (contents (rd_dev r))"
  obtains d' h' s' where
    "journal_sector_write x ops off sector r =
       (Ok (), r\<lparr> rd_dev := d', rd_header := h', rd_active_header_slot := s' \<rparr>)"
    "invar d'" "journal_frame (rd_header r) (contents (rd_dev r)) (contents d')"
    "header_wf h'" "hdr_log_offset h' = hdr_log_offset (rd_header r)"
    "hdr_log_length h' = hdr_log_length (rd_header r)"
proof (cases "8192 \<le> unat (hdr_log_length (rd_header r))")
  case False
  then have "journal_sector_write x ops off sector r = (Ok (), r)"
    by (simp add: journal_sector_write_def Let_def word_less_nat_alt)
  then show thesis
    using that [of "rd_active_header_slot r" "rd_header r" "rd_dev r"] assms by simp
next
  case True
  let ?h = "rd_header r" and ?s = "slot_other (rd_active_header_slot r)" and ?c = "contents (rd_dev r)"
  let ?e = "journal_entry x ?h (rd_dev_size r) off sector"
  obtain d' b where j: "journal_sector_write x ops off sector r =
       (Ok (), r\<lparr> rd_dev := d', rd_header := journal_header ?h, rd_active_header_slot := ?s \<rparr>)"
    "invar d'" "encode_header x (journal_header ?h) = Ok b" "length b = HEADER_SIZE"
    "slot_start ?s + HEADER_SIZE \<le> length ?c"
    "contents d' = overwrite (slot_start ?s) b (overwrite (unat (hdr_log_offset ?h)) ?e ?c)"
    by (rule journal_sector_write_journals [OF assms True])
  have nz: "hdr_log_length ?h \<noteq> 0" using True by auto
  then have log: "unat (hdr_log_offset ?h) + unat (hdr_log_length ?h) \<le> length ?c"
    using assms(5,6) by (auto simp: log_region_ok_def)
  have el: "length ?e \<le> unat (hdr_log_length ?h)"
    using True journal_entry_Ok(2) [OF assms(2-4)] by simp
  have f1: "journal_frame ?h ?c (overwrite (unat (hdr_log_offset ?h)) ?e ?c)"
    by (rule journal_frame_log_write [OF nz el log])
  have f2: "journal_frame ?h (overwrite (unat (hdr_log_offset ?h)) ?e ?c) (contents d')"
    unfolding j(6) using j(5) log el by (intro journal_frame_header_write j(4)) simp
  show thesis
    using that [OF j(1,2) journal_frame_trans [OF f1 f2] journal_header_wf [OF assms(3)]] by simp
qed

end

section \<open>Publishing a BAT entry\<close>

text \<open>The sector an entry lies in, inside a file of whole sectors.\<close>

lemma entry_sector:
  fixes off :: u64 and i :: nat
  assumes "8 dvd unat off" "unat off + 8 * i + 8 \<le> n" "n < 2 ^ 64" "LOG_SECTOR_SIZE dvd n"
  defines "e \<equiv> off + word_of_nat i * BAT_ENTRY_SIZE"
  defines "q \<equiv> e AND NOT (word_of_nat LOG_SECTOR_SIZE - 1)"
  shows "unat e = unat off + 8 * i" "unat q = unat e div LOG_SECTOR_SIZE * LOG_SECTOR_SIZE"
    "unat (e - q) = unat e mod LOG_SECTOR_SIZE" "unat e mod LOG_SECTOR_SIZE + 8 \<le> LOG_SECTOR_SIZE"
    "unat q + LOG_SECTOR_SIZE \<le> n"
proof -
  have "unat (word_of_nat i :: u64) = i" using assms(2,3) by (simp add: unat_of_nat)
  then have m: "unat (word_of_nat i * BAT_ENTRY_SIZE :: u64) = 8 * i"
    using assms(2,3) by (subst unat_mult_no_overflow) auto
  then show e: "unat e = unat off + 8 * i"
    unfolding e_def using assms(2,3) by (subst unat_add_no_overflow) auto
  have "(word_of_nat LOG_SECTOR_SIZE - 1 :: u64) = mask 12" by (simp add: mask_eq_exp_minus_1)
  then show q: "unat q = unat e div LOG_SECTOR_SIZE * LOG_SECTOR_SIZE"
    by (simp only: q_def unat_and_not_mask) simp
  then have "q \<le> e" by (simp add: word_le_nat_alt)
  then show "unat (e - q) = unat e mod LOG_SECTOR_SIZE"
    using q by (simp add: unat_sub minus_div_mult_eq_mod)
  have "8 dvd unat e" using assms(1) by (simp add: e)
  then have "8 dvd unat e mod LOG_SECTOR_SIZE" by (simp add: dvd_mod)
  then show m8: "unat e mod LOG_SECTOR_SIZE + 8 \<le> LOG_SECTOR_SIZE"
    by (elim dvdE) (use mod_less_divisor [of LOG_SECTOR_SIZE "unat e"] in simp)
  have "unat e div LOG_SECTOR_SIZE < n div LOG_SECTOR_SIZE"
  proof (rule ccontr)
    assume "\<not> unat e div LOG_SECTOR_SIZE < n div LOG_SECTOR_SIZE"
    then have "n div LOG_SECTOR_SIZE * LOG_SECTOR_SIZE \<le> unat e div LOG_SECTOR_SIZE * LOG_SECTOR_SIZE" by simp
    also have "\<dots> \<le> unat e" by simp
    finally show False using assms(2,4) e by simp
  qed
  then have "Suc (unat e div LOG_SECTOR_SIZE) * LOG_SECTOR_SIZE \<le> n div LOG_SECTOR_SIZE * LOG_SECTOR_SIZE"
    by (intro mult_le_mono1) simp
  then show "unat q + LOG_SECTOR_SIZE \<le> n" using assms(4) q by simp
qed

text \<open>Writing back a sector in which one slice was replaced replaces that slice.\<close>

lemma overwrite_slice_of_sector:
  assumes "q + length s = n" "n \<le> length c" "s = subslice q n c" "k + length b \<le> length s"
  shows "overwrite q (overwrite k b s) c = overwrite (q + k) b c"
proof (rule nth_equalityI)
  have len: "length (overwrite k b s) = length s" using assms(4) by simp
  show "length (overwrite q (overwrite k b s) c) = length (overwrite (q + k) b c)"
    using assms len by simp
  fix i assume "i < length (overwrite q (overwrite k b s) c)"
  then have "i < length c" using assms len by simp
  then show "overwrite q (overwrite k b s) c ! i = overwrite (q + k) b c ! i"
    using assms(1,2,4) len
    by (auto simp: nth_overwrite assms(3) nth_subslice)
qed

lemma sector_apart:
  fixes e l n :: nat
  assumes "apart_spans e 8 l n" "LOG_SECTOR_SIZE dvd l" "LOG_SECTOR_SIZE dvd n"
  shows "apart_spans (e div LOG_SECTOR_SIZE * LOG_SECTOR_SIZE) LOG_SECTOR_SIZE l n"
proof -
  obtain a where l: "l = LOG_SECTOR_SIZE * a" using assms(2) by (elim dvdE)
  obtain b where n: "n = LOG_SECTOR_SIZE * b" using assms(3) by (elim dvdE)
  from assms(1) have "e < LOG_SECTOR_SIZE * a \<or> LOG_SECTOR_SIZE * (a + b) \<le> e"
    by (auto simp: apart_spans_def l n algebra_simps)
  then show ?thesis
  proof
    assume "e < LOG_SECTOR_SIZE * a"
    then have "e div LOG_SECTOR_SIZE < a" by (simp add: less_mult_imp_div_less mult.commute)
    then have "Suc (e div LOG_SECTOR_SIZE) * LOG_SECTOR_SIZE \<le> a * LOG_SECTOR_SIZE"
      by (intro mult_le_mono1) simp
    then show ?thesis by (simp add: apart_spans_def l)
  next
    assume "LOG_SECTOR_SIZE * (a + b) \<le> e"
    then have "a + b \<le> e div LOG_SECTOR_SIZE" by (simp add: less_eq_div_iff_mult_less_eq mult.commute)
    then have "(a + b) * LOG_SECTOR_SIZE \<le> e div LOG_SECTOR_SIZE * LOG_SECTOR_SIZE"
      by (rule mult_le_mono1)
    then show ?thesis by (simp add: apart_spans_def l n algebra_simps)
  qed
qed

lemma apart_spans_mono:
  "apart_spans a n b m \<Longrightarrow> a \<le> a' \<Longrightarrow> a' + n' \<le> a + n \<Longrightarrow> 0 < n' \<Longrightarrow> apart_spans a' n' b m"
  by (auto simp: apart_spans_def)

lemma log_span_aligned:
  assumes "log_region_ok n h"
  shows "LOG_SECTOR_SIZE dvd fst (log_span h)" "LOG_SECTOR_SIZE dvd snd (log_span h)"
proof -
  have "(LOG_SECTOR_SIZE :: nat) dvd 2 ^ 20" by simp
  then show "LOG_SECTOR_SIZE dvd fst (log_span h)" "LOG_SECTOR_SIZE dvd snd (log_span h)"
    using assms dvd_trans unfolding log_span_def log_region_ok_def by auto
qed

text \<open>The entry written for a block at \<open>off\<close>, and the table after it.\<close>

abbreviation bat_word :: "u64 \<Rightarrow> u64" where
  "bat_word off \<equiv> (off AND NOT (push_bit 20 1 - 1)) OR 6"

definition with_block :: "nat \<Rightarrow> u64 \<Rightarrow> 'd vhdx_reader \<Rightarrow> 'd vhdx_reader" where
  "with_block i off r =
     r\<lparr> rd_bat := (rd_bat r)[i := \<lparr> be_state = FullyPresent, be_file_offset = off \<rparr>] \<rparr>"

definition bat_placed :: "bytes \<Rightarrow> 'd vhdx_reader \<Rightarrow> bool" where
  "bat_placed c r \<longleftrightarrow>
     2 ^ 20 dvd unat (rd_bat_region_off r) \<and> 2 ^ 20 \<le> unat (rd_bat_region_off r) \<and>
     unat (rd_bat_region_off r) + 8 * length (rd_bat r) \<le> length c \<and>
     apart_from_log (rd_header r) (unat (rd_bat_region_off r)) (8 * length (rd_bat r))"

text \<open>The sector an entry lies in, and the sector as it is written back.\<close>

definition entry_off_on_disk :: "'d vhdx_reader \<Rightarrow> nat \<Rightarrow> u64" where
  "entry_off_on_disk r i = rd_bat_region_off r + word_of_nat i * BAT_ENTRY_SIZE"

definition sector_off_of :: "'d vhdx_reader \<Rightarrow> nat \<Rightarrow> u64" where
  "sector_off_of r i = entry_off_on_disk r i AND NOT (word_of_nat LOG_SECTOR_SIZE - 1)"

definition entry_off_in_sector :: "'d vhdx_reader \<Rightarrow> nat \<Rightarrow> nat" where
  "entry_off_in_sector r i = unat (entry_off_on_disk r i - sector_off_of r i)"

definition spliced_sector :: "('d, 'z) dev_ops_scheme \<Rightarrow> 'd vhdx_reader \<Rightarrow> nat \<Rightarrow> u64 \<Rightarrow> (bytes, error) res" where
  "spliced_sector ops r i off =
     res_bind (reader_dev_read ops r (sector_off_of r i) LOG_SECTOR_SIZE) (\<lambda>sector.
     copy_into sector (entry_off_in_sector r i) (entry_off_in_sector r i + 8) (to_le_bytes (bat_word off)))"

lemma publish_bat_entry_eq:
  "publish_bat_entry x ops i off r =
     io_bind (io_lift (spliced_sector ops r i off)) (\<lambda>s.
     io_bind (journal_sector_write x ops (sector_off_of r i) s) (\<lambda>_.
     io_bind (reader_dev_write ops (sector_off_of r i) s) (\<lambda>_.
     io_bind (reader_dev_flush ops) (\<lambda>_.
     (\<lambda>r. if i < length (rd_bat r)
           then (Ok (), r\<lparr> rd_bat := (rd_bat r)[i := bat_entry_from_u64 (bat_word off)] \<rparr>)
           else (Panic, r)))))) r"
  unfolding publish_bat_entry_def Let_def spliced_sector_def sector_off_of_def entry_off_in_sector_def entry_off_on_disk_def
  by (cases "reader_dev_read ops r (sector_off_of r i) LOG_SECTOR_SIZE")
    (simp_all add: io_bind_def io_lift_def sector_off_of_def entry_off_on_disk_def)

context reliable_device
begin

lemma spliced_sector_ok:
  assumes "invar (rd_dev r)" "bat_placed (contents (rd_dev r)) r" "i < length (rd_bat r)"
    and "LOG_SECTOR_SIZE dvd length (contents (rd_dev r))"
  defines "q \<equiv> unat (sector_off_of r i)" and "k \<equiv> entry_off_in_sector r i"
  shows "q + LOG_SECTOR_SIZE \<le> length (contents (rd_dev r))" "q + k = unat (rd_bat_region_off r) + 8 * i"
    "k + 8 \<le> LOG_SECTOR_SIZE"
    "spliced_sector ops r i off =
       Ok (overwrite k (to_le_bytes (bat_word off)) (subslice q (q + LOG_SECTOR_SIZE) (contents (rd_dev r))))"
proof -
  let ?c = "contents (rd_dev r)"
  have b8: "8 dvd unat (rd_bat_region_off r)"
    using assms(2) dvd_trans [of 8 "2 ^ 20 :: nat" "unat (rd_bat_region_off r)"] by (simp add: bat_placed_def)
  have fit: "unat (rd_bat_region_off r) + 8 * i + 8 \<le> length ?c" using assms(2,3) by (simp add: bat_placed_def)
  note es = entry_sector [OF b8 fit contents_bound [OF assms(1)] assms(4),
      folded entry_off_on_disk_def, folded sector_off_of_def, folded entry_off_in_sector_def]
  show q: "q + LOG_SECTOR_SIZE \<le> length ?c" using es(5) by (simp add: q_def)
  show "q + k = unat (rd_bat_region_off r) + 8 * i" using es(1-3) by (simp add: q_def k_def)
  show k: "k + 8 \<le> LOG_SECTOR_SIZE" using es(3,4) by (simp add: k_def)
  have "reader_dev_read ops r (sector_off_of r i) LOG_SECTOR_SIZE = Ok (subslice q (q + LOG_SECTOR_SIZE) ?c)"
    using reader_read_ok [OF assms(1)] q by (simp add: q_def)
  then show "spliced_sector ops r i off =
      Ok (overwrite k (to_le_bytes (bat_word off)) (subslice q (q + LOG_SECTOR_SIZE) ?c))"
    using k q by (simp add: spliced_sector_def k_def)
qed

text \<open>The sector lies past the header section and apart from the log.\<close>

lemma entry_sector_apart:
  assumes "invar (rd_dev r)" "bat_placed (contents (rd_dev r)) r" "i < length (rd_bat r)"
    and "LOG_SECTOR_SIZE dvd length (contents (rd_dev r))" "log_region_ok (rd_dev_size r) (rd_header r)"
  shows "2 ^ 20 \<le> unat (sector_off_of r i)" "apart_from_log (rd_header r) (unat (sector_off_of r i)) LOG_SECTOR_SIZE"
proof -
  let ?b = "unat (rd_bat_region_off r)" and ?e = "unat (entry_off_on_disk r i)"
  have b8: "8 dvd ?b"
    using assms(2) dvd_trans [of 8 "2 ^ 20 :: nat" ?b] by (simp add: bat_placed_def)
  have fit: "?b + 8 * i + 8 \<le> length (contents (rd_dev r))" using assms(2,3) by (simp add: bat_placed_def)
  note es = entry_sector [OF b8 fit contents_bound [OF assms(1)] assms(4),
      folded entry_off_on_disk_def, folded sector_off_of_def]
  have "apart_spans ?b (8 * length (rd_bat r)) (fst (log_span (rd_header r))) (snd (log_span (rd_header r)))"
    using assms(2) by (simp add: bat_placed_def apart_from_log_def)
  then have "apart_spans ?e 8 (fst (log_span (rd_header r))) (snd (log_span (rd_header r)))"
    by (rule apart_spans_mono) (use assms(3) es(1) in simp_all)
  from sector_apart [OF this log_span_aligned [OF assms(5)]]
  show "apart_from_log (rd_header r) (unat (sector_off_of r i)) LOG_SECTOR_SIZE" by (simp add: apart_from_log_def es(2))
  have "2 ^ 20 \<le> ?e" using assms(2) es(1) by (simp add: bat_placed_def)
  then have "256 \<le> ?e div LOG_SECTOR_SIZE" by (simp add: less_eq_div_iff_mult_less_eq)
  then show "2 ^ 20 \<le> unat (sector_off_of r i)" by (simp add: es(2))
qed

text \<open>A sector is journalled and then written in place.\<close>

lemma journal_then_write:
  assumes "invar (rd_dev r)" "crc_contract x" "header_wf (rd_header r)" "length s = LOG_SECTOR_SIZE"
    and "log_region_ok (rd_dev_size r) (rd_header r)" "unat (rd_dev_size r) = length (contents (rd_dev r))"
    and "unat q + LOG_SECTOR_SIZE \<le> length (contents (rd_dev r))"
  obtains d1 d2 d3 h a where
    "journal_sector_write x ops q s r = (Ok (), r\<lparr> rd_dev := d1, rd_header := h, rd_active_header_slot := a \<rparr>)"
    "reader_dev_write ops q s (r\<lparr> rd_dev := d1, rd_header := h, rd_active_header_slot := a \<rparr>) =
       (Ok (), r\<lparr> rd_dev := d1, rd_header := h, rd_active_header_slot := a, rd_dev := d2 \<rparr>)"
    "reader_dev_flush ops (r\<lparr> rd_dev := d1, rd_header := h, rd_active_header_slot := a, rd_dev := d2 \<rparr>) =
       (Ok (), r\<lparr> rd_dev := d1, rd_header := h, rd_active_header_slot := a, rd_dev := d3 \<rparr>)"
    "invar d3" "contents d3 = overwrite (unat q) s (contents d1)"
    "journal_frame (rd_header r) (contents (rd_dev r)) (contents d1)" "header_wf h"
    "hdr_log_offset h = hdr_log_offset (rd_header r)" "hdr_log_length h = hdr_log_length (rd_header r)"
proof -
  obtain d1 h a where j: "journal_sector_write x ops q s r =
      (Ok (), r\<lparr> rd_dev := d1, rd_header := h, rd_active_header_slot := a \<rparr>)" (is "_ = (_, ?r1)")
    "invar d1" "journal_frame (rd_header r) (contents (rd_dev r)) (contents d1)" "header_wf h"
    "hdr_log_offset h = hdr_log_offset (rd_header r)" "hdr_log_length h = hdr_log_length (rd_header r)"
    by (rule journal_sector_write_ok [OF assms(1-6)])
  have len: "length (contents d1) = length (contents (rd_dev r))" using j(3) by (simp add: journal_frame_def)
  obtain d2 where d2: "reader_dev_write ops q s ?r1 = (Ok (), ?r1\<lparr> rd_dev := d2 \<rparr>)"
    "invar d2" "contents d2 = overwrite (unat q) s (contents d1)"
    using reader_write_ok [of ?r1 q s] j(2) len assms(4,7) by auto
  obtain d3 where d3: "reader_dev_flush ops (?r1\<lparr> rd_dev := d2 \<rparr>) = (Ok (), ?r1\<lparr> rd_dev := d3 \<rparr>)"
    "invar d3" "contents d3 = contents d2"
    using reader_flush_ok [of "?r1\<lparr> rd_dev := d2 \<rparr>"] d2(2) by auto
  show thesis by (rule that [OF j(1) d2(1) d3(1,2) _ j(3-6)]) (simp add: d3(3) d2(3))
qed

lemma publish_bat_entry_ok:
  assumes "invar (rd_dev r)" "crc_contract x" "header_wf (rd_header r)"
    and "log_region_ok (rd_dev_size r) (rd_header r)" "unat (rd_dev_size r) = length (contents (rd_dev r))"
    and "LOG_SECTOR_SIZE dvd length (contents (rd_dev r))" "bat_placed (contents (rd_dev r)) r"
    and "i < length (rd_bat r)" "2 ^ 20 dvd unat off"
  obtains d' h' s' c1 where
    "publish_bat_entry x ops i off r = (Ok (), with_block i off
       (r\<lparr> rd_dev := d', rd_header := h', rd_active_header_slot := s' \<rparr>))"
    "invar d'" "journal_frame (rd_header r) (contents (rd_dev r)) c1"
    "contents d' = overwrite (unat (rd_bat_region_off r) + 8 * i) (to_le_bytes (bat_word off)) c1"
    "header_wf h'" "hdr_log_offset h' = hdr_log_offset (rd_header r)"
    "hdr_log_length h' = hdr_log_length (rd_header r)"
proof -
  let ?c = "contents (rd_dev r)" and ?b = "unat (rd_bat_region_off r)" and ?L = "LOG_SECTOR_SIZE"
  let ?w = "to_le_bytes (bat_word off) :: bytes"
  define q k where "q = sector_off_of r i" and "k = entry_off_in_sector r i"
  note si = spliced_sector_ok [OF assms(1,7,8,6), folded q_def k_def]
    and away = entry_sector_apart [OF assms(1,7,8,6,4), folded q_def]
  define sec where "sec = subslice (unat q) (unat q + ?L) ?c"
  have len: "length sec = ?L" "length (overwrite k ?w sec) = ?L" using si(1,3) by (simp_all add: sec_def)
  obtain d1 d2 d3 h' s' where j: "journal_sector_write x ops q (overwrite k ?w sec) r =
      (Ok (), r\<lparr> rd_dev := d1, rd_header := h', rd_active_header_slot := s' \<rparr>)"
    "reader_dev_write ops q (overwrite k ?w sec) (r\<lparr> rd_dev := d1, rd_header := h', rd_active_header_slot := s' \<rparr>) =
      (Ok (), r\<lparr> rd_dev := d1, rd_header := h', rd_active_header_slot := s', rd_dev := d2 \<rparr>)"
    "reader_dev_flush ops (r\<lparr> rd_dev := d1, rd_header := h', rd_active_header_slot := s', rd_dev := d2 \<rparr>) =
      (Ok (), r\<lparr> rd_dev := d1, rd_header := h', rd_active_header_slot := s', rd_dev := d3 \<rparr>)"
    "invar d3" "contents d3 = overwrite (unat q) (overwrite k ?w sec) (contents d1)"
    "journal_frame (rd_header r) ?c (contents d1)" "header_wf h'"
    "hdr_log_offset h' = hdr_log_offset (rd_header r)" "hdr_log_length h' = hdr_log_length (rd_header r)"
    by (rule journal_then_write [OF assms(1-3) len(2) assms(4,5) si(1)])
  have same: "sec = subslice (unat q) (unat q + ?L) (contents d1)" "length (contents d1) = length ?c"
    using j(6) away by (simp_all add: journal_frame_def sec_def)
  have img: "contents d3 = overwrite (?b + 8 * i) ?w (contents d1)"
    unfolding j(5) si(2) [symmetric]
    by (rule overwrite_slice_of_sector [of _ _ "unat q + ?L"]) (use same si(1,3) len in simp_all)
  have "publish_bat_entry x ops i off r =
      (Ok (), with_block i off (r\<lparr> rd_dev := d3, rd_header := h', rd_active_header_slot := s' \<rparr>))"
    unfolding publish_bat_entry_eq bat_entry_of_word [OF assms(9)]
    using si(4) [of off] j(1-3) assms(8) by (simp add: io_bind_def io_lift_def with_block_def q_def sec_def)
  from that [OF this j(4,6) img j(7-9)] show thesis .
qed

end

section \<open>Allocation\<close>

text \<open>The contents after the file has been extended.\<close>

definition grown :: "bytes \<Rightarrow> nat \<Rightarrow> bytes" where
  "grown c n = c @ replicate (n - length c) 0"

lemma length_grown [simp]: "length c \<le> n \<Longrightarrow> length (grown c n) = n"
  by (simp add: grown_def)

lemma subslice_grown_old: "b \<le> length c \<Longrightarrow> subslice a b (grown c n) = subslice a b c"
  by (simp add: grown_def)

lemma nth_grown: "i < n \<Longrightarrow> grown c n ! i = (if i < length c then c ! i else 0)"
  by (simp add: grown_def nth_append)

lemma overwrite_grown_zeros:
  assumes "length c \<le> a" "a + k \<le> n"
  shows "overwrite a (replicate k 0) (grown c n) = grown c n"
  using assms by (intro nth_equalityI) (auto simp: nth_overwrite nth_grown)

text \<open>Rounding up to a block.\<close>

lemma round_up_block:
  fixes sz bs :: u64
  assumes "unat bs = 2 ^ k" "unat sz + 2 * unat bs < 2 ^ 64"
  defines "a \<equiv> (sz + (bs - 1)) AND NOT (bs - 1)"
  shows "unat sz \<le> unat a" "unat a < unat sz + unat bs" "unat bs dvd unat a"
    "unat (a + bs) = unat a + unat bs"
proof -
  have bs: "bs = 2 ^ k"
  proof -
    have "bs = word_of_nat (unat bs)" by simp
    also have "\<dots> = 2 ^ k" by (simp only: assms(1) of_nat_power of_nat_numeral)
    finally show ?thesis .
  qed
  have b1: "unat (bs - 1) = unat bs - 1"
    using assms(1) by (metis One_nat_def less_numeral_extra(3) unat_minus_one unat_0 zero_less_numeral zero_less_power)
  have s: "unat (sz + (bs - 1)) = unat sz + (unat bs - 1)"
    using assms(2) b1 by (subst unat_add_no_overflow) simp_all
  have "bs - 1 = mask k" by (simp add: bs mask_eq_exp_minus_1)
  then have ua: "unat a = (unat sz + (unat bs - 1)) div unat bs * unat bs"
    by (simp only: a_def unat_and_not_mask s [unfolded \<open>bs - 1 = mask k\<close>] assms(1))
  have pos: "0 < unat bs" using assms(1) by simp
  have "unat sz + (unat bs - 1) < (unat sz + (unat bs - 1)) div unat bs * unat bs + unat bs"
    using pos dividend_less_div_times [of "unat bs" "unat sz + (unat bs - 1)"] by (simp add: add.commute)
  then show ge: "unat sz \<le> unat a" using pos unfolding ua by linarith
  have "(unat sz + (unat bs - 1)) div unat bs * unat bs \<le> unat sz + (unat bs - 1)" by simp
  then show lt: "unat a < unat sz + unat bs" using pos unfolding ua by linarith
  show "unat bs dvd unat a" by (simp add: ua)
  show "unat (a + bs) = unat a + unat bs"
    using lt assms(2) by (subst unat_add_no_overflow) simp_all
qed

text \<open>What publishing the entry leaves alone.\<close>

lemma publish_frame:
  assumes "journal_frame h c c1" "length w = 8" "e + 8 \<le> length c"
    and "2 ^ 20 \<le> a" "apart_from_log h a n" "apart_spans a n e 8"
  shows "subslice a (a + n) (overwrite e w c1) = subslice a (a + n) c"
proof -
  have "subslice a (a + n) (overwrite e w c1) = subslice a (a + n) c1"
    using assms by (intro subslice_overwrite_disjoint) (auto simp: journal_frame_def apart_spans_def)
  then show ?thesis using assms(1,4,5) by (simp add: journal_frame_def)
qed

lemma reader_ok_placed: "reader_ok c r \<Longrightarrow> layout_ok c r \<Longrightarrow> bat_placed c r"
  by (simp add: bat_placed_def layout_ok_def reader_ok_def bat_synced_def)

lemma bat_placed_fields [simp]:
  "bat_placed c (r\<lparr> rd_dev := d \<rparr>) = bat_placed c r" "bat_placed c (r\<lparr> rd_dev_size := n \<rparr>) = bat_placed c r"
  by (simp_all add: bat_placed_def)

text \<open>A reader whose file was grown by whole blocks is ready for its BAT to be changed.\<close>

lemma grown_ready:
  assumes "reader_ok c r" "layout_ok c r" "length c \<le> n" "2 ^ 20 dvd n" "unat sz = n"
  shows "bat_placed (grown c n) r" "LOG_SECTOR_SIZE dvd length (grown c n)"
    "log_region_ok sz (rd_header r)" "unat sz = length (grown c n)"
proof -
  show "bat_placed (grown c n) r"
    using reader_ok_placed [OF assms(1,2)] assms(3) by (auto simp: bat_placed_def)
  show "LOG_SECTOR_SIZE dvd length (grown c n)"
    using dvd_trans [OF _ assms(4), of LOG_SECTOR_SIZE] assms(3) by simp
  show "unat sz = length (grown c n)" using assms(3,5) by simp
  show "log_region_ok sz (rd_header r)"
    using assms(1,3,5) by (auto simp: log_region_ok_def reader_ok_def)
qed

context reliable_device
begin

text \<open>The tail that is claimed: a whole block past the end, aligned, with the device grown to hold it.\<close>

lemma claim_tail_grows:
  assumes "invar (rd_dev r)" "unat (rd_dev_size r) = length (contents (rd_dev r))"
    and "block_bytes r = 2 ^ k" "20 \<le> k" "length (contents (rd_dev r)) + 2 * block_bytes r < 2 ^ 64"
  obtains off d1 where
    "claim_tail ops r = (Ok off, r\<lparr> rd_dev := d1, rd_dev_size := off + ucast (rd_block_size r) \<rparr>)"
    "invar d1" "contents d1 = grown (contents (rd_dev r)) (unat off + block_bytes r)"
    "length (contents (rd_dev r)) \<le> unat off" "unat off < length (contents (rd_dev r)) + block_bytes r"
    "unat (off + ucast (rd_block_size r)) = unat off + block_bytes r" "2 ^ 20 dvd unat off"
proof -
  let ?c = "contents (rd_dev r)" and ?bs = "ucast (rd_block_size r) :: u64"
  define off where "off = (rd_dev_size r + (?bs - 1)) AND NOT (?bs - 1)"
  have ubs: "unat ?bs = 2 ^ k" and room: "unat (rd_dev_size r) + 2 * unat ?bs < 2 ^ 64"
    using assms(2,3,5) by simp_all
  note ru = round_up_block [OF ubs room, folded off_def]
  let ?n = "unat off + block_bytes r"
  have n: "unat (off + ?bs) = ?n" using ru(4) by simp
  obtain d1 where d1: "dev_set_len ops (off + ?bs) (rd_dev r) = (Ok (), d1)" "invar d1"
    "contents d1 = grown ?c ?n"
    using grow_ok [OF assms(1), of "off + ?bs"] n ru(1) assms(2) by (auto simp: grown_def)
  let ?r1 = "r\<lparr> rd_dev := d1, rd_dev_size := off + ?bs \<rparr>"
  have claim: "claim_tail ops r = (Ok off, ?r1)"
    using d1(1) by (simp add: claim_tail_def Let_def on_dev_def io_bind_def flip: off_def)
  have off20: "2 ^ 20 dvd unat off"
    using ru(3) dvd_trans [OF le_imp_power_dvd [OF assms(4), of "2 :: nat"]] by (simp add: assms(3))
  show thesis using that [OF claim d1(2,3) _ _ n off20] ru(1,2) assms(2) by simp
qed

lemma allocate_block_for_ok:
  assumes "invar (rd_dev r)" "crc_contract x" "reader_ok (contents (rd_dev r)) r" "layout_ok (contents (rd_dev r)) r"
    and "i < length (rd_bat r)" "length (contents (rd_dev r)) + 2 * block_bytes r < 2 ^ 64"
  obtains off d' h' s' c1 where
    "allocate_block_for x ops i r = (Ok off, with_block i off
       (r\<lparr> rd_dev := d', rd_dev_size := off + ucast (rd_block_size r), rd_header := h',
          rd_active_header_slot := s' \<rparr>))"
    "invar d'" "length (contents (rd_dev r)) \<le> unat off"
    "unat off < length (contents (rd_dev r)) + block_bytes r"
    "unat (off + ucast (rd_block_size r)) = unat off + block_bytes r" "2 ^ 20 dvd unat off"
    "journal_frame (rd_header r) (grown (contents (rd_dev r)) (unat off + block_bytes r)) c1"
    "contents d' = overwrite (unat (rd_bat_region_off r) + 8 * i) (to_le_bytes (bat_word off)) c1"
    "header_wf h'" "hdr_log_offset h' = hdr_log_offset (rd_header r)"
    "hdr_log_length h' = hdr_log_length (rd_header r)"
proof -
  let ?c = "contents (rd_dev r)" and ?bs = "ucast (rd_block_size r) :: u64"
  obtain k where k: "20 \<le> k" "k \<le> 28" "block_bytes r = 2 ^ k"
    using assms(3) by (auto simp: reader_ok_def geometry_ok_def elim: block_size_okD)
  have sz: "unat (rd_dev_size r) = length ?c" and wf: "header_wf (rd_header r)"
    using assms(3) by (simp_all add: reader_ok_def)
  obtain off d1 where claim: "claim_tail ops r = (Ok off, r\<lparr> rd_dev := d1, rd_dev_size := off + ?bs \<rparr>)"
    and d1: "invar d1" "contents d1 = grown ?c (unat off + block_bytes r)"
    and ru: "length ?c \<le> unat off" "unat off < length ?c + block_bytes r"
    and n: "unat (off + ?bs) = unat off + block_bytes r" and off20: "2 ^ 20 dvd unat off"
    by (rule claim_tail_grows [OF assms(1) sz k(3,1) assms(6)])
  let ?n = "unat off + block_bytes r" and ?r1 = "r\<lparr> rd_dev := d1, rd_dev_size := off + ?bs \<rparr>"
  obtain d2 where d2: "reader_dev_write ops off (replicate (block_bytes r) 0) ?r1 = (Ok (), ?r1\<lparr> rd_dev := d2 \<rparr>)"
    "invar d2" "contents d2 = grown ?c ?n"
    using reader_write_ok [of ?r1 off "replicate (block_bytes r) 0"] d1
      overwrite_grown_zeros [of ?c "unat off" "block_bytes r" ?n] ru(1) by auto
  obtain d3 where d3: "reader_dev_flush ops (?r1\<lparr> rd_dev := d2 \<rparr>) = (Ok (), ?r1\<lparr> rd_dev := d3 \<rparr>)"
    "invar d3" "contents d3 = grown ?c ?n"
    using reader_flush_ok [of "?r1\<lparr> rd_dev := d2 \<rparr>"] d2(2,3) by auto
  let ?r3 = "?r1\<lparr> rd_dev := d3 \<rparr>"
  have "2 ^ 20 dvd ?n"
    using off20 le_imp_power_dvd [OF k(1), of "2 :: nat"] by (simp only: k(3) dvd_add)
  note ready = grown_ready [OF assms(3,4) trans_le_add1 [OF ru(1)] this n]
  obtain d' h' s' c1 where p:
    "publish_bat_entry x ops i off ?r3 = (Ok (), with_block i off
       (?r3\<lparr> rd_dev := d', rd_header := h', rd_active_header_slot := s' \<rparr>))"
    "invar d'" "journal_frame (rd_header ?r3) (contents (rd_dev ?r3)) c1"
    "contents d' = overwrite (unat (rd_bat_region_off ?r3) + 8 * i) (to_le_bytes (bat_word off)) c1"
    "header_wf h'" "hdr_log_offset h' = hdr_log_offset (rd_header ?r3)"
    "hdr_log_length h' = hdr_log_length (rd_header ?r3)"
    by (rule publish_bat_entry_ok [of ?r3 x i off]) (use d3(2,3) assms(2,5) wf ready off20 in simp_all)
  have "allocate_block_for x ops i r = (Ok off, with_block i off
       (r\<lparr> rd_dev := d', rd_dev_size := off + ?bs, rd_header := h', rd_active_header_slot := s' \<rparr>))"
    using claim d2(1) d3(1) p(1)
    by (simp add: allocate_block_for_def Let_def io_bind_def io_return_def with_block_def)
  then show thesis
    using that [OF _ p(2) ru n off20] p(3-7) d3(3) by simp
qed

text \<open>An image with a block missing has room for one.\<close>

lemma disk_inv_room:
  assumes "disk_inv c r" "i < length (rd_bat r)" "be_state (rd_bat r ! i) \<noteq> FullyPresent"
  shows "length c + 2 * block_bytes r < 2 ^ 64"
proof -
  have "0 < missing_blocks r"
    using assms(2,3) nth_mem [OF assms(2)] by (auto simp: missing_blocks_def filter_empty_conv)
  then have "2 * block_bytes r \<le> 2 * block_bytes r * missing_blocks r" by simp
  then show ?thesis using assms(1) unfolding disk_inv_def by linarith
qed

end

section \<open>Allocation keeps the invariant and the virtual disk\<close>

text \<open>The reader and the contents after a block was allocated, as one relation.\<close>

definition allocated ::
  "nat \<Rightarrow> u64 \<Rightarrow> bytes \<Rightarrow> 'd vhdx_reader \<Rightarrow> bytes \<Rightarrow> 'd vhdx_reader \<Rightarrow> bool" where
  "allocated i off c r c' r' \<longleftrightarrow>
     (\<exists>d h s c1. r' = with_block i off (r\<lparr> rd_dev := d, rd_dev_size := off + ucast (rd_block_size r),
        rd_header := h, rd_active_header_slot := s \<rparr>) \<and>
      header_wf h \<and> hdr_log_offset h = hdr_log_offset (rd_header r) \<and>
      hdr_log_length h = hdr_log_length (rd_header r) \<and>
      journal_frame (rd_header r) (grown c (unat off + block_bytes r)) c1 \<and>
      c' = overwrite (unat (rd_bat_region_off r) + 8 * i) (to_le_bytes (bat_word off)) c1) \<and>
     i < length (rd_bat r) \<and> payload_slot r i \<and> length c \<le> unat off \<and> unat off < length c + block_bytes r \<and> 2 ^ 20 dvd unat off \<and>
     unat (off + ucast (rd_block_size r)) = unat off + block_bytes r"

lemma allocated_fields:
  assumes "allocated i off c r c' r'"
  shows "rd_block_size r' = rd_block_size r" "rd_virtual_size r' = rd_virtual_size r"
    "rd_chunk_ratio r' = rd_chunk_ratio r" "rd_bat_region_off r' = rd_bat_region_off r"
    "rd_writable r' = rd_writable r" "slot_of r' = slot_of r" "payload_slot r' = payload_slot r"
    "length (rd_bat r') = length (rd_bat r)" "log_span (rd_header r') = log_span (rd_header r)"
    "rd_bat r' = (rd_bat r)[i := \<lparr> be_state = FullyPresent, be_file_offset = off \<rparr>]"
  using assms
  by (auto simp: allocated_def with_block_def slot_of_def payload_slot_def log_span_def fun_eq_iff)

lemma allocated_length:
  assumes "allocated i off c r c' r'" "bat_placed c r"
  shows "length c' = unat off + block_bytes r"
  using assms by (auto simp: allocated_def journal_frame_def bat_placed_def)

lemma allocated_frame:
  assumes "allocated i off c r c' r'" "bat_placed c r"
    and "2 ^ 20 \<le> a" "apart_from_log (rd_header r) a n"
    and "apart_spans a n (unat (rd_bat_region_off r) + 8 * i) 8"
  shows "subslice a (a + n) c' = subslice a (a + n) (grown c (unat off + block_bytes r))"
proof -
  obtain c1 where c1: "journal_frame (rd_header r) (grown c (unat off + block_bytes r)) c1"
    "c' = overwrite (unat (rd_bat_region_off r) + 8 * i) (to_le_bytes (bat_word off)) c1"
    using assms(1) by (auto simp: allocated_def)
  have "unat (rd_bat_region_off r) + 8 * i + 8 \<le> length (grown c (unat off + block_bytes r))"
    using assms(1,2) by (auto simp: allocated_def bat_placed_def)
  from publish_frame [OF c1(1) _ this assms(3-5), of "to_le_bytes (bat_word off)"] show ?thesis
    by (simp add: c1(2))
qed

lemma apart_spans_sub:
  "apart_spans a n b m \<Longrightarrow> b \<le> b' \<Longrightarrow> b' + m' \<le> b + m \<Longrightarrow> apart_spans a n b' m'"
  by (auto simp: apart_spans_def)

lemma allocated_old_block:
  assumes "allocated i off c r c' r'" "reader_ok c r" "layout_ok c r" "present r j"
  shows "subslice (block_start r j) (block_start r j + block_bytes r) c' =
    subslice (block_start r j) (block_start r j + block_bytes r) c"
proof -
  have p: "2 ^ 20 \<le> block_start r j" "block_start r j + block_bytes r \<le> length c"
    "apart_spans (block_start r j) (block_bytes r) (unat (rd_bat_region_off r)) (8 * length (rd_bat r))"
    "apart_from_log (rd_header r) (block_start r j) (block_bytes r)"
    using assms(3,4) by (auto simp: layout_ok_def)
  have "i < length (rd_bat r)" using assms(1) by (simp add: allocated_def)
  then have "apart_spans (block_start r j) (block_bytes r) (unat (rd_bat_region_off r) + 8 * i) 8"
    using apart_spans_sub [OF p(3)] by simp
  from allocated_frame [OF assms(1) reader_ok_placed [OF assms(2,3)] p(1,4) this] p(2)
  show ?thesis by (simp add: subslice_grown_old)
qed

text \<open>The new block lies past everything there was.\<close>

lemma allocated_new_place:
  assumes "allocated i off c r c' r'" "reader_ok c r" "layout_ok c r"
  shows "2 ^ 20 \<le> unat off" "apart_from_log (rd_header r) (unat off) n"
    "apart_spans (unat off) n (unat (rd_bat_region_off r)) (8 * length (rd_bat r))"
proof -
  have pl: "bat_placed c r" by (rule reader_ok_placed [OF assms(2,3)])
  have off: "length c \<le> unat off" using assms(1) by (simp add: allocated_def)
  show "2 ^ 20 \<le> unat off" using pl off by (simp add: bat_placed_def)
  show "apart_spans (unat off) n (unat (rd_bat_region_off r)) (8 * length (rd_bat r))"
    using pl off by (simp add: bat_placed_def apart_spans_def)
  show "apart_from_log (rd_header r) (unat off) n"
    using assms(2) off
    by (auto simp: apart_from_log_def log_span_def apart_spans_def reader_ok_def log_region_ok_def)
qed

lemma allocated_new_block:
  assumes "allocated i off c r c' r'" "reader_ok c r" "layout_ok c r" "k < block_bytes r"
  shows "c' ! (unat off + k) = 0"
proof -
  let ?bs = "block_bytes r" and ?n = "unat off + block_bytes r"
  have pl: "bat_placed c r" by (rule reader_ok_placed [OF assms(2,3)])
  note np = allocated_new_place [OF assms(1-3)]
  have i: "i < length (rd_bat r)" "length c \<le> unat off" using assms(1) by (auto simp: allocated_def)
  have "apart_spans (unat off) ?bs (unat (rd_bat_region_off r) + 8 * i) 8"
    using apart_spans_sub [OF np(3)] i(1) by simp
  from allocated_frame [OF assms(1) pl np(1,2) this]
  have eq: "subslice (unat off) ?n c' = subslice (unat off) ?n (grown c ?n)" .
  have "c' ! (unat off + k) = subslice (unat off) ?n c' ! k"
    using allocated_length [OF assms(1) pl] assms(4) by (simp add: nth_subslice)
  also have "\<dots> = 0"
    using assms(4) i(2) by (simp add: eq nth_subslice nth_grown)
  finally show ?thesis .
qed

lemma allocated_bat_synced:
  assumes "allocated i off c r c' r'" "reader_ok c r" "layout_ok c r"
  shows "bat_synced r' c'"
proof -
  have pl: "bat_placed c r" by (rule reader_ok_placed [OF assms(2,3)])
  note f = allocated_fields [OF assms(1)] and len = allocated_length [OF assms(1) pl]
  let ?b = "unat (rd_bat_region_off r)"
  have off: "length c \<le> unat off" "2 ^ 20 dvd unat off" "i < length (rd_bat r)"
    using assms(1) by (auto simp: allocated_def)
  have "rd_bat r' ! j = disk_bat_entry c' ?b j" if j: "j < length (rd_bat r)" for j
  proof (cases "j = i")
    case True
    obtain c1 where c1: "journal_frame (rd_header r) (grown c (unat off + block_bytes r)) c1"
      "c' = overwrite (?b + 8 * i) (to_le_bytes (bat_word off)) c1"
      using assms(1) by (auto simp: allocated_def)
    have "?b + 8 * i + 8 \<le> length c1" using c1(1) pl off by (auto simp: bat_placed_def journal_frame_def)
    then have "subslice (?b + 8 * i) (?b + 8 * i + 8) c' = to_le_bytes (bat_word off)"
      unfolding c1(2) by (intro subslice_overwrite_same) simp_all
    then show ?thesis
      using True off bat_entry_of_word [OF off(2)] by (simp add: f(10) disk_bat_entry_def del: push_bit_minus_one)
  next
    case False
    have "apart_spans (?b + 8 * j) 8 (?b + 8 * i) 8" using False by (auto simp: apart_spans_def)
    moreover have "apart_from_log (rd_header r) (?b + 8 * j) 8"
      using pl j unfolding bat_placed_def apart_from_log_def
      by (elim conjE) (erule apart_spans_mono, simp_all)
    ultimately have "subslice (?b + 8 * j) (?b + 8 * j + 8) c' =
        subslice (?b + 8 * j) (?b + 8 * j + 8) (grown c (unat off + block_bytes r))"
      using pl by (intro allocated_frame [OF assms(1)]) (auto simp: bat_placed_def)
    also have "\<dots> = subslice (?b + 8 * j) (?b + 8 * j + 8) c"
      using pl j by (intro subslice_grown_old) (simp add: bat_placed_def)
    finally show ?thesis
      using False assms(2) j by (simp add: f(10) disk_bat_entry_def reader_ok_def bat_synced_def)
  qed
  then show ?thesis
    using len pl off by (auto simp: bat_synced_def f bat_placed_def)
qed

lemma allocated_present_iff:
  assumes "allocated i off c r c' r'"
  shows "present r' j \<longleftrightarrow> present r j \<or> j = i"
    and "block_start r' j = (if j = i then unat off else block_start r j)"
  using assms allocated_fields(7,10) [OF assms]
  by (auto simp: present_def allocated_def nth_list_update)

lemma allocated_layout_ok:
  assumes "allocated i off c r c' r'" "reader_ok c r" "layout_ok c r"
  shows "layout_ok c' r'"
proof -
  have pl: "bat_placed c r" by (rule reader_ok_placed [OF assms(2,3)])
  note f = allocated_fields [OF assms(1)] and len = allocated_length [OF assms(1) pl]
    and np = allocated_new_place [OF assms(1-3)] and pi = allocated_present_iff [OF assms(1)]
  have ge: "length c \<le> unat off" using assms(1) by (simp add: allocated_def)
  have log: "apart_from_log (rd_header r') a n \<longleftrightarrow> apart_from_log (rd_header r) a n" for a n
    by (simp add: apart_from_log_def f)
  have old: "2 ^ 20 \<le> block_start r j \<and> block_start r j + block_bytes r \<le> length c \<and>
      apart_spans (block_start r j) (block_bytes r) (unat (rd_bat_region_off r)) (8 * length (rd_bat r)) \<and>
      apart_from_log (rd_header r) (block_start r j) (block_bytes r)" if "present r j" for j
    using assms(3) that unfolding layout_ok_def by blast
  have one: "2 ^ 20 \<le> block_start r' j \<and> block_start r' j + block_bytes r' \<le> length c' \<and>
      apart_spans (block_start r' j) (block_bytes r') (unat (rd_bat_region_off r')) (8 * length (rd_bat r')) \<and>
      apart_from_log (rd_header r') (block_start r' j) (block_bytes r')" if "present r' j" for j
    using that old [of j] np len ge by (auto simp: pi f(1,4,8) log)
  have two: "apart_spans (block_start r' j) (block_bytes r') (block_start r' k) (block_bytes r')"
    if "present r' j" "present r' k" "j \<noteq> k" for j k
  proof (cases "j = i \<or> k = i")
    case True
    then show ?thesis
      using that old [of j] old [of k] ge by (auto simp: pi f(1) apart_spans_def)
  next
    case False
    then show ?thesis
      using that assms(3) by (simp add: pi f(1) layout_ok_def)
  qed
  have "2 ^ 20 dvd unat (rd_bat_region_off r') \<and> 2 ^ 20 \<le> unat (rd_bat_region_off r') \<and>
      apart_from_log (rd_header r') (unat (rd_bat_region_off r')) (8 * length (rd_bat r'))"
    using pl by (simp add: bat_placed_def f log)
  then show ?thesis using one two unfolding layout_ok_def by blast
qed

lemma missing_blocks_allocated:
  assumes "allocated i off c r c' r'" "be_state (rd_bat r ! i) \<noteq> FullyPresent"
  shows "missing_blocks r = Suc (missing_blocks r')"
proof -
  have gen: "length (filter P xs) = Suc (length (filter P (xs[i := y])))"
    if "i < length xs" "P (xs ! i)" "\<not> P y" for P and xs :: "bat_entry list" and y
    using that
  proof (induction xs arbitrary: i)
    case (Cons x xs)
    then show ?case by (cases i) auto
  qed simp
  show ?thesis
    using assms allocated_fields(10) [OF assms(1)] unfolding missing_blocks_def
    by (auto simp: allocated_def intro!: gen)
qed

lemma allocated_reader_ok:
  assumes "allocated i off c r c' r'" "reader_ok c r" "layout_ok c r"
  shows "reader_ok c' r'"
proof -
  note f = allocated_fields [OF assms(1)] and len = allocated_length [OF assms(1) reader_ok_placed [OF assms(2,3)]]
  have n: "unat (rd_dev_size r') = length c'" "header_wf (rd_header r')"
    and logf: "hdr_log_offset (rd_header r') = hdr_log_offset (rd_header r)"
      "hdr_log_length (rd_header r') = hdr_log_length (rd_header r)"
    and ge: "length c \<le> unat off" using assms(1) len by (auto simp: allocated_def with_block_def)
  have "log_region_ok (rd_dev_size r') (rd_header r')"
    using assms(2) n ge len logf by (auto simp: reader_ok_def log_region_ok_def)
  moreover have "geometry_ok r'"
    using assms(2) by (simp add: reader_ok_def geometry_ok_def f)
  ultimately show ?thesis
    using n allocated_bat_synced [OF assms] by (simp add: reader_ok_def)
qed

lemma allocated_disk_inv:
  assumes "allocated i off c r c' r'" "disk_inv c r" "be_state (rd_bat r ! i) \<noteq> FullyPresent"
  shows "disk_inv c' r'"
proof -
  have ok: "reader_ok c r" "layout_ok c r" using assms(2) by (auto simp: disk_inv_def)
  have "unat off < length c + block_bytes r" using assms(1) by (simp add: allocated_def)
  moreover have "length c + 2 * block_bytes r * Suc (missing_blocks r') < 2 ^ 64"
    using assms(2) missing_blocks_allocated [OF assms(1,3)] by (simp add: disk_inv_def)
  ultimately have "length c' + 2 * block_bytes r' * missing_blocks r' < 2 ^ 64"
    using allocated_length [OF assms(1) reader_ok_placed [OF ok]] by (simp add: allocated_fields(1) [OF assms(1)])
  then show ?thesis
    using allocated_reader_ok [OF assms(1) ok] allocated_layout_ok [OF assms(1) ok] by (simp add: disk_inv_def)
qed

lemma nth_eq_of_subslice:
  assumes "subslice a (a + n) c' = subslice a (a + n) c" "k < n" "a + n \<le> length c" "a + n \<le> length c'"
  shows "c' ! (a + k) = c ! (a + k)"
proof -
  have "c' ! (a + k) = subslice a (a + n) c' ! k" using assms(2,4) by (simp add: nth_subslice)
  also have "\<dots> = c ! (a + k)" unfolding assms(1) using assms(2,3) by (simp add: nth_subslice)
  finally show ?thesis .
qed

text \<open>The bytes of the virtual disk after an allocation: zeros in the new block, the old ones elsewhere.\<close>

lemma allocated_vbyte_cases:
  assumes "allocated i off c r c' r'" "reader_ok c r" "layout_ok c r" "v < unat (rd_virtual_size r)"
  shows "vbyte r' c' v = (if slot_of r v = i then 0 else vbyte r c v)"
proof -
  note f = allocated_fields [OF assms(1)] and len = allocated_length [OF assms(1) reader_ok_placed [OF assms(2,3)]]
  have i: "i < length (rd_bat r)" "length c \<le> unat off" using assms(1) by (auto simp: allocated_def)
  have "0 < block_bytes r"
    using assms(2) block_size_ok_pos by (fastforce simp: reader_ok_def geometry_ok_def)
  then have m: "v mod block_bytes r < block_bytes r" by simp
  consider "slot_of r v = i" | "slot_of r v \<noteq> i" "present r (slot_of r v)"
    | "slot_of r v \<noteq> i" "be_state (rd_bat r ! slot_of r v) \<noteq> FullyPresent"
    using assms(4) by (auto simp: present_def payload_slot_def)
  then show ?thesis
  proof cases
    case 1
    then show ?thesis
      using allocated_new_block [OF assms(1-3) m] i by (simp add: vbyte_def f Let_def)
  next
    case 2
    let ?b = "block_start r (slot_of r v)"
    have "?b + block_bytes r \<le> length c"
      using assms(3) 2(2) unfolding layout_ok_def by blast
    then have "c' ! (?b + v mod block_bytes r) = c ! (?b + v mod block_bytes r)"
      using nth_eq_of_subslice [OF allocated_old_block [OF assms(1-3) 2(2)] m] len i(2) by simp
    then show ?thesis using 2 by (simp add: vbyte_def f Let_def nth_list_update)
  next
    case 3
    then show ?thesis by (simp add: vbyte_def f Let_def nth_list_update)
  qed
qed

text \<open>Allocation of a block that was not there is invisible.\<close>

lemma allocated_vbyte:
  assumes "allocated i off c r c' r'" "disk_inv c r" "be_state (rd_bat r ! i) \<noteq> FullyPresent"
    and "v < unat (rd_virtual_size r)"
  shows "vbyte r' c' v = vbyte r c v"
  using allocated_vbyte_cases [OF assms(1) _ _ assms(4)] assms(2,3)
  by (auto simp: disk_inv_def vbyte_def [of r] Let_def)

section \<open>Storing into a block\<close>

lemma slot_of_eq_iff: "slot_of r v = slot_of r w \<longleftrightarrow> v div block_bytes r = w div block_bytes r"
  using bat_slot_inj by (auto simp: slot_of_def)

text \<open>Membership in a piece, by slot and offset in the block.\<close>

lemma in_piece_iff:
  assumes "w mod block_bytes r + n \<le> block_bytes r" "0 < block_bytes r"
  shows "slot_of r v = slot_of r w \<and> w mod block_bytes r \<le> v mod block_bytes r \<and>
      v mod block_bytes r < w mod block_bytes r + n \<longleftrightarrow> w \<le> v \<and> v < w + n"
    and "w \<le> v \<and> v < w + n \<Longrightarrow> v mod block_bytes r - w mod block_bytes r = v - w"
proof -
  let ?b = "block_bytes r"
  have v: "v = v div ?b * ?b + v mod ?b" and w: "w = w div ?b * ?b + w mod ?b" by simp_all
  have fwd: "v div ?b = w div ?b \<and> v mod ?b = w mod ?b + (v - w)" if "w \<le> v" "v < w + n"
  proof -
    have "v - w < ?b - w mod ?b" using that assms(1) by linarith
    from within_block [OF assms(2) this] that(1) show ?thesis by simp
  qed
  show "slot_of r v = slot_of r w \<and> w mod ?b \<le> v mod ?b \<and> v mod ?b < w mod ?b + n \<longleftrightarrow> w \<le> v \<and> v < w + n"
  proof
    assume a: "slot_of r v = slot_of r w \<and> w mod ?b \<le> v mod ?b \<and> v mod ?b < w mod ?b + n"
    then have "v div ?b * ?b = w div ?b * ?b" by (simp add: slot_of_eq_iff)
    with a v w show "w \<le> v \<and> v < w + n" by linarith
  next
    assume "w \<le> v \<and> v < w + n"
    then show "slot_of r v = slot_of r w \<and> w mod ?b \<le> v mod ?b \<and> v mod ?b < w mod ?b + n"
      using fwd by (auto simp: slot_of_eq_iff)
  qed
  show "w \<le> v \<and> v < w + n \<Longrightarrow> v mod ?b - w mod ?b = v - w" using fwd by simp
qed

text \<open>A store into a present block changes the bytes of the virtual disk it names.\<close>

definition vpatch :: "(nat \<Rightarrow> u8) \<Rightarrow> nat \<Rightarrow> bytes \<Rightarrow> nat \<Rightarrow> u8" where
  "vpatch f w bs v = (if w \<le> v \<and> v < w + length bs then bs ! (v - w) else f v)"

lemma store_vbyte_layout:
  assumes "0 < block_bytes r" "layout_ok c r" "present r (slot_of r w)" "w mod block_bytes r + length bs \<le> block_bytes r"
    and "v < unat (rd_virtual_size r)"
  shows "vbyte r (overwrite (block_start r (slot_of r w) + w mod block_bytes r) bs c) v =
    vpatch (vbyte r c) w bs v"
proof -
  let ?b = "block_bytes r" and ?s = "block_start r (slot_of r w)" and ?t = "block_start r (slot_of r v)"
  let ?c' = "overwrite (?s + w mod ?b) bs c"
  note lay = assms(2)
  note pos = assms(1)
  then have m: "v mod ?b < ?b" by simp
  have fit: "?s + ?b \<le> length c" using lay assms(3) unfolding layout_ok_def by blast
  show ?thesis
  proof (cases "be_state (rd_bat r ! slot_of r v) = FullyPresent")
    case False
    then have "slot_of r v \<noteq> slot_of r w" using assms(3) by (auto simp: present_def)
    then show ?thesis
      using False in_piece_iff(1) [OF assms(4) pos, of v] by (auto simp: vbyte_def vpatch_def Let_def)
  next
    case True
    then have pv: "present r (slot_of r v)"
      using assms(5) by (auto simp: present_def payload_slot_def)
    then have fitv: "?t + ?b \<le> length c" using lay unfolding layout_ok_def by blast
    have nth: "?c' ! (?t + v mod ?b) =
        (if ?s + w mod ?b \<le> ?t + v mod ?b \<and> ?t + v mod ?b < ?s + w mod ?b + length bs
         then bs ! (?t + v mod ?b - (?s + w mod ?b)) else c ! (?t + v mod ?b))"
      using fit fitv m assms(4) by (intro nth_overwrite) linarith+
    show ?thesis
    proof (cases "slot_of r v = slot_of r w")
      case same: True
      then show ?thesis
        using nth True in_piece_iff [OF assms(4) pos, of v]
        by (auto simp: vbyte_def vpatch_def Let_def)
    next
      case False
      then have "apart_spans ?t ?b ?s ?b"
        using lay pv assms(3) unfolding layout_ok_def by blast
      then have "\<not> (?s + w mod ?b \<le> ?t + v mod ?b \<and> ?t + v mod ?b < ?s + w mod ?b + length bs)"
        using m assms(4) unfolding apart_spans_def by linarith
      then show ?thesis
        using nth True False in_piece_iff(1) [OF assms(4) pos, of v]
        by (auto simp: vbyte_def vpatch_def Let_def)
    qed
  qed
qed

lemma reader_ok_block_pos: "reader_ok c r \<Longrightarrow> 0 < block_bytes r"
  using block_size_ok_pos by (fastforce simp: reader_ok_def geometry_ok_def)

lemma store_vbyte:
  assumes "reader_ok c r" "layout_ok c r" "present r (slot_of r w)" "w mod block_bytes r + length bs \<le> block_bytes r"
    and "v < unat (rd_virtual_size r)"
  shows "vbyte r (overwrite (block_start r (slot_of r w) + w mod block_bytes r) bs c) v =
    vpatch (vbyte r c) w bs v"
  by (rule store_vbyte_layout [OF reader_ok_block_pos [OF assms(1)] assms(2-5)])

lemma disk_inv_dev [simp]: "disk_inv c (r\<lparr> rd_dev := d \<rparr>) \<longleftrightarrow> disk_inv c r"
  by (simp add: disk_inv_def reader_ok_def layout_ok_def missing_blocks_def geometry_ok_def
      slot_of_def bat_synced_def present_def payload_slot_def)

lemma vbyte_dev [simp]: "vbyte (r\<lparr> rd_dev := d \<rparr>) c v = vbyte r c v"
  by (simp add: vbyte_def slot_of_def Let_def)

lemma store_ok:
  assumes "reader_ok c r" "layout_ok c r" "present r i" "k + length bs \<le> block_bytes r"
  defines "c' \<equiv> overwrite (block_start r i + k) bs c"
  shows "reader_ok c' r" "layout_ok c' r" "length c' = length c"
proof -
  have p: "block_start r i + block_bytes r \<le> length c"
    "apart_spans (block_start r i) (block_bytes r) (unat (rd_bat_region_off r)) (8 * length (rd_bat r))"
    using assms(2,3) unfolding layout_ok_def by blast+
  show len: "length c' = length c" using p(1) assms(4) by (simp add: c'_def)
  have "disk_bat_entry c' (unat (rd_bat_region_off r)) j = disk_bat_entry c (unat (rd_bat_region_off r)) j"
    if "j < length (rd_bat r)" for j
  proof -
    have "subslice (unat (rd_bat_region_off r) + 8 * j) (unat (rd_bat_region_off r) + 8 * j + 8) c' =
        subslice (unat (rd_bat_region_off r) + 8 * j) (unat (rd_bat_region_off r) + 8 * j + 8) c"
      using p assms(4) that unfolding c'_def by (intro subslice_overwrite_disjoint) (auto simp: apart_spans_def)
    then show ?thesis by (simp add: disk_bat_entry_def)
  qed
  then show "reader_ok c' r" "layout_ok c' r"
    using assms(1,2) len by (simp_all add: reader_ok_def bat_synced_def layout_ok_def)
qed

lemma store_disk_inv:
  assumes "disk_inv c r" "present r i" "k + length bs \<le> block_bytes r"
  shows "disk_inv (overwrite (block_start r i + k) bs c) r"
  using store_ok [OF _ _ assms(2,3)] assms(1) by (simp add: disk_inv_def)

section \<open>Writing\<close>

text \<open>The bytes a write accepts: those of a block that is present or that it may allocate.\<close>

definition accepts :: "'d vhdx_reader \<Rightarrow> nat \<Rightarrow> bool" where
  "accepts r v \<longleftrightarrow>
     (let st = be_state (rd_bat r ! slot_of r v) in st = FullyPresent \<or> zero_fill st)"

text \<open>What no write changes about a reader.\<close>

definition same_geometry :: "'d vhdx_reader \<Rightarrow> 'd vhdx_reader \<Rightarrow> bool" where
  "same_geometry r r' \<longleftrightarrow>
     rd_virtual_size r' = rd_virtual_size r \<and> rd_block_size r' = rd_block_size r \<and>
     rd_chunk_ratio r' = rd_chunk_ratio r \<and> length (rd_bat r') = length (rd_bat r) \<and>
     rd_writable r' = rd_writable r \<and> (\<forall>v. accepts r v \<longrightarrow> accepts r' v)"

lemma same_geometry_refl [simp]: "same_geometry r r"
  by (simp add: same_geometry_def)

lemma same_geometry_trans: "same_geometry r s \<Longrightarrow> same_geometry s t \<Longrightarrow> same_geometry r t"
  by (simp add: same_geometry_def)

lemma same_geometry_dev [simp]: "same_geometry r (s\<lparr> rd_dev := d \<rparr>) \<longleftrightarrow> same_geometry r s"
  by (simp add: same_geometry_def accepts_def slot_of_def)

lemma piece_same: "same_geometry r r' \<Longrightarrow> piece r' off n c w \<longleftrightarrow> piece r off n c w"
  by (simp add: same_geometry_def piece_def slot_of_def)

lemma allocated_same_geometry:
  assumes "allocated i off c r c' r'"
  shows "same_geometry r r'"
proof -
  have "i < length (rd_bat r)" using assms by (simp add: allocated_def)
  then have "accepts r v \<longrightarrow> accepts r' v" for v
    by (simp add: accepts_def allocated_fields [OF assms] nth_list_update Let_def)
  then show ?thesis by (simp add: same_geometry_def allocated_fields [OF assms])
qed

text \<open>A piece at the byte \<open>w\<close> of the disk, as \<open>block_chunks\<close> cuts it.\<close>

definition job_at :: "'d vhdx_reader \<Rightarrow> nat \<Rightarrow> block_chunk \<times> bytes \<Rightarrow> bool" where
  "job_at r w job \<longleftrightarrow>
     w < unat (rd_virtual_size r) \<and> w + length (snd job) \<le> unat (rd_virtual_size r) \<and>
     bc_bat_idx (fst job) = slot_of r w \<and> unat (bc_in_block (fst job)) = w mod block_bytes r \<and>
     w mod block_bytes r + length (snd job) \<le> block_bytes r"

lemma piece_job:
  assumes "piece r off (length buf) ch w" "off + length buf \<le> unat (rd_virtual_size r)"
  shows "job_at r w (ch, subslice (bc_buf_pos ch) (bc_buf_pos ch + bc_chunk_len ch) buf)"
  using assms by (auto simp: piece_def job_at_def)

lemma place_fits:
  assumes "unat off + block_bytes r \<le> unat (rd_dev_size r)" "job_at r w (ch, src)"
  shows "host_offset r off (bc_in_block ch) (length src) = Ok (off + bc_in_block ch)"
    and "unat (off + bc_in_block ch) = unat off + w mod block_bytes r"
proof -
  have j: "unat (bc_in_block ch) = w mod block_bytes r" "w mod block_bytes r + length src \<le> block_bytes r"
    using assms(2) by (simp_all add: job_at_def)
  have n64: "length src < 2 ^ 64" using j(2) unat_lt_u32 [of "rd_block_size r"] by (simp del: unat_lt_u32)
  show "host_offset r off (bc_in_block ch) (length src) = Ok (off + bc_in_block ch)"
    using assms(1) j by (subst host_offset_Ok_iff [OF n64]) auto
  have "0 < block_bytes r \<or> w mod block_bytes r = 0" using j(2) by auto
  then have "unat off + w mod block_bytes r \<le> unat (rd_dev_size r)"
    using assms(1) j(2) by linarith
  then show "unat (off + bc_in_block ch) = unat off + w mod block_bytes r"
    using j(1) unat_lt_u64 [of "rd_dev_size r"] by (subst unat_add_no_overflow) (simp_all del: unat_lt_u64)
qed

text \<open>A piece of a write: its block, the place of its bytes in it, and the write.\<close>

lemma write_chunk_eq:
  assumes "piece r off (length buf) ch w"
  defines "src \<equiv> subslice (bc_buf_pos ch) (bc_buf_pos ch + bc_chunk_len ch) buf"
  shows "write_chunk x ops buf ch r = io_bind (block_for_write x ops (slot_of r w) (rd_bat r ! slot_of r w)) (\<lambda>hb.
    io_bind (\<lambda>r. (host_offset r hb (bc_in_block ch) (length src), r)) (\<lambda>ho. reader_dev_write ops ho src)) r"
proof -
  have "bc_buf_pos ch + bc_chunk_len ch \<le> length buf" "bc_bat_idx ch = slot_of r w" "slot_of r w < length (rd_bat r)"
    using assms(1) unfolding piece_def by blast+
  then show ?thesis
    by (simp add: write_chunk_def io_bind_def io_lift_def bat_entry_at_def src_def del: length_subslice)
qed

context reliable_device
begin

lemma allocate_block_for_room:
  assumes "invar (rd_dev r)" "crc_contract x" "reader_ok (contents (rd_dev r)) r" "layout_ok (contents (rd_dev r)) r"
    and "payload_slot r i" "i < length (rd_bat r)" "length (contents (rd_dev r)) + 2 * block_bytes r < 2 ^ 64"
  obtains off r' where "allocate_block_for x ops i r = (Ok off, r')" "invar (rd_dev r')"
    "allocated i off (contents (rd_dev r)) r (contents (rd_dev r')) r'"
proof (rule allocate_block_for_ok [OF assms(1-4,6,7)], goal_cases)
  case (1 off d' h' s' c1)
  let ?r' = "with_block i off (r\<lparr> rd_dev := d', rd_dev_size := off + ucast (rd_block_size r),
    rd_header := h', rd_active_header_slot := s' \<rparr>)"
  have dev: "rd_dev ?r' = d'" by (simp add: with_block_def)
  have "allocated i off (contents (rd_dev r)) r (contents d') ?r'"
    unfolding allocated_def using 1 assms(5,6) by blast
  then show ?case using that [OF 1(2)] 1(3) by (simp only: dev)
qed

lemma allocate_block_for_allocated:
  assumes "invar (rd_dev r)" "crc_contract x" "disk_inv (contents (rd_dev r)) r"
    and "payload_slot r i" "i < length (rd_bat r)" "be_state (rd_bat r ! i) \<noteq> FullyPresent"
  obtains off r' where "allocate_block_for x ops i r = (Ok off, r')" "invar (rd_dev r')"
    "allocated i off (contents (rd_dev r)) r (contents (rd_dev r')) r'"
  using allocate_block_for_room [OF assms(1,2) _ _ assms(4,5) disk_inv_room [OF assms(3,5,6)]] assms(3) that
  by (auto simp: disk_inv_def)

text \<open>The block a piece is written to, allocated if there was none.\<close>

lemma block_for_write_ok:
  assumes "invar (rd_dev r)" "crc_contract x" "disk_inv (contents (rd_dev r)) r"
    and "w < unat (rd_virtual_size r)"
  shows "(\<exists>r'. block_for_write x ops (slot_of r w) (rd_bat r ! slot_of r w) r =
        (Ok (be_file_offset (rd_bat r' ! slot_of r' w)), r') \<and>
      invar (rd_dev r') \<and> disk_inv (contents (rd_dev r')) r' \<and> same_geometry r r' \<and>
      present r' (slot_of r' w) \<and>
      (\<forall>v < unat (rd_virtual_size r). vbyte r' (contents (rd_dev r')) v = vbyte r (contents (rd_dev r)) v)) \<or>
    \<not> accepts r w \<and> (\<exists>e. block_for_write x ops (slot_of r w) (rd_bat r ! slot_of r w) r = (Err e, r))"
proof -
  let ?i = "slot_of r w" and ?st = "be_state (rd_bat r ! slot_of r w)"
  have ps: "payload_slot r ?i" using assms(4) by (auto simp: payload_slot_def)
  have il: "?i < length (rd_bat r)"
    using assms(3,4) by (simp add: disk_inv_def reader_ok_def geometry_ok_def)
  show ?thesis
  proof (cases "?st = FullyPresent")
    case True
    then show ?thesis
      using assms ps by (intro disjI1 exI [of _ r]) (simp add: block_for_write_def io_return_def present_def)
  next
    case False
    show ?thesis
    proof (cases "zero_fill ?st")
      case True
      obtain off r' where al: "allocate_block_for x ops ?i r = (Ok off, r')" "invar (rd_dev r')"
        "allocated ?i off (contents (rd_dev r)) r (contents (rd_dev r')) r'"
        by (rule allocate_block_for_allocated [OF assms(1-3) ps il False])
      note f = allocated_fields [OF al(3)]
      have "block_for_write x ops ?i (rd_bat r ! ?i) r = (Ok (be_file_offset (rd_bat r' ! slot_of r' w)), r')"
        using True al(1) il by (cases ?st) (simp_all add: block_for_write_def f)
      moreover have "present r' (slot_of r' w)"
        using allocated_present_iff(1) [OF al(3)] by (simp add: f)
      ultimately show ?thesis
        using al allocated_disk_inv [OF al(3) assms(3) False] allocated_same_geometry [OF al(3)]
          allocated_vbyte [OF al(3) assms(3) False] by blast
    next
      case nz: False
      then show ?thesis
        using False by (cases ?st) (simp_all add: block_for_write_def io_lift_def accepts_def)
    qed
  qed
qed

text \<open>The last two steps of a piece: the place of its bytes in a block, and the write.\<close>

lemma place_ok:
  assumes "invar (rd_dev r)" "unat off + block_bytes r \<le> unat (rd_dev_size r)"
    and "unat (rd_dev_size r) = length (contents (rd_dev r))" "job_at r w (ch, src)"
  shows "host_offset r off (bc_in_block ch) (length src) = Ok (off + bc_in_block ch)"
    and "\<exists>d'. reader_dev_write ops (off + bc_in_block ch) src r = (Ok (), r\<lparr> rd_dev := d' \<rparr>) \<and> invar d' \<and>
      contents d' = overwrite (unat off + w mod block_bytes r) src (contents (rd_dev r))"
proof -
  note place = place_fits [OF assms(2,4)]
  show "host_offset r off (bc_in_block ch) (length src) = Ok (off + bc_in_block ch)" by (rule place(1))
  show "\<exists>d'. reader_dev_write ops (off + bc_in_block ch) src r = (Ok (), r\<lparr> rd_dev := d' \<rparr>) \<and> invar d' \<and>
      contents d' = overwrite (unat off + w mod block_bytes r) src (contents (rd_dev r))"
    using reader_write_ok [OF assms(1), of "off + bc_in_block ch" src] place(2) assms(2,3,4)
    by (auto simp: job_at_def)
qed

lemma write_chunk_ok:
  assumes "invar (rd_dev r)" "crc_contract x" "disk_inv (contents (rd_dev r)) r"
    and "piece r off (length buf) ch w" "unat (rd_virtual_size r) \<ge> off + length buf"
  shows "(\<exists>r'. write_chunk x ops buf ch r = (Ok (), r') \<and> invar (rd_dev r') \<and>
      disk_inv (contents (rd_dev r')) r' \<and> same_geometry r r' \<and>
      (\<forall>v < unat (rd_virtual_size r). vbyte r' (contents (rd_dev r')) v =
        vpatch (vbyte r (contents (rd_dev r))) w
          (subslice (bc_buf_pos ch) (bc_buf_pos ch + bc_chunk_len ch) buf) v)) \<or>
    \<not> accepts r w \<and> (\<exists>e. write_chunk x ops buf ch r = (Err e, r))"
proof -
  let ?p = "bc_buf_pos ch" and ?n = "bc_chunk_len ch" and ?i = "slot_of r w"
  let ?src = "subslice ?p (?p + ?n) buf"
  have job: "job_at r w (ch, ?src)" by (rule piece_job [OF assms(4,5)])
  have pc: "w < unat (rd_virtual_size r)" using job by (simp add: job_at_def)
  note start = write_chunk_eq [OF assms(4), of x ops]
  from block_for_write_ok [OF assms(1-3) pc] show ?thesis
  proof (elim disjE exE conjE)
    fix e
    assume "\<not> accepts r w" "block_for_write x ops ?i (rd_bat r ! ?i) r = (Err e, r)"
    then show ?thesis by (simp add: start io_bind_def)
  next
    fix r1 :: "'d vhdx_reader"
    let ?off = "be_file_offset (rd_bat r1 ! slot_of r1 w)"
    assume b: "block_for_write x ops ?i (rd_bat r ! ?i) r = (Ok ?off, r1)" "invar (rd_dev r1)"
      and inv1: "disk_inv (contents (rd_dev r1)) r1" and geo: "same_geometry r r1"
      and pres: "present r1 (slot_of r1 w)"
      and same: "\<forall>v < unat (rd_virtual_size r). vbyte r1 (contents (rd_dev r1)) v = vbyte r (contents (rd_dev r)) v"
    have ok1: "reader_ok (contents (rd_dev r1)) r1" "layout_ok (contents (rd_dev r1)) r1"
      using inv1 by (simp_all add: disk_inv_def)
    have job1: "job_at r1 w (ch, ?src)" using job geo by (simp add: job_at_def same_geometry_def slot_of_def)
    then have fits: "w mod block_bytes r1 + length ?src \<le> block_bytes r1" by (simp add: job_at_def)
    have sz: "unat (rd_dev_size r1) = length (contents (rd_dev r1))"
      and fit: "unat ?off + block_bytes r1 \<le> unat (rd_dev_size r1)"
      using ok1 pres unfolding layout_ok_def reader_ok_def by auto
    note place = place_ok [OF b(2) fit sz job1]
    obtain d2 where d2: "reader_dev_write ops (?off + bc_in_block ch) ?src r1 = (Ok (), r1\<lparr> rd_dev := d2 \<rparr>)"
      "invar d2" "contents d2 = overwrite (unat ?off + w mod block_bytes r1) ?src (contents (rd_dev r1))"
      using place(2) by blast
    have "write_chunk x ops buf ch r = (Ok (), r1\<lparr> rd_dev := d2 \<rparr>)"
      using b(1) place(1) d2(1) by (simp add: start io_bind_def del: length_subslice)
    moreover have "disk_inv (contents d2) r1" unfolding d2(3) by (rule store_disk_inv [OF inv1 pres fits])
    moreover have "vbyte r1 (contents d2) v = vpatch (vbyte r (contents (rd_dev r))) w ?src v"
      if "v < unat (rd_virtual_size r)" for v
      using store_vbyte [OF ok1 pres fits, of v] same that geo
      by (simp add: d2(3) vpatch_def same_geometry_def del: length_subslice)
    ultimately show ?thesis using d2(2) geo by (intro disjI1 exI [of _ "r1\<lparr> rd_dev := d2 \<rparr>"]) simp
  qed
qed

end

section \<open>A transfer from its pieces\<close>

text \<open>
  What a write leaves, whatever its outcome: the invariant, the bytes outside its range, and what
  could be read or written before; on success the bytes it was given; success, when every byte of
  the range is one it takes.
\<close>

definition wrote ::
  "('d vhdx_reader \<Rightarrow> bool) \<Rightarrow> ('d vhdx_reader \<Rightarrow> nat \<Rightarrow> u8) \<Rightarrow>
   ('d vhdx_reader \<Rightarrow> nat \<Rightarrow> bool) \<Rightarrow> ('d vhdx_reader \<Rightarrow> nat \<Rightarrow> bool) \<Rightarrow>
   nat \<Rightarrow> bytes \<Rightarrow> 'd vhdx_reader \<Rightarrow> (unit, error) res \<Rightarrow> 'd vhdx_reader \<Rightarrow> bool" where
  "wrote Inv byte gives takes lo bs r res r' \<longleftrightarrow>
     res \<noteq> Panic \<and> Inv r' \<and> same_geometry r r' \<and>
     (\<forall>v. gives r v \<longrightarrow> gives r' v) \<and> (\<forall>v. takes r v \<longrightarrow> takes r' v) \<and>
     (\<forall>v < unat (rd_virtual_size r).
        byte r' v = (if res = Ok () then vpatch (byte r) lo bs v
          else if lo \<le> v \<and> v < lo + length bs then byte r' v else byte r v)) \<and>
     ((\<forall>v. lo \<le> v \<longrightarrow> v < lo + length bs \<longrightarrow> takes r v) \<longrightarrow> res = Ok ())"

lemma vpatch_Nil [simp]: "vpatch f lo [] v = f v"
  by (auto simp: vpatch_def)

lemma vpatch_append:
  "vpatch (vpatch f lo as) (lo + length as) bs v = vpatch f lo (as @ bs) v"
  by (auto simp: vpatch_def nth_append)

lemma wrote_append:
  assumes "wrote Inv byte gives takes lo as r (Ok ()) r1" "wrote Inv byte gives takes (lo + length as) bs r1 res r'"
  shows "wrote Inv byte gives takes lo (as @ bs) r res r'"
proof -
  have sz: "rd_virtual_size r1 = rd_virtual_size r"
    using assms(1) by (simp add: wrote_def same_geometry_def)
  have "byte r' v = (if res = Ok () then vpatch (byte r) lo (as @ bs) v
      else if lo \<le> v \<and> v < lo + length (as @ bs) then byte r' v else byte r v)"
    if v: "v < unat (rd_virtual_size r)" for v
  proof (cases "res = Ok ()")
    case True
    have "byte r' v = vpatch (byte r1) (lo + length as) bs v"
      using assms(2) v True by (simp add: wrote_def sz)
    also have "\<dots> = vpatch (vpatch (byte r) lo as) (lo + length as) bs v"
      using assms(1) v by (simp add: vpatch_def wrote_def)
    finally show ?thesis using True by (simp add: vpatch_append)
  next
    case False
    have "byte r1 v = vpatch (byte r) lo as v" using assms(1) v by (simp add: wrote_def)
    moreover have "\<not> (lo + length as \<le> v \<and> v < lo + length as + length bs) \<Longrightarrow> byte r' v = byte r1 v"
      using assms(2) v False by (simp add: wrote_def sz) metis
    ultimately show ?thesis using False by (auto simp: vpatch_def)
  qed
  then show ?thesis
    using assms same_geometry_trans unfolding wrote_def by fastforce
qed

lemma wrote_stopped:
  assumes "wrote Inv byte gives takes lo as r res r'" "res \<noteq> Ok ()"
  shows "wrote Inv byte gives takes lo (as @ bs) r res r'"
  using assms by (auto simp: wrote_def)

text \<open>
  What the pieces of a write have to do for the whole of it to be right. Over a device that obliges
  they may allocate; a device that does not grow lets them store into the blocks there are.
\<close>

locale piece_writer =
  fixes x :: ext and ops :: "('d, 'z) dev_ops_scheme"
    and Inv :: "'d vhdx_reader \<Rightarrow> bool" and byte :: "'d vhdx_reader \<Rightarrow> nat \<Rightarrow> u8"
    and gives takes :: "'d vhdx_reader \<Rightarrow> nat \<Rightarrow> bool"
  assumes geometry: "Inv r \<Longrightarrow> geometry_ok r"
    and piece_done: "Inv r \<Longrightarrow> piece r off (length buf) ch w \<Longrightarrow>
      off + length buf \<le> unat (rd_virtual_size r) \<Longrightarrow> 0 < bc_chunk_len ch \<Longrightarrow>
      write_chunk x ops buf ch r = (res, r') \<Longrightarrow>
      wrote Inv byte gives takes w (subslice (bc_buf_pos ch) (bc_buf_pos ch + bc_chunk_len ch) buf) r res r'"
    and flush_done: "Inv r \<Longrightarrow> reader_dev_flush ops r = (res, r') \<Longrightarrow> wrote Inv byte gives takes lo [] r res r'"
begin

lemma wrote_nothing: "Inv r \<Longrightarrow> wrote Inv byte gives takes lo [] r (Ok ()) r"
  by (simp add: wrote_def)

lemma pieces_done:
  assumes "Inv r" "off + length buf \<le> unat (rd_virtual_size r)"
    and "tiles (block_bytes r) (unat (rd_chunk_ratio r)) (off + length buf) w (w - off) cs"
    and "\<forall>c \<in> set cs. \<exists>w. piece r off (length buf) c w" "off \<le> w"
    and "io_foreach (write_chunk x ops buf) cs r = (res, r')"
  shows "wrote Inv byte gives takes w (drop (w - off) buf) r res r'"
  using assms
proof (induction cs arbitrary: r w)
  case Nil
  then have "drop (w - off) buf = []" "res = Ok ()" "r' = r" by (auto simp: io_return_def)
  then show ?case using wrote_nothing [OF Nil.prems(1)] by simp
next
  case (Cons ch cs)
  let ?n = "bc_chunk_len ch" and ?e = "off + length buf" and ?p = "bc_buf_pos ch"
  have t: "w < ?e" "bc_buf_pos ch = w - off"
    "tiles (block_bytes r) (unat (rd_chunk_ratio r)) ?e (w + ?n) (w - off + ?n) cs"
    using Cons.prems(3) by auto
  obtain w' where pc': "piece r off (length buf) ch w'" using Cons.prems(4) by auto
  then have "w' = w"
    using t(1,2) Cons.prems(5) by (auto simp: piece_def)
  with pc' have pc: "piece r off (length buf) ch w" by simp
  let ?src = "subslice ?p (?p + ?n) buf"
  have "?p + ?n \<le> length buf" using pc unfolding piece_def by blast
  then have n: "length ?src = ?n" by simp
  have "0 < block_bytes r"
    using geometry [OF Cons.prems(1)] block_size_ok_pos by (fastforce simp: geometry_ok_def)
  then have pos: "0 < ?n" using Cons.prems(3) by simp
  have e: "w + ?n - off = ?p + ?n" using Cons.prems(5) t(2) by simp
  have cut: "drop (w - off) buf = ?src @ drop (w + ?n - off) buf"
    unfolding e t(2) [symmetric] subslice_def
    by (metis add.commute add_diff_cancel_left' append_take_drop_id drop_drop)
  obtain res1 r1 where w1: "write_chunk x ops buf ch r = (res1, r1)" by (metis surj_pair)
  note one = piece_done [OF Cons.prems(1) pc Cons.prems(2) pos w1]
  show ?case
  proof (cases "res1 = Ok ()")
    case False
    then have "res = res1" "r' = r1"
      using Cons.prems(6) w1 by (cases res1; auto simp: io_bind_def)+
    then show ?thesis using wrote_stopped [OF one False] by (simp add: cut)
  next
    case True
    have geo: "same_geometry r r1" and i1: "Inv r1" using one by (simp_all add: wrote_def)
    have rest: "io_foreach (write_chunk x ops buf) cs r1 = (res, r')"
      using Cons.prems(6) w1 True by (simp add: io_bind_def)
    have "wrote Inv byte gives takes (w + ?n) (drop (w + ?n - off) buf) r1 res r'"
    proof (rule Cons.IH [OF i1 _ _ _ _ rest])
      show "tiles (block_bytes r1) (unat (rd_chunk_ratio r1)) ?e (w + ?n) (w + ?n - off) cs"
        using t(3) Cons.prems(5) geo by (simp add: same_geometry_def)
    qed (use Cons.prems geo piece_same [OF geo] in \<open>auto simp: same_geometry_def\<close>)
    then show ?thesis
      using wrote_append [OF one [unfolded True]] unfolding n cut by simp
  qed
qed

lemma write_done:
  assumes "Inv r" "length buf < 2 ^ 64" "write_at x ops off buf r = (res, r')"
  shows "if rd_writable r \<and> (buf \<noteq> [] \<longrightarrow> unat off + length buf \<le> unat (rd_virtual_size r))
    then wrote Inv byte gives takes (unat off) buf r res r' else r' = r \<and> (\<exists>e. res = Err e)"
proof (cases "rd_writable r")
  case False
  then show ?thesis using assms by (auto simp: write_at_def)
next
  case True
  show ?thesis
  proof (cases rule: transfer_end_cases [OF assms(2), of r off, case_names empty refused transfer])
    case empty
    then show ?thesis
      using True assms wrote_nothing by (auto simp: write_at_def io_lift_def io_return_def io_bind_def)
  next
    case (refused e)
    then show ?thesis
      using True assms by (auto simp: write_at_def io_lift_def io_bind_def transfer_end_def)
  next
    case transfer
    obtain cs where cs: "block_chunks r off (off + word_of_nat (length buf)) = Ok cs"
      "tiles (block_bytes r) (unat (rd_chunk_ratio r)) (unat off + length buf) (unat off) 0 cs"
      "\<forall>c \<in> set cs. \<exists>w. piece r (unat off) (length buf) c w"
      using block_chunks_pieces [OF geometry [OF assms(1)] transfer(3)] by blast
    obtain res1 r1 where w: "io_foreach (write_chunk x ops buf) cs r = (res1, r1)" by (metis surj_pair)
    have all: "wrote Inv byte gives takes (unat off) buf r res1 r1"
      using pieces_done [OF assms(1) transfer(3) _ cs(3) order_refl w] cs(2) by simp
    have run: "(case res1 of Ok _ \<Rightarrow> reader_dev_flush ops r1 | Err e \<Rightarrow> (Err e, r1) | Panic \<Rightarrow> (Panic, r1)) = (res, r')"
      using assms(3) True transfer(2) cs(1) w
      by (simp add: write_at_def io_bind_def io_lift_def split: res.splits)
    have "wrote Inv byte gives takes (unat off) buf r res r'"
    proof (cases "res1 = Ok ()")
      case ok: True
      then have "Inv r1" "reader_dev_flush ops r1 = (res, r')" using all run by (simp_all add: wrote_def)
      from wrote_append [OF all [unfolded ok] flush_done [OF this]] show ?thesis by simp
    next
      case False
      then show ?thesis using all run by (cases res1) auto
    qed
    then show ?thesis using True transfer by simp
  qed
qed

end

context reliable_device
begin

lemma piece_writer_over:
  assumes "crc_contract x"
  shows "piece_writer x ops (\<lambda>r. invar (rd_dev r) \<and> disk_inv (contents (rd_dev r)) r)
    (\<lambda>r. vbyte r (contents (rd_dev r))) accepts accepts"
proof (unfold_locales, goal_cases)
  case (1 r)
  then show ?case by (simp add: disk_inv_def reader_ok_def)
next
  case (2 r off buf ch w res r')
  have n: "length (subslice (bc_buf_pos ch) (bc_buf_pos ch + bc_chunk_len ch) buf) = bc_chunk_len ch"
  proof -
    have "bc_buf_pos ch + bc_chunk_len ch \<le> length buf" using 2(2) unfolding piece_def by blast
    then show ?thesis by simp
  qed
  have inv: "invar (rd_dev r)" "disk_inv (contents (rd_dev r)) r" using 2(1) by simp_all
  from write_chunk_ok [OF inv(1) assms inv(2) 2(2,3)] show ?case
  proof (elim disjE exE conjE)
    fix e assume "\<not> accepts r w" "write_chunk x ops buf ch r = (Err e, r)"
    then show ?thesis using 2(4,5) inv by (auto simp: wrote_def n simp del: length_subslice)
  qed (use 2(5) in \<open>auto simp: wrote_def same_geometry_def\<close>)
next
  case (3 r res r' lo)
  then obtain d' where d': "reader_dev_flush ops r = (Ok (), r\<lparr> rd_dev := d' \<rparr>)" "invar d'"
    "contents d' = contents (rd_dev r)" using reader_flush_ok [of r] by blast
  then show ?case using 3 by (auto simp: wrote_def vpatch_def accepts_def slot_of_def)
qed

text \<open>
  A write: whatever its outcome the invariant holds and nothing outside its range changes; if it
  succeeds, exactly its bytes change.
\<close>

lemma write_at_ok:
  assumes "invar (rd_dev r)" "crc_contract x" "disk_inv (contents (rd_dev r)) r" "length buf < 2 ^ 64"
  shows "\<exists>res r'. write_at x ops off buf r = (res, r') \<and> res \<noteq> Panic \<and> invar (rd_dev r') \<and>
    disk_inv (contents (rd_dev r')) r' \<and> same_geometry r r' \<and>
    (\<forall>v < unat (rd_virtual_size r). v < unat off \<or> unat off + length buf \<le> v \<longrightarrow>
      vdisk r' (contents (rd_dev r')) ! v = vdisk r (contents (rd_dev r)) ! v) \<and>
    (res = Ok () \<longrightarrow> rd_writable r \<and>
      (buf \<noteq> [] \<longrightarrow> unat off + length buf \<le> unat (rd_virtual_size r)) \<and>
      vdisk r' (contents (rd_dev r')) = overwrite (unat off) buf (vdisk r (contents (rd_dev r)))) \<and>
    (rd_writable r \<longrightarrow> (buf \<noteq> [] \<longrightarrow> unat off + length buf \<le> unat (rd_virtual_size r)) \<longrightarrow>
      (\<forall>v. unat off \<le> v \<longrightarrow> v < unat off + length buf \<longrightarrow> accepts r v) \<longrightarrow> res = Ok ())"
proof -
  obtain res r' where w: "write_at x ops off buf r = (res, r')" by (metis surj_pair)
  note out = piece_writer.write_done [OF piece_writer_over [OF assms(2)] _ assms(4) w]
  show ?thesis
  proof (cases "rd_writable r \<and> (buf \<noteq> [] \<longrightarrow> unat off + length buf \<le> unat (rd_virtual_size r))")
    case False
    then show ?thesis using out w assms by auto
  next
    case True
    then have wr: "wrote (\<lambda>r. invar (rd_dev r) \<and> disk_inv (contents (rd_dev r)) r)
        (\<lambda>r. vbyte r (contents (rd_dev r))) accepts accepts (unat off) buf r res r'"
      using out assms by simp
    have sz: "rd_virtual_size r' = rd_virtual_size r" using wr by (simp add: wrote_def same_geometry_def)
    have kept: "res \<noteq> Panic" "invar (rd_dev r')" "disk_inv (contents (rd_dev r')) r'" "same_geometry r r'"
      "(\<forall>v. unat off \<le> v \<longrightarrow> v < unat off + length buf \<longrightarrow> accepts r v) \<longrightarrow> res = Ok ()"
      using wr by (simp_all add: wrote_def)
    have bytes: "vbyte r' (contents (rd_dev r')) v = (if res = Ok () then vpatch (vbyte r (contents (rd_dev r))) (unat off) buf v
        else if unat off \<le> v \<and> v < unat off + length buf then vbyte r' (contents (rd_dev r')) v
        else vbyte r (contents (rd_dev r)) v)" if "v < unat (rd_virtual_size r)" for v
      using wr that unfolding wrote_def by blast
    have "vdisk r' (contents (rd_dev r')) ! v = vdisk r (contents (rd_dev r)) ! v"
      if "v < unat (rd_virtual_size r)" "v < unat off \<or> unat off + length buf \<le> v" for v
      using bytes [OF that(1)] that by (auto simp: vdisk_def sz vpatch_def split: if_splits)
    moreover have "vdisk r' (contents (rd_dev r')) = overwrite (unat off) buf (vdisk r (contents (rd_dev r)))"
      if "res = Ok ()"
    proof (cases "buf = []")
      case e: True
      then show ?thesis using bytes that by (auto simp: vdisk_def sz overwrite_def)
    next
      case False
      then show ?thesis
        using bytes that True
        by (intro nth_equalityI) (auto simp: vdisk_def sz vpatch_def nth_overwrite)
    qed
    ultimately show ?thesis using w True kept by simp
  qed
qed

end

lemma accepts_readable:
  assumes "disk_inv c r" "v < unat (rd_virtual_size r)" "accepts r v"
  shows "readable r v"
proof (cases "be_state (rd_bat r ! slot_of r v) = FullyPresent")
  case True
  then have "present r (slot_of r v)" using assms(2) by (auto simp: present_def payload_slot_def)
  then show ?thesis
    using True assms(1) by (simp add: disk_inv_def layout_ok_def reader_ok_def readable_def Let_def)
qed (use assms(3) in \<open>simp add: accepts_def readable_def Let_def\<close>)

context reliable_device
begin

lemma read_at_vdisk:
  assumes "invar (rd_dev r)" "disk_inv (contents (rd_dev r)) r"
    and "unat off + length buf \<le> unat (rd_virtual_size r)"
    and "\<forall>v. unat off \<le> v \<longrightarrow> v < unat off + length buf \<longrightarrow> accepts r v"
  shows "read_at ops r off buf =
    Ok (subslice (unat off) (unat off + length buf) (vdisk r (contents (rd_dev r))))"
proof -
  have ok: "geometry_ok r" "unat (rd_dev_size r) = length (contents (rd_dev r))"
    using assms(2) by (auto simp: disk_inv_def reader_ok_def)
  have l: "length buf < 2 ^ 64" using assms(3) unat_lt_u64 [of "rd_virtual_size r"] by (simp del: unat_lt_u64)
  have "\<forall>v. unat off \<le> v \<longrightarrow> v < unat off + length buf \<longrightarrow> readable r v"
    using accepts_readable [OF assms(2)] assms(3,4) by auto
  then obtain bs where bs: "read_at ops r off buf = Ok bs"
    using read_at_total [OF assms(1) _ ok(1) l, of off] ok(2) assms(3) by auto
  have "bs = subslice (unat off) (unat off + length buf) (vdisk r (contents (rd_dev r)))"
    using read_at_Ok [OF assms(1) ok(1) l bs] assms(3) by (intro nth_equalityI) (auto simp: nth_subslice)
  then show ?thesis using bs by simp
qed

text \<open>What was written is what a later read of the same range returns.\<close>

lemma write_then_read:
  assumes "invar (rd_dev r)" "crc_contract x" "disk_inv (contents (rd_dev r)) r" "rd_writable r"
    and "unat off + length buf \<le> unat (rd_virtual_size r)"
    and "\<forall>v. unat off \<le> v \<longrightarrow> v < unat off + length buf \<longrightarrow> accepts r v" "length b = length buf"
  shows "\<exists>r'. write_at x ops off buf r = (Ok (), r') \<and> read_at ops r' off b = Ok buf"
proof -
  have l: "length buf < 2 ^ 64" using assms(5) unat_lt_u64 [of "rd_virtual_size r"] by (simp del: unat_lt_u64)
  obtain r' where w: "write_at x ops off buf r = (Ok (), r')" "invar (rd_dev r')"
    "disk_inv (contents (rd_dev r')) r'" "same_geometry r r'"
    "vdisk r' (contents (rd_dev r')) = overwrite (unat off) buf (vdisk r (contents (rd_dev r)))"
    using write_at_ok [OF assms(1-3) l, of off] assms(4-6) by blast
  have "read_at ops r' off b = Ok (subslice (unat off) (unat off + length b) (vdisk r' (contents (rd_dev r'))))"
    using w(4) assms(5-7) by (intro read_at_vdisk [OF w(2,3)]) (auto simp: same_geometry_def)
  then show ?thesis using w(1,5) assms(5,7) by (simp add: slice_simps)
qed

end

text \<open>
  An entry that runs over the end of its sector makes the write panic: the splice does not fit the
  sector that was read. The invariant excludes it, the open does not.
\<close>

lemma straddling_entry_panics:
  assumes "4088 < unat (rd_bat_region_off r + word_of_nat i * 8) mod 4096"
    and "\<forall>off. \<exists>bs. reader_dev_read ops r off 4096 = Ok bs \<and> length bs = 4096"
  shows "publish_bat_entry x ops i off r = (Panic, r)"
proof -
  let ?e = "rd_bat_region_off r + word_of_nat i * 8 :: u64"
  have m: "(0xFFF :: u64) = mask 12" by (simp add: mask_eq_exp_minus_1)
  have "unat (?e AND NOT 0xFFF) = unat ?e div 4096 * 4096" unfolding m unat_and_not_mask by simp
  then have "unat (?e - (?e AND NOT 0xFFF)) = unat ?e mod 4096"
    by (subst unat_sub) (simp_all add: word_le_nat_alt minus_div_mult_eq_mod)
  moreover obtain bs where "reader_dev_read ops r (?e AND NOT 0xFFF) 4096 = Ok bs" "length bs = 4096"
    using assms(2) by blast
  ultimately show ?thesis
    using assms(1) by (simp add: publish_bat_entry_def Let_def io_bind_def io_lift_def copy_into_def)
qed

end
