(* ===== verification/Img.thy ===== *)
theory Img
  imports Overlay Reader_Write
begin

text \<open>
  \<open>src/cli/vhdx/img.rs\<close>: what the verbs of the command-line tool do with an open image. The
  arguments \<open>clap\<close> parsed, the devices \<open>FileDevice\<close> opens, standard output, the output file
  and standard input are arguments; a \<open>CliError\<close> is the constructor called with its message;
  the path is the text it displays as. The JSON report is the record of the values it is built
  from.
\<close>

section \<open>Errors and ranges\<close>

datatype cli_error = CliFailed string | CliNotImplemented string | CliUsage string

abbreviation CHUNK :: nat where "CHUNK \<equiv> 1048576"

definition vhdx_error :: "string \<Rightarrow> error \<Rightarrow> cli_error" where
  "vhdx_error path e =
     (case e of
        Unsupported _ \<Rightarrow> CliNotImplemented (path @ '': '' @ error_to_string e)
      | other \<Rightarrow> CliFailed (path @ '': '' @ error_to_string other))"

definition write_error :: "string \<Rightarrow> error \<Rightarrow> cli_error" where
  "write_error path e =
     (case e of
        Unsupported why \<Rightarrow> CliNotImplemented (''write: '' @ path @ '': '' @ why)
      | other \<Rightarrow> vhdx_error path other)"

definition range_of :: "u64 \<Rightarrow> u64 option \<Rightarrow> u64 option \<Rightarrow> (u64 \<times> u64, cli_error) res" where
  "range_of sz offset len =
     (let offset = (case offset of Some v \<Rightarrow> v | None \<Rightarrow> 0) in
      if sz < offset
      then Err (CliFailed (''--offset '' @ show_nat (unat offset) @ '' is past the end of the ''
        @ show_nat (unat sz) @ ''-byte virtual disk''))
      else
        let len = (case len of Some v \<Rightarrow> v | None \<Rightarrow> sz - offset) in
        if (case checked_add offset len of None \<Rightarrow> True | Some end \<Rightarrow> sz < end)
        then Err (CliFailed (show_nat (unat len) @ '' bytes at '' @ show_nat (unat offset)
          @ '' run past the end of the '' @ show_nat (unat sz) @ ''-byte virtual disk''))
        else Ok (offset, len))"

section \<open>Looking at an image\<close>

text \<open>\<open>open\<close>: the file under an overlay, and the library over it.\<close>

definition img_open ::
  "ext \<Rightarrow> ('b, 'z) read_ops_scheme \<Rightarrow> string \<Rightarrow> ('b, fs_error) res \<Rightarrow>
   ('b overlay vhdx_reader \<times> 'b overlay, cli_error) res" where
  "img_open x bops path file =
     res_bind (res_map_err (\<lambda>e. CliFailed (path @ '': '' @ fs_error_to_string x e)) file) (\<lambda>file.
     case open_on_device x (overlay_ops bops) (overlay_new bops file) of
       (r, overlay) \<Rightarrow> res_bind (res_map_err (vhdx_error path) r) (\<lambda>r. Ok (r, overlay)))"

text \<open>\<open>file_header\<close>: the newest header of the file itself.\<close>

definition better_header ::
  "ext \<Rightarrow> ('b, 'z) read_ops_scheme \<Rightarrow> string \<Rightarrow> 'b \<Rightarrow> u64 \<Rightarrow> header option \<Rightarrow>
   (header option, cli_error) res" where
  "better_header x bops path file offset best =
     (if dev_size_bytes bops file < offset + word_of_nat HEADER_SIZE then Ok best
      else
        res_bind (res_map_err (\<lambda>e. CliFailed (path @ '': '' @ fs_error_to_string x e))
          (dev_read_at bops file offset HEADER_SIZE)) (\<lambda>bytes.
        case header_parse x bytes of
          Ok h \<Rightarrow>
            if (case best of None \<Rightarrow> True | Some b \<Rightarrow> hdr_sequence_number b < hdr_sequence_number h)
            then Ok (Some h) else Ok best
        | Err _ \<Rightarrow> Ok best
        | Panic \<Rightarrow> Panic))"

definition file_header ::
  "ext \<Rightarrow> ('b, 'z) read_ops_scheme \<Rightarrow> string \<Rightarrow> ('b, fs_error) res \<Rightarrow> (header option, cli_error) res" where
  "file_header x bops path file =
     res_bind (res_map_err (\<lambda>e. CliFailed (path @ '': '' @ fs_error_to_string x e)) file) (\<lambda>file.
     res_bind (better_header x bops path file HEADER1_OFFSET None) (\<lambda>best.
     better_header x bops path file HEADER2_OFFSET best))"

record report =
  rep_virtual_size :: u64
  rep_block_size :: u32
  rep_dirty :: bool
  rep_logical_sector_size :: u32
  rep_physical_sector_size :: "u32 option"
  rep_header_sequence :: "u64 option"
  rep_log_size :: "u32 option"

definition envelope ::
  "ext \<Rightarrow> ('b, 'z) read_ops_scheme \<Rightarrow> string \<Rightarrow> ('b, fs_error) res \<Rightarrow>
   'b overlay vhdx_reader \<times> 'b overlay \<Rightarrow> (report, cli_error) res" where
  "envelope x bops path file opened =
     (case opened of (r, overlay) \<Rightarrow>
        res_bind (file_header x bops path file) (\<lambda>h.
        Ok \<lparr> rep_virtual_size = rd_virtual_size r, rep_block_size = rd_block_size r,
             rep_dirty = ov_written overlay, rep_logical_sector_size = rd_sector_size r,
             rep_physical_sector_size = rd_physical_sector_size r,
             rep_header_sequence = map_option hdr_sequence_number h,
             rep_log_size = map_option hdr_log_length h \<rparr>))"

section \<open>Reading the guest's bytes out\<close>

text \<open>What the verb writes to: standard output, or the file \<open>-o\<close> names.\<close>

record 'o sink_ops =
  sink_write_all :: "bytes \<Rightarrow> ('o, unit, io_error) io"
  sink_skip :: "nat \<Rightarrow> ('o, unit, io_error) io"
  sink_set_len :: "u64 \<Rightarrow> ('o, unit, io_error) io"
  sink_flush :: "('o, unit, io_error) io"

text \<open>
  The two copy loops, cut at the step they differ in: what is done with a chunk that was read.
  The step answers whether to go on.
\<close>

function copy_out ::
  "string \<Rightarrow> ('d, 'z) dev_ops_scheme \<Rightarrow> 'd vhdx_reader \<Rightarrow> (bytes \<Rightarrow> ('o, bool, cli_error) io) \<Rightarrow>
   u64 \<Rightarrow> bytes \<Rightarrow> u64 \<Rightarrow> ('o, bool, cli_error) io" where
  "copy_out path ops r emit end buf at =
     (if end \<le> at then io_return True
      else
        let n = min CHUNK (unat (end - at)) in
        io_bind (io_lift (res_map_err (vhdx_error path) (read_at ops r at (take n buf)))) (\<lambda>bytes.
        io_bind (emit bytes) (\<lambda>more.
        if more then copy_out path ops r emit end (bytes @ drop n buf) (at + word_of_nat n)
        else io_return False)))"
  by pat_completeness auto

lemma copy_step:
  fixes "end" at :: u64
  assumes "\<not> end \<le> at"
  defines "n \<equiv> min CHUNK (unat (end - at))"
  shows "0 < n" "unat at + n \<le> unat end" "unat (at + word_of_nat n) = unat at + n"
proof -
  have le: "unat at < unat end" using assms(1) by (simp add: word_less_nat_alt not_le)
  then have d: "unat (end - at) = unat end - unat at"
    by (intro unat_sub) (simp add: word_le_nat_alt)
  show "0 < n" using le by (simp add: n_def d)
  show e: "unat at + n \<le> unat end" using le by (simp add: n_def d)
  have "n < 2 ^ 64" "unat at + n < 2 ^ 64"
    using e unat_lt_u64 [of "end"] by (simp_all del: unat_lt_u64)
  then show "unat (at + word_of_nat n) = unat at + n"
    by (subst unat_add_no_overflow) (simp_all add: unat_of_nat)
qed

termination copy_out
proof (relation "measure (\<lambda>(path, ops, r, emit, end, buf, at). unat end - unat at)", goal_cases)
  case (2 path ops r emit "end" buf at n bytes more)
  then have n: "n = min CHUNK (unat (end - at))" by simp
  have "0 < n" "unat at + n \<le> unat end" "unat (at + word_of_nat n) = unat at + n"
    unfolding n by (rule copy_step [OF 2(1)])+
  then have "unat end - unat (at + word_of_nat n) < unat end - unat at" by linarith
  then show ?case by (simp only: in_measure prod.case)
qed simp

declare copy_out.simps [simp del]

lemma copy_out_step:
  assumes "\<not> end \<le> at"
  shows "copy_out path ops r emit end buf at =
    io_bind (io_lift (res_map_err (vhdx_error path)
      (read_at ops r at (take (min CHUNK (unat (end - at))) buf)))) (\<lambda>bytes.
    io_bind (emit bytes) (\<lambda>more.
    if more then copy_out path ops r emit end (bytes @ drop (min CHUNK (unat (end - at))) buf)
      (at + word_of_nat (min CHUNK (unat (end - at))))
    else io_return False))"
  by (subst copy_out.simps) (simp only: assms if_False Let_def)

definition emit_stdout :: "'o sink_ops \<Rightarrow> bytes \<Rightarrow> ('o, bool, cli_error) io" where
  "emit_stdout out bytes o1 =
     (case sink_write_all out bytes o1 of
        (Ok _, o2) \<Rightarrow> (Ok True, o2)
      | (Err e, o2) \<Rightarrow>
          if io_kind e = BrokenPipe then (Ok False, o2)
          else (Err (CliFailed (''write stdout: '' @ io_message e)), o2)
      | (Panic, o2) \<Rightarrow> (Panic, o2))"

definition read_to_stdout ::
  "string \<Rightarrow> ('d, 'z) dev_ops_scheme \<Rightarrow> 'd vhdx_reader \<Rightarrow> 'o sink_ops \<Rightarrow> u64 \<Rightarrow> u64 \<Rightarrow>
   ('o, unit, cli_error) io" where
  "read_to_stdout path ops r out offset len =
     io_bind (copy_out path ops r (emit_stdout out) (offset + len) (replicate CHUNK 0) offset) (\<lambda>more.
     if \<not> more then io_return ()
     else (\<lambda>o1. case sink_flush out o1 of
        (Ok _, o2) \<Rightarrow> (Ok (), o2)
      | (Err e, o2) \<Rightarrow>
          if io_kind e \<noteq> BrokenPipe
          then (Err (CliFailed (''write stdout: '' @ io_message e)), o2) else (Ok (), o2)
      | (Panic, o2) \<Rightarrow> (Panic, o2)))"

definition emit_sparse :: "string \<Rightarrow> 'o sink_ops \<Rightarrow> bytes \<Rightarrow> ('o, bool, cli_error) io" where
  "emit_sparse partial out bytes =
     io_bind (io_map_err (\<lambda>e. CliFailed (''write '' @ partial @ '': '' @ io_message e))
       (if list_all (\<lambda>b. b = 0) bytes then sink_skip out (length bytes) else sink_write_all out bytes))
     (\<lambda>_. io_return True)"

text \<open>The closure that fills \<open>FILE.partial\<close>, from the file just created.\<close>

definition read_to_file ::
  "string \<Rightarrow> string \<Rightarrow> ('d, 'z) dev_ops_scheme \<Rightarrow> 'd vhdx_reader \<Rightarrow> 'o sink_ops \<Rightarrow> u64 \<Rightarrow> u64 \<Rightarrow>
   ('o, unit, cli_error) io" where
  "read_to_file path partial ops r out offset len =
     io_bind (copy_out path ops r (emit_sparse partial out) (offset + len) (replicate CHUNK 0) offset) (\<lambda>_.
     io_map_err (\<lambda>e. CliFailed (''write '' @ partial @ '': '' @ io_message e))
       (io_bind (sink_set_len out len) (\<lambda>_. sink_flush out)))"

section \<open>Writing the guest\<close>

text \<open>
  Standard input: a regular file, with whether it is the image, its length, its position and
  what each \<open>read\<close> of it returns; or a pipe, with the error its reading meets before the limit
  \<open>take\<close> puts on it, or the bytes it holds.
\<close>

datatype stdin =
    StdinFile bool "(u64, io_error) res" "(u64, io_error) res" "(bytes, io_error) res list"
  | StdinPipe "(bytes, io_error) res"

definition stdin_error :: "io_error \<Rightarrow> cli_error" where
  "stdin_error e = CliFailed (''read stdin: '' @ io_message e)"

text \<open>\<open>data.chunks(CHUNK).enumerate()\<close> and the writes.\<close>

function write_buffered ::
  "ext \<Rightarrow> string \<Rightarrow> ('d, 'z) dev_ops_scheme \<Rightarrow> u64 \<Rightarrow> nat \<Rightarrow> bytes \<Rightarrow> ('d vhdx_reader, unit, cli_error) io" where
  "write_buffered x path ops offset i data =
     (if data = [] then io_return ()
      else
        io_bind (io_map_err (write_error path)
          (write_at x ops (offset + word_of_nat (i * CHUNK)) (take CHUNK data))) (\<lambda>_.
        write_buffered x path ops offset (i + 1) (drop CHUNK data)))"
  by pat_completeness auto

termination write_buffered
  by (relation "measure (\<lambda>(x, path, ops, offset, i, data). length data)") auto

declare write_buffered.simps [simp del]

text \<open>
  The streaming loop over \<open>file.take(limit)\<close>: a read gives at most the room left and at most a
  chunk, and an empty read ends it.
\<close>

primrec write_streamed ::
  "ext \<Rightarrow> string \<Rightarrow> ('d, 'z) dev_ops_scheme \<Rightarrow> u64 \<Rightarrow> nat \<Rightarrow> (bytes, io_error) res list \<Rightarrow>
   ('d vhdx_reader, u64, cli_error) io" where
  "write_streamed x path ops at limit [] = io_return at"
| "write_streamed x path ops at limit (rd # rds) =
     (if limit = 0 then io_return at
      else
        io_bind (io_lift (res_map_err stdin_error rd)) (\<lambda>got.
        let bytes = take (min limit CHUNK) got in
        if bytes = [] then io_return at
        else
          io_bind (io_map_err (write_error path) (write_at x ops at bytes)) (\<lambda>_.
          write_streamed x path ops (at + word_of_nat (length bytes)) (limit - length bytes) rds)))"

definition write_input ::
  "ext \<Rightarrow> string \<Rightarrow> ('d, 'z) dev_ops_scheme \<Rightarrow> stdin \<Rightarrow> u64 \<Rightarrow> ('d vhdx_reader, u64, cli_error) io" where
  "write_input x path ops inp offset r =
     (let sz = rd_virtual_size r; room = sz - offset in
      case inp of
        StdinFile same len pos rds \<Rightarrow>
          if same then (Err (CliFailed (path @ '': stdin is the image being written'')), r)
          else
            io_bind (io_lift (res_map_err stdin_error len)) (\<lambda>len.
            io_bind (io_lift (res_map_err stdin_error pos)) (\<lambda>pos.
            let n = (if pos \<le> len then len - pos else 0) in
            if room < n
            then io_lift (Err (CliFailed (show_nat (unat n) @ '' bytes at '' @ show_nat (unat offset)
              @ '' run past the end of the '' @ show_nat (unat sz) @ ''-byte virtual disk'')))
            else
              io_bind (write_streamed x path ops offset (unat n) rds) (\<lambda>at.
              io_return (at - offset)))) r
      | StdinPipe piped \<Rightarrow>
          io_bind (io_lift (res_map_err stdin_error piped)) (\<lambda>all.
          let data = take (unat (saturating_add room 1)) all in
          if unat room < length data
          then io_lift (Err (CliFailed (''stdin holds more than the '' @ show_nat (unat room)
            @ '' bytes from '' @ show_nat (unat offset) @ '' to the end of the ''
            @ show_nat (unat sz) @ ''-byte virtual disk'')))
          else
            io_bind (write_buffered x path ops offset 0 data) (\<lambda>_.
            io_return (word_of_nat (length data)))) r)"

text \<open>The verb from an image opened for writing; it answers the bytes written.\<close>

definition write_guest ::
  "ext \<Rightarrow> string \<Rightarrow> ('d, 'z) dev_ops_scheme \<Rightarrow> stdin \<Rightarrow> u64 \<Rightarrow> ('d vhdx_reader, u64, cli_error) io" where
  "write_guest x path ops inp offset r =
     (if rd_virtual_size r < offset
      then (Err (CliFailed (''--offset '' @ show_nat (unat offset) @ '' is past the end of the ''
        @ show_nat (unat (rd_virtual_size r)) @ ''-byte virtual disk'')), r)
      else
        io_bind (write_input x path ops inp offset) (\<lambda>written.
        io_bind (io_map_err (vhdx_error path) (reader_flush ops)) (\<lambda>_.
        io_return written)) r)"

section \<open>Lemmas: ranges\<close>

lemma range_of_Ok_iff:
  "range_of sz offset len = Ok (a, n) \<longleftrightarrow>
     a = (case offset of Some v \<Rightarrow> v | None \<Rightarrow> 0) \<and> a \<le> sz \<and>
     n = (case len of Some v \<Rightarrow> v | None \<Rightarrow> sz - a) \<and> unat a + unat n \<le> unat sz"
proof -
  have big: "2 ^ 64 \<le> unat b + unat m \<Longrightarrow> unat sz < unat b + unat m" for b m :: u64
    using unat_lt_u64 [of sz] by (simp del: unat_lt_u64)
  show ?thesis
    using big by (auto simp: range_of_def Let_def checked_add_def word_less_nat_alt word_le_nat_alt
        unat_add_no_overflow not_less not_le split: option.splits if_splits)
qed

lemma range_of_not_Panic: "range_of sz offset len \<noteq> Panic"
  by (simp add: range_of_def Let_def)

section \<open>Lemmas: copying out\<close>

text \<open>
  A sink: \<open>logical\<close> is what has been put in it so far, the runs skipped as zeros; \<open>final\<close> is
  what it holds once its length is set.
\<close>

locale sink =
  fixes out :: "'o sink_ops" and sinvar :: "'o \<Rightarrow> bool" and logical :: "'o \<Rightarrow> bytes" and final :: "'o \<Rightarrow> bytes"
  assumes sink_write: "sinvar s \<Longrightarrow> sink_write_all out bs s = (Ok u, s') \<Longrightarrow> sinvar s' \<and> logical s' = logical s @ bs"
    and sink_skip: "sinvar s \<Longrightarrow> sink_skip out n s = (Ok u, s') \<Longrightarrow>
      sinvar s' \<and> logical s' = logical s @ replicate n 0"
    and sink_set_len: "sinvar s \<Longrightarrow> sink_set_len out m s = (Ok u, s') \<Longrightarrow> unat m = length (logical s) \<Longrightarrow>
      sinvar s' \<and> logical s' = logical s \<and> final s' = logical s"
    and sink_flush: "sinvar s \<Longrightarrow> sink_flush out s = (Ok u, s') \<Longrightarrow>
      sinvar s' \<and> logical s' = logical s \<and> final s' = final s"
begin

lemma emit_sparse_Ok:
  assumes "sinvar s" "emit_sparse partial out bs s = (Ok m, s')"
  shows "m \<and> sinvar s' \<and> logical s' = logical s @ bs"
proof -
  have z: "list_all (\<lambda>b. b = 0) bs \<Longrightarrow> replicate (length bs) 0 = bs"
    by (induction bs) simp_all
  show ?thesis
    using assms z by (auto simp: emit_sparse_def io_Ok_iffs dest: sink_write sink_skip split: if_splits)
qed

lemma emit_stdout_Ok:
  assumes "sinvar s" "emit_stdout out bs s = (Ok True, s')"
  shows "sinvar s' \<and> logical s' = logical s @ bs"
proof -
  obtain u where "sink_write_all out bs s = (Ok u, s')"
    using assms(2) by (auto simp: emit_stdout_def split: prod.splits res.splits if_splits)
  then show ?thesis by (rule sink_write [OF assms(1)])
qed

end

text \<open>A file as its bytes and the position in it, as \<open>std::fs::File\<close> writes and seeks.\<close>

definition file_sink :: "(bytes \<times> nat) sink_ops" where
  "file_sink =
     \<lparr> sink_write_all = (\<lambda>bs (f, p).
         (Ok (), (overwrite p bs (resize (max (length f) (p + length bs)) f), p + length bs))),
       sink_skip = (\<lambda>n (f, p). (Ok (), (f, p + n))),
       sink_set_len = (\<lambda>n (f, p). (Ok (), (resize (unat n) f, p))),
       sink_flush = io_return () \<rparr>"

definition file_invar :: "bytes \<times> nat \<Rightarrow> bool" where
  "file_invar s = (length (fst s) \<le> snd s)"

definition file_logical :: "bytes \<times> nat \<Rightarrow> bytes" where
  "file_logical s = resize (snd s) (fst s)"

interpretation fs: sink file_sink file_invar file_logical fst
proof (unfold_locales, goal_cases)
  case (1 s bs u s')
  obtain f p where s: "s = (f, p)" by (cases s)
  have le: "length f \<le> p" using 1(1) by (simp add: s file_invar_def)
  have s': "s' = (overwrite p bs (resize (p + length bs) f), p + length bs)"
    using 1(2) le by (auto simp: s file_sink_def max_def)
  have "overwrite p bs (resize (p + length bs) f) = resize p f @ bs"
    using le by (intro nth_equalityI) (auto simp: nth_overwrite nth_append resize_def)
  then show ?case using le by (simp add: s s' file_invar_def file_logical_def resize_def)
next
  case (2 s n u s')
  then show ?case
    by (cases s) (auto simp: file_sink_def file_invar_def file_logical_def resize_def replicate_add [symmetric])
next
  case (3 s n u s')
  then show ?case
    by (cases s) (auto simp: file_sink_def file_invar_def file_logical_def resize_def)
qed (auto simp: file_sink_def io_return_def)

text \<open>A sink that keeps what it was asked, and never fails.\<close>

datatype request = Wrote bytes | Skipped nat | CutTo u64 | Flushed

definition request_sink :: "request list sink_ops" where
  "request_sink =
     \<lparr> sink_write_all = (\<lambda>bs rs. (Ok (), rs @ [Wrote bs])),
       sink_skip = (\<lambda>n rs. (Ok (), rs @ [Skipped n])),
       sink_set_len = (\<lambda>n rs. (Ok (), rs @ [CutTo n])),
       sink_flush = (\<lambda>rs. (Ok (), rs @ [Flushed])) \<rparr>"

function chunks_of :: "nat \<Rightarrow> 'a list \<Rightarrow> 'a list list" where
  "chunks_of k xs = (if xs = [] \<or> k = 0 then [] else take k xs # chunks_of k (drop k xs))"
  by pat_completeness auto

termination chunks_of
  by (relation "measure (\<lambda>(k, xs). length xs)") auto

declare chunks_of.simps [simp del]

context block_device
begin

text \<open>Whatever the sink, the bytes emitted are those of the virtual disk, in order.\<close>

lemma copy_out_Ok:
  assumes "invar (rd_dev r)" "geometry_ok r" "unat end \<le> unat (rd_virtual_size r)"
    and emits: "\<And>s bs s'. S s \<Longrightarrow> emit bs s = (Ok True, s') \<Longrightarrow> S s' \<and> f s' = f s @ bs"
    and "S s" "unat at \<le> unat end" "length buf = CHUNK"
    and "copy_out path ops r emit end buf at s = (Ok True, s')"
  shows "S s' \<and> f s' = f s @ subslice (unat at) (unat end) (vdisk r (contents (rd_dev r)))"
  using assms(5-8)
proof (induction "unat end - unat at" arbitrary: at buf s rule: less_induct)
  case less
  show ?case
  proof (cases "end \<le> at")
    case True
    then show ?thesis using less.prems by (simp add: copy_out.simps io_return_def word_le_nat_alt)
  next
    case False
    define n where "n = min CHUNK (unat (end - at))"
    note st = copy_step [OF False, folded n_def]
    have nC: "n \<le> CHUNK" by (simp add: n_def)
    obtain bs s1 m where rd: "read_at ops r at (take n buf) = Ok bs"
      and em: "emit bs s = (Ok m, s1)"
      and rest: "(if m then copy_out path ops r emit end (bs @ drop n buf) (at + word_of_nat n)
        else io_return False) s1 = (Ok True, s')"
      using less.prems(4) unfolding copy_out_step [OF False] n_def [symmetric] by (auto simp: io_Ok_iffs)
    have m: "m" using rest by (auto simp: io_return_def split: if_splits)
    have len: "length (take n buf) = n" using nC less.prems(3) by simp
    have "length (take n buf) < 2 ^ 64" unfolding len using nC by simp
    note R = read_at_Ok [OF assms(1,2) this rd, unfolded len]
    have bs: "bs = subslice (unat at) (unat at + n) (vdisk r (contents (rd_dev r)))"
      using R st(2) assms(3) by (intro nth_equalityI) (auto simp: nth_subslice)
    have s1: "S s1" "f s1 = f s @ bs" using emits [OF less.prems(1)] em m by auto
    have "unat end - unat (at + word_of_nat n) < unat end - unat at" using st by linarith
    moreover have "length (bs @ drop n buf) = CHUNK" using R nC less.prems(3) by simp
    ultimately have "S s' \<and> f s' = f s1 @ subslice (unat at + n) (unat end) (vdisk r (contents (rd_dev r)))"
      using less.hyps [of "at + word_of_nat n" s1 "bs @ drop n buf"] s1(1) st(2,3) rest m by simp
    moreover have "subslice (unat at) (unat at + n) v @ subslice (unat at + n) (unat end) v =
        subslice (unat at) (unat end) v" for v :: bytes
      using st(2) by (simp add: subslice_def take_add [symmetric] drop_drop [symmetric] add.commute
          del: drop_drop)
    ultimately show ?thesis using s1(2) bs by simp
  qed
qed

end

text \<open>
  The streaming loop writes what the reads deliver, up to the limit and to the first empty
  read, and answers where it stopped.
\<close>

fun delivered :: "nat \<Rightarrow> (bytes, io_error) res list \<Rightarrow> bytes" where
  "delivered limit [] = []"
| "delivered limit (rd # rds) =
     (case rd of
        Ok got \<Rightarrow>
          (let bs = take (min limit CHUNK) got in
           if bs = [] then [] else bs @ delivered (limit - length bs) rds)
      | _ \<Rightarrow> [])"

lemma length_delivered: "length (delivered limit rds) \<le> limit"
proof (induction limit rds rule: delivered.induct)
  case (2 limit rd rds)
  show ?case
  proof (cases rd)
    case (Ok got)
    let ?bs = "take (min limit CHUNK) got"
    show ?thesis
    proof (cases "?bs = []")
      case False
      then have "length (delivered (limit - length ?bs) rds) \<le> limit - length ?bs"
        using 2 [OF Ok refl] by simp
      moreover have "length ?bs \<le> limit" by simp
      ultimately have "length ?bs + length (delivered (limit - length ?bs) rds) \<le> limit" by linarith
      moreover have "delivered limit (rd # rds) = ?bs @ delivered (limit - length ?bs) rds"
        using False by (simp only: delivered.simps Ok res.case Let_def if_False)
      ultimately show ?thesis by (simp only: length_append)
    qed (simp add: Ok Let_def)
  qed simp_all
qed simp

context reliable_device
begin

lemma copy_out_succeeds:
  assumes "invar (rd_dev r)" "unat (rd_dev_size r) \<le> length (contents (rd_dev r))" "geometry_ok r"
    and "unat end \<le> unat (rd_virtual_size r)" "\<forall>v. unat at \<le> v \<longrightarrow> v < unat end \<longrightarrow> readable r v"
    and emits: "\<And>bs s. \<exists>s'. emit bs s = (Ok True, s')"
    and "length buf = CHUNK"
  shows "\<exists>s'. copy_out path ops r emit end buf at s = (Ok True, s')"
  using assms(5,7)
proof (induction "unat end - unat at" arbitrary: at buf s rule: less_induct)
  case less
  show ?case
  proof (cases "end \<le> at")
    case True
    then show ?thesis by (simp add: copy_out.simps io_return_def)
  next
    case False
    define n where "n = min CHUNK (unat (end - at))"
    note st = copy_step [OF False, folded n_def]
    have nC: "n \<le> CHUNK" by (simp add: n_def)
    have len: "length (take n buf) = n" using nC less.prems(2) by simp
    have l64: "length (take n buf) < 2 ^ 64" unfolding len using nC by simp
    obtain bs where rd: "read_at ops r at (take n buf) = Ok bs"
      using read_at_total [OF assms(1-3) l64, of at, unfolded len] st(2) assms(4) less.prems(1) by auto
    have lb: "length bs = n" using read_at_Ok [OF assms(1,3) l64 rd] len by simp
    obtain s1 where em: "emit bs s = (Ok True, s1)" using emits by blast
    have "unat end - unat (at + word_of_nat n) < unat end - unat at" using st by linarith
    moreover have "length (bs @ drop n buf) = CHUNK" using lb nC less.prems(2) by simp
    moreover have "\<forall>v. unat (at + word_of_nat n) \<le> v \<longrightarrow> v < unat end \<longrightarrow> readable r v"
      using less.prems(1) st(3) by simp
    ultimately obtain s' where "copy_out path ops r emit end (bs @ drop n buf) (at + word_of_nat n) s1 = (Ok True, s')"
      using less.hyps by blast
    then show ?thesis
      unfolding copy_out_step [OF False] n_def [symmetric] using rd em by (simp add: io_bind_def)
  qed
qed

text \<open>Over a file just created the copies succeed, and the file ends up holding the range.\<close>

lemma copy_range:
  assumes "invar (rd_dev r)" "unat (rd_dev_size r) \<le> length (contents (rd_dev r))" "geometry_ok r"
    and "unat a + unat n \<le> unat (rd_virtual_size r)"
    and "\<forall>v. unat a \<le> v \<longrightarrow> v < unat a + unat n \<longrightarrow> readable r v"
    and emits: "\<And>bs s. \<exists>s'. emit bs s = (Ok True, s')"
    and ok: "\<And>s bs s'. S s \<Longrightarrow> emit bs s = (Ok True, s') \<Longrightarrow> S s' \<and> f s' = f s @ bs"
    and "S s"
  shows "\<exists>s'. copy_out path ops r emit (a + n) (replicate CHUNK 0) a s = (Ok True, s') \<and> S s' \<and>
    f s' = f s @ subslice (unat a) (unat a + unat n) (vdisk r (contents (rd_dev r)))"
proof -
  have e: "unat (a + n) = unat a + unat n"
    using assms(4) unat_lt_u64 [of "rd_virtual_size r"] by (intro unat_add_no_overflow) (simp del: unat_lt_u64)
  obtain s' where c: "copy_out path ops r emit (a + n) (replicate CHUNK 0) a s = (Ok True, s')"
    using copy_out_succeeds [OF assms(1-3), of "a + n" a emit "replicate CHUNK 0" path s] emits assms(4,5)
    unfolding e by auto
  have "S s' \<and> f s' = f s @ subslice (unat a) (unat (a + n)) (vdisk r (contents (rd_dev r)))"
    by (rule copy_out_Ok [where S = S and f = f, OF assms(1,3) _ ok assms(8) _ _ c]) (simp_all add: e assms(4))
  then show ?thesis using c unfolding e by blast
qed

text \<open>
  What is asked of the file, in order, is seen with a sink that only keeps the requests. The chunks
  of a range are its bytes in runs of \<open>CHUNK\<close>, the last one shorter.
\<close>

lemma copy_out_requests:
  assumes "invar (rd_dev r)" "unat (rd_dev_size r) \<le> length (contents (rd_dev r))" "geometry_ok r"
    and "unat end \<le> unat (rd_virtual_size r)" "\<forall>v. unat at \<le> v \<longrightarrow> v < unat end \<longrightarrow> readable r v"
    and emits: "\<And>bs s. emit bs s = (Ok True, s @ [g bs])"
    and "length buf = CHUNK"
  shows "copy_out path ops r emit end buf at s = (Ok True, s @ map g (chunks_of CHUNK
    (subslice (unat at) (unat end) (vdisk r (contents (rd_dev r))))))"
  using assms(5,7)
proof (induction "unat end - unat at" arbitrary: at buf s rule: less_induct)
  case less
  let ?V = "vdisk r (contents (rd_dev r))"
  show ?case
  proof (cases "end \<le> at")
    case True
    then show ?thesis by (simp add: copy_out.simps io_return_def word_le_nat_alt chunks_of.simps)
  next
    case False
    define n where "n = min CHUNK (unat (end - at))"
    note st = copy_step [OF False, folded n_def]
    have nC: "n \<le> CHUNK" by (simp add: n_def)
    have len: "length (take n buf) = n" using nC less.prems(2) by simp
    have l64: "length (take n buf) < 2 ^ 64" unfolding len using nC by simp
    obtain bs where rd: "read_at ops r at (take n buf) = Ok bs"
      using read_at_total [OF assms(1-3) l64, of at, unfolded len] st(2) assms(4) less.prems(1) by auto
    have bs: "length bs = n" "bs = subslice (unat at) (unat at + n) ?V"
      using read_at_Ok [OF assms(1,3) l64 rd] len st(2) assms(4)
      by (auto simp: nth_subslice intro!: nth_equalityI)
    have nE: "n = min CHUNK (unat end - unat at)"
      using False by (simp add: n_def unat_sub word_le_nat_alt)
    have "length (bs @ drop n buf) = CHUNK" "unat end - unat (at + word_of_nat n) < unat end - unat at"
      "\<forall>v. unat (at + word_of_nat n) \<le> v \<longrightarrow> v < unat end \<longrightarrow> readable r v"
      using bs(1) nC less.prems st by auto
    then have IH: "copy_out path ops r emit end (bs @ drop n buf) (at + word_of_nat n) (s @ [g bs]) =
        (Ok True, (s @ [g bs]) @ map g (chunks_of CHUNK (subslice (unat at + n) (unat end) ?V)))"
      using less.hyps st(3) by simp
    have "subslice (unat at) (unat end) ?V \<noteq> []"
      using st(1,2) assms(4) by (auto simp: subslice_def)
    moreover have "take CHUNK (subslice (unat at) (unat end) ?V) = bs"
      "drop CHUNK (subslice (unat at) (unat end) ?V) = subslice (unat at + n) (unat end) ?V"
      using nE st(2) by (auto simp: bs(2) subslice_def min_def drop_take add.commute)
    ultimately have "chunks_of CHUNK (subslice (unat at) (unat end) ?V) =
        bs # chunks_of CHUNK (subslice (unat at + n) (unat end) ?V)"
      by (subst chunks_of.simps) simp
    then show ?thesis
      unfolding copy_out_step [OF False] n_def [symmetric] using rd emits IH by (simp add: io_bind_def)
  qed
qed

lemma file_emits:
  "\<exists>s'. emit_sparse partial file_sink bs s = (Ok True, s')" "\<exists>s'. emit_stdout file_sink bs s = (Ok True, s')"
  by (cases s; simp add: emit_sparse_def emit_stdout_def file_sink_def io_bind_def io_map_err_def io_return_def)+

lemma read_out_copies:
  assumes "invar (rd_dev r)" "unat (rd_dev_size r) \<le> length (contents (rd_dev r))" "geometry_ok r"
    and "unat a + unat n \<le> unat (rd_virtual_size r)"
    and "\<forall>v. unat a \<le> v \<longrightarrow> v < unat a + unat n \<longrightarrow> readable r v"
  shows "\<exists>p. read_to_file path partial ops r file_sink a n ([], 0) =
      (Ok (), (subslice (unat a) (unat a + unat n) (vdisk r (contents (rd_dev r))), p))"
    and "\<exists>s'. read_to_stdout path ops r file_sink a n ([], 0) = (Ok (), s') \<and>
      file_logical s' = subslice (unat a) (unat a + unat n) (vdisk r (contents (rd_dev r)))"
proof -
  let ?c = "subslice (unat a) (unat a + unat n) (vdisk r (contents (rd_dev r)))"
  have z: "file_invar ([], 0)" "file_logical ([], 0) = []" by (simp_all add: file_invar_def file_logical_def resize_def)
  obtain s' where s': "copy_out path ops r (emit_sparse partial file_sink) (a + n) (replicate CHUNK 0) a ([], 0) =
      (Ok True, s')" "file_invar s'" "file_logical s' = ?c"
    using copy_range [where S = file_invar and f = file_logical and emit = "emit_sparse partial file_sink" and s = "([], 0)" and path = path,
      OF assms file_emits(1) _ z(1)] fs.emit_sparse_Ok z(2) by auto
  have len: "length ?c = unat n" using assms(4) by simp
  obtain s2 where s2: "sink_set_len file_sink n s' = (Ok (), s2)" by (cases s') (simp add: file_sink_def)
  have "fst s2 = ?c" using fs.sink_set_len [OF s'(2) s2] len unfolding s'(3) by simp
  then show "\<exists>p. read_to_file path partial ops r file_sink a n ([], 0) = (Ok (), (?c, p))"
    using s'(1) s2
    by (cases s2) (simp add: read_to_file_def io_bind_def io_map_err_def, simp add: file_sink_def io_return_def)
  obtain s3 where s3: "copy_out path ops r (emit_stdout file_sink) (a + n) (replicate CHUNK 0) a ([], 0) =
      (Ok True, s3)" "file_logical s3 = ?c"
    using copy_range [where S = file_invar and f = file_logical and emit = "emit_stdout file_sink" and s = "([], 0)" and path = path,
      OF assms file_emits(2) _ z(1)] fs.emit_stdout_Ok z(2) by auto
  then show "\<exists>s'. read_to_stdout path ops r file_sink a n ([], 0) = (Ok (), s') \<and> file_logical s' = ?c"
    by (cases s3) (simp add: read_to_stdout_def io_bind_def, simp add: file_sink_def io_return_def)
qed

lemma read_requests:
  assumes "invar (rd_dev r)" "unat (rd_dev_size r) \<le> length (contents (rd_dev r))" "geometry_ok r"
    and "unat a + unat n \<le> unat (rd_virtual_size r)"
    and "\<forall>v. unat a \<le> v \<longrightarrow> v < unat a + unat n \<longrightarrow> readable r v"
  defines "cs \<equiv> chunks_of CHUNK (subslice (unat a) (unat a + unat n) (vdisk r (contents (rd_dev r))))"
  shows "read_to_file path partial ops r request_sink a n [] =
      (Ok (), map (\<lambda>c. if \<forall>b \<in> set c. b = 0 then Skipped (length c) else Wrote c) cs @ [CutTo n, Flushed])"
    and "read_to_stdout path ops r request_sink a n [] = (Ok (), map Wrote cs @ [Flushed])"
proof -
  have e: "unat (a + n) = unat a + unat n"
    using assms(4) unat_lt_u64 [of "rd_virtual_size r"] by (intro unat_add_no_overflow) (simp del: unat_lt_u64)
  have sparse: "emit_sparse partial request_sink bs s =
      (Ok True, s @ [if \<forall>b \<in> set bs. b = 0 then Skipped (length bs) else Wrote bs])" for bs s
    by (simp add: emit_sparse_def request_sink_def io_bind_def io_map_err_def io_return_def list_all_iff)
  have plain: "emit_stdout request_sink bs s = (Ok True, s @ [Wrote bs])" for bs s
    by (simp add: emit_stdout_def request_sink_def)
  show "read_to_file path partial ops r request_sink a n [] =
      (Ok (), map (\<lambda>c. if \<forall>b \<in> set c. b = 0 then Skipped (length c) else Wrote c) cs @ [CutTo n, Flushed])"
    using copy_out_requests [OF assms(1-3), of "a + n" a "emit_sparse partial request_sink", OF _ _ sparse] assms(4,5)
    by (simp add: read_to_file_def io_bind_def io_map_err_def e cs_def, simp add: request_sink_def)
  show "read_to_stdout path ops r request_sink a n [] = (Ok (), map Wrote cs @ [Flushed])"
    using copy_out_requests [OF assms(1-3), of "a + n" a "emit_stdout request_sink", OF _ _ plain] assms(4,5)
    by (simp add: read_to_stdout_def io_bind_def e cs_def, simp add: request_sink_def)
qed

section \<open>Lemmas: writing the guest\<close>

lemma write_at_accepted:
  assumes "invar (rd_dev r)" "crc_contract x" "disk_inv (contents (rd_dev r)) r" "rd_writable r"
    and "unat off + length buf \<le> unat (rd_virtual_size r)"
    and "\<forall>v. unat off \<le> v \<longrightarrow> v < unat off + length buf \<longrightarrow> accepts r v"
  obtains r' where "write_at x ops off buf r = (Ok (), r')" "invar (rd_dev r')"
    "disk_inv (contents (rd_dev r')) r'" "same_geometry r r'"
    "vdisk r' (contents (rd_dev r')) = overwrite (unat off) buf (vdisk r (contents (rd_dev r)))"
proof -
  have "length buf < 2 ^ 64" using assms(5) unat_lt_u64 [of "rd_virtual_size r"] by (simp del: unat_lt_u64)
  then show thesis using write_at_ok [OF assms(1-3), of buf off] assms(4-6) that by blast
qed

lemma write_buffered_ok:
  assumes "crc_contract x"
    and "invar (rd_dev r)" "disk_inv (contents (rd_dev r)) r" "rd_writable r"
    and "unat off + (i * CHUNK + length data) \<le> unat (rd_virtual_size r)"
    and "\<forall>v. unat off \<le> v \<longrightarrow> v < unat off + (i * CHUNK + length data) \<longrightarrow> accepts r v"
  shows "\<exists>r'. write_buffered x path ops off i data r = (Ok (), r') \<and> invar (rd_dev r') \<and>
    disk_inv (contents (rd_dev r')) r' \<and> same_geometry r r' \<and>
    vdisk r' (contents (rd_dev r')) = overwrite (unat off + i * CHUNK) data (vdisk r (contents (rd_dev r)))"
  using assms(2-6)
proof (induction "length data" arbitrary: i data r rule: less_induct)
  case less
  show ?case
  proof (cases "data = []")
    case True
    then show ?thesis using less.prems by (auto simp: write_buffered.simps io_return_def)
  next
    case False
    let ?o = "off + word_of_nat (i * CHUNK)" and ?b = "take CHUNK data"
    have "unat off + i * CHUNK < 2 ^ 64"
      using less.prems(4) unat_lt_u64 [of "rd_virtual_size r"] by (simp del: unat_lt_u64)
    then have lt: "unat off + i * CHUNK < 18446744073709551616" by simp
    have c: "unat (word_of_nat (i * CHUNK) :: u64) = i * CHUNK"
      by (rule unat_of_nat_u64) (use lt in linarith)
    have o: "unat ?o = unat off + i * CHUNK"
      using unat_add_no_overflow [of off "word_of_nat (i * CHUNK)"] lt unfolding c by simp
    obtain r1 where w: "write_at x ops ?o ?b r = (Ok (), r1)" "invar (rd_dev r1)"
      "disk_inv (contents (rd_dev r1)) r1" "same_geometry r r1"
      "vdisk r1 (contents (rd_dev r1)) = overwrite (unat ?o) ?b (vdisk r (contents (rd_dev r)))"
      by (rule write_at_accepted [OF less.prems(1) assms(1) less.prems(2,3), of ?o ?b])
        (use less.prems(4,5) o in auto)
    have g: "rd_virtual_size r1 = rd_virtual_size r" "rd_writable r1 = rd_writable r"
      "\<And>v. accepts r v \<Longrightarrow> accepts r1 v" using w(4) by (simp_all add: same_geometry_def)
    have "unat off + ((i + 1) * CHUNK + length (drop CHUNK data)) \<le> unat (rd_virtual_size r) \<and>
        (\<forall>v. unat off \<le> v \<longrightarrow> v < unat off + ((i + 1) * CHUNK + length (drop CHUNK data)) \<longrightarrow> accepts r1 v)
        \<or> drop CHUNK data = []"
      using less.prems(4,5) g(3) by (auto simp: algebra_simps)
    then have "\<exists>r'. write_buffered x path ops off (i + 1) (drop CHUNK data) r1 = (Ok (), r') \<and>
      invar (rd_dev r') \<and> disk_inv (contents (rd_dev r')) r' \<and> same_geometry r1 r' \<and>
      vdisk r' (contents (rd_dev r')) =
        overwrite (unat off + (i + 1) * CHUNK) (drop CHUNK data) (vdisk r1 (contents (rd_dev r1)))"
    proof
      assume "drop CHUNK data = []"
      then show ?thesis using w(2,3) by (subst write_buffered.simps) (auto simp: io_return_def)
    qed (use less.hyps [of "drop CHUNK data" r1 "i + 1"] w(2,3) g less.prems(3) False in auto)
    then obtain r' where r': "write_buffered x path ops off (i + 1) (drop CHUNK data) r1 = (Ok (), r')"
      "invar (rd_dev r')" "disk_inv (contents (rd_dev r')) r'" "same_geometry r1 r'"
      "vdisk r' (contents (rd_dev r')) =
        overwrite (unat off + (i + 1) * CHUNK) (drop CHUNK data) (vdisk r1 (contents (rd_dev r1)))" by blast
    have "overwrite (unat off + (i + 1) * CHUNK) (drop CHUNK data) (overwrite (unat off + i * CHUNK) ?b v) =
        overwrite (unat off + i * CHUNK) data v" if v: "length v = unat (rd_virtual_size r)" for v :: bytes
    proof (cases "CHUNK \<le> length data")
      case True
      then show ?thesis
        using v less.prems(4)
        by (subst overwrite_overwrite_adjacent) (simp_all add: algebra_simps append_take_drop_id)
    qed simp
    then have "vdisk r' (contents (rd_dev r')) = overwrite (unat off + i * CHUNK) data (vdisk r (contents (rd_dev r)))"
      unfolding r'(5) w(5) o by simp
    moreover have "write_buffered x path ops off i data r = (Ok (), r')"
      using False w(1) r'(1) by (subst write_buffered.simps) (simp add: io_bind_def io_map_err_def)
    ultimately show ?thesis using r' same_geometry_trans [OF w(4) r'(4)] by blast
  qed
qed

lemma write_streamed_ok:
  assumes "crc_contract x" "\<forall>rd \<in> set rds. is_Ok rd"
    and "invar (rd_dev r)" "disk_inv (contents (rd_dev r)) r" "rd_writable r"
    and "unat at + limit \<le> unat (rd_virtual_size r)"
    and "\<forall>v. unat at \<le> v \<longrightarrow> v < unat at + limit \<longrightarrow> accepts r v"
  shows "\<exists>r' at'. write_streamed x path ops at limit rds r = (Ok at', r') \<and>
    unat at' = unat at + length (delivered limit rds) \<and> invar (rd_dev r') \<and>
    disk_inv (contents (rd_dev r')) r' \<and> same_geometry r r' \<and>
    vdisk r' (contents (rd_dev r')) = overwrite (unat at) (delivered limit rds) (vdisk r (contents (rd_dev r)))"
  using assms(2-7)
proof (induction rds arbitrary: at limit r)
  case Nil
  then show ?case by (auto simp: io_return_def)
next
  case (Cons rd rds)
  obtain got where rd: "rd = Ok got" using Cons.prems(1) by (auto simp: is_Ok_iff)
  define bs where "bs = take (min limit CHUNK) got"
  show ?case
  proof (cases "bs = []")
    case True
    then show ?thesis using Cons.prems rd by (auto simp: io_return_def bs_def Let_def)
  next
    case False
    then have lim: "limit \<noteq> 0" "length bs \<le> limit" by (auto simp: bs_def)
    obtain r1 where w: "write_at x ops at bs r = (Ok (), r1)" "invar (rd_dev r1)"
      "disk_inv (contents (rd_dev r1)) r1" "same_geometry r r1"
      "vdisk r1 (contents (rd_dev r1)) = overwrite (unat at) bs (vdisk r (contents (rd_dev r)))"
      by (rule write_at_accepted [OF Cons.prems(2) assms(1) Cons.prems(3,4), of at bs])
        (use Cons.prems(5,6) lim in auto)
    have g: "rd_virtual_size r1 = rd_virtual_size r" "rd_writable r1 = rd_writable r"
      "\<And>v. accepts r v \<Longrightarrow> accepts r1 v" using w(4) by (simp_all add: same_geometry_def)
    have lt: "unat at + length bs < 18446744073709551616" "length bs < 18446744073709551616"
      using Cons.prems(5) lim(2) unat_lt_u64 [of "rd_virtual_size r"] by (simp_all del: unat_lt_u64)
    have at: "unat (at + word_of_nat (length bs)) = unat at + length bs"
      using lt by (subst unat_add_no_overflow) (simp_all add: unat_of_nat_u64)
    let ?a = "at + word_of_nat (length bs)" and ?l = "limit - length bs"
    obtain r' at' where r': "write_streamed x path ops ?a ?l rds r1 = (Ok at', r')"
      "unat at' = unat ?a + length (delivered ?l rds)" "invar (rd_dev r')"
      "disk_inv (contents (rd_dev r')) r'" "same_geometry r1 r'"
      "vdisk r' (contents (rd_dev r')) = overwrite (unat ?a) (delivered ?l rds) (vdisk r1 (contents (rd_dev r1)))"
      using Cons.IH [of r1 ?a ?l] Cons.prems w(2,3) g lim(2) unfolding at by auto
    have "write_streamed x path ops at limit (rd # rds) r = (Ok at', r')"
    proof -
      have "write_streamed x path ops at limit (rd # rds) =
          io_bind (io_map_err (write_error path) (write_at x ops at bs)) (\<lambda>_. write_streamed x path ops ?a ?l rds)"
        by (simp only: write_streamed.simps rd res_map_err.simps io_bind_lift_Ok Let_def bs_def [symmetric]
            lim(1) False if_False)
      then show ?thesis using w(1) r'(1) by (simp add: io_bind_def io_map_err_def)
    qed
    moreover have dl: "delivered limit (rd # rds) = bs @ delivered ?l rds"
      using False by (simp only: delivered.simps rd res.case Let_def bs_def [symmetric] if_False)
    moreover have "vdisk r' (contents (rd_dev r')) =
        overwrite (unat at) (bs @ delivered ?l rds) (vdisk r (contents (rd_dev r)))"
      unfolding r'(6) w(5) at using length_delivered [of ?l rds] Cons.prems(5) lim(2)
      by (intro overwrite_overwrite_adjacent) simp_all
    ultimately show ?thesis
      using r'(2-5) same_geometry_trans [OF w(4) r'(5)] by (simp add: at)
  qed
qed

text \<open>The verb, when the input fits and every block it touches takes writes.\<close>

lemma write_guest_pipe:
  assumes "invar (rd_dev r)" "crc_contract x" "disk_inv (contents (rd_dev r)) r" "rd_writable r"
    and "unat offset + length data \<le> unat (rd_virtual_size r)"
    and "\<forall>v. unat offset \<le> v \<longrightarrow> v < unat offset + length data \<longrightarrow> accepts r v"
  shows "\<exists>r'. write_guest x path ops (StdinPipe (Ok data)) offset r = (Ok (word_of_nat (length data)), r') \<and>
    invar (rd_dev r') \<and> disk_inv (contents (rd_dev r')) r' \<and>
    vdisk r' (contents (rd_dev r')) = overwrite (unat offset) data (vdisk r (contents (rd_dev r)))"
proof -
  let ?room = "rd_virtual_size r - offset"
  have le: "\<not> rd_virtual_size r < offset" using assms(5) by (simp add: word_less_nat_alt)
  then have room: "unat ?room = unat (rd_virtual_size r) - unat offset" by (intro unat_sub) simp
  have "length data \<le> unat ?room" unfolding room using assms(5) by linarith
  then have fits: "\<not> unat ?room < length data"
    "take (unat (saturating_add ?room 1)) data = data"
    using unat_lt_u64 [of ?room] by (auto simp: unat_saturating_add simp del: unat_lt_u64)
  obtain r1 where w: "write_buffered x path ops offset 0 data r = (Ok (), r1)" "invar (rd_dev r1)"
    "disk_inv (contents (rd_dev r1)) r1" "same_geometry r r1"
    "vdisk r1 (contents (rd_dev r1)) = overwrite (unat offset) data (vdisk r (contents (rd_dev r)))"
    using write_buffered_ok [OF assms(2,1,3,4), of offset 0 data path] assms(5,6) by auto
  obtain d2 where f: "reader_dev_flush ops r1 = (Ok (), r1\<lparr> rd_dev := d2 \<rparr>)" "invar d2"
    "contents d2 = contents (rd_dev r1)" by (rule reader_flush_ok [OF w(2)])
  have "rd_writable r1" using w(4) assms(4) by (simp add: same_geometry_def)
  then have "write_guest x path ops (StdinPipe (Ok data)) offset r =
      (Ok (word_of_nat (length data)), r1\<lparr> rd_dev := d2 \<rparr>)"
    using le fits w(1) f(1)
    by (simp add: write_guest_def write_input_def Let_def io_bind_def io_return_def io_map_err_def
        io_lift_def reader_flush_def)
  moreover have "vdisk (r1\<lparr> rd_dev := d2 \<rparr>) c = vdisk r1 c" for c
    unfolding vdisk_def by (rule map_cong) simp_all
  ultimately show ?thesis using w(3,5) f by simp
qed

lemma write_guest_file:
  fixes len pos :: u64
  assumes "invar (rd_dev r)" "crc_contract x" "disk_inv (contents (rd_dev r)) r" "rd_writable r"
    and "unat offset \<le> unat (rd_virtual_size r)" "\<forall>rd \<in> set rds. is_Ok rd"
  defines "n \<equiv> unat len - unat pos"
  assumes "unat offset + n \<le> unat (rd_virtual_size r)"
    and "\<forall>v. unat offset \<le> v \<longrightarrow> v < unat offset + n \<longrightarrow> accepts r v"
  shows "\<exists>r'. write_guest x path ops (StdinFile False (Ok len) (Ok pos) rds) offset r =
      (Ok (word_of_nat (length (delivered n rds))), r') \<and>
    invar (rd_dev r') \<and> disk_inv (contents (rd_dev r')) r' \<and>
    vdisk r' (contents (rd_dev r')) = overwrite (unat offset) (delivered n rds) (vdisk r (contents (rd_dev r)))"
proof -
  let ?room = "rd_virtual_size r - offset" and ?n = "if pos \<le> len then len - pos else 0"
  have le: "\<not> rd_virtual_size r < offset" using assms(5) by (simp add: word_less_nat_alt)
  then have room: "unat ?room = unat (rd_virtual_size r) - unat offset" by (intro unat_sub) simp
  have n: "unat ?n = n" unfolding n_def by (auto simp: word_le_nat_alt unat_sub)
  then have fits: "\<not> ?room < ?n" using assms(8) room by (simp add: word_less_nat_alt)
  obtain r1 at where w: "write_streamed x path ops offset n rds r = (Ok at, r1)" "invar (rd_dev r1)"
    "unat at = unat offset + length (delivered n rds)" "disk_inv (contents (rd_dev r1)) r1" "same_geometry r r1"
    "vdisk r1 (contents (rd_dev r1)) = overwrite (unat offset) (delivered n rds) (vdisk r (contents (rd_dev r)))"
    using write_streamed_ok [OF assms(2,6,1,3,4,8,9), of path] by blast
  have at: "at - offset = word_of_nat (length (delivered n rds))"
    using arg_cong [OF w(3), of "word_of_nat :: nat \<Rightarrow> u64"] by simp
  obtain d2 where f: "reader_dev_flush ops r1 = (Ok (), r1\<lparr> rd_dev := d2 \<rparr>)" "invar d2"
    "contents d2 = contents (rd_dev r1)" by (rule reader_flush_ok [OF w(2)])
  have "rd_writable r1" using w(5) assms(4) by (simp add: same_geometry_def)
  then have "write_guest x path ops (StdinFile False (Ok len) (Ok pos) rds) offset r =
      (Ok (at - offset), r1\<lparr> rd_dev := d2 \<rparr>)"
    using le fits w(1) f(1) n
    by (simp add: write_guest_def write_input_def Let_def io_bind_def io_return_def io_map_err_def
        io_lift_def reader_flush_def)
  moreover have "vdisk (r1\<lparr> rd_dev := d2 \<rparr>) c = vdisk r1 c" for c
    unfolding vdisk_def by (rule map_cong) simp_all
  ultimately show ?thesis using w(4,6) f at by simp
qed

end

text \<open>Input that does not fit is refused before a byte is written, wherever it comes from.\<close>

lemma write_guest_refuses:
  assumes "\<not> rd_virtual_size r < offset" "unat (rd_virtual_size r) < unat offset + length data"
    and "length data < 2 ^ 64"
  shows "\<exists>m. write_guest x path ops (StdinPipe (Ok data)) offset r = (Err (CliFailed m), r)"
proof -
  let ?room = "rd_virtual_size r - offset"
  have room: "unat ?room = unat (rd_virtual_size r) - unat offset"
    using assms(1) by (intro unat_sub) simp
  have le: "unat offset \<le> unat (rd_virtual_size r)" using assms(1) by (simp add: word_less_nat_alt)
  have "unat ?room \<noteq> 2 ^ 64 - 1" using assms(2,3) room le by simp
  then have "unat (saturating_add ?room 1) = unat ?room + 1"
    using unat_lt_u64 [of ?room] by (simp add: unat_saturating_add del: unat_lt_u64)
  then have "unat ?room < length (take (unat (saturating_add ?room 1)) data)"
    using assms(2) room le by simp
  then show ?thesis
    using assms(1) by (simp add: write_guest_def write_input_def Let_def io_bind_def io_lift_def)
qed

lemma write_guest_file_refuses:
  assumes "\<not> rd_virtual_size r < offset" "same \<or> unat (rd_virtual_size r) < unat offset + (unat len - unat pos)"
  shows "\<exists>m. write_guest x path ops (StdinFile same (Ok len) (Ok pos) rds) offset r = (Err (CliFailed m), r)"
proof -
  have "unat (rd_virtual_size r - offset) = unat (rd_virtual_size r) - unat offset"
    using assms(1) by (intro unat_sub) simp
  then have "same \<or> rd_virtual_size r - offset < (if pos \<le> len then len - pos else 0)"
    using assms by (auto simp: word_less_nat_alt word_le_nat_alt unat_sub)
  then show ?thesis
    using assms(1) by (auto simp: write_guest_def write_input_def Let_def io_bind_def io_lift_def)
qed

section \<open>Lemmas: looking at an image\<close>

context block_read
begin

lemma better_header_Ok:
  assumes "invar d" "better_header x ops path d (slot_offset s) best = Ok h"
  shows "h = (case slot_header x (contents d) s of
      None \<Rightarrow> best
    | Some g \<Rightarrow> if (case best of None \<Rightarrow> True | Some b \<Rightarrow> hdr_sequence_number b < hdr_sequence_number g)
        then Some g else best)"
proof -
  have o: "unat (slot_offset s + word_of_nat HEADER_SIZE) = slot_start s + HEADER_SIZE"
    by (cases s) simp_all
  have sz: "dev_size_bytes ops d < slot_offset s + word_of_nat HEADER_SIZE \<longleftrightarrow>
      length (contents d) < slot_start s + HEADER_SIZE"
    unfolding word_less_nat_alt o size_law [OF assms(1)] ..
  show ?thesis
  proof (cases "length (contents d) < slot_start s + HEADER_SIZE")
    case True
    then show ?thesis using assms(2) sz by (simp add: better_header_def slot_header_def)
  next
    case False
    then obtain bs where bs: "dev_read_at ops d (slot_offset s) HEADER_SIZE = Ok bs"
      using assms(2) sz by (auto simp: better_header_def res_bind_Ok_iff)
    then have "bs = subslice (slot_start s) (slot_start s + HEADER_SIZE) (contents d)"
      using read_law [OF assms(1) _ bs] by (simp add: slot_start_def)
    then show ?thesis
      using assms(2) sz False bs
      by (auto simp: better_header_def slot_header_def res_some_def split: res.splits if_splits)
  qed
qed

lemma file_header_newest:
  assumes "invar d" "file_header x ops path (Ok d) = Ok h"
  shows "h = map_option fst (newest_header x (contents d))"
proof -
  obtain best where b: "better_header x ops path d (slot_offset One) None = Ok best"
    "better_header x ops path d (slot_offset Two) best = Ok h"
    using assms(2) by (auto simp: file_header_def res_bind_Ok_iff)
  from better_header_Ok [OF assms(1) b(1)] better_header_Ok [OF assms(1) b(2)] show ?thesis
    by (auto simp: newest_header_def split: option.splits)
qed

text \<open>The report tells of the file, not of what a replay put into the overlay.\<close>

lemma envelope_newest:
  assumes "invar d" "envelope x ops path (Ok d) (r, ov) = Ok rep"
  shows "rep_header_sequence rep = map_option (\<lambda>(h, s). hdr_sequence_number h) (newest_header x (contents d))"
    "rep_log_size rep = map_option (\<lambda>(h, s). hdr_log_length h) (newest_header x (contents d))"
    "rep_dirty rep = ov_written ov" "rep_virtual_size rep = rd_virtual_size r"
proof -
  obtain h where h: "file_header x ops path (Ok d) = Ok h" "rep_header_sequence rep = map_option hdr_sequence_number h"
    "rep_log_size rep = map_option hdr_log_length h" "rep_dirty rep = ov_written ov" "rep_virtual_size rep = rd_virtual_size r"
    using assms(2) by (auto simp: envelope_def res_bind_Ok_iff)
  then show "rep_header_sequence rep = map_option (\<lambda>(h, s). hdr_sequence_number h) (newest_header x (contents d))"
    "rep_log_size rep = map_option (\<lambda>(h, s). hdr_log_length h) (newest_header x (contents d))"
    "rep_dirty rep = ov_written ov" "rep_virtual_size rep = rd_virtual_size r"
    using file_header_newest [OF assms(1) h(1)] by (simp_all add: option.map_comp comp_def case_prod_unfold)
qed

end

context overlay_base
begin

lemma ov_block: "block_device (overlay_ops bops) (overlay_invar bops binvar) (overlay_contents bcontents)"
  by (rule ov.block_device_axioms)

lemma pinned: "overlay_base bops (\<lambda>b'. binvar b' \<and> b' = b) bcontents"
  by unfold_locales (auto simp: size_law dest: read_law)

lemma consume_log_written:
  assumes "consume_log x (overlay_ops bops) True h s ov1 = (Ok hs, ov')"
  shows "ov_written ov'"
proof -
  obtain bs ov2 where "overlay_write_at bops (slot_offset (slot_other s)) bs ov2 = (Ok (), ov')"
    using assms
    by (auto simp: consume_log_def rewrite_header_clear_log_def Let_def io_Ok_iffs overlay_ops_def)
  then show ?thesis by (auto simp: overlay_write_at_def io_Ok_iffs)
qed

text \<open>
  An image opened for looking at: the file under the overlay is the one opened, and the overlay
  was written exactly when the file's log holds a chain to replay.
\<close>

lemma img_open_Ok:
  assumes "binvar b" "img_open x bops path (Ok b) = Ok (r, ov')"
  shows "rd_dev r = ov'" "overlay_invar bops binvar ov'" "ov_base ov' = b"
    "reader_ok (overlay_contents bcontents ov') r"
    "ov_written ov' \<longleftrightarrow> (\<exists>h s chain.
       identify x (overlay_ops bops) (overlay_new bops b) (dev_size_bytes bops b) = Ok (h, s) \<and>
       pending_chain x (overlay_ops bops) (overlay_new bops b) (dev_size_bytes bops b) h = Ok chain \<and>
       chain \<noteq> [])"
proof -
  let ?ops = "overlay_ops bops" and ?ov = "overlay_new bops b" and ?n = "dev_size_bytes bops b"
  have n: "dev_size_bytes ?ops ?ov = ?n" by (simp add: overlay_ops_def overlay_new_def)
  have run: "open_inner x ?ops False True ?ov = (Ok r, ov')"
    using assms(2)
    by (auto simp: img_open_def open_on_device_def overlay_ops_def res_bind_Ok_iff split: prod.splits)
  show "rd_dev r = ov'" "overlay_invar bops binvar ov'" "reader_ok (overlay_contents bcontents ov') r"
    using ov.open_inner_reader_ok [OF overlay_new_ok(1) [OF assms(1)] run] by blast+
  have new: "overlay_invar bops (\<lambda>b'. binvar b' \<and> b' = b) ?ov"
    using assms(1) by (simp add: overlay_invar_def overlay_new_def pages_ok_def)
  show "ov_base ov' = b"
    using block_device.open_inner_reader_ok(2) [OF overlay_base.ov_block [OF pinned] new run]
    by (simp add: overlay_invar_def)
  obtain h s replayed m ov1 h' s' where
    id: "identify x ?ops ?ov ?n = Ok (h, s)" and
    rp: "replay_log x ?ops True ?n h ?ov = (Ok (replayed, m), ov1)" and
    cl: "consume_log x ?ops replayed h s ov1 = (Ok (h', s'), ov')"
    using run unfolding n [symmetric] by (rule open_inner_OkE)
  have "replayed \<longleftrightarrow> (\<exists>chain. pending_chain x ?ops ?ov ?n h = Ok chain \<and> chain \<noteq> [])"
    using rp by (auto simp: replay_log_def io_Ok_iffs split: if_splits)
  moreover have "ov_written ov' \<longleftrightarrow> replayed"
  proof (cases replayed)
    case False
    then have "ov' = ?ov" using rp cl by (auto simp: replay_log_def io_Ok_iffs split: if_splits)
    then show ?thesis using False by (simp add: overlay_new_def)
  qed (use cl consume_log_written in auto)
  ultimately show "ov_written ov' \<longleftrightarrow> (\<exists>h s chain. identify x ?ops ?ov ?n = Ok (h, s) \<and>
      pending_chain x ?ops ?ov ?n h = Ok chain \<and> chain \<noteq> [])"
    using id by auto
qed

end

end
