(* ===== verification/Img_Read.thy ===== *)
theory Img_Read
  imports Img
begin

text \<open>
  \<open>src/cli/vhdx/img.rs\<close>, the \<open>read\<close> verb as a whole: the image opened under an overlay, the range,
  and the copy to standard output or, for \<open>-o FILE\<close>, to \<open>FILE.partial\<close>, which takes the name \<open>FILE\<close>
  when the copy is complete. The calls on the file system are a record of operations on the state
  the sinks write to. The lemmas show that \<open>FILE\<close> is never left half written.
\<close>

section \<open>The verb\<close>

record 'o fs_ops =
  fs_create :: "('o, unit, io_error) io"
  fs_remove :: "'o \<Rightarrow> 'o"
  fs_rename :: "('o, unit, io_error) io"

definition read_to_dest ::
  "string \<Rightarrow> string \<Rightarrow> ('d, 'z) dev_ops_scheme \<Rightarrow> 'd vhdx_reader \<Rightarrow> 'o sink_ops \<Rightarrow> 'o fs_ops \<Rightarrow> u64 \<Rightarrow> u64 \<Rightarrow>
   ('o, unit, cli_error) io" where
  "read_to_dest path dest ops r out fs offset len o1 =
     (let partial = dest @ ''.partial'' in
      case io_bind (io_map_err (\<lambda>e. CliFailed (''write '' @ partial @ '': '' @ io_message e)) (fs_create fs))
        (\<lambda>_. read_to_file path partial ops r out offset len) o1 of
        (Ok _, o2) \<Rightarrow>
          io_map_err (\<lambda>e. CliFailed (''rename to '' @ dest @ '': '' @ io_message e)) (fs_rename fs) o2
      | (Err e, o2) \<Rightarrow> (Err e, fs_remove fs o2)
      | (Panic, o2) \<Rightarrow> (Panic, o2))"

definition read_verb ::
  "ext \<Rightarrow> ('b, 'z) read_ops_scheme \<Rightarrow> string \<Rightarrow> ('b, fs_error) res \<Rightarrow> u64 option \<Rightarrow> u64 option \<Rightarrow>
   string option \<Rightarrow> 'o sink_ops \<Rightarrow> 'o sink_ops \<Rightarrow> 'o fs_ops \<Rightarrow> ('o, unit, cli_error) io" where
  "read_verb x bops path file offset len output stdout out fs =
     io_bind (io_lift (img_open x bops path file)) (\<lambda>(r, overlay).
     io_bind (io_lift (range_of (rd_virtual_size r) offset len)) (\<lambda>(offset, len).
     case output of
       None \<Rightarrow> read_to_stdout path (overlay_ops bops) r stdout offset len
     | Some dest \<Rightarrow> read_to_dest path dest (overlay_ops bops) r out fs offset len))"

section \<open>Lemmas\<close>

text \<open>What the copy does to a state is what its step does.\<close>

lemma copy_out_keeps:
  assumes "\<And>bs. io_keeps P (emit bs)"
  shows "io_keeps P (copy_out path ops r emit end buf at)"
proof (induction "unat end - unat at" arbitrary: at buf rule: less_induct)
  case less
  show ?case
  proof (cases "end \<le> at")
    case True
    then show ?thesis by (subst copy_out.simps) simp
  next
    case False
    let ?n = "min CHUNK (unat (end - at))"
    have IH: "io_keeps P (copy_out path ops r emit end b (at + word_of_nat ?n))" for b
      using copy_step [OF False] by (intro less) linarith
    have "io_keeps P (if go then copy_out path ops r emit end b (at + word_of_nat ?n) else io_return False)"
      for go b using IH by (cases go) auto
    then show ?thesis
      unfolding copy_out_step [OF False] by (intro io_keeps_bind io_keeps_lift assms)
  qed
qed

lemma copy_out_goes_on:
  assumes "\<And>bs s m s'. emit bs s = (Ok m, s') \<Longrightarrow> m"
  shows "copy_out path ops r emit end buf at s = (Ok go, s') \<Longrightarrow> go"
proof (induction "unat end - unat at" arbitrary: at buf s rule: less_induct)
  case less
  show ?case
  proof (cases "end \<le> at")
    case True
    then show ?thesis using less.prems by (simp add: copy_out.simps io_return_def)
  next
    case False
    let ?n = "min CHUNK (unat (end - at))"
    obtain bs s1 m where em: "emit bs s = (Ok m, s1)"
      and rest: "(if m then copy_out path ops r emit end (bs @ drop ?n buf) (at + word_of_nat ?n)
        else io_return False) s1 = (Ok go, s')"
      using less.prems unfolding copy_out_step [OF False] by (auto simp: io_Ok_iffs)
    have "unat end - unat (at + word_of_nat ?n) < unat end - unat at"
      using copy_step [OF False] by linarith
    then show ?thesis using less.hyps rest assms [OF em] by simp
  qed
qed

text \<open>
  An output file: a sink with the calls that make and name it, and \<open>dest\<close>, what stands under the
  name \<open>FILE\<close>. Only the renaming changes \<open>dest\<close>, and only when it succeeds.
\<close>

locale out_files = sink out sinvar logical final
  for out :: "'o sink_ops" and sinvar :: "'o \<Rightarrow> bool" and logical :: "'o \<Rightarrow> bytes" and final :: "'o \<Rightarrow> bytes" +
  fixes fs :: "'o fs_ops" and dest :: "'o \<Rightarrow> bytes option"
  assumes write_keeps: "io_keeps (\<lambda>s. dest s = D) (sink_write_all out bs)"
    and skip_keeps: "io_keeps (\<lambda>s. dest s = D) (sink_skip out n)"
    and set_len_keeps: "io_keeps (\<lambda>s. dest s = D) (sink_set_len out m)"
    and flush_keeps: "io_keeps (\<lambda>s. dest s = D) (sink_flush out)"
    and create_keeps: "io_keeps (\<lambda>s. dest s = D) (fs_create fs)"
    and remove_keeps: "dest (fs_remove fs s) = dest s"
    and create_law: "fs_create fs s = (Ok u, s') \<Longrightarrow> sinvar s' \<and> logical s' = []"
    and rename_law: "fs_rename fs s = (Ok u, s') \<Longrightarrow> dest s' = Some (final s)"
    and rename_fails: "fs_rename fs s = (res, s') \<Longrightarrow> res \<noteq> Ok () \<Longrightarrow> dest s' = dest s"
begin

lemma read_to_file_keeps:
  "io_keeps (\<lambda>s. dest s = D) (read_to_file path partial ops r out a n)"
proof -
  have "io_keeps (\<lambda>s. dest s = D) (emit_sparse partial out bs)" for bs
    unfolding emit_sparse_def using write_keeps skip_keeps
    by (intro io_keeps_bind io_keeps_map_err io_keeps_return) simp
  then show ?thesis
    unfolding read_to_file_def
    by (intro io_keeps_bind io_keeps_map_err copy_out_keeps set_len_keeps flush_keeps)
qed

text \<open>A copy that succeeds has put the range in the file.\<close>

lemma read_to_file_Ok:
  assumes "block_device ops invar contents" "invar (rd_dev r)" "geometry_ok r"
    and "unat a + unat n \<le> unat (rd_virtual_size r)" "sinvar s" "logical s = []"
    and "read_to_file path partial ops r out a n s = (Ok u, s')"
  shows "final s' = subslice (unat a) (unat a + unat n) (vdisk r (contents (rd_dev r)))"
proof -
  let ?c = "subslice (unat a) (unat a + unat n) (vdisk r (contents (rd_dev r)))"
  have e: "unat (a + n) = unat a + unat n"
    using assms(4) unat_lt_u64 [of "rd_virtual_size r"] by (intro unat_add_no_overflow) (simp del: unat_lt_u64)
  obtain go s1 s2 where c: "copy_out path ops r (emit_sparse partial out) (a + n) (replicate CHUNK 0) a s = (Ok go, s1)"
    and l: "sink_set_len out n s1 = (Ok (), s2)" and f: "sink_flush out s2 = (Ok (), s')"
    using assms(7) by (auto simp: read_to_file_def io_Ok_iffs)
  have "go" by (rule copy_out_goes_on [OF _ c]) (auto simp: emit_sparse_def io_Ok_iffs)
  then have c: "copy_out path ops r (emit_sparse partial out) (a + n) (replicate CHUNK 0) a s = (Ok True, s1)"
    using c by simp
  have "sinvar s1 \<and> logical s1 = logical s @ subslice (unat a) (unat (a + n)) (vdisk r (contents (rd_dev r)))"
    by (rule block_device.copy_out_Ok [where S = sinvar and f = logical, OF assms(1-3) _ _ assms(5) _ _ c])
      (use emit_sparse_Ok in \<open>auto simp: e assms(4)\<close>)
  then have s1: "sinvar s1" "logical s1 = ?c" by (simp_all add: e assms(6))
  have "length ?c = unat n" using assms(4) by simp
  then have "sinvar s2 \<and> final s2 = ?c" using sink_set_len [OF s1(1) l] s1(2) by simp
  then show ?thesis using sink_flush [OF _ f] by simp
qed

lemma read_to_dest_outcome:
  assumes "block_device ops invar contents" "invar (rd_dev r)" "geometry_ok r"
    and "unat a + unat n \<le> unat (rd_virtual_size r)"
    and "read_to_dest path name ops r out fs a n s = (res, s')"
  shows "if res = Ok () then dest s' = Some (subslice (unat a) (unat a + unat n) (vdisk r (contents (rd_dev r))))
    else dest s' = dest s"
proof -
  let ?copy = "io_bind (io_map_err (\<lambda>e. CliFailed (''write '' @ (name @ ''.partial'') @ '': '' @ io_message e)) (fs_create fs))
    (\<lambda>_. read_to_file path (name @ ''.partial'') ops r out a n)"
  obtain res1 s1 where c: "?copy s = (res1, s1)" by (metis surj_pair)
  have "io_keeps (\<lambda>t. dest t = dest s) ?copy"
    by (intro io_keeps_bind io_keeps_map_err create_keeps read_to_file_keeps)
  from io_keepsD [OF this refl c] have keep: "dest s1 = dest s" .
  show ?thesis
  proof (cases res1)
    case (Ok u)
    obtain res2 where rn: "fs_rename fs s1 = (res2, s')" "res = Ok () \<longleftrightarrow> res2 = Ok ()"
      using assms(5) c Ok by (auto simp: read_to_dest_def Let_def io_map_err_def split: prod.splits)
    obtain u1 s0 where s0: "fs_create fs s = (Ok u1, s0)"
      "read_to_file path (name @ ''.partial'') ops r out a n s0 = (Ok (), s1)"
      using c Ok by (auto simp: io_Ok_iffs)
    have "final s1 = subslice (unat a) (unat a + unat n) (vdisk r (contents (rd_dev r)))"
      using read_to_file_Ok [OF assms(1-4) _ _ s0(2)] create_law [OF s0(1)] by simp
    then show ?thesis
      using rn rename_law [of s1 "()" s'] rename_fails [OF rn(1)] keep by auto
  next
    case (Err e)
    then show ?thesis using assms(5) c keep remove_keeps by (auto simp: read_to_dest_def Let_def)
  next
    case Panic
    then show ?thesis using assms(5) c keep by (auto simp: read_to_dest_def Let_def)
  qed
qed

lemma read_verb_outcome:
  assumes "overlay_base bops binvar bcontents" "binvar b"
    and "read_verb x bops path (Ok b) offset len (Some name) stdout out fs s = (res, s')"
  shows "if res = Ok () then
      (\<exists>r ov a n. img_open x bops path (Ok b) = Ok (r, ov) \<and> range_of (rd_virtual_size r) offset len = Ok (a, n) \<and>
        dest s' = Some (subslice (unat a) (unat a + unat n) (vdisk r (overlay_contents bcontents ov))))
    else dest s' = dest s"
proof (cases "img_open x bops path (Ok b)")
  case (Ok opened)
  obtain r ov where o: "opened = (r, ov)" by (cases opened)
  note op = overlay_base.img_open_Ok(1-4) [OF assms(1,2) Ok [unfolded o]]
  have dev: "block_device (overlay_ops bops) (overlay_invar bops binvar) (overlay_contents bcontents)"
    by (rule overlay_base.ov_block [OF assms(1)])
  show ?thesis
  proof (cases "range_of (rd_virtual_size r) offset len")
    case range: (Ok an)
    obtain a n where an: "an = (a, n)" by (cases an)
    have "read_to_dest path name (overlay_ops bops) r out fs a n s = (res, s')"
      using assms(3) Ok range by (simp add: read_verb_def o an io_bind_def io_lift_def)
    from read_to_dest_outcome [OF dev _ _ _ this] show ?thesis
      using op range Ok by (auto simp: o an range_of_Ok_iff reader_ok_def split: if_splits)
  qed (use assms(3) Ok in \<open>auto simp: read_verb_def o io_bind_def io_lift_def\<close>)
qed (use assms(3) in \<open>auto simp: read_verb_def io_bind_def io_lift_def\<close>)

end

section \<open>The file system\<close>

text \<open>What stands under \<open>FILE\<close>, and the partial file with the position in it.\<close>

definition on_partial :: "(bytes \<times> nat, 'a, io_error) io \<Rightarrow> (bytes option \<times> bytes \<times> nat, 'a, io_error) io" where
  "on_partial m = (\<lambda>(d, p). case m p of (res, p') \<Rightarrow> (res, (d, p')))"

definition partial_sink :: "(bytes option \<times> bytes \<times> nat) sink_ops" where
  "partial_sink =
     \<lparr> sink_write_all = (\<lambda>bs. on_partial (sink_write_all file_sink bs)),
       sink_skip = (\<lambda>n. on_partial (sink_skip file_sink n)),
       sink_set_len = (\<lambda>n. on_partial (sink_set_len file_sink n)),
       sink_flush = on_partial (sink_flush file_sink) \<rparr>"

definition partial_fs :: "(bytes option \<times> bytes \<times> nat) fs_ops" where
  "partial_fs =
     \<lparr> fs_create = (\<lambda>(d, p). (Ok (), (d, [], 0))),
       fs_remove = (\<lambda>s. s),
       fs_rename = (\<lambda>(d, f, p). (Ok (), (Some f, f, p))) \<rparr>"

lemma on_partial_Ok:
  "on_partial m s = (res, s') \<longleftrightarrow> (\<exists>p'. m (snd s) = (res, p') \<and> s' = (fst s, p'))"
  by (cases s) (auto simp: on_partial_def split: prod.splits)

lemma on_partial_keeps: "io_keeps (\<lambda>s. fst s = D) (on_partial m)"
  by (rule io_keepsI) (auto simp: on_partial_Ok)

interpretation files: out_files partial_sink "\<lambda>s. file_invar (snd s)" "\<lambda>s. file_logical (snd s)" "\<lambda>s. fst (snd s)"
  partial_fs fst
proof (unfold_locales, goal_cases)
  case (1 s bs u s')
  then obtain p' where "s' = (fst s, p')" "sink_write_all file_sink bs (snd s) = (Ok (), p')"
    by (auto simp: partial_sink_def on_partial_Ok)
  then show ?case using fs.sink_write [OF 1(1)]  by simp
next
  case (2 s n u s')
  then obtain p' where "s' = (fst s, p')" "sink_skip file_sink n (snd s) = (Ok (), p')"
    by (auto simp: partial_sink_def on_partial_Ok)
  then show ?case using fs.sink_skip [OF 2(1)]  by simp
next
  case (3 s m u s')
  then obtain p' where "s' = (fst s, p')" "sink_set_len file_sink m (snd s) = (Ok (), p')"
    by (auto simp: partial_sink_def on_partial_Ok)
  then show ?case using fs.sink_set_len [OF 3(1)] 3(3) by simp
next
  case (4 s u s')
  then obtain p' where "s' = (fst s, p')" "sink_flush file_sink (snd s) = (Ok (), p')"
    by (auto simp: partial_sink_def on_partial_Ok)
  then show ?case using fs.sink_flush [OF 4(1)]  by simp
qed (auto simp: partial_sink_def partial_fs_def file_invar_def file_logical_def resize_def on_partial_keeps
    intro: io_keepsI)

end
