(* ===== verification/Img_Verbs.thy ===== *)
theory Img_Verbs
  imports Img_Read
begin

text \<open>
  \<open>src/cli/vhdx/img.rs\<close>, the verbs \<open>info\<close>, \<open>get\<close> and \<open>write\<close> as a whole and the dispatch of \<open>run\<close>.
  The JSON values of \<open>fs_core::cli\<close> are a type variable with a record of its constructors and its
  two accessors; \<open>json_contract\<close> states what looking a key up in an object gives. An \<open>Outcome\<close> is the
  constructor called, and what \<open>clap\<close> parsed is a datatype with one constructor per verb. The lemmas
  show which keys \<open>get\<close> answers and with what, and that one image piped into another copies the disk.
\<close>

section \<open>JSON\<close>

record 'j json_ops =
  json_null :: 'j
  json_string :: "string \<Rightarrow> 'j"
  json_u32 :: "u32 \<Rightarrow> 'j"
  json_u64 :: "u64 \<Rightarrow> 'j"
  json_bool :: "bool \<Rightarrow> 'j"
  json_u32_option :: "u32 option \<Rightarrow> 'j"
  json_u64_option :: "u64 option \<Rightarrow> 'j"
  json_object :: "(string \<times> 'j) list \<Rightarrow> 'j"
  json_get :: "'j \<Rightarrow> string \<Rightarrow> 'j option"
  json_to_text :: "'j \<Rightarrow> string"

definition json_contract :: "'j json_ops \<Rightarrow> bool" where
  "json_contract J \<longleftrightarrow>
     (\<forall>fields k. json_get J (json_object J fields) k = map_of fields k) \<and>
     (\<forall>k. json_get J (json_null J) k = None) \<and>
     (\<forall>s k. json_get J (json_string J s) k = None) \<and>
     (\<forall>n k. json_get J (json_u32 J n) k = None) \<and>
     (\<forall>n k. json_get J (json_u64 J n) k = None) \<and>
     (\<forall>b k. json_get J (json_bool J b) k = None) \<and>
     (\<forall>n k. json_get J (json_u32_option J n) k = None) \<and>
     (\<forall>n k. json_get J (json_u64_option J n) k = None)"

datatype 'j outcome = OutcomeDone | OutcomeReport 'j "string option"

section \<open>\<open>info\<close> and \<open>get\<close>\<close>

definition KEYS :: "string list" where
  "KEYS = [''format'', ''virtual_size'', ''block_size'', ''backing'', ''dirty'', ''vhdx'']"

definition report_vhdx :: "'j json_ops \<Rightarrow> report \<Rightarrow> (string \<times> 'j) list" where
  "report_vhdx J rep =
     [(''logical_sector_size'', json_u32 J (rep_logical_sector_size rep)),
      (''physical_sector_size'', json_u32_option J (rep_physical_sector_size rep)),
      (''header_sequence'', json_u64_option J (rep_header_sequence rep)),
      (''log_size'', json_u32_option J (rep_log_size rep))]"

definition report_fields :: "'j json_ops \<Rightarrow> report \<Rightarrow> (string \<times> 'j) list" where
  "report_fields J rep =
     [(''format'', json_string J ''vhdx''),
      (''virtual_size'', json_u64 J (rep_virtual_size rep)),
      (''block_size'', json_u32 J (rep_block_size rep)),
      (''backing'', json_null J),
      (''dirty'', json_bool J (rep_dirty rep)),
      (''vhdx'', json_object J (report_vhdx J rep))]"

definition report_json :: "'j json_ops \<Rightarrow> report \<Rightarrow> 'j" where
  "report_json J rep = json_object J (report_fields J rep)"

text \<open>\<open>str::split\<close> on a character, and \<open>[&str]::join\<close>.\<close>

fun split_on :: "char \<Rightarrow> string \<Rightarrow> string list" where
  "split_on c [] = [[]]"
| "split_on c (x # xs) =
     (if x = c then [] # split_on c xs
      else case split_on c xs of p # ps \<Rightarrow> (x # p) # ps | [] \<Rightarrow> [[x]])"

fun join_with :: "string \<Rightarrow> string list \<Rightarrow> string" where
  "join_with sep [] = []"
| "join_with sep [p] = p"
| "join_with sep (p # ps) = p @ sep @ join_with sep ps"

text \<open>\<open>{:?}\<close> of a text of ASCII characters.\<close>

definition debug_char :: "char \<Rightarrow> string" where
  "debug_char c =
     (let n = of_char c :: nat in
      if c = CHR 0x22 then [CHR 0x5C, CHR 0x22]
      else if c = CHR 0x5C then [CHR 0x5C, CHR 0x5C]
      else if n = 0 then CHR 0x5C # ''0''
      else if n = 9 then CHR 0x5C # ''t''
      else if n = 10 then CHR 0x5C # ''n''
      else if n = 13 then CHR 0x5C # ''r''
      else if n < 32 \<or> n = 127 then CHR 0x5C # ''u{'' @ show_radix 16 n @ ''}''
      else [c])"

definition debug_string :: "string \<Rightarrow> string" where
  "debug_string s = [CHR 0x22] @ concat (map debug_char s) @ [CHR 0x22]"

definition json_path :: "'j json_ops \<Rightarrow> 'j \<Rightarrow> string list \<Rightarrow> 'j option" where
  "json_path J all parts = fold (\<lambda>part v. Option.bind v (\<lambda>v. json_get J v part)) parts (Some all)"

text \<open>
  The file is opened once for the library and once more for the header the file itself holds; what
  the two calls give are two arguments.
\<close>

definition get_verb ::
  "ext \<Rightarrow> 'j json_ops \<Rightarrow> ('b, 'z) read_ops_scheme \<Rightarrow> string \<Rightarrow> ('b, fs_error) res \<Rightarrow> ('b, fs_error) res \<Rightarrow>
   string option \<Rightarrow> ('j outcome, cli_error) res" where
  "get_verb x J bops path file file_again key =
     res_bind (img_open x bops path file) (\<lambda>opened.
     res_bind (envelope x bops path file_again opened) (\<lambda>rep.
     let all = report_json J rep in
     case key of
       None \<Rightarrow> Ok (OutcomeReport all None)
     | Some key \<Rightarrow>
         (case json_path J all (split_on CHR ''.'' key) of
            None \<Rightarrow> Err (CliUsage (''no key '' @ debug_string key @ ''; the keys are '' @ join_with '', '' KEYS
              @ '' (and vhdx.<field>)''))
          | Some v \<Rightarrow> Ok (OutcomeReport (json_object J [(key, v)]) (Some (json_to_text J v))))))"

section \<open>\<open>write\<close>\<close>

text \<open>
  Standard input as a regular file: the clone of its descriptor, and whether its metadata say it is
  one. Whether it is the image: the device and the inode of both. Both answer nothing on targets
  that are not Unix.
\<close>

definition stdin_file :: "'f option \<Rightarrow> ('f \<Rightarrow> bool option) \<Rightarrow> 'f option" where
  "stdin_file cloned is_file =
     (case cloned of
        None \<Rightarrow> None
      | Some f \<Rightarrow> (case is_file f of Some True \<Rightarrow> Some f | _ \<Rightarrow> None))"

definition is_same_file :: "(u64 \<times> u64, io_error) res \<Rightarrow> (u64 \<times> u64, io_error) res \<Rightarrow> bool" where
  "is_same_file input_meta image_meta =
     (case (input_meta, image_meta) of (Ok a, Ok b) \<Rightarrow> fst a = fst b \<and> snd a = snd b | _ \<Rightarrow> False)"

text \<open>
  The verb, from what \<open>FileDevice\<close> gives for the path; it answers the outcome and the file as the
  verb leaves it, or no file when none was opened.
\<close>

definition write_report :: "'j json_ops \<Rightarrow> u64 \<Rightarrow> u64 \<Rightarrow> 'j outcome" where
  "write_report J offset written =
     OutcomeReport (json_object J [(''offset'', json_u64 J offset), (''bytes'', json_u64 J written)])
       (Some (''wrote '' @ show_nat (unat written) @ '' bytes at '' @ show_nat (unat offset)))"

definition write_verb ::
  "ext \<Rightarrow> 'j json_ops \<Rightarrow> ('d, 'z) dev_ops_scheme \<Rightarrow> string \<Rightarrow> ('d, fs_error) res \<Rightarrow> stdin \<Rightarrow> u64 \<Rightarrow>
   ('j outcome, cli_error) res \<times> 'd option" where
  "write_verb x J ops path file inp offset =
     (case res_map_err (write_error path) (res_map_err fs_core_to_vhdx_error file) of
        Err e \<Rightarrow> (Err e, None)
      | Panic \<Rightarrow> (Panic, None)
      | Ok dev \<Rightarrow>
          (case io_map_err (write_error path) (open_inner x ops True True) dev of
             (Err e, d) \<Rightarrow> (Err e, Some d)
           | (Panic, d) \<Rightarrow> (Panic, Some d)
           | (Ok r, d) \<Rightarrow>
               (case io_bind (write_guest x path ops inp offset) (\<lambda>written.
                  io_return (write_report J offset written)) r of
                  (res, r') \<Rightarrow> (res, Some (rd_dev r')))))"

section \<open>The dispatch\<close>

datatype verb =
    VInfo "string option"
  | VGet "string option"
  | VRead "u64 option" "u64 option" "string option"
  | VWrite u64
  | VCreate
  | VSet
  | VResize

text \<open>What a run works on: what opening the image gives, standard input, and what is written to.\<close>

record ('b, 'd, 'o) world =
  w_file :: "('b, fs_error) res"
  w_file_rw :: "('d, fs_error) res"
  w_stdin :: stdin
  w_out :: 'o

definition run_verb ::
  "ext \<Rightarrow> 'j json_ops \<Rightarrow> ('b, 'y) read_ops_scheme \<Rightarrow> ('d, 'z) dev_ops_scheme \<Rightarrow> 'o sink_ops \<Rightarrow> 'o sink_ops \<Rightarrow>
   'o fs_ops \<Rightarrow> string \<Rightarrow> verb \<Rightarrow> (('b, 'd, 'o) world, 'j outcome, cli_error) io" where
  "run_verb x J bops ops stdout out fs path v w =
     (case v of
        VInfo key \<Rightarrow> (get_verb x J bops path (w_file w) (w_file w) key, w)
      | VGet key \<Rightarrow> (get_verb x J bops path (w_file w) (w_file w) key, w)
      | VRead offset len output \<Rightarrow>
          (case io_bind (read_verb x bops path (w_file w) offset len output stdout out fs)
             (\<lambda>_. io_return OutcomeDone) (w_out w) of
             (res, o1) \<Rightarrow> (res, w\<lparr> w_out := o1 \<rparr>))
      | VWrite offset \<Rightarrow>
          (case write_verb x J ops path (w_file_rw w) (w_stdin w) offset of
             (res, d) \<Rightarrow> (res, w\<lparr> w_file_rw := (case d of Some d \<Rightarrow> Ok d | None \<Rightarrow> w_file_rw w) \<rparr>))
      | VCreate \<Rightarrow> (Err (CliNotImplemented ''create: this library has no VHDX image creator''), w)
      | VSet \<Rightarrow> (Err (CliNotImplemented ''set: this library changes no VHDX metadata item''), w)
      | VResize \<Rightarrow> (Err (CliNotImplemented ''resize: this library cannot resize a VHDX image''), w))"

section \<open>Lemmas: keys\<close>

lemma split_on_not_Nil [simp]: "split_on c s \<noteq> []"
  by (induction c s rule: split_on.induct) (auto split: list.splits)

lemma join_split: "join_with [c] (split_on c s) = s"
proof (induction c s rule: split_on.induct)
  case (2 c x xs)
  obtain p ps where "split_on c xs = p # ps" by (cases "split_on c xs") auto
  then show ?case using 2 by (cases ps) auto
qed simp

text \<open>The paths \<open>get\<close> answers, and their values.\<close>

definition report_table :: "'j json_ops \<Rightarrow> report \<Rightarrow> (string list \<times> 'j) list" where
  "report_table J rep =
     map (\<lambda>(k, v). ([k], v)) (report_fields J rep) @ map (\<lambda>(k, v). ([''vhdx'', k], v)) (report_vhdx J rep)"

lemma map_of_singletons: "map_of (map (\<lambda>(k, v). ([k], v)) fs) [p] = map_of fs p"
  "map_of (map (\<lambda>(k, v). ([k], v)) fs) (p # q # ps) = None"
  by (induction fs) auto

lemma map_of_pairs: "map_of (map (\<lambda>(k, v). ([a, k], v)) fs) [p, q] = (if p = a then map_of fs q else None)"
  "map_of (map (\<lambda>(k, v). ([a, k], v)) fs) [p] = None"
  "map_of (map (\<lambda>(k, v). ([a, k], v)) fs) (p # q # s # ps) = None"
  by (induction fs) auto

lemma map_of_report_table:
  "map_of (report_table J rep) [p] = map_of (report_fields J rep) p"
  "map_of (report_table J rep) [p, q] = (if p = ''vhdx'' then map_of (report_vhdx J rep) q else None)"
  "map_of (report_table J rep) (p # q # s # ps) = None"
  unfolding report_table_def map_of_append map_add_def map_of_singletons map_of_pairs
  by (simp_all split: option.splits)

lemma report_vhdx_leaf:
  "json_contract J \<Longrightarrow> map_of (report_vhdx J rep) q = Some v \<Longrightarrow> json_get J v s = None"
  by (auto simp: report_vhdx_def json_contract_def split: if_splits)

lemma report_field_get:
  assumes "json_contract J" "map_of (report_fields J rep) p = Some v"
  shows "json_get J v q = (if p = ''vhdx'' then map_of (report_vhdx J rep) q else None)"
  using assms by (auto simp: report_fields_def json_contract_def split: if_splits)

lemma json_path_None: "fold (\<lambda>part v. Option.bind v (\<lambda>v. json_get J v part)) ps None = None"
  by (induction ps) auto

lemma json_path_table:
  assumes "json_contract J" "parts \<noteq> []"
  shows "json_path J (report_json J rep) parts = map_of (report_table J rep) parts"
proof -
  have top: "json_get J (report_json J rep) p = map_of (report_fields J rep) p" for p
    using assms(1) by (simp add: report_json_def json_contract_def)
  consider p where "parts = [p]" | p q where "parts = [p, q]" | p q s ps where "parts = p # q # s # ps"
    using assms(2) by (metis list.exhaust)
  then show ?thesis
  proof cases
    case 1
    then show ?thesis
      by (simp add: json_path_def top map_of_report_table)
  next
    case 2
    have "Option.bind (map_of (report_fields J rep) p) (\<lambda>v. json_get J v q) =
        (if p = ''vhdx'' then map_of (report_vhdx J rep) q else None)"
      using report_field_get [OF assms(1)]
      by (cases "map_of (report_fields J rep) p") (auto simp: report_fields_def split: if_splits)
    then show ?thesis
      by (simp add: 2 json_path_def top map_of_report_table)
  next
    case 3
    have "Option.bind (Option.bind (map_of (report_fields J rep) p) (\<lambda>v. json_get J v q)) (\<lambda>v. json_get J v s) = None"
      using report_field_get [OF assms(1)] report_vhdx_leaf [OF assms(1)]
      by (cases "map_of (report_fields J rep) p"; cases "map_of (report_vhdx J rep) q") auto
    then show ?thesis
      by (simp add: 3 json_path_def top map_of_report_table json_path_None)
  qed
qed

lemma get_verb_answers:
  assumes "json_contract J" "img_open x bops path file = Ok opened" "envelope x bops path file2 opened = Ok rep"
  shows "get_verb x J bops path file file2 (Some key) =
    (case map_of (report_table J rep) (split_on CHR ''.'' key) of
       Some v \<Rightarrow> Ok (OutcomeReport (json_object J [(key, v)]) (Some (json_to_text J v)))
     | None \<Rightarrow> Err (CliUsage (''no key '' @ debug_string key @ ''; the keys are '' @ join_with '', '' KEYS
         @ '' (and vhdx.<field>)'')))"
  by (simp add: get_verb_def assms(2,3) json_path_table [OF assms(1)] Let_def)

section \<open>Lemmas: one image into another\<close>

text \<open>\<open>img.vhdx src.vhdx read | img.vhdx dst.vhdx write --offset 0\<close>\<close>

lemma piped_copy:
  assumes src: "reliable_device ops invar contents" "invar (rd_dev r)"
      "unat (rd_dev_size r) \<le> length (contents (rd_dev r))" "geometry_ok r"
      "\<forall>v < unat (rd_virtual_size r). readable r v"
    and dst: "reliable_device ops2 invar2 contents2" "invar2 (rd_dev r2)" "crc_contract x"
      "disk_inv (contents2 (rd_dev r2)) r2" "rd_writable r2" "\<forall>v < unat (rd_virtual_size r2). accepts r2 v"
    and same: "rd_virtual_size r2 = rd_virtual_size r"
  shows "\<exists>s r2'. read_to_stdout path ops r file_sink 0 (rd_virtual_size r) ([], 0) = (Ok (), s) \<and>
    write_guest x path2 ops2 (StdinPipe (Ok (file_logical s))) 0 r2 = (Ok (rd_virtual_size r), r2') \<and>
    vdisk r2' (contents2 (rd_dev r2')) = vdisk r (contents (rd_dev r))"
proof -
  let ?v = "vdisk r (contents (rd_dev r))"
  have "unat (0 :: u64) + unat (rd_virtual_size r) \<le> unat (rd_virtual_size r)" by simp
  from reliable_device.read_out_copies(2) [OF src(1-4) this, of path] src(5)
  obtain s where s: "read_to_stdout path ops r file_sink 0 (rd_virtual_size r) ([], 0) = (Ok (), s)"
    "file_logical s = ?v" by auto
  have "\<exists>r2'. write_guest x path2 ops2 (StdinPipe (Ok ?v)) 0 r2 = (Ok (word_of_nat (length ?v)), r2') \<and>
      vdisk r2' (contents2 (rd_dev r2')) = overwrite (unat (0 :: u64)) ?v (vdisk r2 (contents2 (rd_dev r2)))"
    using reliable_device.write_guest_pipe [OF dst(1-5), of 0 ?v path2] dst(6) same by auto
  then show ?thesis using s same by (auto simp: overwrite_def)
qed

end
