(* ===== verification/Reader_Device.thy ===== *)
theory Reader_Device
  imports Reader_Write
begin

text \<open>
  The reader as a block device, and so one image inside another. \<open>src/reader.rs\<close> implements the
  traits of \<open>fs_core\<close> for \<open>VhdxReader\<close>, and its \<open>set_len\<close> is the refusal of the trait: the
  device it gives does not grow. The locale \<open>steady_device\<close> is the contract of such a device: no
  panic, reads and writes that succeed where the device says it gives and takes bytes, and writes
  that leave the bytes outside their range alone whatever their outcome. The reader meets it over
  a device that obliges (\<open>reliable_device\<close>) and over one that meets it itself, so it holds of
  images nested to any depth; what an inner image cannot do is allocate.
\<close>

section \<open>Reads never panic\<close>

text \<open>
  A read of an open reader asks the device only for bytes inside the file, so it is enough that the
  device does not panic there. A reliable device and a calm one both promise that much.
\<close>

locale quiet_read = block_read ops invar contents
  for ops :: "('d, 'z) dev_ops_scheme" and invar :: "'d \<Rightarrow> bool" and contents :: "'d \<Rightarrow> bytes" +
  assumes read_quiet: "invar d \<Longrightarrow> unat off + n \<le> length (contents d) \<Longrightarrow> dev_read_at ops d off n \<noteq> Panic"

sublocale reliable_device \<subseteq> quiet: quiet_read ops invar contents
  by unfold_locales (metis read_succeeds is_Ok.simps(3))

sublocale calm_device \<subseteq> quiet: quiet_read ops invar contents
  by unfold_locales (rule read_calm)

lemma piece_mono: "piece r off n c w \<Longrightarrow> n \<le> m \<Longrightarrow> piece r off m c w"
  by (auto simp: piece_def)

context quiet_read
begin

lemma read_chunk_quiet:
  assumes "invar (rd_dev r)" "unat (rd_dev_size r) \<le> length (contents (rd_dev r))"
    and "piece r off (length buf) ch w"
  shows "read_chunk ops r ch buf \<noteq> Panic \<and> (\<forall>b. read_chunk ops r ch buf = Ok b \<longrightarrow> length b = length buf)"
proof -
  let ?p = "bc_buf_pos ch" and ?n = "bc_chunk_len ch" and ?e = "rd_bat r ! slot_of r w"
  have fits: "?p + ?n \<le> length buf" and idx: "bc_bat_idx ch = slot_of r w" "slot_of r w < length (rd_bat r)"
    and n: "?n \<le> block_bytes r"
    using assms(3) by (auto simp: piece_def)
  have n64: "?n < 2 ^ 64" using n unat_lt_u32 [of "rd_block_size r"] by (simp del: unat_lt_u32)
  have dl: "length (subslice ?p (?p + ?n) buf) = ?n" using fits by simp
  have read: "reader_dev_read ops r h ?n \<noteq> Panic \<and>
      (\<forall>b. reader_dev_read ops r h ?n = Ok b \<longrightarrow> length b = ?n)"
    if "host_offset r (be_file_offset ?e) (bc_in_block ch) ?n = Ok h" for h
  proof -
    have h: "unat (be_file_offset ?e) + unat (bc_in_block ch) + ?n \<le> unat (rd_dev_size r)"
      "h = be_file_offset ?e + bc_in_block ch"
      using host_offset_Ok_iff [OF n64, THEN iffD1, OF that] by simp_all
    then have "unat h = unat (be_file_offset ?e) + unat (bc_in_block ch)"
      using unat_lt_u64 [of "rd_dev_size r"] by (simp add: unat_add_no_overflow del: unat_lt_u64)
    then show ?thesis
      using read_quiet [OF assms(1), of h ?n] read_law [OF assms(1) n64, of h] h(1) assms(2)
      by (auto simp: reader_dev_read_def)
  qed
  then show ?thesis
    using fits host_offset_cases [of r "be_file_offset ?e" "bc_in_block ch" ?n]
    by (cases "be_state ?e")
      (auto simp: read_chunk_def Let_def bat_entry_at_def idx dl res_bind_Panic_iff res_bind_Ok_iff
        simp del: length_subslice)
qed

lemma read_chunks_quiet:
  assumes "invar (rd_dev r)" "unat (rd_dev_size r) \<le> length (contents (rd_dev r))"
    and "\<forall>c \<in> set cs. \<exists>w. piece r off (length buf) c w"
  shows "read_chunks ops r cs buf \<noteq> Panic"
  using assms(3)
proof (induction cs arbitrary: buf)
  case (Cons c cs)
  then obtain w where "piece r off (length buf) c w" by auto
  from read_chunk_quiet [OF assms(1,2) this] Cons show ?case
    by (auto simp: res_bind_Panic_iff)
qed simp

lemma read_at_quiet:
  assumes "invar (rd_dev r)" "unat (rd_dev_size r) \<le> length (contents (rd_dev r))" "geometry_ok r"
  shows "read_at ops r off buf \<noteq> Panic"
proof -
  let ?len = "word_of_nat (length buf) :: u64"
  have le: "unat ?len \<le> length buf" "unat ?len < 2 ^ 64" by (simp_all add: unat_of_nat)
  show ?thesis
  proof (cases rule: transfer_end_cases [of "unat ?len" r off, OF le(2), case_names empty refused transfer])
    case empty
    then have "?len = 0" by (simp add: unat_eq_zero)
    then show ?thesis using empty by (simp add: read_at_def)
  next
    case transfer
    then obtain cs where cs: "block_chunks r off (off + ?len) = Ok cs"
      "\<forall>c \<in> set cs. \<exists>w. piece r (unat off) (unat ?len) c w"
      using block_chunks_pieces [OF assms(3), of off "unat ?len"] by auto
    then have "read_chunks ops r cs buf \<noteq> Panic"
      using piece_mono [OF _ le(1)] by (intro read_chunks_quiet [OF assms(1,2)]) blast
    then show ?thesis using transfer cs(1) by (simp add: read_at_def)
  qed (auto simp: read_at_def)
qed

end

context calm_device
begin

lemma opened_read_quiet:
  assumes "invar d" "open_inner x ops w rc d = (Ok r, d')"
  shows "read_at ops r off buf \<noteq> Panic"
proof -
  note r = open_inner_reader_ok [OF assms]
  then show ?thesis
    using quiet.read_at_quiet [of r off buf] by (auto simp: reader_ok_def)
qed

end

section \<open>The part of a buffer a write looks at\<close>

text \<open>
  A buffer's length reaches the code as a \<open>u64\<close>, so a list longer than any slice is written as
  its first part. The contract asks that a write keep the invariant whatever it is given.
\<close>

lemma write_chunk_take:
  assumes "bc_buf_pos c + bc_chunk_len c \<le> n" "n \<le> length buf"
  shows "write_chunk x ops (take n buf) c = write_chunk x ops buf c"
proof -
  have "subslice (bc_buf_pos c) (bc_buf_pos c + bc_chunk_len c) (take n buf) =
      subslice (bc_buf_pos c) (bc_buf_pos c + bc_chunk_len c) buf"
    using assms by (intro nth_equalityI) (auto simp: nth_subslice)
  then have "get_slice (take n buf) (bc_buf_pos c) (bc_buf_pos c + bc_chunk_len c) =
      (get_slice buf (bc_buf_pos c) (bc_buf_pos c + bc_chunk_len c) :: (bytes, error) res)"
    using assms by (simp add: get_slice_def)
  then show ?thesis by (simp add: write_chunk_def)
qed

lemma io_foreach_cong:
  "(\<And>c. c \<in> set cs \<Longrightarrow> f c = g c) \<Longrightarrow> io_foreach f cs = io_foreach g cs"
  by (induction cs) simp_all

lemma write_at_take:
  fixes buf :: bytes
  assumes "geometry_ok r"
  defines "n \<equiv> unat (word_of_nat (length buf) :: u64)"
  shows "write_at x ops off (take n buf) r = write_at x ops off buf r"
proof -
  have le: "n \<le> length buf" by (simp add: n_def unat_of_nat)
  have w: "word_of_nat (length (take n buf)) = (word_of_nat (length buf) :: u64)"
    using le by (simp add: n_def min_absorb2)
  show ?thesis
  proof (cases "transfer_end r off (word_of_nat (length buf)) = Ok (Some (off + word_of_nat (length buf)))")
    case True
    then have "unat off + n \<le> unat (rd_virtual_size r)"
      by (auto simp: transfer_end_Ok_iff n_def split: if_splits)
    then obtain cs where cs: "block_chunks r off (off + word_of_nat n) = Ok cs"
      "\<forall>c \<in> set cs. \<exists>v. piece r (unat off) n c v"
      using block_chunks_pieces [OF assms(1)] by blast
    have "io_foreach (write_chunk x ops (take n buf)) cs = io_foreach (write_chunk x ops buf) cs"
      using cs(2) le by (intro io_foreach_cong write_chunk_take) (auto simp: piece_def)
    then show ?thesis
      using True cs(1) w by (simp add: write_at_def n_def)
  next
    case False
    have "transfer_end r off (word_of_nat (length buf)) \<noteq> Ok (Some e)" for e
    proof
      assume "transfer_end r off (word_of_nat (length buf)) = Ok (Some e)"
      then show False
        using False by (cases "word_of_nat (length buf) = (0 :: u64)")
          (auto simp: transfer_end_def checked_add_def split: if_splits)
    qed
    then have "write_at x ops off b r = (if \<not> rd_writable r then (Err ReadOnly, r)
        else case transfer_end r off (word_of_nat (length buf)) of
          Err e \<Rightarrow> (Err e, r) | Panic \<Rightarrow> (Panic, r) | _ \<Rightarrow> (Ok (), r))"
      if "word_of_nat (length b) = (word_of_nat (length buf) :: u64)" for b
      using that by (auto simp: write_at_def io_bind_def io_lift_def io_return_def split: res.splits option.splits)
    then show ?thesis using w by simp
  qed
qed

section \<open>The device\<close>

definition image_ok :: "('d \<Rightarrow> bool) \<Rightarrow> ('d \<Rightarrow> bytes) \<Rightarrow> 'd vhdx_reader \<Rightarrow> bool" where
  "image_ok dev_ok content r \<longleftrightarrow> dev_ok (rd_dev r) \<and> disk_inv (content (rd_dev r)) r"

definition disk_of :: "('d \<Rightarrow> bytes) \<Rightarrow> 'd vhdx_reader \<Rightarrow> bytes" where
  "disk_of content r = vdisk r (content (rd_dev r))"

lemma length_disk_of [simp]: "length (disk_of content r) = unat (rd_virtual_size r)"
  by (simp add: disk_of_def)

lemma disk_of_nth: "v < unat (rd_virtual_size r) \<Longrightarrow> disk_of content r ! v = vbyte r (content (rd_dev r)) v"
  by (simp add: disk_of_def vdisk_def)

lemma image_geometry: "image_ok dev_ok content r \<Longrightarrow> geometry_ok r"
  by (simp add: image_ok_def disk_inv_def reader_ok_def)

section \<open>The contract of a device that does not grow\<close>

locale steady_device = calm_device ops invar contents
  for ops :: "('d, 'z) dev_ops_scheme" and invar :: "'d \<Rightarrow> bool" and contents :: "'d \<Rightarrow> bytes" +
  fixes gives takes :: "'d \<Rightarrow> nat \<Rightarrow> bool"
  assumes read_given: "invar d \<Longrightarrow> unat off + n \<le> length (contents d) \<Longrightarrow>
      \<forall>v. unat off \<le> v \<longrightarrow> v < unat off + n \<longrightarrow> gives d v \<Longrightarrow> is_Ok (dev_read_at ops d off n)"
    and write_taken: "invar d \<Longrightarrow> bs \<noteq> [] \<Longrightarrow> unat off + length bs \<le> length (contents d) \<Longrightarrow>
      \<forall>v. unat off \<le> v \<longrightarrow> v < unat off + length bs \<longrightarrow> takes d v \<Longrightarrow> is_Ok (fst (dev_write_at ops off bs d))"
    and write_confined: "invar d \<Longrightarrow> dev_write_at ops off bs d = (res, d') \<Longrightarrow> v < length (contents d) \<Longrightarrow>
      v < unat off \<or> unat off + length bs \<le> v \<Longrightarrow> contents d' ! v = contents d ! v"
    and write_serves: "invar d \<Longrightarrow> dev_write_at ops off bs d = (res, d') \<Longrightarrow>
      (gives d v \<longrightarrow> gives d' v) \<and> (takes d v \<longrightarrow> takes d' v)"
    and flush_serves: "invar d \<Longrightarrow> dev_flush ops d = (res, d') \<Longrightarrow>
      (gives d v \<longrightarrow> gives d' v) \<and> (takes d v \<longrightarrow> takes d' v)"
    and flush_goes: "invar d \<Longrightarrow> is_Ok (fst (dev_flush ops d))"
    and length_fixed: "invar d \<Longrightarrow> \<exists>e. dev_set_len ops m d = (Err e, d)"

text \<open>
  The reader meets it over any device on which its pieces are written as they should be, and its
  reads answer.
\<close>

locale image_over = block_device ops invar contents +
  piece_writer x ops "image_ok invar contents" "\<lambda>r. vbyte r (contents (rd_dev r))" gives takes
  for ops :: "('d, 'z) dev_ops_scheme" and invar :: "'d \<Rightarrow> bool" and contents :: "'d \<Rightarrow> bytes"
    and x :: ext and gives takes :: "'d vhdx_reader \<Rightarrow> nat \<Rightarrow> bool" +
  assumes image_reads: "image_ok invar contents r \<Longrightarrow> unat off + n \<le> unat (rd_virtual_size r) \<Longrightarrow>
      \<forall>v. unat off \<le> v \<longrightarrow> v < unat off + n \<longrightarrow> gives r v \<Longrightarrow> is_Ok (read_at ops r off (replicate n 0))"
    and image_quiet: "image_ok invar contents r \<Longrightarrow> read_at ops r off buf \<noteq> Panic"
begin

lemma image_write:
  assumes "image_ok invar contents r" "write_at x ops off buf r = (res, r')"
  shows "res \<noteq> Panic" "image_ok invar contents r'" "same_geometry r r'"
    "gives r v \<longrightarrow> gives r' v" "takes r v \<longrightarrow> takes r' v"
    and "v < unat (rd_virtual_size r) \<Longrightarrow> v < unat off \<or> unat off + length buf \<le> v \<Longrightarrow>
      disk_of contents r' ! v = disk_of contents r ! v"
    and "length buf < 2 ^ 64 \<Longrightarrow> res = Ok () \<Longrightarrow>
      (buf \<noteq> [] \<longrightarrow> unat off + length buf \<le> unat (rd_virtual_size r)) \<and>
      disk_of contents r' = overwrite (unat off) buf (disk_of contents r)"
    and "rd_writable r \<Longrightarrow> unat off + length buf \<le> unat (rd_virtual_size r) \<Longrightarrow>
      \<forall>v. unat off \<le> v \<longrightarrow> v < unat off + length buf \<longrightarrow> takes r v \<Longrightarrow> res = Ok ()"
proof -
  let ?n = "unat (word_of_nat (length buf) :: u64)"
  let ?buf = "take ?n buf" and ?W = "wrote (image_ok invar contents) (\<lambda>r. vbyte r (contents (rd_dev r))) gives takes"
  have short: "length ?buf \<le> length buf" "length ?buf < 2 ^ 64"
    using unat_lt_u64 [of "word_of_nat (length buf)"] by (simp_all del: unat_lt_u64)
  have "write_at x ops off ?buf r = (res, r')"
    unfolding write_at_take [OF image_geometry [OF assms(1)]] by (rule assms(2))
  from write_done [OF assms(1) short(2) this]
  consider (went) "rd_writable r" "?buf \<noteq> [] \<longrightarrow> unat off + length ?buf \<le> unat (rd_virtual_size r)"
      "?W (unat off) ?buf r res r'"
    | (refused) e where "r' = r" "res = Err e"
        "\<not> (rd_writable r \<and> (?buf \<noteq> [] \<longrightarrow> unat off + length ?buf \<le> unat (rd_virtual_size r)))"
    by (auto split: if_splits)
  then have all: "res \<noteq> Panic \<and> image_ok invar contents r' \<and> same_geometry r r' \<and>
    (\<forall>v. gives r v \<longrightarrow> gives r' v) \<and> (\<forall>v. takes r v \<longrightarrow> takes r' v) \<and>
    (\<forall>v < unat (rd_virtual_size r). v < unat off \<or> unat off + length buf \<le> v \<longrightarrow>
      vbyte r' (contents (rd_dev r')) v = vbyte r (contents (rd_dev r)) v) \<and>
    (res = Ok () \<longrightarrow> (?buf \<noteq> [] \<longrightarrow> unat off + length ?buf \<le> unat (rd_virtual_size r)) \<and>
      (\<forall>v < unat (rd_virtual_size r). vbyte r' (contents (rd_dev r')) v =
        vpatch (vbyte r (contents (rd_dev r))) (unat off) ?buf v)) \<and>
    (rd_writable r \<longrightarrow> unat off + length ?buf \<le> unat (rd_virtual_size r) \<longrightarrow>
      (\<forall>v. unat off \<le> v \<longrightarrow> v < unat off + length ?buf \<longrightarrow> takes r v) \<longrightarrow> res = Ok ())"
  proof cases
    case went
    then show ?thesis
      using short(1) unfolding wrote_def by (auto simp: vpatch_def split: if_splits)
  next
    case refused
    then show ?thesis using assms(1) by auto
  qed
  then show "res \<noteq> Panic" "image_ok invar contents r'" "same_geometry r r'"
    "gives r v \<longrightarrow> gives r' v" "takes r v \<longrightarrow> takes r' v" by blast+
  then have sz: "rd_virtual_size r' = rd_virtual_size r" by (simp add: same_geometry_def)
  have "\<forall>v < unat (rd_virtual_size r). v < unat off \<or> unat off + length buf \<le> v \<longrightarrow>
      vbyte r' (contents (rd_dev r')) v = vbyte r (contents (rd_dev r)) v"
    using all by blast
  then show "v < unat (rd_virtual_size r) \<Longrightarrow> v < unat off \<or> unat off + length buf \<le> v \<Longrightarrow>
      disk_of contents r' ! v = disk_of contents r ! v"
    unfolding disk_of_def vdisk_def sz by auto
  have whole: "?buf = buf" if "length buf < 2 ^ 64" using that by (simp add: unat_of_nat_u64)
  show "(buf \<noteq> [] \<longrightarrow> unat off + length buf \<le> unat (rd_virtual_size r)) \<and>
      disk_of contents r' = overwrite (unat off) buf (disk_of contents r)"
    if "length buf < 2 ^ 64" "res = Ok ()"
  proof -
    have v: "buf \<noteq> [] \<longrightarrow> unat off + length buf \<le> unat (rd_virtual_size r)"
      "\<forall>v < unat (rd_virtual_size r). disk_of contents r' ! v =
        vpatch (vbyte r (contents (rd_dev r))) (unat off) buf v"
    proof -
      have "(buf \<noteq> [] \<longrightarrow> unat off + length buf \<le> unat (rd_virtual_size r)) \<and>
        (\<forall>v < unat (rd_virtual_size r). vbyte r' (contents (rd_dev r')) v =
          vpatch (vbyte r (contents (rd_dev r))) (unat off) buf v)"
        using all that(2) unfolding whole [OF that(1)] by blast
      then show "buf \<noteq> [] \<longrightarrow> unat off + length buf \<le> unat (rd_virtual_size r)"
        "\<forall>v < unat (rd_virtual_size r). disk_of contents r' ! v =
          vpatch (vbyte r (contents (rd_dev r))) (unat off) buf v"
        by (simp_all add: disk_of_nth sz)
    qed
    have "disk_of contents r' = overwrite (unat off) buf (disk_of contents r)"
    proof (cases "buf = []")
      case True
      then have "disk_of contents r' = disk_of contents r"
        using v(2) by (intro nth_equalityI) (simp_all add: sz disk_of_nth)
      then show ?thesis using True by (simp add: overwrite_def)
    next
      case False
      show ?thesis
      proof (rule nth_equalityI)
        fix i assume "i < length (disk_of contents r')"
        then have i: "i < unat (rd_virtual_size r)" by (simp add: sz)
        have "overwrite (unat off) buf (disk_of contents r) ! i =
            (if unat off \<le> i \<and> i < unat off + length buf then buf ! (i - unat off) else disk_of contents r ! i)"
          using v(1) False i by (intro nth_overwrite) simp_all
        then show "disk_of contents r' ! i = overwrite (unat off) buf (disk_of contents r) ! i"
          using v(2) i by (simp add: vpatch_def disk_of_nth)
      qed (use v(1) False in \<open>simp add: sz\<close>)
    qed
    then show ?thesis using v(1) by blast
  qed
  show "res = Ok ()" if "rd_writable r" "unat off + length buf \<le> unat (rd_virtual_size r)"
    "\<forall>v. unat off \<le> v \<longrightarrow> v < unat off + length buf \<longrightarrow> takes r v"
    using all that short(1) by auto
qed

lemma image_flush:
  assumes "image_ok invar contents r" "reader_flush ops r = (res, r')"
  shows "res = Ok ()" "image_ok invar contents r'" "disk_of contents r' = disk_of contents r"
    "rd_virtual_size r' = rd_virtual_size r" "rd_writable r' = rd_writable r"
    "gives r v \<longrightarrow> gives r' v" "takes r v \<longrightarrow> takes r' v"
proof -
  have all: "res = Ok () \<and> image_ok invar contents r' \<and> same_geometry r r' \<and>
    (\<forall>v < unat (rd_virtual_size r). vbyte r' (contents (rd_dev r')) v = vbyte r (contents (rd_dev r)) v) \<and>
    (gives r v \<longrightarrow> gives r' v) \<and> (takes r v \<longrightarrow> takes r' v)"
  proof (cases "rd_writable r")
    case True
    then have "reader_dev_flush ops r = (res, r')" using assms(2) by (simp add: reader_flush_def)
    from flush_done [OF assms(1) this, of 0] show ?thesis by (auto simp: wrote_def)
  qed (use assms in \<open>auto simp: reader_flush_def\<close>)
  then show "res = Ok ()" "image_ok invar contents r'" "rd_virtual_size r' = rd_virtual_size r"
    "rd_writable r' = rd_writable r" "gives r v \<longrightarrow> gives r' v" "takes r v \<longrightarrow> takes r' v"
    by (simp_all add: same_geometry_def)
  with all show "disk_of contents r' = disk_of contents r"
    by (intro nth_equalityI) (simp_all add: disk_of_nth)
qed

end

sublocale image_over \<subseteq> rdr: block_device "reader_ops x ops" "image_ok invar contents" "disk_of contents"
proof (unfold_locales, goal_cases)
  case (2 r n off bs)
  then have "read_at ops r off (replicate n 0) = Ok bs" by (simp add: reader_ops_def)
  from read_at_Ok [OF _ image_geometry [OF 2(1)] _ this] 2(1,2) show ?case
    by (auto simp: image_ok_def disk_of_def nth_subslice intro!: nth_equalityI)
next
  case (3 r off bs res r')
  then show ?case
    using image_write(2,3) [OF 3(1), of off bs]
    by (auto simp: reader_ops_def io_map_err_def same_geometry_def split: prod.splits)
next
  case (4 r bs off u r')
  then show ?case
    using image_write(7) [OF 4(1), of off bs "Ok ()" r'] by (auto simp: reader_ops_def io_map_err_Ok_iff)
next
  case (5 r res r')
  then show ?case
    using image_flush(2,3) [OF 5(1)] by (auto simp: reader_ops_def io_map_err_def split: prod.splits)
qed (auto simp: reader_ops_def disk_of_def)

sublocale image_over \<subseteq> rdr: steady_device "reader_ops x ops" "image_ok invar contents" "disk_of contents"
  gives "\<lambda>r v. rd_writable r \<and> takes r v"
proof (unfold_locales, goal_cases)
  case (1 r off n)
  then show ?case using image_quiet by (auto simp: reader_ops_def)
next
  case (2 r off bs)
  then show ?case
    using image_write(1) [OF 2] by (auto simp: reader_ops_def io_map_err_def split: prod.splits)
next
  case (3 r)
  then show ?case
    using image_flush(1) [OF 3] by (auto simp: reader_ops_def io_map_err_def split: prod.splits)
next
  case (5 r off n)
  then show ?case using image_reads [of r off n] by (auto simp: reader_ops_def is_Ok_iff)
next
  case (6 r bs off)
  have "rd_writable r" using 6(2,4) by (cases bs) auto
  then show ?case
    using 6 image_write(8) [OF 6(1), of off bs "fst (write_at x ops off bs r)" "snd (write_at x ops off bs r)"]
    by (auto simp: reader_ops_def io_map_err_def is_Ok_iff split: prod.splits)
next
  case (7 r off bs res r' v)
  then show ?case
    using image_write(6) [OF 7(1), of off bs] by (auto simp: reader_ops_def io_map_err_def split: prod.splits)
next
  case (8 r off bs res r' v)
  then show ?case
    using image_write(3-5) [OF 8(1), of off bs]
    by (auto simp: reader_ops_def io_map_err_def same_geometry_def split: prod.splits)
next
  case (9 r res r' v)
  then show ?case
    using image_flush(5-7) [OF 9(1)] by (auto simp: reader_ops_def io_map_err_def split: prod.splits)
next
  case (10 r)
  then show ?case
    using image_flush(1) [OF 10] by (auto simp: reader_ops_def io_map_err_def is_Ok_iff split: prod.splits)
qed (auto simp: reader_ops_def)

section \<open>An image over a device that obliges\<close>

locale vhdx_over = reliable_device ops invar contents
  for ops :: "('d, 'z) dev_ops_scheme" and invar :: "'d \<Rightarrow> bool" and contents :: "'d \<Rightarrow> bytes" +
  fixes x :: ext
  assumes crc: "crc_contract x"

lemma image_ok_fun: "image_ok dev_ok content = (\<lambda>r. dev_ok (rd_dev r) \<and> disk_inv (content (rd_dev r)) r)"
  by (simp add: fun_eq_iff image_ok_def)

sublocale vhdx_over \<subseteq> img: image_over ops invar contents x accepts accepts
proof (intro image_over.intro image_over_axioms.intro, goal_cases)
  case 1
  show ?case by (rule block_device_axioms)
next
  case 2
  show ?case unfolding image_ok_fun by (rule piece_writer_over [OF crc])
next
  case (3 r off n)
  then have inv: "invar (rd_dev r)" "disk_inv (contents (rd_dev r)) r" by (simp_all add: image_ok_def)
  from read_at_vdisk [OF this, of off "replicate n 0"] 3(2,3) show ?case by simp
next
  case (4 r off buf)
  then show ?case
    using quiet.read_at_quiet by (auto simp: image_ok_def disk_inv_def reader_ok_def)
qed

section \<open>An image inside a device that does not grow\<close>

text \<open>
  A byte is given where its block reads as zeros or lies where the device gives; it is taken where
  its block is present and the device takes.
\<close>

definition place_of :: "'d vhdx_reader \<Rightarrow> nat \<Rightarrow> nat" where
  "place_of r v = block_start r (slot_of r v) + v mod block_bytes r"

definition image_gives :: "('d \<Rightarrow> nat \<Rightarrow> bool) \<Rightarrow> 'd vhdx_reader \<Rightarrow> nat \<Rightarrow> bool" where
  "image_gives gives r v \<longleftrightarrow>
     (let st = be_state (rd_bat r ! slot_of r v) in
      zero_fill st \<or> st = FullyPresent \<and> gives (rd_dev r) (place_of r v))"

definition image_takes :: "('d \<Rightarrow> nat \<Rightarrow> bool) \<Rightarrow> 'd vhdx_reader \<Rightarrow> nat \<Rightarrow> bool" where
  "image_takes takes r v \<longleftrightarrow>
     be_state (rd_bat r ! slot_of r v) = FullyPresent \<and> takes (rd_dev r) (place_of r v)"

lemma place_of_dev [simp]: "place_of (r\<lparr> rd_dev := d \<rparr>) v = place_of r v"
  by (simp add: place_of_def slot_of_def)

lemma image_ok_present:
  assumes "image_ok dev_ok content r" "v < unat (rd_virtual_size r)" "be_state (rd_bat r ! slot_of r v) = FullyPresent"
  shows "present r (slot_of r v)" "block_start r (slot_of r v) + block_bytes r \<le> unat (rd_dev_size r)"
    "unat (rd_dev_size r) = length (content (rd_dev r))"
proof -
  show p: "present r (slot_of r v)" using assms(2,3) by (auto simp: present_def payload_slot_def)
  show "unat (rd_dev_size r) = length (content (rd_dev r))"
    using assms(1) by (simp add: image_ok_def disk_inv_def reader_ok_def)
  then show "block_start r (slot_of r v) + block_bytes r \<le> unat (rd_dev_size r)"
    using assms(1) p by (simp add: image_ok_def disk_inv_def layout_ok_def)
qed

lemma place_of_within:
  assumes "v = w + k" "w mod block_bytes r + k < block_bytes r"
  shows "slot_of r v = slot_of r w" "place_of r v = place_of r w + k"
proof -
  have "0 < block_bytes r" "k < block_bytes r - w mod block_bytes r" using assms(2) by linarith+
  note at = within_block [OF this]
  then show same: "slot_of r v = slot_of r w" by (simp add: slot_of_eq_iff assms(1))
  show "place_of r v = place_of r w + k"
    unfolding place_of_def same using at(2) by (simp add: assms(1))
qed

context steady_device
begin

text \<open>A write that fails half-way stored some bytes in its range, so it is a write of those bytes.\<close>

lemma write_stores:
  assumes "invar d" "unat off + length bs \<le> length (contents d)" "dev_write_at ops off bs d = (res, d')"
  obtains bs' where "length bs' = length bs" "contents d' = overwrite (unat off) bs' (contents d)"
    "res = Ok () \<longrightarrow> bs' = bs" "invar d'" "res \<noteq> Panic"
proof -
  let ?bs = "subslice (unat off) (unat off + length bs) (contents d')"
  have inv: "invar d'" and len: "length (contents d') = length (contents d)"
    using write_invar [OF assms(1,3)] by auto
  have l: "length ?bs = length bs" using assms(2) len by simp
  have "contents d' ! v = overwrite (unat off) ?bs (contents d) ! v" if v: "v < length (contents d)" for v
    using write_confined [OF assms(1,3) v] v l assms(2) len
    by (subst nth_overwrite) (auto simp: nth_subslice simp del: length_subslice)
  then have c: "contents d' = overwrite (unat off) ?bs (contents d)"
    using l assms(2) len by (intro nth_equalityI) (simp_all del: length_subslice)
  have "length bs < 2 ^ 64" using assms(2) contents_bound [OF assms(1)] by linarith
  then have "contents d' = overwrite (unat off) bs (contents d)" if "res = Ok ()"
    using write_law [OF assms(1)] assms(3) that by blast
  then have "res = Ok () \<longrightarrow> ?bs = bs" using assms(2) by (auto intro!: subslice_overwrite_same)
  moreover have "res \<noteq> Panic" using write_calm [OF assms(1), of off bs] assms(3) by auto
  ultimately show thesis by (intro that [OF l c _ inv])
qed

lemma allocation_refused:
  assumes "invar (rd_dev r)"
  shows "\<exists>e. allocate_block_for x ops i r = (Err e, r)"
proof -
  obtain e where "dev_set_len ops m (rd_dev r) = (Err (e m), rd_dev r)" for m
    using length_fixed [OF assms] by metis
  then show ?thesis
    by (simp add: allocate_block_for_def claim_tail_def Let_def on_dev_def io_bind_def)
qed

lemma inner_piece:
  assumes "image_ok invar contents r" "piece r off (length buf) ch w" "off + length buf \<le> unat (rd_virtual_size r)"
    and "0 < bc_chunk_len ch" "write_chunk x ops buf ch r = (res, r')"
  shows "wrote (image_ok invar contents) (\<lambda>r. vbyte r (contents (rd_dev r))) (image_gives gives) (image_takes takes)
    w (subslice (bc_buf_pos ch) (bc_buf_pos ch + bc_chunk_len ch) buf) r res r'"
proof -
  let ?src = "subslice (bc_buf_pos ch) (bc_buf_pos ch + bc_chunk_len ch) buf" and ?i = "slot_of r w"
  let ?st = "be_state (rd_bat r ! ?i)" and ?off = "be_file_offset (rd_bat r ! ?i)"
  have job: "job_at r w (ch, ?src)" by (rule piece_job [OF assms(2,3)])
  then have w: "w < unat (rd_virtual_size r)" and fits: "w mod block_bytes r + length ?src \<le> block_bytes r"
    by (simp_all add: job_at_def)
  have "bc_buf_pos ch + bc_chunk_len ch \<le> length buf" using assms(2) unfolding piece_def by blast
  then have n: "0 < length ?src" using assms(4) by simp
  have inv: "invar (rd_dev r)" "disk_inv (contents (rd_dev r)) r" using assms(1) by (simp_all add: image_ok_def)
  note run = assms(5) [unfolded write_chunk_eq [OF assms(2)]]
  show ?thesis
  proof (cases "?st = FullyPresent")
    case False
    then obtain e where "block_for_write x ops ?i (rd_bat r ! ?i) r = (Err e, r)"
      using allocation_refused [OF inv(1), of x ?i] by (cases ?st) (auto simp: block_for_write_def io_lift_def)
    then have "res = Err e" "r' = r" using run by (simp_all add: io_bind_def)
    moreover have "\<not> (\<forall>v. w \<le> v \<longrightarrow> v < w + length ?src \<longrightarrow> image_takes takes r v)"
      using n False by (auto simp: image_takes_def simp del: length_subslice)
    ultimately show ?thesis using assms(1) by (simp add: wrote_def del: length_subslice)
  next
    case True
    note p = image_ok_present [OF assms(1) w True] and place = place_fits [OF image_ok_present(2) [OF assms(1) w True] job]
    have at: "unat (?off + bc_in_block ch) = place_of r w" using place(2) by (simp add: place_of_def)
    have in_dev: "place_of r w + length ?src \<le> length (contents (rd_dev r))"
      using p(2,3) fits unfolding place_of_def by linarith
    obtain res1 d' where wd: "dev_write_at ops (?off + bc_in_block ch) ?src (rd_dev r) = (res1, d')" by (metis surj_pair)
    have "reader_dev_write ops (?off + bc_in_block ch) ?src r = (res, r')"
      using run True place(1) by (simp add: block_for_write_def io_return_def io_bind_def del: length_subslice)
    then have out: "r' = r\<lparr> rd_dev := d' \<rparr>" "res = Ok () \<longleftrightarrow> res1 = Ok ()" "res = Panic \<longleftrightarrow> res1 = Panic"
      using wd by (cases res1; auto simp: reader_dev_write_def on_dev_def)+
    obtain bs' where st: "length bs' = length ?src" "contents d' = overwrite (place_of r w) bs' (contents (rd_dev r))"
      "res1 = Ok () \<longrightarrow> bs' = ?src" "invar d'" "res1 \<noteq> Panic"
      using write_stores [OF inv(1) _ wd] in_dev unfolding at by blast
    have fits': "w mod block_bytes r + length bs' \<le> block_bytes r" using fits st(1) by linarith
    have ok: "image_ok invar contents r'"
      using store_disk_inv [OF inv(2) p(1) fits'] st(2,4) by (simp add: image_ok_def out(1) place_of_def)
    have byte: "vbyte r' (contents (rd_dev r')) v = vpatch (vbyte r (contents (rd_dev r))) w bs' v"
      if "v < unat (rd_virtual_size r)" for v
      using store_vbyte [OF _ _ p(1) fits' that, of "contents (rd_dev r)"] inv(2) st(2)
      by (simp add: out(1) place_of_def disk_inv_def)
    have serves: "image_gives gives r v \<longrightarrow> image_gives gives r' v" "image_takes takes r v \<longrightarrow> image_takes takes r' v" for v
      using write_serves [OF inv(1) wd] by (auto simp: image_gives_def image_takes_def out(1) Let_def slot_of_def)
    have goes: "res = Ok ()" if t: "\<forall>v. w \<le> v \<longrightarrow> v < w + length ?src \<longrightarrow> image_takes takes r v"
    proof -
      have "takes (rd_dev r) v" if v: "place_of r w \<le> v" "v < place_of r w + length ?src" for v
      proof -
        define k where "k = v - place_of r w"
        have k: "v = place_of r w + k" "k < length ?src" using v unfolding k_def by linarith+
        have "image_takes takes r (w + k)" using t k(2) by simp
        then show ?thesis
          using place_of_within(2) [of "w + k" w k r] k fits by (simp add: image_takes_def del: length_subslice)
      qed
      then have "is_Ok (fst (dev_write_at ops (?off + bc_in_block ch) ?src (rd_dev r)))"
        using n in_dev by (intro write_taken [OF inv(1)]) (auto simp: at simp del: length_subslice)
      then show ?thesis using wd out(2) by (simp add: is_Ok_iff)
    qed
    show ?thesis
      unfolding wrote_def
    proof (intro conjI allI impI)
      fix v assume v: "v < unat (rd_virtual_size r)"
      show "vbyte r' (contents (rd_dev r')) v = (if res = Ok () then vpatch (vbyte r (contents (rd_dev r))) w ?src v
          else if w \<le> v \<and> v < w + length ?src then vbyte r' (contents (rd_dev r')) v
          else vbyte r (contents (rd_dev r)) v)"
        using byte [OF v] st(1,3) out(2) by (auto simp: vpatch_def simp del: length_subslice)
    qed (use st(5) out(3) ok serves goes in \<open>auto simp: out(1)\<close>)
  qed
qed

lemma inner_read_chunk:
  assumes "image_ok invar contents r" "piece r off (length buf) ch w" "off + length buf \<le> unat (rd_virtual_size r)"
    and "\<forall>v. w \<le> v \<longrightarrow> v < w + bc_chunk_len ch \<longrightarrow> image_gives gives r v" "0 < bc_chunk_len ch"
  shows "\<exists>bs. read_chunk ops r ch buf = Ok (overwrite (bc_buf_pos ch) bs buf) \<and> length bs = bc_chunk_len ch"
proof -
  let ?p = "bc_buf_pos ch" and ?n = "bc_chunk_len ch" and ?i = "slot_of r w"
  let ?st = "be_state (rd_bat r ! ?i)" and ?off = "be_file_offset (rd_bat r ! ?i)"
  have inv: "invar (rd_dev r)" using assms(1) by (simp add: image_ok_def)
  have job: "job_at r w (ch, subslice ?p (?p + ?n) buf)" by (rule piece_job [OF assms(2,3)])
  have pc: "?p + ?n \<le> length buf" "bc_bat_idx ch = ?i" "?i < length (rd_bat r)"
    using assms(2) unfolding piece_def by blast+
  then have l: "length (subslice ?p (?p + ?n) buf) = ?n" by simp
  have w: "w < unat (rd_virtual_size r)" and fits: "w mod block_bytes r + ?n \<le> block_bytes r"
    using job unfolding job_at_def by (simp_all add: l del: length_subslice)
  note defs = read_chunk_def Let_def bat_entry_at_def pc l
  have "image_gives gives r w" using assms(4,5) by simp
  then consider (zero) "zero_fill ?st" | (there) "?st = FullyPresent" by (auto simp: image_gives_def Let_def)
  then show ?thesis
  proof cases
    case zero
    have "\<exists>bs. overwrite ?p (replicate ?n 0) buf = overwrite ?p bs buf \<and> length bs = ?n"
      by (rule exI [of _ "replicate ?n 0"]) simp
    then show ?thesis using zero pc(1) by (cases ?st) (simp_all add: defs copy_into_def get_slice_def del: length_subslice)
  next
    case there
    note p = image_ok_present [OF assms(1) w there]
    note place = place_fits [OF p(2) job, unfolded snd_conv l]
    have at: "unat (?off + bc_in_block ch) = place_of r w" using place(2) by (simp add: place_of_def)
    have in_dev: "place_of r w + ?n \<le> length (contents (rd_dev r))"
      using p(2,3) fits unfolding place_of_def by linarith
    have "gives (rd_dev r) v" if v: "place_of r w \<le> v" "v < place_of r w + ?n" for v
    proof -
      define k where "k = v - place_of r w"
      have k: "v = place_of r w + k" "k < ?n" using v by (simp_all add: k_def)
      have "image_gives gives r (w + k)" using assms(4) k(2) by simp
      then show ?thesis
        using place_of_within [of "w + k" w k r] k fits there by (simp add: image_gives_def)
    qed
    then have "is_Ok (dev_read_at ops (rd_dev r) (?off + bc_in_block ch) ?n)"
      using in_dev by (intro read_given [OF inv]) (auto simp: at)
    then obtain bs where bs: "dev_read_at ops (rd_dev r) (?off + bc_in_block ch) ?n = Ok bs" by (auto simp: is_Ok_iff)
    have "?n < 2 ^ 64" using in_dev contents_bound [OF inv] by linarith
    then have "length bs = ?n" using read_law [OF inv _ bs] by blast
    then show ?thesis
      using there bs pc(1) place(1)
      by (auto simp: defs copy_into_def get_slice_def reader_dev_read_def simp del: length_subslice)
  qed
qed

lemma inner_read_chunks:
  assumes "image_ok invar contents r" "off + length buf \<le> unat (rd_virtual_size r)"
    and "tiles (block_bytes r) (unat (rd_chunk_ratio r)) (off + length buf) w p cs" "off \<le> w"
    and "\<forall>c \<in> set cs. \<exists>w. piece r off (length buf) c w" "p = w - off"
    and "\<forall>v. off \<le> v \<longrightarrow> v < off + length buf \<longrightarrow> image_gives gives r v"
  shows "is_Ok (read_chunks ops r cs buf)"
  using assms(2-)
proof (induction cs arbitrary: buf w p)
  case (Cons ch cs)
  let ?n = "bc_chunk_len ch"
  have b: "0 < block_bytes r"
    using image_geometry [OF assms(1)] block_size_ok_pos by (fastforce simp: geometry_ok_def)
  have t: "w < off + length buf" "bc_buf_pos ch = w - off" "0 < ?n"
    "tiles (block_bytes r) (unat (rd_chunk_ratio r)) (off + length buf) (w + ?n) (p + ?n) cs"
    using Cons.prems(2,5) b by auto
  obtain w' where pc': "piece r off (length buf) ch w'" using Cons.prems(4) by auto
  then have "w' = w" using t(1,2) Cons.prems(3) by (auto simp: piece_def)
  with pc' have pc: "piece r off (length buf) ch w" by simp
  then have fit: "bc_buf_pos ch + ?n \<le> length buf" unfolding piece_def by blast
  obtain bs where bs: "read_chunk ops r ch buf = Ok (overwrite (bc_buf_pos ch) bs buf)" "length bs = ?n"
    using inner_read_chunk [OF assms(1) pc Cons.prems(1) _ t(3)] Cons.prems(3,6) fit t(2) by auto
  then have "length (overwrite (bc_buf_pos ch) bs buf) = length buf" using fit by simp
  then have "is_Ok (read_chunks ops r cs (overwrite (bc_buf_pos ch) bs buf))"
    using Cons.IH [of "overwrite (bc_buf_pos ch) bs buf" "w + ?n" "p + ?n"] Cons.prems t(4) by simp
  then show ?case using bs(1) by simp
qed simp

lemma inner_read:
  assumes "image_ok invar contents r" "unat off + length buf \<le> unat (rd_virtual_size r)"
    and "\<forall>v. unat off \<le> v \<longrightarrow> v < unat off + length buf \<longrightarrow> image_gives gives r v"
  shows "is_Ok (read_at ops r off buf)"
proof -
  have l: "length buf < 2 ^ 64" using assms(2) unat_lt_u64 [of "rd_virtual_size r"] by (simp del: unat_lt_u64)
  show ?thesis
  proof (cases rule: transfer_end_cases [OF l, of r off, case_names empty refused transfer])
    case transfer
    obtain cs where cs: "block_chunks r off (off + word_of_nat (length buf)) = Ok cs"
      "tiles (block_bytes r) (unat (rd_chunk_ratio r)) (unat off + length buf) (unat off) 0 cs"
      "\<forall>c \<in> set cs. \<exists>w. piece r (unat off) (length buf) c w"
      using block_chunks_pieces [OF image_geometry [OF assms(1)] transfer(3)] by blast
    have "is_Ok (read_chunks ops r cs buf)"
      by (rule inner_read_chunks [OF assms(1,2) cs(2) order_refl cs(3) _ assms(3)]) simp
    then show ?thesis using transfer(2) cs(1) by (simp add: read_at_def)
  qed (use assms(2) in \<open>auto simp: read_at_def\<close>)
qed

end

locale vhdx_inside = steady_device ops invar contents gives takes
  for ops :: "('d, 'z) dev_ops_scheme" and invar :: "'d \<Rightarrow> bool" and contents :: "'d \<Rightarrow> bytes"
    and gives takes :: "'d \<Rightarrow> nat \<Rightarrow> bool" +
  fixes x :: ext

sublocale vhdx_inside \<subseteq> img: image_over ops invar contents x "image_gives gives" "image_takes takes"
proof (unfold_locales, goal_cases)
  case (1 r)
  then show ?case by (rule image_geometry)
next
  case (2 r off buf ch w res r')
  then show ?case by (rule inner_piece)
next
  case (3 r res r' lo)
  have inv: "invar (rd_dev r)" using 3(1) by (simp add: image_ok_def)
  obtain d' where d': "dev_flush ops (rd_dev r) = (Ok (), d')"
    using flush_goes [OF inv] by (cases "dev_flush ops (rd_dev r)") (auto simp: is_Ok_iff)
  have "res = Ok ()" "r' = r\<lparr> rd_dev := d' \<rparr>"
    using 3(2) d' by (simp_all add: reader_dev_flush_def on_dev_def)
  then show ?case
    using 3(1) flush_law [OF inv d'] flush_serves [OF inv d']
    by (auto simp: wrote_def image_ok_def image_gives_def image_takes_def Let_def slot_of_def)
next
  case (4 r off n)
  then show ?case using inner_read [of r off "replicate n 0"] by simp
next
  case (5 r off buf)
  then show ?case
    using quiet.read_at_quiet by (auto simp: image_ok_def disk_inv_def reader_ok_def)
qed

section \<open>Images in images\<close>

lemma vhdx_overI: "reliable_device ops invar contents \<Longrightarrow> crc_contract x \<Longrightarrow> vhdx_over ops invar contents x"
  by (simp add: vhdx_over_def vhdx_over_axioms_def)

lemma vhdx_insideI: "steady_device ops invar contents gives takes \<Longrightarrow> vhdx_inside ops invar contents gives takes"
  by (simp add: vhdx_inside_def)

context vhdx_over
begin

lemma image_is_steady:
  "steady_device (reader_ops x ops) (image_ok invar contents) (disk_of contents) accepts
    (\<lambda>r v. rd_writable r \<and> accepts r v)"
  by (rule img.rdr.steady_device_axioms)

end

context vhdx_inside
begin

lemma inner_image_is_steady:
  "steady_device (reader_ops x ops) (image_ok invar contents) (disk_of contents) (image_gives gives)
    (\<lambda>r v. rd_writable r \<and> image_takes takes r v)"
  by (rule img.rdr.steady_device_axioms)

end

interpretation vec_vhdx: vhdx_over vec_ops vec_invar "\<lambda>v. v" sum_ext
  by unfold_locales (rule sum_ext_contract)

interpretation nested_vhdx: vhdx_inside "reader_ops sum_ext vec_ops" "image_ok vec_invar (\<lambda>v. v)"
  "disk_of (\<lambda>v. v)" accepts "\<lambda>r v. rd_writable r \<and> accepts r v" sum_ext
  by (rule vhdx_insideI [OF vec_vhdx.image_is_steady])

end
