(* ===== verification/Fuzz.thy ===== *)
theory Fuzz
  imports Reader_Device
begin

text \<open>
  The fuzz crate: \<open>fuzz/shared/walk.rs\<close>, which presents a byte vector as a device and opens and
  reads the image in it, and the five targets of \<open>fuzz/fuzz_targets\<close>. \<open>Bytes\<close> implements
  \<open>BlockRead\<close> itself and takes every method of \<open>BlockDevice\<close> from the trait's defaults in
  \<open>rust-fs-core\<close>, which are a parameter; \<open>read_only_defaults\<close> says what the source relies on.
  A target discards every result, so it returns or it panics, and the lemmas show that none of
  them panics on any input a \<open>Vec\<close> can hold.
\<close>

section \<open>The device\<close>

abbreviation USIZE_MAX :: nat where "USIZE_MAX \<equiv> 2 ^ 64 - 1"

definition bytes_read_at :: "bytes \<Rightarrow> u64 \<Rightarrow> nat \<Rightarrow> (bytes, fs_error) res" where
  "bytes_read_at v offset n =
     (let start = unat offset;
          end = min (start + n) USIZE_MAX in
      if length v < end then Err (FsShortRead offset n (length v - start))
      else
        res_bind (get_slice v start end) (\<lambda>src.
        copy_into (replicate n 0) 0 n src))"

definition bytes_size :: "bytes \<Rightarrow> u64" where
  "bytes_size v = word_of_nat (length v)"

definition bytes_ops :: "bytes dev_ops \<Rightarrow> bytes dev_ops" where
  "bytes_ops defaults = defaults\<lparr> dev_size_bytes := bytes_size, dev_read_at := bytes_read_at \<rparr>"

text \<open>The default \<open>write_at\<close> answers \<open>ReadOnly\<close>; no default touches the bytes or panics.\<close>

definition read_only_defaults :: "bytes dev_ops \<Rightarrow> bool" where
  "read_only_defaults d \<longleftrightarrow>
     (\<forall>off bs v. dev_write_at d off bs v = (Err FsReadOnly, v)) \<and>
     (\<forall>v. fst (dev_flush d v) \<noteq> Panic \<and> snd (dev_flush d v) = v) \<and>
     (\<forall>n v. \<exists>e. dev_set_len d n v = (Err e, v))"

text \<open>A \<open>Vec\<close> holds at most \<open>isize::MAX\<close> bytes.\<close>

definition vec_sized :: "bytes \<Rightarrow> bool" where
  "vec_sized v \<longleftrightarrow> length v < 2 ^ 63"

section \<open>The walk\<close>

abbreviation READ_BUDGET :: u64 where "READ_BUDGET \<equiv> 1048576"

text \<open>
  A step at each block boundary, at most 64 of them. A read that fails leaves the buffer in a state
  nothing looks at; the model keeps the old one.
\<close>

function walk_reads ::
  "bytes dev_ops \<Rightarrow> bytes vhdx_reader \<Rightarrow> u64 \<Rightarrow> nat \<Rightarrow> bytes \<Rightarrow> (unit, error) res" where
  "walk_reads ops reader at steps buf =
     (if at < min (reader_virtual_size reader) READ_BUDGET \<and> steps < 64 then
        res_bind (res_ok (read_at ops reader at buf)) (\<lambda>got.
        walk_reads ops reader (saturating_add at (ucast (reader_block_size reader))) (steps + 1)
          (case got of Some b \<Rightarrow> b | None \<Rightarrow> buf))
      else Ok ())"
  by pat_completeness auto

termination walk_reads
  by (relation "measure (\<lambda>(ops, reader, at, steps, buf). 64 - steps)") auto

declare walk_reads.simps [simp del]

definition walk_opened :: "bytes dev_ops \<Rightarrow> bytes vhdx_reader \<Rightarrow> (unit, error) res" where
  "walk_opened ops reader =
     (let virtual_size = reader_virtual_size reader;
          block = reader_block_size reader in
      res_bind (if 0 < block then walk_reads ops reader 0 0 (replicate 512 0) else Ok ()) (\<lambda>_.
      let want = unat (min virtual_size READ_BUDGET) in
      if 0 < want then
        res_bind (res_ok (read_at ops reader 0 (replicate want 0))) (\<lambda>_. Ok ())
      else Ok ()))"

definition walk :: "ext \<Rightarrow> bytes dev_ops \<Rightarrow> bytes \<Rightarrow> (unit, error) res" where
  "walk x defaults img =
     (let dev = bytes_ops defaults in
      res_bind (res_ok (fst (open_on_device x dev img))) (\<lambda>opened.
      case opened of None \<Rightarrow> Ok () | Some reader \<Rightarrow> walk_opened dev reader))"

section \<open>The targets\<close>

definition fuzz_header :: "ext \<Rightarrow> bytes \<Rightarrow> (unit, error) res" where
  "fuzz_header x data =
     res_bind (res_ok (header_parse x data)) (\<lambda>_.
     res_bind (res_ok (header_compute_crc x data)) (\<lambda>_. Ok ()))"

definition fuzz_region_table :: "ext \<Rightarrow> bytes \<Rightarrow> (unit, error) res" where
  "fuzz_region_table x data =
     res_bind (res_ok (region_table_parse x data)) (\<lambda>parsed.
     let _ = (case parsed of
         Some table \<Rightarrow> (region_unknown_required table, region_find table (replicate 16 0))
       | None \<Rightarrow> (None, None)) in
     res_bind (res_ok (region_compute_crc x data)) (\<lambda>_. Ok ()))"

definition fuzz_metadata :: "bytes \<Rightarrow> (unit, error) res" where
  "fuzz_metadata data =
     res_bind (res_ok (metadata_table_parse data)) (\<lambda>parsed.
     res_bind
       (case parsed of
          Some table \<Rightarrow>
            (let _ = metadata_unknown_required table in
             res_bind (item_data table (replicate 16 0)) (\<lambda>item.
             case item of
               Some bs \<Rightarrow> res_bind (res_ok (file_parameters_parse bs)) (\<lambda>_. Ok ())
             | None \<Rightarrow> Ok ()))
        | None \<Rightarrow> Ok ()) (\<lambda>_.
     res_bind (res_ok (file_parameters_parse data)) (\<lambda>_. Ok ())))"

definition fuzz_log_guid :: "bytes \<Rightarrow> (guid, error) res" where
  "fuzz_log_guid data =
     (let take = min (length data) 16 in
      res_bind (get_slice data 0 take) (\<lambda>src.
      res_bind (copy_into (replicate 16 1) 0 take src) (\<lambda>guid.
      Ok (if list_all (\<lambda>b. b = 0) guid then guid[0 := 1] else guid))))"

definition fuzz_log :: "ext \<Rightarrow> bytes \<Rightarrow> (unit, error) res" where
  "fuzz_log x data =
     res_bind (fuzz_log_guid data) (\<lambda>guid.
     res_bind (res_ok (collect_replay_chain x data guid)) (\<lambda>_. Ok ()))"

definition fuzz_image :: "ext \<Rightarrow> bytes dev_ops \<Rightarrow> bytes \<Rightarrow> (unit, error) res" where
  "fuzz_image x defaults data = walk x defaults data"

section \<open>The device is a calm one\<close>

lemma bytes_read_at_eq:
  assumes "vec_sized v"
  shows "bytes_read_at v off n =
    (if unat off + n \<le> length v then Ok (subslice (unat off) (unat off + n) v)
     else Err (FsShortRead off n (length v - unat off)))"
proof (cases "unat off + n \<le> length v")
  case True
  then show ?thesis
    using assms by (simp add: bytes_read_at_def Let_def vec_sized_def min_absorb1 overwrite_def)
next
  case False
  then have "length v < min (unat off + n) USIZE_MAX" using assms by (simp add: vec_sized_def)
  then show ?thesis using False by (simp add: bytes_read_at_def Let_def)
qed

lemma bytes_calm:
  assumes "read_only_defaults d"
  shows "calm_device (bytes_ops d) vec_sized (\<lambda>v. v)"
proof -
  have wr: "dev_write_at d off bs v = (Err FsReadOnly, v)"
    and flush: "fst (dev_flush d v) \<noteq> Panic" "snd (dev_flush d v) = v"
    and set_len: "\<exists>e. dev_set_len d n v = (Err e, v)" for off bs n v
    using assms by (simp_all add: read_only_defaults_def)
  show ?thesis
  proof (unfold_locales, goal_cases)
    case (1 v)
    then show ?case by (simp add: bytes_ops_def bytes_size_def vec_sized_def unat_of_nat)
  next
    case (2 v n off bs)
    then show ?case by (auto simp: bytes_ops_def bytes_read_at_eq split: if_splits)
  next
    case (9 v off n)
    then show ?case by (simp add: bytes_ops_def bytes_read_at_eq)
  next
    case (5 v r v')
    then show ?case using flush [of v] by (simp add: bytes_ops_def)
  next
    case (6 v m r v')
    then show ?case using set_len [of m v] by (auto simp: bytes_ops_def)
  next
    case (7 v m u v')
    then show ?case using set_len [of m v] by (auto simp: bytes_ops_def)
  next
    case (8 v m r v')
    then show ?case using set_len [of m v] by (auto simp: bytes_ops_def)
  next
    case (11 v)
    then show ?case using flush [of v] by (simp add: bytes_ops_def)
  next
    case (12 v m)
    then show ?case using set_len [of m v] by (auto simp: bytes_ops_def)
  qed (simp_all add: bytes_ops_def wr)
qed

section \<open>No target panics\<close>

lemma res_ok_not_Err [simp]: "res_ok m \<noteq> Err e"
  by (cases m) simp_all

lemma res_ok_Panic_iff [simp]: "res_ok m = Panic \<longleftrightarrow> m = Panic"
  by (cases m) simp_all

lemma discard_Ok: "m \<noteq> Panic \<Longrightarrow> (\<And>a. f a = Ok ()) \<Longrightarrow> res_bind (res_ok m) f = Ok ()"
  by (cases m) simp_all

lemma walk_reads_Ok:
  assumes "\<And>off buf. read_at ops r off buf \<noteq> Panic"
  shows "walk_reads ops r at steps buf = Ok ()"
proof (induction "64 - steps" arbitrary: at steps buf rule: less_induct)
  case less
  show ?case
  proof (cases "at < min (reader_virtual_size r) READ_BUDGET \<and> steps < 64")
    case True
    then have "walk_reads ops r at' (steps + 1) b = Ok ()" for at' b by (intro less) (use True in simp)
    then show ?thesis
      using assms [of at buf] by (subst walk_reads.simps) (auto intro!: discard_Ok)
  next
    case False
    then show ?thesis by (subst walk_reads.simps) (simp only: if_False)
  qed
qed

lemma walk_opened_Ok: "(\<And>off buf. read_at ops r off buf \<noteq> Panic) \<Longrightarrow> walk_opened ops r = Ok ()"
  by (simp add: walk_opened_def Let_def walk_reads_Ok discard_Ok)

lemma walk_Ok:
  assumes "read_only_defaults d" "vec_sized v"
  shows "walk x d v = Ok ()"
proof -
  note calm = bytes_calm [OF assms(1)]
  obtain res v' where op: "open_on_device x (bytes_ops d) v = (res, v')"
    by (cases "open_on_device x (bytes_ops d) v")
  then have "res \<noteq> Panic"
    using io_calmD [OF calm_device.open_inner_calm [OF calm] assms(2)] by (simp add: open_on_device_def)
  moreover have "walk_opened (bytes_ops d) r = Ok ()" if "res = Ok r" for r
    using calm_device.opened_read_quiet [OF calm assms(2)] op that
    by (intro walk_opened_Ok) (simp add: open_on_device_def)
  ultimately show ?thesis by (cases res) (simp_all add: walk_def Let_def op)
qed

lemma compute_crc_not_Panic [simp]:
  "header_compute_crc x b \<noteq> Panic" "region_compute_crc x b \<noteq> Panic"
  by (simp_all add: header_compute_crc_def region_compute_crc_def res_bind_Panic_iff get_slice_def copy_into_def)

lemma fuzz_header_Ok: "fuzz_header x data = Ok ()"
  by (simp add: fuzz_header_def discard_Ok)

lemma fuzz_region_table_Ok: "fuzz_region_table x data = Ok ()"
  by (simp add: fuzz_region_table_def discard_Ok)

lemma fuzz_metadata_Ok: "fuzz_metadata data = Ok ()"
proof -
  have "res_bind (item_data t i) (\<lambda>item. case item of
      Some bs \<Rightarrow> res_bind (res_ok (file_parameters_parse bs)) (\<lambda>_. Ok ()) | None \<Rightarrow> Ok ()) = Ok ()" for t i
    by (cases "item_data t i :: (bytes option, error) res")
      (auto simp: item_data_def Let_def discard_Ok split: option.splits if_splits)
  note item = this
  have last: "res_bind (res_ok (file_parameters_parse data)) (\<lambda>_. Ok ()) = (Ok () :: (unit, error) res)"
    by (simp add: discard_Ok)
  show ?thesis
    unfolding fuzz_metadata_def Let_def last
    by (cases "metadata_table_parse data")
      (simp_all only: item res_ok.simps res_bind.simps option.case metadata_table_parse_not_Panic)
qed

lemma fuzz_log_guid_Ok: "\<exists>g. fuzz_log_guid data = Ok g \<and> length g = 16 \<and> \<not> list_all (\<lambda>b. b = 0) g"
proof -
  let ?g = "overwrite 0 (subslice 0 (min (length data) 16) data) (replicate 16 1) :: guid"
  have len: "length ?g = 16" by simp
  have "fuzz_log_guid data = Ok (if list_all (\<lambda>b. b = 0) ?g then ?g[0 := 1] else ?g)"
    by (simp add: fuzz_log_guid_def Let_def)
  moreover have "\<not> list_all (\<lambda>b. b = 0) (?g[0 := 1])"
    using len by (cases ?g) simp_all
  ultimately show ?thesis using len by (cases "list_all (\<lambda>b. b = 0) ?g") simp_all
qed

lemma fuzz_log_Ok: "fuzz_log x data = Ok ()"
  using fuzz_log_guid_Ok [of data] collect_replay_chain_not_Panic [of x data]
  by (auto simp: fuzz_log_def discard_Ok)

end
