(* ===== verification/Reader_Threads.thy ===== *)
theory Reader_Threads
  imports Reader_Write
begin

unbundle bit_operations_syntax

text \<open>
  Several threads writing through one reader. \<open>VhdxReader\<close> is shared behind an \<open>Arc\<close> and its writes
  take \<open>&self\<close>, so two threads may be inside \<open>allocate_block_for\<close> at once. The function is cut
  where another thread can get in between: the claim of the tail, made under the lock on the device
  size; the zero fill; the read of the BAT sector; the journalling, made under the lock on the header;
  the write of the sector; and the entry cached under the lock on the BAT. A step relation interleaves
  the threads. The lemmas show that a thread alone does what \<open>allocate_block_for\<close> does, what holds of
  every interleaving, and one interleaving that loses an entry: the read of the sector and its
  write are not made under one lock.
\<close>

section \<open>One thread\<close>

datatype alloc_pc =
    Claim
  | ZeroFill u64
  | ReadSector u64
  | JournalSector u64 bytes
  | WriteSector u64 bytes
  | CacheEntry u64
  | Allocated u64

definition alloc_step ::
  "ext \<Rightarrow> ('d, 'z) dev_ops_scheme \<Rightarrow> nat \<Rightarrow> alloc_pc \<Rightarrow> ('d vhdx_reader, alloc_pc, error) io" where
  "alloc_step x ops i pc r =
     (case pc of
        Claim \<Rightarrow> io_bind (claim_tail ops) (\<lambda>off. io_return (ZeroFill off)) r
      | ZeroFill off \<Rightarrow>
          io_bind (reader_dev_write ops off (replicate (unat (rd_block_size r)) 0)) (\<lambda>_.
          io_bind (reader_dev_flush ops) (\<lambda>_. io_return (ReadSector off))) r
      | ReadSector off \<Rightarrow>
          io_bind (io_lift (reader_dev_read ops r (sector_off_of r i) LOG_SECTOR_SIZE)) (\<lambda>sector.
          io_bind (io_lift (copy_into sector (entry_off_in_sector r i) (entry_off_in_sector r i + 8)
            (to_le_bytes (bat_word off)))) (\<lambda>sector.
          io_return (JournalSector off sector))) r
      | JournalSector off sector \<Rightarrow>
          io_bind (journal_sector_write x ops (sector_off_of r i) sector) (\<lambda>_.
          io_return (WriteSector off sector)) r
      | WriteSector off sector \<Rightarrow>
          io_bind (reader_dev_write ops (sector_off_of r i) sector) (\<lambda>_.
          io_bind (reader_dev_flush ops) (\<lambda>_. io_return (CacheEntry off))) r
      | CacheEntry off \<Rightarrow>
          (if i < length (rd_bat r)
           then (Ok (Allocated off), r\<lparr> rd_bat := (rd_bat r)[i := bat_entry_from_u64 (bat_word off)] \<rparr>)
           else (Panic, r))
      | Allocated off \<Rightarrow> (Ok (Allocated off), r))"

primrec alloc_run ::
  "nat \<Rightarrow> ext \<Rightarrow> ('d, 'z) dev_ops_scheme \<Rightarrow> nat \<Rightarrow> alloc_pc \<Rightarrow> ('d vhdx_reader, alloc_pc, error) io" where
  "alloc_run 0 x ops i pc = io_return pc"
| "alloc_run (Suc n) x ops i pc = io_bind (alloc_step x ops i pc) (alloc_run n x ops i)"

section \<open>Several threads\<close>

datatype thread = Running nat alloc_pc | Failed nat error | Panicked nat

primrec claimed :: "thread \<Rightarrow> u64 option" where
  "claimed (Running i pc) =
     (case pc of Claim \<Rightarrow> None | ZeroFill off \<Rightarrow> Some off | ReadSector off \<Rightarrow> Some off
      | JournalSector off s \<Rightarrow> Some off | WriteSector off s \<Rightarrow> Some off | CacheEntry off \<Rightarrow> Some off
      | Allocated off \<Rightarrow> Some off)"
| "claimed (Failed i e) = None"
| "claimed (Panicked i) = None"

definition after_step :: "nat \<Rightarrow> (alloc_pc, error) res \<Rightarrow> thread" where
  "after_step i res = (case res of Ok pc \<Rightarrow> Running i pc | Err e \<Rightarrow> Failed i e | Panic \<Rightarrow> Panicked i)"

inductive threads_step ::
  "ext \<Rightarrow> ('d, 'z) dev_ops_scheme \<Rightarrow> 'd vhdx_reader \<times> thread list \<Rightarrow> 'd vhdx_reader \<times> thread list \<Rightarrow> bool"
  for x :: ext and ops :: "('d, 'z) dev_ops_scheme" where
  step: "k < length ts \<Longrightarrow> ts ! k = Running i pc \<Longrightarrow> alloc_step x ops i pc r = (res, r') \<Longrightarrow>
    threads_step x ops (r, ts) (r', ts[k := after_step i res])"

inductive_cases threads_stepE: "threads_step x ops (r, ts) s"

abbreviation threads_run ::
  "ext \<Rightarrow> ('d, 'z) dev_ops_scheme \<Rightarrow> 'd vhdx_reader \<times> thread list \<Rightarrow> 'd vhdx_reader \<times> thread list \<Rightarrow> bool" where
  "threads_run x ops \<equiv> (threads_step x ops)\<^sup>*\<^sup>*"

definition start_threads :: "nat list \<Rightarrow> thread list" where
  "start_threads bat_idxs = map (\<lambda>i. Running i Claim) bat_idxs"

section \<open>A thread alone\<close>

text \<open>The fields no step but the last changes.\<close>

lemma claim_tail_fields:
  assumes "claim_tail ops r = (res, r')"
  shows "rd_block_size r' = rd_block_size r" "rd_bat_region_off r' = rd_bat_region_off r" "rd_bat r' = rd_bat r"
    "res \<noteq> Ok off \<Longrightarrow> \<forall>a. res \<noteq> Ok a \<Longrightarrow> rd_dev_size r' = rd_dev_size r"
  using assms
  by (auto simp: claim_tail_def Let_def on_dev_def io_bind_def split: prod.splits res.splits)

lemma dev_step_fields:
  "reader_dev_write ops off bs r = (res, r') \<Longrightarrow> \<exists>d. r' = r\<lparr> rd_dev := d \<rparr>"
  "reader_dev_flush ops r = (res, r') \<Longrightarrow> \<exists>d. r' = r\<lparr> rd_dev := d \<rparr>"
  by (auto simp: reader_dev_write_def reader_dev_flush_def on_dev_def split: prod.splits)

definition dev_header_only :: "'d vhdx_reader \<Rightarrow> 'd vhdx_reader \<Rightarrow> bool" where
  "dev_header_only r r' \<longleftrightarrow>
     r' = r\<lparr> rd_dev := rd_dev r', rd_header := rd_header r', rd_active_header_slot := rd_active_header_slot r' \<rparr>"

lemma dev_header_only_updates [simp]:
  "dev_header_only r r"
  "dev_header_only r s \<Longrightarrow> dev_header_only r (s\<lparr> rd_dev := d \<rparr>)"
  "dev_header_only r s \<Longrightarrow> dev_header_only r (s\<lparr> rd_header := h, rd_active_header_slot := a \<rparr>)"
  by (cases r; cases s; simp add: dev_header_only_def)+

lemma dev_header_only_fields:
  assumes "dev_header_only r r'"
  shows "rd_dev_size r' = rd_dev_size r" "rd_block_size r' = rd_block_size r"
    "rd_bat_region_off r' = rd_bat_region_off r" "rd_bat r' = rd_bat r"
    "sector_off_of r' = sector_off_of r" "entry_off_in_sector r' = entry_off_in_sector r"
proof -
  show f: "rd_dev_size r' = rd_dev_size r" "rd_block_size r' = rd_block_size r"
    "rd_bat_region_off r' = rd_bat_region_off r" "rd_bat r' = rd_bat r"
    using assms by (cases r; cases r'; simp add: dev_header_only_def)+
  show "sector_off_of r' = sector_off_of r" "entry_off_in_sector r' = entry_off_in_sector r"
    by (auto simp: f sector_off_of_def entry_off_in_sector_def entry_off_on_disk_def fun_eq_iff)
qed

lemma dev_steps_keep:
  "io_keeps (dev_header_only r) (reader_dev_write ops off bs)"
  "io_keeps (dev_header_only r) (reader_dev_flush ops)"
  by (rule io_keepsI; auto dest!: dev_step_fields)+

text \<open>A property of readers that the device steps and a new header keep is kept by journalling.\<close>

lemma journal_keeps:
  assumes dev: "\<And>off bs. io_keeps P (reader_dev_write ops off bs)" "io_keeps P (reader_dev_flush ops)"
    and hdr: "\<And>s h a. P s \<Longrightarrow> P (s\<lparr> rd_header := h, rd_active_header_slot := a \<rparr>)"
    and run: "P r" "journal_sector_write x ops off s r = (res, r')"
  shows "P r'"
proof -
  have last: "io_keeps P (\<lambda>r. (Ok (), r\<lparr> rd_header := h, rd_active_header_slot := a \<rparr>) :: (unit, error) res \<times> 'a vhdx_reader)"
    for h a by (rule io_keepsI) (auto intro: hdr)
  have body: "io_keeps P (\<lambda>r1. if Q then (Ok (), r1) else io_bind (io_lift e) f r1)"
    if "\<And>a. io_keeps P (f a)" for Q f and e :: "(bytes, error) res"
  proof -
    have "io_keeps P (io_bind (io_lift e) f)" by (rule io_keeps_bind [OF io_keeps_lift that])
    then show ?thesis by (cases Q) (auto simp: io_keeps_def)
  qed
  have "io_keeps P (\<lambda>r1. if Q then (Ok (), r1) else io_bind (io_lift e) (\<lambda>entry.
      if n < length entry then io_return ()
      else io_bind (reader_dev_write ops o1 entry) (\<lambda>_.
        io_bind (reader_dev_flush ops) (\<lambda>_.
        io_bind (io_lift b) (\<lambda>hb.
        io_bind (reader_dev_write ops o2 hb) (\<lambda>_.
        io_bind (reader_dev_flush ops) (\<lambda>_.
        (\<lambda>r. (Ok (), r\<lparr> rd_header := h, rd_active_header_slot := a \<rparr>)))))))) r1)"
    for Q n o1 o2 h a and e b :: "(bytes, error) res"
    by (rule body) (auto intro!: io_keeps_bind dev last)
  from io_keepsD [OF this run(1)] run(2) show ?thesis
    unfolding journal_sector_write_def Let_def by blast
qed

lemma journal_fields: "journal_sector_write x ops off s r = (res, r') \<Longrightarrow> dev_header_only r r'"
  by (rule journal_keeps [OF dev_steps_keep(1) dev_steps_keep(2)]) auto

lemma read_step_eq:
  "alloc_step x ops i (ReadSector off) r =
    io_bind (io_lift (spliced_sector ops r i off)) (\<lambda>s. io_return (JournalSector off s)) r"
  by (cases "reader_dev_read ops r (sector_off_of r i) LOG_SECTOR_SIZE")
    (simp_all add: alloc_step_def spliced_sector_def io_bind_def io_lift_def)

lemma journal_step_run:
  "alloc_run 3 x ops i (JournalSector off s) r =
     io_bind (journal_sector_write x ops (sector_off_of r i) s) (\<lambda>_.
     io_bind (reader_dev_write ops (sector_off_of r i) s) (\<lambda>_.
     io_bind (reader_dev_flush ops) (\<lambda>_.
     (\<lambda>r. if i < length (rd_bat r)
           then (Ok (Allocated off), r\<lparr> rd_bat := (rd_bat r)[i := bat_entry_from_u64 (bat_word off)] \<rparr>)
           else (Panic, r))))) r"
proof -
  obtain j r1 where j: "journal_sector_write x ops (sector_off_of r i) s r = (j, r1)" by (metis surj_pair)
  have q: "sector_off_of r1 = sector_off_of r" by (rule dev_header_only_fields(5) [OF journal_fields [OF j]])
  obtain w r2 where w: "reader_dev_write ops (sector_off_of r i) s r1 = (w, r2)" by (metis surj_pair)
  obtain f r3 where f: "reader_dev_flush ops r2 = (f, r3)" by (metis surj_pair)
  show ?thesis
    by (cases j; cases w; cases f)
      (simp_all add: eval_nat_numeral alloc_step_def io_bind_def io_return_def j q w f)
qed

lemma publish_run:
  "alloc_run 4 x ops i (ReadSector off) r =
    io_bind (publish_bat_entry x ops i off) (\<lambda>_. io_return (Allocated off)) r"
proof -
  have four: "alloc_run 4 x ops i (ReadSector off) r =
      io_bind (alloc_step x ops i (ReadSector off)) (alloc_run 3 x ops i) r"
    by (simp add: eval_nat_numeral)
  show ?thesis
    unfolding four
    by (cases "spliced_sector ops r i off")
      (auto simp: io_bind_def read_step_eq io_lift_def io_return_def journal_step_run publish_bat_entry_eq
        split: prod.splits res.splits)
qed

lemma alloc_run_sequential:
  "alloc_run 6 x ops i Claim r = io_bind (allocate_block_for x ops i) (\<lambda>off. io_return (Allocated off)) r"
proof -
  have six: "alloc_run 6 x ops i Claim r =
      io_bind (alloc_step x ops i Claim) (\<lambda>pc. io_bind (alloc_step x ops i pc) (alloc_run 4 x ops i)) r"
  proof -
    have "alloc_run 5 x ops i = (\<lambda>pc. io_bind (alloc_step x ops i pc) (alloc_run 4 x ops i))"
      by (rule ext) (simp add: eval_nat_numeral)
    moreover have "alloc_run 6 x ops i Claim r = io_bind (alloc_step x ops i Claim) (alloc_run 5 x ops i) r"
      by (simp add: eval_nat_numeral)
    ultimately show ?thesis by simp
  qed
  obtain c r1 where c: "claim_tail ops r = (c, r1)" by (metis surj_pair)
  note bs = claim_tail_fields(1) [OF c]
  show ?thesis
  proof (cases c)
    case (Ok off)
    obtain w r2 where w: "reader_dev_write ops off (replicate (unat (rd_block_size r)) 0) r1 = (w, r2)"
      by (metis surj_pair)
    obtain f r3 where f: "reader_dev_flush ops r2 = (f, r3)" by (metis surj_pair)
    show ?thesis
      unfolding six
      by (cases w; cases f)
        (auto simp: alloc_step_def allocate_block_for_def Let_def io_bind_def io_return_def c Ok bs w f publish_run
          split: prod.splits res.splits)
  qed (simp_all add: six alloc_step_def allocate_block_for_def Let_def io_bind_def c)
qed

section \<open>Every interleaving\<close>

primrec waiting :: "thread \<Rightarrow> bool" where
  "waiting (Running i pc) = (pc = Claim)"
| "waiting (Failed i e) = False"
| "waiting (Panicked i) = False"

text \<open>
  The recorded size is the size of the device; there is room for the claims still to come; what was
  claimed lies past the end the device had at the start and inside the device; claims do not overlap.
\<close>

definition threads_inv ::
  "('d \<Rightarrow> bool) \<Rightarrow> ('d \<Rightarrow> bytes) \<Rightarrow> nat \<Rightarrow> nat \<Rightarrow> 'd vhdx_reader \<times> thread list \<Rightarrow> bool" where
  "threads_inv dev_ok content n b s \<longleftrightarrow>
     (case s of (r, ts) \<Rightarrow>
        dev_ok (rd_dev r) \<and> unat (rd_dev_size r) = length (content (rd_dev r)) \<and> block_bytes r = b \<and>
        n \<le> length (content (rd_dev r)) \<and>
        length (content (rd_dev r)) + 2 * b * length (filter waiting ts) < 2 ^ 64 \<and>
        (\<forall>k < length ts. \<forall>off. claimed (ts ! k) = Some off \<longrightarrow>
           n \<le> unat off \<and> unat off + b \<le> length (content (rd_dev r))) \<and>
        (\<forall>j < length ts. \<forall>k < length ts. j \<noteq> k \<longrightarrow> (\<forall>a c. claimed (ts ! j) = Some a \<longrightarrow>
           claimed (ts ! k) = Some c \<longrightarrow> apart_spans (unat a) b (unat c) b)))"

definition held :: "('d \<Rightarrow> bool) \<Rightarrow> ('d \<Rightarrow> bytes) \<Rightarrow> nat \<Rightarrow> u64 \<Rightarrow> u32 \<Rightarrow> 'd vhdx_reader \<Rightarrow> bool" where
  "held dev_ok content l n b r \<longleftrightarrow>
     dev_ok (rd_dev r) \<and> length (content (rd_dev r)) = l \<and> rd_dev_size r = n \<and> rd_block_size r = b"

context block_device
begin

lemma held_steps:
  "io_keeps (held invar contents l n b) (reader_dev_write ops off bs)" (is ?W)
  "io_keeps (held invar contents l n b) (reader_dev_flush ops)" (is ?F)
proof -
  have "held invar contents l n b r'"
    if "held invar contents l n b r" "reader_dev_write ops off bs r = (res, r')" for r res r'
    using that write_invar [of "rd_dev r" off bs]
    by (cases "dev_write_at ops off bs (rd_dev r)") (auto simp: held_def reader_dev_write_def on_dev_def)
  then show ?W by (rule io_keepsI)
  have "held invar contents l n b r'"
    if "held invar contents l n b r" "reader_dev_flush ops r = (res, r')" for r res r'
    using that flush_law [of "rd_dev r"]
    by (cases "dev_flush ops (rd_dev r)") (auto simp: held_def reader_dev_flush_def on_dev_def)
  then show ?F by (rule io_keepsI)
qed

lemma alloc_step_held:
  assumes "pc \<noteq> Claim" "held invar contents l n b r" "alloc_step x ops i pc r = (res, r')"
  shows "held invar contents l n b r'"
proof -
  let ?H = "held invar contents l n b"
  have wr: "io_keeps ?H (io_bind (reader_dev_write ops o1 bs) (\<lambda>_. io_bind (reader_dev_flush ops) (\<lambda>_. io_return p)))"
    for o1 bs and p :: alloc_pc by (intro io_keeps_bind held_steps io_keeps_return)
  show ?thesis
  proof (cases pc)
    case Claim
    then show ?thesis using assms(1) by simp
  next
    case (ZeroFill off)
    then show ?thesis using io_keepsD [OF wr assms(2)] assms(3) by (auto simp: alloc_step_def)
  next
    case (ReadSector off)
    have "io_keeps ?H (io_bind (io_lift m) (\<lambda>s. io_return (JournalSector off s)))" for m :: "(bytes, error) res"
      by (intro io_keeps_bind io_keeps_lift io_keeps_return)
    from io_keepsD [OF this assms(2)] assms(3) show ?thesis
      by (auto simp: ReadSector read_step_eq)
  next
    case (JournalSector off s)
    obtain j r1 where j: "journal_sector_write x ops (sector_off_of r i) s r = (j, r1)" by (metis surj_pair)
    have "held invar contents l n b r1"
      by (rule journal_keeps [OF held_steps _ assms(2) j]) (simp add: held_def)
    then show ?thesis
      using assms(3) j by (cases j) (auto simp: JournalSector alloc_step_def io_bind_def io_return_def)
  next
    case (WriteSector off s)
    then show ?thesis using io_keepsD [OF wr assms(2)] assms(3) by (auto simp: alloc_step_def)
  next
    case (CacheEntry off)
    then show ?thesis using assms(2,3) by (auto simp: alloc_step_def held_def split: if_splits)
  next
    case (Allocated off)
    then show ?thesis using assms(2,3) by (simp add: alloc_step_def)
  qed
qed

text \<open>A step other than the claim leaves the claim as it is, or gives it up.\<close>

lemma alloc_step_claimed:
  assumes "pc \<noteq> Claim" "alloc_step x ops i pc r = (res, r')" "claimed (after_step i res) = Some off"
  shows "claimed (Running i pc) = Some off"
  using assms
  by (cases pc) (auto simp: alloc_step_def after_step_def io_bind_def io_return_def io_lift_def
      split: prod.splits res.splits if_splits)

lemma alloc_step_waiting:
  assumes "alloc_step x ops i pc r = (res, r')"
  shows "\<not> waiting (after_step i res)"
  using assms
  by (cases pc) (auto simp: alloc_step_def after_step_def io_bind_def io_return_def io_lift_def
      split: prod.splits res.splits if_splits)

lemma claim_tail_step:
  assumes "invar (rd_dev r)" "unat (rd_dev_size r) = length (contents (rd_dev r))" "block_bytes r = 2 ^ k"
    and "length (contents (rd_dev r)) + 2 * block_bytes r < 2 ^ 64" "claim_tail ops r = (res, r')"
  shows "invar (rd_dev r') \<and> unat (rd_dev_size r') = length (contents (rd_dev r')) \<and> block_bytes r' = block_bytes r \<and>
    (case res of
       Ok off \<Rightarrow> length (contents (rd_dev r)) \<le> unat off \<and> unat off + block_bytes r = length (contents (rd_dev r')) \<and>
         unat off < length (contents (rd_dev r)) + block_bytes r
     | _ \<Rightarrow> contents (rd_dev r') = contents (rd_dev r))"
proof -
  let ?bs = "ucast (rd_block_size r) :: u64"
  define off where "off = (rd_dev_size r + (?bs - 1)) AND NOT (?bs - 1)"
  have ubs: "unat ?bs = 2 ^ k" using assms(3) by simp
  have room: "unat (rd_dev_size r) + 2 * unat ?bs < 2 ^ 64" using assms(2,4) by simp
  note ru = round_up_block [OF ubs room, folded off_def]
  obtain sl d1 where sl: "dev_set_len ops (off + ?bs) (rd_dev r) = (sl, d1)" by (metis surj_pair)
  note law = set_len_invar [OF assms(1) sl] set_len_law [OF assms(1), of "off + ?bs" _ d1]
    set_len_refused [OF assms(1) sl]
  show ?thesis
  proof (cases sl)
    case (Ok u)
    then have "res = Ok off" "r' = r\<lparr> rd_dev := d1, rd_dev_size := off + ?bs \<rparr>"
      using assms(5) sl by (auto simp: claim_tail_def Let_def on_dev_def io_bind_def off_def)
    then show ?thesis using law(1,2) sl Ok ru assms(2) by simp
  next
    case (Err e)
    then have "(\<exists>e. res = Err e)" "r' = r\<lparr> rd_dev := d1 \<rparr>"
      using assms(5) sl by (auto simp: claim_tail_def Let_def on_dev_def io_bind_def off_def)
    then show ?thesis using law(1,3) Err assms(2) by auto
  next
    case Panic
    then have "res = Panic" "r' = r\<lparr> rd_dev := d1 \<rparr>"
      using assms(5) sl by (auto simp: claim_tail_def Let_def on_dev_def io_bind_def off_def)
    then show ?thesis using law(1,3) Panic assms(2) by auto
  qed
qed

lemma filter_update_waiting:
  assumes "k < length ts" "\<not> waiting t"
  shows "length (filter waiting ts) = length (filter waiting (ts[k := t])) + (if waiting (ts ! k) then 1 else 0)"
  using assms
proof (induction ts arbitrary: k)
  case (Cons u us)
  then show ?case by (cases k) auto
qed simp

lemma threads_inv_step:
  assumes "b = 2 ^ m" "threads_inv invar contents n b (r, ts)" "threads_step x ops (r, ts) s"
  shows "threads_inv invar contents n b s"
proof -
  obtain j i pc res r' where j: "j < length ts" "ts ! j = Running i pc" and run: "alloc_step x ops i pc r = (res, r')"
    and s: "s = (r', ts[j := after_step i res])"
    using assms(3) by (elim threads_stepE) blast
  let ?c = "contents (rd_dev r)" and ?ts = "ts[j := after_step i res]"
  note inv = assms(2)[unfolded threads_inv_def prod.case]
  note wait = filter_update_waiting [OF j(1) alloc_step_waiting [OF run]]
  show ?thesis
  proof (cases "pc = Claim")
    case False
    have "held invar contents (length ?c) (rd_dev_size r) (rd_block_size r) r'"
      by (rule alloc_step_held [OF False _ run]) (use inv in \<open>simp add: held_def\<close>)
    moreover have "claimed (?ts ! k) = Some off \<Longrightarrow> claimed (ts ! k) = Some off" if "k < length ts" for k off
      using alloc_step_claimed [OF False run] j that by (cases "k = j") auto
    moreover have "length (filter waiting ?ts) = length (filter waiting ts)" using wait j(2) False by simp
    ultimately show ?thesis
      using inv unfolding s threads_inv_def prod.case held_def by (metis length_list_update)
  next
    case True
    obtain c where c: "claim_tail ops r = (c, r')" "res = (case c of Ok off \<Rightarrow> Ok (ZeroFill off) | Err e \<Rightarrow> Err e | Panic \<Rightarrow> Panic)"
      using run True by (cases "claim_tail ops r") (auto simp: alloc_step_def io_bind_def io_return_def split: res.splits)
    have w: "length (filter waiting ts) = Suc (length (filter waiting ?ts))" using wait j(2) True by simp
    then have room: "length ?c + 2 * b + 2 * b * length (filter waiting ?ts) < 2 ^ 64" using inv by simp
    have ct: "invar (rd_dev r') \<and> unat (rd_dev_size r') = length (contents (rd_dev r')) \<and> block_bytes r' = block_bytes r \<and>
      (case c of Ok off \<Rightarrow> length ?c \<le> unat off \<and> unat off + block_bytes r = length (contents (rd_dev r')) \<and>
         unat off < length ?c + block_bytes r | _ \<Rightarrow> contents (rd_dev r') = ?c)"
      by (rule claim_tail_step [OF _ _ _ _ c(1)]) (use inv room assms(1) in auto)
    have b: "block_bytes r = b" using inv by simp
    have grow: "length ?c \<le> length (contents (rd_dev r'))" "length (contents (rd_dev r')) \<le> length ?c + 2 * b"
      using ct b by (auto split: res.splits)
    have cl: "k = j \<and> length ?c \<le> unat a \<and> unat a + b = length (contents (rd_dev r')) \<or>
        k \<noteq> j \<and> claimed (ts ! k) = Some a \<and> n \<le> unat a \<and> unat a + b \<le> length ?c"
      if "k < length ts" "claimed (?ts ! k) = Some a" for k a
    proof (cases "k = j")
      case True
      then have "claimed (after_step i res) = Some a" using that j(1) by simp
      then show ?thesis using True ct b c(2) by (auto simp: after_step_def split: res.splits)
    qed (use that inv in auto)
    have "apart_spans (unat a) b (unat d) b"
      if "k < length ts" "l < length ts" "k \<noteq> l" "claimed (?ts ! k) = Some a" "claimed (?ts ! l) = Some d" for k l a d
    proof (cases "k = j \<or> l = j")
      case True
      then show ?thesis using cl [OF that(1,4)] cl [OF that(2,5)] that(3) by (auto simp: apart_spans_def)
    next
      case False
      then show ?thesis using cl [OF that(1,4)] cl [OF that(2,5)] that(1-3) inv by blast
    qed
    moreover have "n \<le> unat a \<and> unat a + b \<le> length (contents (rd_dev r'))"
      if "k < length ts" "claimed (?ts ! k) = Some a" for k a
      using cl [OF that] inv grow(1) by (auto intro: order_trans)
    moreover have "length (contents (rd_dev r')) + 2 * b * length (filter waiting ?ts) < 2 ^ 64"
      using grow(2) room by linarith
    ultimately show ?thesis
      using ct b inv grow(1) by (simp add: s threads_inv_def)
  qed
qed

lemma threads_inv_start:
  assumes "invar (rd_dev r)" "unat (rd_dev_size r) = length (contents (rd_dev r))"
    and "length (contents (rd_dev r)) + 2 * block_bytes r * length idxs < 2 ^ 64"
  shows "threads_inv invar contents (length (contents (rd_dev r))) (block_bytes r) (r, start_threads idxs)"
proof -
  have "filter waiting (start_threads idxs) = start_threads idxs"
    by (auto simp: start_threads_def intro!: filter_True)
  then show ?thesis using assms by (simp add: threads_inv_def start_threads_def)
qed

lemma threads_inv_run:
  assumes "b = 2 ^ m" "threads_inv invar contents n b s" "threads_run x ops s s'"
  shows "threads_inv invar contents n b s'"
  using assms(3,2) by (induction rule: rtranclp_induct) (metis threads_inv_step [OF assms(1)] surj_pair)+

end

section \<open>An interleaving that loses an entry\<close>

lemma threads_run_first:
  "threads_run x ops s (r, [Running i p, t]) \<Longrightarrow> alloc_step x ops i p r = (Ok p', r') \<Longrightarrow>
    threads_run x ops s (r', [Running i p', t])"
  using threads_step.step [of 0 "[Running i p, t]" i p x ops r "Ok p'" r']
  by (auto simp: after_step_def intro: rtranclp.rtrancl_into_rtrancl)

lemma threads_run_second:
  "threads_run x ops s (r, [t, Running i p]) \<Longrightarrow> alloc_step x ops i p r = (Ok p', r') \<Longrightarrow>
    threads_run x ops s (r', [t, Running i p'])"
  using threads_step.step [of 1 "[t, Running i p]" i p x ops r "Ok p'" r']
  by (auto simp: after_step_def intro: rtranclp.rtrancl_into_rtrancl)

lemma grown_grown: "length c \<le> m \<Longrightarrow> m \<le> n \<Longrightarrow> grown (grown c m) n = grown c n"
  by (intro nth_equalityI) (auto simp: nth_grown)

context reliable_device
begin

text \<open>The steps of one thread, in pairs no other thread's step of the interleaving falls between.\<close>

lemma claim_fill_ok:
  assumes "invar (rd_dev r)" "unat (rd_dev_size r) = length (contents (rd_dev r))"
    and "block_bytes r = 2 ^ k" "20 \<le> k" "length (contents (rd_dev r)) + 2 * block_bytes r < 2 ^ 64"
  obtains off ra d where
    "alloc_step x ops i Claim r = (Ok (ZeroFill off), ra)"
    "alloc_step x ops i (ZeroFill off) ra =
       (Ok (ReadSector off), r\<lparr> rd_dev := d, rd_dev_size := off + ucast (rd_block_size r) \<rparr>)"
    "invar d" "contents d = grown (contents (rd_dev r)) (unat off + block_bytes r)"
    "length (contents (rd_dev r)) \<le> unat off" "unat off < length (contents (rd_dev r)) + block_bytes r"
    "unat (off + ucast (rd_block_size r)) = unat off + block_bytes r" "2 ^ 20 dvd unat off"
proof -
  obtain off d1 where c: "claim_tail ops r = (Ok off, r\<lparr> rd_dev := d1, rd_dev_size := off + ucast (rd_block_size r) \<rparr>)"
    (is "_ = (_, ?r1)")
    "invar d1" "contents d1 = grown (contents (rd_dev r)) (unat off + block_bytes r)"
    "length (contents (rd_dev r)) \<le> unat off" "unat off < length (contents (rd_dev r)) + block_bytes r"
    "unat (off + ucast (rd_block_size r)) = unat off + block_bytes r" "2 ^ 20 dvd unat off"
    by (rule claim_tail_grows [OF assms])
  obtain d2 where d2: "reader_dev_write ops off (replicate (block_bytes r) 0) ?r1 = (Ok (), ?r1\<lparr> rd_dev := d2 \<rparr>)"
    "invar d2" "contents d2 = contents d1"
    using reader_write_ok [of ?r1 off "replicate (block_bytes r) 0"] c(2-4)
      overwrite_grown_zeros [of "contents (rd_dev r)" "unat off" "block_bytes r" "unat off + block_bytes r"] by auto
  obtain d3 where d3: "reader_dev_flush ops (?r1\<lparr> rd_dev := d2 \<rparr>) = (Ok (), ?r1\<lparr> rd_dev := d3 \<rparr>)"
    "invar d3" "contents d3 = contents d2"
    using reader_flush_ok [of "?r1\<lparr> rd_dev := d2 \<rparr>"] d2(2) by auto
  have "alloc_step x ops i Claim r = (Ok (ZeroFill off), ?r1)"
    using c(1) by (simp add: alloc_step_def io_bind_def io_return_def)
  moreover have "alloc_step x ops i (ZeroFill off) ?r1 = (Ok (ReadSector off), ?r1\<lparr> rd_dev := d3 \<rparr>)"
    using d2(1) d3(1) by (simp add: alloc_step_def io_bind_def io_return_def)
  ultimately show thesis using that [of off ?r1 d3] c(3-7) d2(3) d3(2,3) by simp
qed

lemma journal_write_ok:
  assumes "invar (rd_dev r)" "crc_contract x" "header_wf (rd_header r)" "length s = LOG_SECTOR_SIZE"
    and "log_region_ok (rd_dev_size r) (rd_header r)" "unat (rd_dev_size r) = length (contents (rd_dev r))"
    and "unat (sector_off_of r i) + LOG_SECTOR_SIZE \<le> length (contents (rd_dev r))"
  obtains ra d h a c1 where
    "alloc_step x ops i (JournalSector off s) r = (Ok (WriteSector off s), ra)"
    "alloc_step x ops i (WriteSector off s) ra =
       (Ok (CacheEntry off), r\<lparr> rd_dev := d, rd_header := h, rd_active_header_slot := a \<rparr>)"
    "invar d" "contents d = overwrite (unat (sector_off_of r i)) s c1" "length c1 = length (contents (rd_dev r))"
    "header_wf h" "log_region_ok (rd_dev_size r) h"
proof -
  obtain d1 d2 d3 h a where j: "journal_sector_write x ops (sector_off_of r i) s r =
      (Ok (), r\<lparr> rd_dev := d1, rd_header := h, rd_active_header_slot := a \<rparr>)"
    "reader_dev_write ops (sector_off_of r i) s (r\<lparr> rd_dev := d1, rd_header := h, rd_active_header_slot := a \<rparr>) =
      (Ok (), r\<lparr> rd_dev := d1, rd_header := h, rd_active_header_slot := a, rd_dev := d2 \<rparr>)"
    "reader_dev_flush ops (r\<lparr> rd_dev := d1, rd_header := h, rd_active_header_slot := a, rd_dev := d2 \<rparr>) =
      (Ok (), r\<lparr> rd_dev := d1, rd_header := h, rd_active_header_slot := a, rd_dev := d3 \<rparr>)"
    "invar d3" "contents d3 = overwrite (unat (sector_off_of r i)) s (contents d1)"
    "journal_frame (rd_header r) (contents (rd_dev r)) (contents d1)" "header_wf h"
    "hdr_log_offset h = hdr_log_offset (rd_header r)" "hdr_log_length h = hdr_log_length (rd_header r)"
    by (rule journal_then_write [OF assms])
  let ?r1 = "r\<lparr> rd_dev := d1, rd_header := h, rd_active_header_slot := a \<rparr>"
  have q: "sector_off_of ?r1 i = sector_off_of r i" by (simp add: sector_off_of_def entry_off_on_disk_def)
  have "alloc_step x ops i (JournalSector off s) r = (Ok (WriteSector off s), ?r1)"
    using j(1) by (simp add: alloc_step_def io_bind_def io_return_def)
  moreover have "alloc_step x ops i (WriteSector off s) ?r1 = (Ok (CacheEntry off), ?r1\<lparr> rd_dev := d3 \<rparr>)"
    using j(2,3) q by (simp add: alloc_step_def io_bind_def io_return_def)
  moreover have "log_region_ok (rd_dev_size r) h" using assms(5) j(8,9) by (simp add: log_region_ok_def)
  ultimately show thesis using that [of ?r1 a h d3 "contents d1"] j(4-7) by (simp add: journal_frame_def)
qed

text \<open>
  Both threads claim and fill a block; both read the sector; the first journals and writes it; the
  second journals and writes the sector as it read it, so the first thread's entry is gone from the
  file while the reader goes on with both.
\<close>

lemma two_claims:
  assumes "invar (rd_dev r)" "unat (rd_dev_size r) = length (contents (rd_dev r))"
    and "block_bytes r = 2 ^ m" "20 \<le> m" "length (contents (rd_dev r)) + 4 * block_bytes r < 2 ^ 64"
  obtains a b d where
    "threads_run x ops (r, start_threads [i, j])
       (r\<lparr> rd_dev := d, rd_dev_size := b + ucast (rd_block_size r) \<rparr>, [Running i (ReadSector a), Running j (ReadSector b)])"
    "invar d" "contents d = grown (contents (rd_dev r)) (unat b + block_bytes r)"
    "length (contents (rd_dev r)) \<le> unat b" "unat (b + ucast (rd_block_size r)) = unat b + block_bytes r"
    "2 ^ 20 dvd unat a" "2 ^ 20 dvd unat b"
proof -
  let ?c = "contents (rd_dev r)" and ?bs = "ucast (rd_block_size r) :: u64" and ?bb = "block_bytes r"
  obtain a r1 d1 where t1: "alloc_step x ops i Claim r = (Ok (ZeroFill a), r1)"
    "alloc_step x ops i (ZeroFill a) r1 = (Ok (ReadSector a), r\<lparr> rd_dev := d1, rd_dev_size := a + ?bs \<rparr>)" (is "_ = (_, ?r1)")
    "invar d1" "contents d1 = grown ?c (unat a + ?bb)" "length ?c \<le> unat a" "unat a < length ?c + ?bb"
    "unat (a + ?bs) = unat a + ?bb" "2 ^ 20 dvd unat a"
    by (rule claim_fill_ok [OF assms(1-4)]) (use assms(5) in auto)
  have l1: "length (contents d1) = unat a + ?bb" using t1(4,5) by simp
  obtain b r2 d2 where t2: "alloc_step x ops j Claim ?r1 = (Ok (ZeroFill b), r2)"
    "alloc_step x ops j (ZeroFill b) r2 = (Ok (ReadSector b), ?r1\<lparr> rd_dev := d2, rd_dev_size := b + ?bs \<rparr>)"
    "invar d2" "contents d2 = grown (contents d1) (unat b + ?bb)" "unat a + ?bb \<le> unat b" "unat b < unat a + ?bb + ?bb"
    "unat (b + ?bs) = unat b + ?bb" "2 ^ 20 dvd unat b"
    by (rule claim_fill_ok [of ?r1 m]) (use t1(3,6,7) l1 assms(3-5) in auto)
  have "threads_run x ops (r, start_threads [i, j]) (r, [Running i Claim, Running j Claim])"
    by (simp add: start_threads_def)
  note run = threads_run_second [OF threads_run_second [OF threads_run_first [OF threads_run_first [OF this t1(1)] t1(2)] t2(1)] t2(2)]
  have "contents d2 = grown ?c (unat b + ?bb)"
    using t1(5) t2(5) by (simp add: t2(4) t1(4) grown_grown)
  then show thesis using that [of b d2 a] run t1(5,8) t2(3,5,7,8) by simp
qed

lemma other_entry_kept:
  assumes "q + k = e" "k + 8 \<le> n" "l + 8 \<le> n" "k + 8 \<le> l \<or> l + 8 \<le> k" "length sec = n" "q + n \<le> length c"
    and "length w = 8"
  shows "subslice e (e + 8) (overwrite q (overwrite l w sec) c) = subslice k (k + 8) sec"
  using assms by (intro nth_equalityI) (auto simp: nth_subslice nth_overwrite)

lemma two_publishes:
  assumes "invar (rd_dev r)" "crc_contract x" "header_wf (rd_header r)" "log_region_ok (rd_dev_size r) (rd_header r)"
    and "unat (rd_dev_size r) = length (contents (rd_dev r))" "LOG_SECTOR_SIZE dvd length (contents (rd_dev r))"
    and "bat_placed (contents (rd_dev r)) r" "i < length (rd_bat r)" "j < length (rd_bat r)"
    and "sector_off_of r i = sector_off_of r j"
    and run: "threads_run x ops s (r, [Running i (ReadSector a), Running j (ReadSector b)])"
  defines "q \<equiv> unat (sector_off_of r i)"
  shows "\<exists>d h t c. threads_run x ops s
      (r\<lparr> rd_dev := d, rd_header := h, rd_active_header_slot := t,
         rd_bat := (rd_bat r)[i := bat_entry_from_u64 (bat_word a), j := bat_entry_from_u64 (bat_word b)] \<rparr>,
       [Running i (Allocated a), Running j (Allocated b)]) \<and>
    contents d = overwrite q (overwrite (entry_off_in_sector r j) (to_le_bytes (bat_word b))
      (subslice q (q + LOG_SECTOR_SIZE) (contents (rd_dev r)))) c \<and>
    length c = length (contents (rd_dev r))"
proof -
  let ?L = "LOG_SECTOR_SIZE" and ?sec = "subslice q (q + LOG_SECTOR_SIZE) (contents (rd_dev r))"
  note si = spliced_sector_ok [OF assms(1,7,8,6), folded q_def]
    and sj = spliced_sector_ok [OF assms(1,7,9,6), folded assms(10), folded q_def]
  define wi wj where "wi = overwrite (entry_off_in_sector r i) (to_le_bytes (bat_word a)) ?sec"
    and "wj = overwrite (entry_off_in_sector r j) (to_le_bytes (bat_word b)) ?sec"
  have w: "length wi = ?L" "length wj = ?L" using si(1,3) sj(3) by (simp_all add: wi_def wj_def)
  have reads: "alloc_step x ops i (ReadSector a) r = (Ok (JournalSector a wi), r)"
    "alloc_step x ops j (ReadSector b) r = (Ok (JournalSector b wj), r)"
    using si(4) sj(4) by (simp_all add: read_step_eq io_bind_def io_lift_def io_return_def wi_def wj_def)
  note run = threads_run_second [OF threads_run_first [OF run reads(1)] reads(2)]
  obtain r1 d1 h1 t1 c1 where p1: "alloc_step x ops i (JournalSector a wi) r = (Ok (WriteSector a wi), r1)"
    "alloc_step x ops i (WriteSector a wi) r1 =
       (Ok (CacheEntry a), r\<lparr> rd_dev := d1, rd_header := h1, rd_active_header_slot := t1 \<rparr>)" (is "_ = (_, ?r1)")
    "invar d1" "contents d1 = overwrite q wi c1" "length c1 = length (contents (rd_dev r))"
    "header_wf h1" "log_region_ok (rd_dev_size r) h1"
    unfolding q_def by (rule journal_write_ok [OF assms(1-3) w(1) assms(4,5), of i a]) (use si(1) in \<open>auto simp: q_def\<close>)
  note run = threads_run_first [OF threads_run_first [OF run p1(1)] p1(2)]
  have q1: "sector_off_of ?r1 j = sector_off_of r i" 
    unfolding assms(10) by (simp add: sector_off_of_def entry_off_on_disk_def)
  have len1: "length (contents d1) = length (contents (rd_dev r))" using p1(4,5) w(1) si(1) by simp
  obtain r2 d2 h2 t2 c2 where p2: "alloc_step x ops j (JournalSector b wj) ?r1 = (Ok (WriteSector b wj), r2)"
    "alloc_step x ops j (WriteSector b wj) r2 =
       (Ok (CacheEntry b), ?r1\<lparr> rd_dev := d2, rd_header := h2, rd_active_header_slot := t2 \<rparr>)" (is "_ = (_, ?r2)")
    "invar d2" "contents d2 = overwrite (unat (sector_off_of ?r1 j)) wj c2" "length c2 = length (contents (rd_dev ?r1))"
    "header_wf h2" "log_region_ok (rd_dev_size ?r1) h2"
    by (rule journal_write_ok [of ?r1 x wj j b]) (use p1(3,6,7) assms(2,5) w(2) len1 si(1) q1 in \<open>auto simp: q_def\<close>)
  note run = threads_run_second [OF threads_run_second [OF run p2(1)] p2(2)]
  let ?bat = "(rd_bat r)[i := bat_entry_from_u64 (bat_word a)]"
  have "alloc_step x ops i (CacheEntry a) ?r2 = (Ok (Allocated a), ?r2\<lparr> rd_bat := ?bat \<rparr>)"
    "alloc_step x ops j (CacheEntry b) (?r2\<lparr> rd_bat := ?bat \<rparr>) =
      (Ok (Allocated b), ?r2\<lparr> rd_bat := ?bat[j := bat_entry_from_u64 (bat_word b)] \<rparr>)"
    using assms(8,9) by (simp_all add: alloc_step_def)
  from threads_run_second [OF threads_run_first [OF run this(1)] this(2)] p2(4,5) len1 q1 show ?thesis
    by (intro exI [of _ d2] exI [of _ h2] exI [of _ t2] exI [of _ c2]) (simp add: wj_def q_def)
qed

lemma sector_fields [simp]:
  "sector_off_of (r\<lparr> rd_dev := d, rd_dev_size := sz \<rparr>) = sector_off_of r"
  "entry_off_in_sector (r\<lparr> rd_dev := d, rd_dev_size := sz \<rparr>) = entry_off_in_sector r"
  by (auto simp: sector_off_of_def entry_off_in_sector_def entry_off_on_disk_def fun_eq_iff)

lemma entry_lost:
  assumes "invar (rd_dev r)" "crc_contract x" "disk_inv (contents (rd_dev r)) r"
    and "i \<noteq> j" "i < length (rd_bat r)" "j < length (rd_bat r)" "sector_off_of r i = sector_off_of r j"
    and "length (contents (rd_dev r)) + 4 * block_bytes r < 2 ^ 64"
  shows "\<exists>r' a b. threads_run x ops (r, start_threads [i, j])
      (r', [Running i (Allocated a), Running j (Allocated b)]) \<and>
    rd_bat r' ! i = \<lparr> be_state = FullyPresent, be_file_offset = a \<rparr> \<and>
    disk_bat_entry (contents (rd_dev r')) (unat (rd_bat_region_off r')) i = rd_bat r ! i"
proof -
  let ?c = "contents (rd_dev r)" and ?bs = "ucast (rd_block_size r) :: u64" and ?bb = "block_bytes r"
  have ok: "reader_ok ?c r" "layout_ok ?c r" using assms(3) by (auto simp: disk_inv_def)
  obtain m where m: "?bb = 2 ^ m" "20 \<le> m" using ok(1) by (auto simp: reader_ok_def geometry_ok_def elim: block_size_okD)
  have sz: "unat (rd_dev_size r) = length ?c" and hw: "header_wf (rd_header r)"
    using ok(1) by (auto simp: reader_ok_def)
  obtain a b d where run: "threads_run x ops (r, start_threads [i, j])
      (r\<lparr> rd_dev := d, rd_dev_size := b + ?bs \<rparr>, [Running i (ReadSector a), Running j (ReadSector b)])" (is "_ (?r2, _)")
    and d: "invar d" "contents d = grown ?c (unat b + ?bb)" "length ?c \<le> unat b"
    and n: "unat (b + ?bs) = unat b + ?bb" and al: "2 ^ 20 dvd unat a" "2 ^ 20 dvd unat b"
    by (rule two_claims [OF assms(1) sz m assms(8)])
  let ?n = "unat b + ?bb" and ?L = "LOG_SECTOR_SIZE" and ?base = "unat (rd_bat_region_off r)"
  have "2 ^ 20 dvd ?n" using al(2) le_imp_power_dvd [OF m(2), of "2 :: nat"] by (simp only: m(1) dvd_add)
  note ready = grown_ready [OF ok trans_le_add1 [OF d(3)] this n, folded d(2)]
  have same: "sector_off_of ?r2 = sector_off_of r" "entry_off_in_sector ?r2 = entry_off_in_sector r"
    by simp_all
  define q k l where "q = unat (sector_off_of r i)" and "k = entry_off_in_sector r i" and "l = entry_off_in_sector r j"
  obtain d' h t c' where fin: "threads_run x ops (r, start_threads [i, j])
      (?r2\<lparr> rd_dev := d', rd_header := h, rd_active_header_slot := t,
         rd_bat := (rd_bat r)[i := bat_entry_from_u64 (bat_word a), j := bat_entry_from_u64 (bat_word b)] \<rparr>,
       [Running i (Allocated a), Running j (Allocated b)])" (is "_ (?r', _)")
    "contents d' = overwrite q (overwrite l (to_le_bytes (bat_word b)) (subslice q (q + ?L) (contents d))) c'"
    "length c' = length (contents d)"
    using two_publishes [OF _ assms(2) _ _ _ _ _ _ _ _ run, unfolded same] d(1) hw ready(1-4) assms(5-7)
    by (auto simp: q_def l_def)
  have pre: "invar (rd_dev ?r2)" "bat_placed (contents (rd_dev ?r2)) ?r2" "?L dvd length (contents (rd_dev ?r2))"
    "i < length (rd_bat ?r2)" "j < length (rd_bat ?r2)" using d(1) ready(1,2) assms(5,6) by simp_all
  note si = spliced_sector_ok [OF pre(1,2,4,3), unfolded same, folded q_def k_def]
    and sj = spliced_sector_ok [OF pre(1,2,5,3), unfolded same, folded assms(7), folded q_def l_def]
  have e: "q + k = ?base + 8 * i" "k + 8 \<le> l \<or> l + 8 \<le> k" using si(2) sj(2) assms(4) by auto
  have "subslice (?base + 8 * i) (?base + 8 * i + 8) (contents d') = subslice k (k + 8) (subslice q (q + ?L) (contents d))"
    unfolding fin(2) using si(1,3) sj(3) fin(3) e by (intro other_entry_kept) simp_all
  also have "\<dots> = subslice (?base + 8 * i) (?base + 8 * i + 8) (contents d)"
    using si(3) e(1) by (simp add: subslice_subslice add.assoc [symmetric])
  also have "\<dots> = subslice (?base + 8 * i) (?base + 8 * i + 8) ?c"
    using reader_ok_placed [OF ok] assms(5) by (simp add: d(2) subslice_grown_old bat_placed_def)
  finally have "disk_bat_entry (contents d') ?base i = rd_bat r ! i"
    using ok(1) assms(5) by (simp add: disk_bat_entry_def reader_ok_def bat_synced_def)
  moreover have "rd_bat ?r' ! i = \<lparr> be_state = FullyPresent, be_file_offset = a \<rparr>"
    using assms(4,5) bat_entry_of_word [OF al(1)] by simp
  ultimately show ?thesis using fin(1) by (intro exI [of _ ?r'] exI [of _ a] exI [of _ b]) simp
qed

end

end
