(* ===== verification/Reader_Writers.thy ===== *)
theory Reader_Writers
  imports Reader_Threads
begin

text \<open>
  Several threads inside \<open>write_at\<close> of one reader. The body of its loop, one piece of a transfer, is
  cut where another thread can get in between: the look-up of the BAT entry, made under the lock on
  the BAT; the allocation, cut as \<open>Reader_Threads\<close> cuts it; the place in the file, checked under the
  lock on the device size; and the write of the bytes. The lemmas show that a thread alone does what
  \<open>write_chunk\<close> does; that writers to blocks that are there all take effect, in every interleaving;
  and one interleaving in which two writers to a block that is not there both succeed and the bytes
  of the first are gone: each allocates, and the second's block replaces the first's.
\<close>

section \<open>One thread\<close>

datatype write_pc =
    LookUp
  | Allocating alloc_pc
  | Place u64
  | Store u64
  | Written

primrec allocating :: "alloc_pc \<Rightarrow> write_pc" where
  "allocating Claim = Allocating Claim"
| "allocating (ZeroFill off) = Allocating (ZeroFill off)"
| "allocating (ReadSector off) = Allocating (ReadSector off)"
| "allocating (JournalSector off s) = Allocating (JournalSector off s)"
| "allocating (WriteSector off s) = Allocating (WriteSector off s)"
| "allocating (CacheEntry off) = Allocating (CacheEntry off)"
| "allocating (Allocated off) = Place off"

definition look_up :: "bat_entry \<Rightarrow> (write_pc, error) res" where
  "look_up entry =
     (case be_state entry of
        FullyPresent \<Rightarrow> Ok (Place (be_file_offset entry))
      | NotPresent \<Rightarrow> Ok (Allocating Claim)
      | Undefined \<Rightarrow> Ok (Allocating Claim)
      | ZeroState \<Rightarrow> Ok (Allocating Claim)
      | Unmapped \<Rightarrow> Ok (Allocating Claim)
      | PartiallyPresent \<Rightarrow> Err (Unsupported
          ''write to a PartiallyPresent block (sector-bitmap walking not implemented)'')
      | Reserved v \<Rightarrow> Err (Unsupported (reserved_state_message v)))"

definition write_step ::
  "ext \<Rightarrow> ('d, 'z) dev_ops_scheme \<Rightarrow> block_chunk \<Rightarrow> bytes \<Rightarrow> write_pc \<Rightarrow> ('d vhdx_reader, write_pc, error) io" where
  "write_step x ops ch src pc r =
     (case pc of
        LookUp \<Rightarrow> (res_bind (bat_entry_at r (bc_bat_idx ch)) look_up, r)
      | Allocating apc \<Rightarrow>
          io_bind (alloc_step x ops (bc_bat_idx ch) apc) (\<lambda>apc'. io_return (allocating apc')) r
      | Place off \<Rightarrow>
          io_bind (io_lift (host_offset r off (bc_in_block ch) (length src))) (\<lambda>host. io_return (Store host)) r
      | Store host \<Rightarrow> io_bind (reader_dev_write ops host src) (\<lambda>_. io_return Written) r
      | Written \<Rightarrow> io_return Written r)"

primrec write_run ::
  "nat \<Rightarrow> ext \<Rightarrow> ('d, 'z) dev_ops_scheme \<Rightarrow> block_chunk \<Rightarrow> bytes \<Rightarrow> write_pc \<Rightarrow>
   ('d vhdx_reader, write_pc, error) io" where
  "write_run 0 x ops ch src pc = io_return pc"
| "write_run (Suc n) x ops ch src pc = io_bind (write_step x ops ch src pc) (write_run n x ops ch src)"

section \<open>Several threads\<close>

datatype writer = Writing write_pc | WriteFailed error | WritePanicked

definition after_write_step :: "(write_pc, error) res \<Rightarrow> writer" where
  "after_write_step res = (case res of Ok pc \<Rightarrow> Writing pc | Err e \<Rightarrow> WriteFailed e | Panic \<Rightarrow> WritePanicked)"

text \<open>Each thread has its piece: the chunk, and the bytes of it.\<close>

inductive writers_step ::
  "ext \<Rightarrow> ('d, 'z) dev_ops_scheme \<Rightarrow> (block_chunk \<times> bytes) list \<Rightarrow>
   'd vhdx_reader \<times> writer list \<Rightarrow> 'd vhdx_reader \<times> writer list \<Rightarrow> bool"
  for x :: ext and ops :: "('d, 'z) dev_ops_scheme" and jobs :: "(block_chunk \<times> bytes) list" where
  step: "k < length ws \<Longrightarrow> k < length jobs \<Longrightarrow> ws ! k = Writing pc \<Longrightarrow> jobs ! k = (ch, src) \<Longrightarrow>
    write_step x ops ch src pc r = (res, r') \<Longrightarrow>
    writers_step x ops jobs (r, ws) (r', ws[k := after_write_step res])"

inductive_cases writers_stepE: "writers_step x ops jobs (r, ws) s"

abbreviation writers_run ::
  "ext \<Rightarrow> ('d, 'z) dev_ops_scheme \<Rightarrow> (block_chunk \<times> bytes) list \<Rightarrow>
   'd vhdx_reader \<times> writer list \<Rightarrow> 'd vhdx_reader \<times> writer list \<Rightarrow> bool" where
  "writers_run x ops jobs \<equiv> (writers_step x ops jobs)\<^sup>*\<^sup>*"

definition start_writers :: "(block_chunk \<times> bytes) list \<Rightarrow> writer list" where
  "start_writers jobs = replicate (length jobs) (Writing LookUp)"

section \<open>A thread alone\<close>

primrec steps_left :: "alloc_pc \<Rightarrow> nat" where
  "steps_left Claim = 6"
| "steps_left (ZeroFill off) = 5"
| "steps_left (ReadSector off) = 4"
| "steps_left (JournalSector off s) = 3"
| "steps_left (WriteSector off s) = 2"
| "steps_left (CacheEntry off) = 1"
| "steps_left (Allocated off) = 0"

lemma alloc_step_left:
  assumes "alloc_step x ops i pc r = (Ok pc', r')" "steps_left pc = Suc n"
  shows "steps_left pc' = n"
  using assms
  by (cases pc) (auto simp: alloc_step_def io_bind_def io_return_def io_lift_def split: prod.splits res.splits if_splits)

lemma allocating_left: "steps_left pc = Suc n \<Longrightarrow> allocating pc = Allocating pc"
  by (cases pc) auto

text \<open>The allocation inside a write is the allocation.\<close>

lemma write_run_allocating:
  assumes "steps_left pc = n"
  shows "write_run (n + m) x ops ch src (allocating pc) r =
    io_bind (alloc_run n x ops (bc_bat_idx ch) pc) (\<lambda>pc'. write_run m x ops ch src (allocating pc')) r"
  using assms
proof (induction n arbitrary: pc r)
  case 0
  then show ?case by (simp add: io_bind_def io_return_def)
next
  case (Suc n)
  obtain res r1 where s: "alloc_step x ops (bc_bat_idx ch) pc r = (res, r1)" by (metis surj_pair)
  show ?case
  proof (cases res)
    case (Ok pc1)
    then show ?thesis
      using Suc.IH [OF alloc_step_left [OF _ Suc.prems]] s allocating_left [OF Suc.prems]
      by (simp add: write_step_def io_bind_def io_return_def)
  qed (use s allocating_left [OF Suc.prems] in \<open>simp_all add: write_step_def io_bind_def\<close>)
qed

lemma write_run_Written: "write_run n x ops ch src Written r = (Ok Written, r)"
  by (induction n) (simp_all add: write_step_def io_bind_def io_return_def)

lemma write_run_Place:
  "write_run (Suc (Suc n)) x ops ch src (Place off) r =
     io_bind (io_lift (host_offset r off (bc_in_block ch) (length src))) (\<lambda>host.
     io_bind (reader_dev_write ops host src) (\<lambda>_. io_return Written)) r"
proof (cases "host_offset r off (bc_in_block ch) (length src)")
  case (Ok h)
  then show ?thesis
    by (cases "reader_dev_write ops h src r")
      (auto simp: write_step_def io_bind_def io_lift_def io_return_def write_run_Written split: res.splits)
qed (simp_all add: write_step_def io_bind_def io_lift_def)

lemma write_run_Claim:
  "write_run 8 x ops ch src (Allocating Claim) r =
     io_bind (allocate_block_for x ops (bc_bat_idx ch)) (write_run 2 x ops ch src \<circ> Place) r"
proof -
  have "write_run (6 + 2) x ops ch src (allocating Claim) r =
      io_bind (alloc_run 6 x ops (bc_bat_idx ch) Claim) (\<lambda>pc'. write_run 2 x ops ch src (allocating pc')) r"
    by (rule write_run_allocating) simp
  then show ?thesis
    by (simp add: io_bind_def alloc_run_sequential io_return_def split: prod.splits res.splits)
qed

lemma write_run_sequential:
  "io_bind (io_lift (get_slice buf (bc_buf_pos ch) (bc_buf_pos ch + bc_chunk_len ch)))
     (\<lambda>src. write_run 9 x ops ch src LookUp) r =
   io_bind (write_chunk x ops buf ch) (\<lambda>_. io_return Written) r"
proof (cases "get_slice buf (bc_buf_pos ch) (bc_buf_pos ch + bc_chunk_len ch) :: (bytes, error) res")
  case (Ok src)
  have nine: "write_run 9 x ops ch src LookUp r = io_bind (write_step x ops ch src LookUp) (write_run 8 x ops ch src) r"
    by (simp add: eval_nat_numeral)
  have two: "write_run 2 x ops ch src (Place off) r1 = io_bind (\<lambda>r. (host_offset r off (bc_in_block ch) (length src), r))
      (\<lambda>host. io_bind (reader_dev_write ops host src) (\<lambda>_. io_return Written)) r1" for off r1
    using write_run_Place [of 0] by (simp add: eval_nat_numeral io_bind_def io_lift_def)
  have eight: "write_run 8 x ops ch src (Place off) r1 = write_run 2 x ops ch src (Place off) r1" for off r1
    using write_run_Place [of 0 x ops ch src off r1] write_run_Place [of 6 x ops ch src off r1]
    by (simp add: eval_nat_numeral)
  show ?thesis
  proof (cases "bat_entry_at r (bc_bat_idx ch)")
    case entry: (Ok e)
    then show ?thesis
      using Ok
      by (cases "be_state e")
        (auto simp: nine write_step_def look_up_def write_chunk_def block_for_write_def io_bind_def io_lift_def
          io_return_def eight two write_run_Claim split: prod.splits res.splits)
  qed (use Ok in \<open>simp_all add: nine write_step_def write_chunk_def io_bind_def io_lift_def\<close>)
qed (simp_all add: write_chunk_def io_bind_def io_lift_def)

section \<open>Writers to blocks that are there\<close>

text \<open>Where a writer to such a block may be, and the bytes of its piece.\<close>

definition on_course :: "'d vhdx_reader \<Rightarrow> nat \<Rightarrow> block_chunk \<Rightarrow> write_pc \<Rightarrow> bool" where
  "on_course r w ch pc \<longleftrightarrow>
     (let off = be_file_offset (rd_bat r ! slot_of r w) in
      pc \<in> {LookUp, Place off, Store (off + bc_in_block ch), Written})"

definition in_job :: "nat \<Rightarrow> block_chunk \<times> bytes \<Rightarrow> nat \<Rightarrow> bool" where
  "in_job w job v \<longleftrightarrow> w \<le> v \<and> v < w + length (snd job)"

definition writers_inv ::
  "('d \<Rightarrow> bool) \<Rightarrow> ('d \<Rightarrow> bytes) \<Rightarrow> 'd vhdx_reader \<Rightarrow> (nat \<Rightarrow> nat) \<Rightarrow> (block_chunk \<times> bytes) list \<Rightarrow>
   'd vhdx_reader \<times> writer list \<Rightarrow> bool" where
  "writers_inv dev_ok content r0 at jobs s \<longleftrightarrow>
     (case s of (r, ws) \<Rightarrow>
        r = r0\<lparr> rd_dev := rd_dev r \<rparr> \<and> dev_ok (rd_dev r) \<and> disk_inv (content (rd_dev r)) r0 \<and>
        length ws = length jobs \<and>
        (\<forall>k < length jobs. \<exists>pc. ws ! k = Writing pc \<and> on_course r0 (at k) (fst (jobs ! k)) pc) \<and>
        (\<forall>k < length jobs. ws ! k = Writing Written \<longrightarrow> (\<forall>v. in_job (at k) (jobs ! k) v \<longrightarrow>
           vbyte r0 (content (rd_dev r)) v = snd (jobs ! k) ! (v - at k))) \<and>
        (\<forall>v < unat (rd_virtual_size r0). (\<forall>k < length jobs. \<not> in_job (at k) (jobs ! k) v) \<longrightarrow>
           vbyte r0 (content (rd_dev r)) v = vbyte r0 (content (rd_dev r0)) v))"

lemma in_job_slot:
  assumes "job_at r w (ch, src)" "0 < block_bytes r" "in_job w (ch, src) v"
  shows "slot_of r v = slot_of r w" "v < unat (rd_virtual_size r)"
  using in_piece_iff(1) [of w r "length src" v] assms by (auto simp: in_job_def job_at_def)

lemma same_but_dev:
  assumes "r = r0\<lparr> rd_dev := d \<rparr>"
  shows "disk_inv c r = disk_inv c r0" "job_at r w j = job_at r0 w j" "present r i = present r0 i"
    "slot_of r = slot_of r0" "on_course r w ch pc = on_course r0 w ch pc" "rd_block_size r = rd_block_size r0"
    "rd_bat r = rd_bat r0" "vbyte r c v = vbyte r0 c v" "rd_virtual_size r = rd_virtual_size r0"
  by (simp_all add: assms job_at_def present_def payload_slot_def slot_of_def on_course_def fun_eq_iff)

context reliable_device
begin

lemma present_write_step:
  assumes "invar (rd_dev r)" "disk_inv (contents (rd_dev r)) r" "job_at r w (ch, src)" "present r (slot_of r w)"
    and "on_course r w ch pc" "write_step x ops ch src pc r = (res, r')"
  shows "\<exists>pc' d'. res = Ok pc' \<and> r' = r\<lparr> rd_dev := d' \<rparr> \<and> invar d' \<and> on_course r w ch pc' \<and>
    disk_inv (contents d') r \<and> (pc = Written \<longrightarrow> pc' = Written) \<and>
    (\<forall>v < unat (rd_virtual_size r). vbyte r (contents d') v =
      (if pc' = Written \<and> pc \<noteq> Written \<and> in_job w (ch, src) v then src ! (v - w)
       else vbyte r (contents (rd_dev r)) v))"
proof -
  let ?off = "be_file_offset (rd_bat r ! slot_of r w)"
  have st: "be_state (rd_bat r ! slot_of r w) = FullyPresent" using assms(4) by (simp add: present_def)
  have idx: "bc_bat_idx ch = slot_of r w" "slot_of r w < length (rd_bat r)"
    using assms(2,3) by (auto simp: job_at_def disk_inv_def reader_ok_def geometry_ok_def)
  have sz: "unat (rd_dev_size r) = length (contents (rd_dev r))"
    and fit: "unat ?off + block_bytes r \<le> unat (rd_dev_size r)"
    using assms(2,4) by (auto simp: disk_inv_def reader_ok_def layout_ok_def)
  note place = place_ok [OF assms(1) fit sz assms(3)]
  have quiet: ?thesis if "res = Ok pc'" "r' = r" "on_course r w ch pc'" "pc = Written \<longleftrightarrow> pc' = Written" for pc'
    using that assms(1,2) by (intro exI [of _ pc'] exI [of _ "rd_dev r"]) auto
  consider "pc = LookUp" | "pc = Place ?off" | "pc = Store (?off + bc_in_block ch)" | "pc = Written"
    using assms(5) by (auto simp: on_course_def Let_def)
  then show ?thesis
  proof cases
    case 1
    then show ?thesis using assms(6) idx st
      by (intro quiet [of "Place ?off"]) (auto simp: write_step_def bat_entry_at_def look_up_def on_course_def)
  next
    case 2
    then show ?thesis using assms(6) place(1)
      by (intro quiet [of "Store (?off + bc_in_block ch)"])
        (auto simp: write_step_def io_bind_def io_lift_def io_return_def on_course_def Let_def)
  next
    case 3
    have fits: "w mod block_bytes r + length src \<le> block_bytes r" using assms(3) by (simp add: job_at_def)
    obtain d' where d': "reader_dev_write ops (?off + bc_in_block ch) src r = (Ok (), r\<lparr> rd_dev := d' \<rparr>)" "invar d'"
      "contents d' = overwrite (unat ?off + w mod block_bytes r) src (contents (rd_dev r))" using place(2) by blast
    then have "res = Ok Written" "r' = r\<lparr> rd_dev := d' \<rparr>"
      using assms(6) 3 by (auto simp: write_step_def io_bind_def io_return_def)
    moreover have "disk_inv (contents d') r" unfolding d'(3) by (rule store_disk_inv [OF assms(2,4) fits])
    ultimately show ?thesis
      using 3 d'(2) assms(2) store_vbyte [OF _ _ assms(4) fits, of "contents (rd_dev r)"]
      by (intro exI [of _ Written] exI [of _ d']) (simp add: on_course_def d'(3) vpatch_def in_job_def disk_inv_def)
  next
    case 4
    then show ?thesis using assms(5,6) by (intro quiet [of Written]) (auto simp: write_step_def io_return_def)
  qed
qed

lemma writers_inv_step:
  assumes "\<forall>k < length jobs. job_at r0 (at k) (jobs ! k) \<and> present r0 (slot_of r0 (at k))"
    and "\<forall>j < length jobs. \<forall>k < length jobs. \<forall>v. j \<noteq> k \<longrightarrow> in_job (at j) (jobs ! j) v \<longrightarrow> \<not> in_job (at k) (jobs ! k) v"
    and "writers_inv invar contents r0 at jobs (r, ws)" "writers_step x ops jobs (r, ws) s"
  shows "writers_inv invar contents r0 at jobs s"
proof -
  obtain k pc ch src res r' where k: "k < length jobs" "ws ! k = Writing pc" "jobs ! k = (ch, src)"
    and run: "write_step x ops ch src pc r = (res, r')" and s: "s = (r', ws[k := after_write_step res])"
    using assms(4) by (elim writers_stepE) blast
  let ?c = "contents (rd_dev r)"
  note i = assms(3)[unfolded writers_inv_def prod.case]
  have inv: "r = r0\<lparr> rd_dev := rd_dev r \<rparr>" "invar (rd_dev r)" "disk_inv ?c r0" "length ws = length jobs"
    using i by blast+
  have pcs: "\<exists>pc. ws ! j = Writing pc \<and> on_course r0 (at j) (fst (jobs ! j)) pc" if "j < length jobs" for j
    using i that by blast
  have oc: "on_course r0 (at k) ch pc" using pcs [OF k(1)] k(2,3) by simp
  note same = same_but_dev [OF inv(1)]
  have job: "job_at r0 (at k) (ch, src)" "present r0 (slot_of r0 (at k))" using assms(1) k(1,3) by force+
  obtain pc' d' where st: "res = Ok pc'" "r' = r\<lparr> rd_dev := d' \<rparr>" "invar d'" "on_course r0 (at k) ch pc'"
    "disk_inv (contents d') r0" "pc = Written \<Longrightarrow> pc' = Written"
    and v: "\<And>v. v < unat (rd_virtual_size r0) \<Longrightarrow> vbyte r0 (contents d') v =
      (if pc' = Written \<and> pc \<noteq> Written \<and> in_job (at k) (ch, src) v then src ! (v - at k) else vbyte r0 ?c v)"
    using present_write_step [of r "at k" ch src pc x res r', unfolded same, OF inv(2,3) job oc run] by auto
  let ?ws = "ws[k := Writing pc']"
  have len: "k < length ws" using k(1) inv(4) by simp
  have "\<exists>pc. ?ws ! j = Writing pc \<and> on_course r0 (at j) (fst (jobs ! j)) pc" if "j < length jobs" for j
    using pcs [OF that] st(4) k(3) len by (cases "j = k") auto
  moreover have "vbyte r0 (contents d') v = snd (jobs ! j) ! (v - at j)"
    if "j < length jobs" "?ws ! j = Writing Written" "in_job (at j) (jobs ! j) v" for j v
  proof -
    have lt: "v < unat (rd_virtual_size r0)"
      using assms(1) that(1,3) by (force simp: job_at_def in_job_def)
    show ?thesis
    proof (cases "j = k")
      case True
      then show ?thesis using that v [OF lt] i k len by (auto split: if_splits)
    next
      case False
      then show ?thesis using that v [OF lt] i k len assms(2) by auto
    qed
  qed
  moreover have "vbyte r0 (contents d') v = vbyte r0 (contents (rd_dev r0)) v"
    if "v < unat (rd_virtual_size r0)" "\<forall>j < length jobs. \<not> in_job (at j) (jobs ! j) v" for v
    using that v [OF that(1)] i k by auto
  moreover have "r' = r0\<lparr> rd_dev := d' \<rparr>" using st(2) by (subst (asm) inv(1)) simp
  ultimately show ?thesis
    using st(1,3,5) inv(4) by (simp add: s writers_inv_def after_write_step_def)
qed

lemma writers_inv_start:
  assumes "invar (rd_dev r)" "disk_inv (contents (rd_dev r)) r"
  shows "writers_inv invar contents r at jobs (r, start_writers jobs)"
  using assms by (simp add: writers_inv_def start_writers_def on_course_def)

lemma writers_inv_run:
  assumes "\<forall>k < length jobs. job_at r0 (at k) (jobs ! k) \<and> present r0 (slot_of r0 (at k))"
    and "\<forall>j < length jobs. \<forall>k < length jobs. \<forall>v. j \<noteq> k \<longrightarrow> in_job (at j) (jobs ! j) v \<longrightarrow> \<not> in_job (at k) (jobs ! k) v"
    and "writers_inv invar contents r0 at jobs s" "writers_run x ops jobs s s'"
  shows "writers_inv invar contents r0 at jobs s'"
  using assms(4,3) by (induction rule: rtranclp_induct) (metis writers_inv_step [OF assms(1,2)] surj_pair)+

text \<open>All take effect, and nothing else changes.\<close>

lemma writers_to_present_blocks_all_take_effect:
  assumes "invar (rd_dev r)" "disk_inv (contents (rd_dev r)) r"
    and "\<forall>k < length jobs. job_at r (at k) (jobs ! k) \<and> present r (slot_of r (at k))"
    and "\<forall>j < length jobs. \<forall>k < length jobs. \<forall>v. j \<noteq> k \<longrightarrow> in_job (at j) (jobs ! j) v \<longrightarrow> \<not> in_job (at k) (jobs ! k) v"
    and "writers_run x ops jobs (r, start_writers jobs) (r', ws)"
  shows "disk_inv (contents (rd_dev r')) r'"
    "k < length jobs \<Longrightarrow> \<exists>pc. ws ! k = Writing pc"
    "k < length jobs \<Longrightarrow> ws ! k = Writing Written \<Longrightarrow> in_job (at k) (jobs ! k) v \<Longrightarrow>
       vbyte r' (contents (rd_dev r')) v = snd (jobs ! k) ! (v - at k)"
    "v < unat (rd_virtual_size r) \<Longrightarrow> \<forall>k < length jobs. \<not> in_job (at k) (jobs ! k) v \<Longrightarrow>
       vbyte r' (contents (rd_dev r')) v = vbyte r (contents (rd_dev r)) v"
proof -
  have i: "writers_inv invar contents r at jobs (r', ws)"
    by (rule writers_inv_run [OF assms(3,4) writers_inv_start [OF assms(1,2)] assms(5)])
  then have inv: "r' = r\<lparr> rd_dev := rd_dev r' \<rparr>" unfolding writers_inv_def prod.case by blast
  note same = same_but_dev [OF inv]
  show "disk_inv (contents (rd_dev r')) r'" unfolding same using i unfolding writers_inv_def prod.case by blast
  show "k < length jobs \<Longrightarrow> \<exists>pc. ws ! k = Writing pc" using i unfolding writers_inv_def prod.case by blast
  show "k < length jobs \<Longrightarrow> ws ! k = Writing Written \<Longrightarrow> in_job (at k) (jobs ! k) v \<Longrightarrow>
       vbyte r' (contents (rd_dev r')) v = snd (jobs ! k) ! (v - at k)"
    unfolding same using i unfolding writers_inv_def prod.case by blast
  show "v < unat (rd_virtual_size r) \<Longrightarrow> \<forall>k < length jobs. \<not> in_job (at k) (jobs ! k) v \<Longrightarrow>
       vbyte r' (contents (rd_dev r')) v = vbyte r (contents (rd_dev r)) v"
    unfolding same using i unfolding writers_inv_def prod.case by blast
qed

end

section \<open>Two writers to a block that is not there\<close>

text \<open>A thread may run on alone.\<close>

lemma writers_run_of_write_run:
  assumes "write_run n x ops ch src pc r = (Ok pc', r')" "k < length ws" "k < length jobs"
    and "ws ! k = Writing pc" "jobs ! k = (ch, src)"
  shows "writers_run x ops jobs (r, ws) (r', ws[k := Writing pc'])"
  using assms(1,2,4)
proof (induction n arbitrary: pc r ws)
  case 0
  then show ?case by (simp add: io_return_def) (metis list_update_id rtranclp.rtrancl_refl)
next
  case (Suc n)
  obtain pc1 r1 where s: "write_step x ops ch src pc r = (Ok pc1, r1)" "write_run n x ops ch src pc1 r1 = (Ok pc', r')"
    using Suc.prems(1) by (auto simp: io_bind_def split: prod.splits res.splits)
  have "writers_step x ops jobs (r, ws) (r1, ws[k := Writing pc1])"
    using writers_step.step [OF Suc.prems(2) assms(3) Suc.prems(3) assms(5) s(1)] by (simp add: after_write_step_def)
  moreover have "writers_run x ops jobs (r1, ws[k := Writing pc1]) (r', ws[k := Writing pc1, k := Writing pc'])"
    by (rule Suc.IH [OF s(2)]) (use Suc.prems(2) in simp_all)
  ultimately show ?case by (simp add: converse_rtranclp_into_rtranclp)
qed

lemma image_but_dev:
  "reader_ok c (r\<lparr> rd_dev := d \<rparr>) = reader_ok c r" "layout_ok c (r\<lparr> rd_dev := d \<rparr>) = layout_ok c r"
  "slot_of (r\<lparr> rd_dev := d \<rparr>) = slot_of r"
  by (simp_all add: reader_ok_def layout_ok_def geometry_ok_def bat_synced_def present_def payload_slot_def slot_of_def
      fun_eq_iff)

text \<open>What an allocation and the write after it leave: the block is new, with the bytes in it.\<close>

lemma allocated_job:
  assumes "allocated i off c r c' r'" "reader_ok c r" "layout_ok c r" "job_at r w (ch, src)" "i = slot_of r w"
    and "v < unat (rd_virtual_size r)"
  shows "vbyte r' (overwrite (unat off + w mod block_bytes r) src c') v =
    (if slot_of r v = i then if in_job w (ch, src) v then src ! (v - w) else 0 else vbyte r c v)"
proof -
  note f = allocated_fields [OF assms(1)] and pi = allocated_present_iff [OF assms(1)]
    and ok = allocated_reader_ok [OF assms(1-3)] allocated_layout_ok [OF assms(1-3)]
  have fits: "w mod block_bytes r' + length src \<le> block_bytes r'" using assms(4) by (simp add: job_at_def f)
  have off: "block_start r' (slot_of r' w) = unat off" unfolding f(6) pi by (simp add: assms(5))
  have p: "present r' (slot_of r' w)" unfolding f(6) pi by (simp add: assms(5))
  have pos: "0 < block_bytes r"
    using assms(2) block_size_ok_pos by (fastforce simp: reader_ok_def geometry_ok_def)
  have "in_job w (ch, src) v \<Longrightarrow> slot_of r v = i" using in_job_slot(1) [OF assms(4) pos] assms(5) by simp
  then show ?thesis
    using store_vbyte [OF ok p fits, of v, unfolded off] assms(6) allocated_vbyte_cases [OF assms(1-3,6)]
    by (auto simp: f(1,2) vpatch_def in_job_def)
qed

context reliable_device
begin

text \<open>A thread that found no block allocates one and writes to it, whatever another thread did meanwhile.\<close>

lemma allocating_writer:
  assumes "invar (rd_dev r)" "crc_contract x" "reader_ok (contents (rd_dev r)) r" "layout_ok (contents (rd_dev r)) r"
    and "job_at r w (ch, src)" "length (contents (rd_dev r)) + 2 * block_bytes r < 2 ^ 64"
  obtains r' where
    "write_run 8 x ops ch src (Allocating Claim) r = (Ok Written, r')" "invar (rd_dev r')"
    "reader_ok (contents (rd_dev r')) r'" "layout_ok (contents (rd_dev r')) r'"
    "length (contents (rd_dev r')) \<le> length (contents (rd_dev r)) + 2 * block_bytes r"
    "rd_block_size r' = rd_block_size r" "rd_virtual_size r' = rd_virtual_size r" "slot_of r' = slot_of r"
    "\<And>v. v < unat (rd_virtual_size r) \<Longrightarrow> vbyte r' (contents (rd_dev r')) v =
      (if slot_of r v = slot_of r w then if in_job w (ch, src) v then src ! (v - w) else 0
       else vbyte r (contents (rd_dev r)) v)"
proof -
  let ?i = "slot_of r w"
  have w: "w < unat (rd_virtual_size r)" "bc_bat_idx ch = ?i" using assms(5) by (simp_all add: job_at_def)
  have ps: "payload_slot r ?i" using w(1) by (auto simp: payload_slot_def)
  have il: "?i < length (rd_bat r)" using assms(3) w(1) by (simp add: reader_ok_def geometry_ok_def)
  obtain off r1 where al: "allocate_block_for x ops ?i r = (Ok off, r1)" "invar (rd_dev r1)"
    "allocated ?i off (contents (rd_dev r)) r (contents (rd_dev r1)) r1"
    by (rule allocate_block_for_room [OF assms(1-4) ps il assms(6)])
  note f = allocated_fields [OF al(3)] and pi = allocated_present_iff [OF al(3)]
    and ok = allocated_reader_ok [OF al(3) assms(3,4)] allocated_layout_ok [OF al(3) assms(3,4)]
    and len = allocated_length [OF al(3) reader_ok_placed [OF assms(3,4)]]
  have job: "job_at r1 w (ch, src)" using assms(5) by (simp add: job_at_def f)
  have sz: "unat (rd_dev_size r1) = length (contents (rd_dev r1))" using ok(1) by (simp add: reader_ok_def)
  note place = place_ok [OF al(2) _ sz job, of off, unfolded sz, unfolded len f(1), OF order_refl]
  obtain d where d: "reader_dev_write ops (off + bc_in_block ch) src r1 = (Ok (), r1\<lparr> rd_dev := d \<rparr>)" "invar d"
    "contents d = overwrite (unat off + w mod block_bytes r) src (contents (rd_dev r1))"
    using place(2) by blast
  have "write_run 2 x ops ch src (Place off) r1 = (Ok Written, r1\<lparr> rd_dev := d \<rparr>)"
    unfolding numeral_2_eq_2 write_run_Place using place(1) d(1) by (simp add: io_bind_def io_lift_def io_return_def)
  then have run: "write_run 8 x ops ch src (Allocating Claim) r = (Ok Written, r1\<lparr> rd_dev := d \<rparr>)"
    using al(1) by (simp add: write_run_Claim w(2) io_bind_def)
  have p: "present r1 ?i" "block_start r1 ?i = unat off" unfolding pi by simp_all
  have "w mod block_bytes r + length src \<le> block_bytes r1" using assms(5) by (simp add: job_at_def f)
  note st = store_ok [OF ok p(1) this, unfolded p(2), folded d(3)]
  have "unat off < length (contents (rd_dev r)) + block_bytes r" using al(3) by (simp add: allocated_def)
  then show thesis
    using that [OF run] d(2) st len f(1,2,6) allocated_job [OF al(3) assms(3-5) refl]
    by (simp add: image_but_dev d(3))
qed

lemma two_look_ups:
  assumes "slot_of r w1 < length (rd_bat r)" "job_at r w1 (c1, s1)" "job_at r w2 (c2, s2)" "slot_of r w1 = slot_of r w2"
    and "accepts r w1" "be_state (rd_bat r ! slot_of r w1) \<noteq> FullyPresent"
  shows "writers_run x ops [(c1, s1), (c2, s2)] (r, start_writers [(c1, s1), (c2, s2)])
    (r, [Writing (Allocating Claim), Writing (Allocating Claim)])"
proof -
  let ?jobs = "[(c1, s1), (c2, s2)]"
  have "zero_fill (be_state (rd_bat r ! slot_of r w1))" using assms(5,6) by (simp add: accepts_def Let_def)
  then have "write_step x ops ch s LookUp r = (Ok (Allocating Claim), r)" if "bc_bat_idx ch = slot_of r w1" for ch s
    using that assms(1,6)
    by (cases "be_state (rd_bat r ! slot_of r w1)") (simp_all add: write_step_def look_up_def bat_entry_at_def)
  then have step: "write_run 1 x ops ch s LookUp r = (Ok (Allocating Claim), r)" if "bc_bat_idx ch = slot_of r w1" for ch s
    using that by (simp add: io_bind_def io_return_def)
  have idx: "bc_bat_idx c1 = slot_of r w1" "bc_bat_idx c2 = slot_of r w1"
    using assms(2-4) by (simp_all add: job_at_def)
  have "writers_run x ops ?jobs (r, [Writing LookUp, Writing LookUp]) (r, [Writing (Allocating Claim), Writing LookUp])"
    using writers_run_of_write_run [OF step [OF idx(1)], of 0 "[Writing LookUp, Writing LookUp]" ?jobs] by simp
  also have "writers_run x ops ?jobs \<dots> (r, [Writing (Allocating Claim), Writing (Allocating Claim)])"
    using writers_run_of_write_run [OF step [OF idx(2)], of 1 "[Writing (Allocating Claim), Writing LookUp]" ?jobs] by simp
  finally show ?thesis by (simp add: start_writers_def eval_nat_numeral)
qed

text \<open>
  Both threads look the block up before either allocates it. The first then allocates and writes, and
  the second does: its block, with zeros where the first wrote, takes the place of the first's.
\<close>

lemma write_lost:
  assumes "invar (rd_dev r)" "crc_contract x" "disk_inv (contents (rd_dev r)) r"
    and "job_at r w1 (c1, s1)" "job_at r w2 (c2, s2)" "slot_of r w1 = slot_of r w2" "accepts r w1"
    and "be_state (rd_bat r ! slot_of r w1) \<noteq> FullyPresent" "length (contents (rd_dev r)) + 4 * block_bytes r < 2 ^ 64"
  shows "\<exists>r'. writers_run x ops [(c1, s1), (c2, s2)] (r, start_writers [(c1, s1), (c2, s2)])
      (r', [Writing Written, Writing Written]) \<and>
    (\<forall>v < unat (rd_virtual_size r). vbyte r' (contents (rd_dev r')) v =
      (if slot_of r v = slot_of r w1 then if in_job w2 (c2, s2) v then s2 ! (v - w2) else 0
       else vbyte r (contents (rd_dev r)) v))"
proof -
  let ?jobs = "[(c1, s1), (c2, s2)]" and ?c = "contents (rd_dev r)"
  have ok: "reader_ok ?c r" "layout_ok ?c r" using assms(3) by (simp_all add: disk_inv_def)
  have il: "slot_of r w1 < length (rd_bat r)"
    using ok(1) assms(4) by (simp add: job_at_def reader_ok_def geometry_ok_def)
  obtain r1 where r1: "write_run 8 x ops c1 s1 (Allocating Claim) r = (Ok Written, r1)" "invar (rd_dev r1)"
    "reader_ok (contents (rd_dev r1)) r1" "layout_ok (contents (rd_dev r1)) r1"
    "length (contents (rd_dev r1)) \<le> length ?c + 2 * block_bytes r"
    "rd_block_size r1 = rd_block_size r" "rd_virtual_size r1 = rd_virtual_size r" "slot_of r1 = slot_of r"
    "\<And>v. v < unat (rd_virtual_size r) \<Longrightarrow> vbyte r1 (contents (rd_dev r1)) v =
      (if slot_of r v = slot_of r w1 then if in_job w1 (c1, s1) v then s1 ! (v - w1) else 0 else vbyte r ?c v)"
    by (rule allocating_writer [OF assms(1,2) ok assms(4)]) (use assms(9) in auto)
  have job2: "job_at r1 w2 (c2, s2)" using assms(5) by (simp add: job_at_def r1(6-8))
  obtain r2 where r2: "write_run 8 x ops c2 s2 (Allocating Claim) r1 = (Ok Written, r2)"
    "\<And>v. v < unat (rd_virtual_size r1) \<Longrightarrow> vbyte r2 (contents (rd_dev r2)) v =
      (if slot_of r1 v = slot_of r1 w2 then if in_job w2 (c2, s2) v then s2 ! (v - w2) else 0
       else vbyte r1 (contents (rd_dev r1)) v)"
    by (rule allocating_writer [OF r1(2) assms(2) r1(3,4) job2]) (use r1(5,6) assms(9) in auto)
  note two_look_ups [OF il assms(4-8)]
  also have "writers_run x ops ?jobs (r, [Writing (Allocating Claim), Writing (Allocating Claim)])
      (r1, [Writing Written, Writing (Allocating Claim)])"
    using writers_run_of_write_run [OF r1(1), of 0 "[Writing (Allocating Claim), Writing (Allocating Claim)]" ?jobs] by simp
  also have "writers_run x ops ?jobs \<dots> (r2, [Writing Written, Writing Written])"
    using writers_run_of_write_run [OF r2(1), of 1 "[Writing Written, Writing (Allocating Claim)]" ?jobs] by simp
  finally have "writers_run x ops ?jobs (r, start_writers ?jobs) (r2, [Writing Written, Writing Written])" .
  then show ?thesis
    using r2(2) r1(9) assms(6) by (intro exI [of _ r2]) (simp add: r1(7,8))
qed

end

end
