(* ===== verification/Reader_Transfers.thy ===== *)
theory Reader_Transfers
  imports Reader_Writers
begin

text \<open>
  Reads and writes of several threads on one reader. A read is cut as a write is in \<open>Reader_Writers\<close>:
  the body of \<open>read_at\<close>'s loop, one piece of a transfer, looks the BAT entry up under the lock on the
  BAT, checks the place in the file under the lock on the device size, and reads. The relation
  interleaves any number of pieces, some read and some written.
\<close>

section \<open>A read, cut\<close>

datatype read_pc =
    LookIn
  | PlaceOf u64
  | Fetch u64
  | Fetched bytes

definition look_in :: "nat \<Rightarrow> bat_entry \<Rightarrow> (read_pc, error) res" where
  "look_in n entry =
     (case be_state entry of
        FullyPresent \<Rightarrow> Ok (PlaceOf (be_file_offset entry))
      | NotPresent \<Rightarrow> Ok (Fetched (replicate n 0))
      | Undefined \<Rightarrow> Ok (Fetched (replicate n 0))
      | ZeroState \<Rightarrow> Ok (Fetched (replicate n 0))
      | Unmapped \<Rightarrow> Ok (Fetched (replicate n 0))
      | PartiallyPresent \<Rightarrow>
          Err (Unsupported ''PartiallyPresent block (sector-bitmap walking not implemented)'')
      | Reserved v \<Rightarrow> Err (Unsupported (reserved_state_message v)))"

definition read_step ::
  "('d, 'z) dev_ops_scheme \<Rightarrow> block_chunk \<Rightarrow> nat \<Rightarrow> read_pc \<Rightarrow> 'd vhdx_reader \<Rightarrow> (read_pc, error) res" where
  "read_step ops ch n pc r =
     (case pc of
        LookIn \<Rightarrow> res_bind (bat_entry_at r (bc_bat_idx ch)) (look_in n)
      | PlaceOf off \<Rightarrow> res_bind (host_offset r off (bc_in_block ch) n) (\<lambda>host. Ok (Fetch host))
      | Fetch host \<Rightarrow> res_bind (reader_dev_read ops r host n) (\<lambda>bs. Ok (Fetched bs))
      | Fetched bs \<Rightarrow> Ok (Fetched bs))"

primrec read_run ::
  "nat \<Rightarrow> ('d, 'z) dev_ops_scheme \<Rightarrow> block_chunk \<Rightarrow> nat \<Rightarrow> read_pc \<Rightarrow> 'd vhdx_reader \<Rightarrow> (read_pc, error) res" where
  "read_run 0 ops ch n pc r = Ok pc"
| "read_run (Suc k) ops ch n pc r = res_bind (read_step ops ch n pc r) (\<lambda>pc'. read_run k ops ch n pc' r)"

text \<open>The bytes a read that is done has put in its part of the buffer.\<close>

definition fetched_into :: "bytes \<Rightarrow> nat \<Rightarrow> nat \<Rightarrow> read_pc \<Rightarrow> (bytes, error) res" where
  "fetched_into buf lo hi pc = (case pc of Fetched bs \<Rightarrow> copy_into buf lo hi bs | _ \<Rightarrow> Ok buf)"

text \<open>Alone, a read does what \<open>read_chunk\<close> does.\<close>

lemma read_run_Fetched: "read_run k ops ch n (Fetched bs) r = Ok (Fetched bs)"
  by (induction k) (simp_all add: read_step_def)

lemma fetched_bind:
  "res_bind (res_bind (res_bind m (\<lambda>bs. Ok (Fetched bs))) Ok) (fetched_into buf lo hi) = res_bind m (copy_into buf lo hi)"
  by (cases m) (simp_all add: fetched_into_def)

lemma read_run_sequential:
  "res_bind (get_slice buf (bc_buf_pos ch) (bc_buf_pos ch + bc_chunk_len ch)) (\<lambda>dst.
     res_bind (read_run 3 ops ch (length dst) LookIn r)
       (fetched_into buf (bc_buf_pos ch) (bc_buf_pos ch + bc_chunk_len ch))) =
   read_chunk ops r ch buf"
proof (cases "get_slice buf (bc_buf_pos ch) (bc_buf_pos ch + bc_chunk_len ch) :: (bytes, error) res")
  case (Ok dst)
  let ?n = "length dst"
  have three: "read_run 3 ops ch ?n LookIn r =
      res_bind (read_step ops ch ?n LookIn r) (\<lambda>pc. res_bind (read_step ops ch ?n pc r) (\<lambda>pc.
        res_bind (read_step ops ch ?n pc r) Ok))"
    by (simp add: eval_nat_numeral)
  show ?thesis
  proof (cases "bat_entry_at r (bc_bat_idx ch)")
    case entry: (Ok e)
    show ?thesis
    proof (cases "be_state e = FullyPresent")
      case True
      then show ?thesis
        by (cases "host_offset r (be_file_offset e) (bc_in_block ch) ?n")
          (simp_all add: three Ok entry read_step_def look_in_def read_chunk_def Let_def fetched_bind)
    next
      case False
      then show ?thesis
        by (cases "be_state e")
          (simp_all add: three Ok entry read_step_def look_in_def read_chunk_def fetched_into_def Let_def)
    qed
  qed (simp_all add: three Ok read_step_def read_chunk_def Let_def)
qed (simp_all add: read_chunk_def Let_def)

section \<open>Reads and writes, interleaved\<close>

text \<open>A piece to write, with its bytes, or to read, with its length; and where its thread is.\<close>

datatype task = WriteTask block_chunk bytes | ReadTask block_chunk nat

datatype thread_at = AtWrite write_pc | AtRead read_pc | Refused error | Died

definition at_write :: "(write_pc, error) res \<Rightarrow> thread_at" where
  "at_write res = (case res of Ok pc \<Rightarrow> AtWrite pc | Err e \<Rightarrow> Refused e | Panic \<Rightarrow> Died)"

definition at_read :: "(read_pc, error) res \<Rightarrow> thread_at" where
  "at_read res = (case res of Ok pc \<Rightarrow> AtRead pc | Err e \<Rightarrow> Refused e | Panic \<Rightarrow> Died)"

inductive transfers_step ::
  "ext \<Rightarrow> ('d, 'z) dev_ops_scheme \<Rightarrow> task list \<Rightarrow>
   'd vhdx_reader \<times> thread_at list \<Rightarrow> 'd vhdx_reader \<times> thread_at list \<Rightarrow> bool"
  for x :: ext and ops :: "('d, 'z) dev_ops_scheme" and tasks :: "task list" where
  writes: "k < length ts \<Longrightarrow> k < length tasks \<Longrightarrow> tasks ! k = WriteTask ch src \<Longrightarrow> ts ! k = AtWrite pc \<Longrightarrow>
    write_step x ops ch src pc r = (res, r') \<Longrightarrow>
    transfers_step x ops tasks (r, ts) (r', ts[k := at_write res])"
| reads: "k < length ts \<Longrightarrow> k < length tasks \<Longrightarrow> tasks ! k = ReadTask ch n \<Longrightarrow> ts ! k = AtRead pc \<Longrightarrow>
    transfers_step x ops tasks (r, ts) (r, ts[k := at_read (read_step ops ch n pc r)])"

inductive_cases transfers_stepE: "transfers_step x ops tasks (r, ts) s"

abbreviation transfers_run ::
  "ext \<Rightarrow> ('d, 'z) dev_ops_scheme \<Rightarrow> task list \<Rightarrow>
   'd vhdx_reader \<times> thread_at list \<Rightarrow> 'd vhdx_reader \<times> thread_at list \<Rightarrow> bool" where
  "transfers_run x ops tasks \<equiv> (transfers_step x ops tasks)\<^sup>*\<^sup>*"

primrec start_task :: "task \<Rightarrow> thread_at" where
  "start_task (WriteTask ch src) = AtWrite LookUp"
| "start_task (ReadTask ch n) = AtRead LookIn"

definition start_transfers :: "task list \<Rightarrow> thread_at list" where
  "start_transfers tasks = map start_task tasks"

text \<open>The bytes of the disk a task is about, and those it writes.\<close>

primrec task_job :: "task \<Rightarrow> block_chunk \<times> bytes" where
  "task_job (WriteTask ch src) = (ch, src)"
| "task_job (ReadTask ch n) = (ch, replicate n 0)"

primrec writes_byte :: "nat \<Rightarrow> task \<Rightarrow> nat \<Rightarrow> bool" where
  "writes_byte w (WriteTask ch src) v = in_job w (ch, src) v"
| "writes_byte w (ReadTask ch n) v = False"

primrec is_write :: "task \<Rightarrow> bool" where
  "is_write (WriteTask ch src) = True"
| "is_write (ReadTask ch n) = False"

text \<open>A thread may run on alone.\<close>

lemma transfers_run_of_write_run:
  assumes "write_run n x ops ch src pc r = (Ok pc', r')" "k < length ts" "k < length tasks"
    and "ts ! k = AtWrite pc" "tasks ! k = WriteTask ch src"
  shows "transfers_run x ops tasks (r, ts) (r', ts[k := AtWrite pc'])"
  using assms(1,2,4)
proof (induction n arbitrary: pc r ts)
  case 0
  then show ?case by (simp add: io_return_def) (metis list_update_id rtranclp.rtrancl_refl)
next
  case (Suc n)
  obtain pc1 r1 where s: "write_step x ops ch src pc r = (Ok pc1, r1)" "write_run n x ops ch src pc1 r1 = (Ok pc', r')"
    using Suc.prems(1) by (auto simp: io_bind_def split: prod.splits res.splits)
  have "transfers_step x ops tasks (r, ts) (r1, ts[k := AtWrite pc1])"
    using transfers_step.writes [OF Suc.prems(2) assms(3,5) Suc.prems(3) s(1)] by (simp add: at_write_def)
  moreover have "transfers_run x ops tasks (r1, ts[k := AtWrite pc1]) (r', ts[k := AtWrite pc1, k := AtWrite pc'])"
    by (rule Suc.IH [OF s(2)]) (use Suc.prems(2) in simp_all)
  ultimately show ?case by (simp add: converse_rtranclp_into_rtranclp)
qed

end
