(* ===== verification/Reader_Shared.thy ===== *)
theory Reader_Shared
  imports Reader_Transfers
begin

unbundle bit_operations_syntax

text \<open>
  Reads and writes of any number of threads on one reader. As long as no two threads write pieces of
  one block that was not there at the start, every write takes effect and every read returns what the
  virtual disk held at one moment, in every interleaving, allocations included. The invariant says which
  blocks of the file belong to whom: to an entry of the BAT in memory, or to a thread that has claimed
  a block and not yet published it. They do not overlap, and a claimed block reads as zeros.
\<close>

section \<open>Who holds which block\<close>

text \<open>What no step changes.\<close>

definition same_layout :: "'d vhdx_reader \<Rightarrow> 'd vhdx_reader \<Rightarrow> bool" where
  "same_layout r r' \<longleftrightarrow>
     rd_block_size r' = rd_block_size r \<and> rd_virtual_size r' = rd_virtual_size r \<and>
     rd_chunk_ratio r' = rd_chunk_ratio r \<and> rd_bat_region_off r' = rd_bat_region_off r \<and>
     length (rd_bat r') = length (rd_bat r) \<and>
     hdr_log_offset (rd_header r') = hdr_log_offset (rd_header r) \<and>
     hdr_log_length (rd_header r') = hdr_log_length (rd_header r)"

text \<open>A place in the file where a block may lie.\<close>

definition block_at :: "'d vhdx_reader \<Rightarrow> nat \<Rightarrow> nat \<Rightarrow> bool" where
  "block_at r n a \<longleftrightarrow>
     2 ^ 20 dvd a \<and> 2 ^ 20 \<le> a \<and> a + block_bytes r \<le> n \<and>
     apart_spans a (block_bytes r) (unat (rd_bat_region_off r)) (8 * length (rd_bat r)) \<and>
     apart_from_log (rd_header r) a (block_bytes r)"

primrec claim_pc :: "write_pc \<Rightarrow> u64 option" where
  "claim_pc LookUp = None"
| "claim_pc (Allocating apc) = claimed (Running 0 apc)"
| "claim_pc (Place off) = None"
| "claim_pc (Store off) = None"
| "claim_pc Written = None"

primrec thread_claim :: "thread_at \<Rightarrow> u64 option" where
  "thread_claim (AtWrite pc) = claim_pc pc"
| "thread_claim (AtRead pc) = None"
| "thread_claim (Refused e) = None"
| "thread_claim Died = None"

datatype holder = Slot nat | Thread nat

primrec holds :: "'d vhdx_reader \<Rightarrow> thread_at list \<Rightarrow> holder \<Rightarrow> nat \<Rightarrow> bool" where
  "holds r ts (Slot i) a = (present r i \<and> a = block_start r i)"
| "holds r ts (Thread k) a = (k < length ts \<and> map_option unat (thread_claim (ts ! k)) = Some a)"

definition blocks_inv :: "bytes \<Rightarrow> 'd vhdx_reader \<Rightarrow> thread_at list \<Rightarrow> bool" where
  "blocks_inv c r ts \<longleftrightarrow>
     (\<forall>h a. holds r ts h a \<longrightarrow> block_at r (length c) a) \<and>
     (\<forall>h h' a b. h \<noteq> h' \<longrightarrow> holds r ts h a \<longrightarrow> holds r ts h' b \<longrightarrow> apart_spans a (block_bytes r) b (block_bytes r)) \<and>
     (\<forall>k a. holds r ts (Thread k) a \<longrightarrow> LOG_SECTOR_SIZE dvd length c \<and>
        subslice a (a + block_bytes r) c = replicate (block_bytes r) 0)"

lemma blocks_invI:
  assumes "\<And>h a. holds r ts h a \<Longrightarrow> block_at r (length c) a"
    and "\<And>h h' a b. h \<noteq> h' \<Longrightarrow> holds r ts h a \<Longrightarrow> holds r ts h' b \<Longrightarrow> apart_spans a (block_bytes r) b (block_bytes r)"
    and "\<And>k a. holds r ts (Thread k) a \<Longrightarrow> LOG_SECTOR_SIZE dvd length c"
    and "\<And>k a. holds r ts (Thread k) a \<Longrightarrow> subslice a (a + block_bytes r) c = replicate (block_bytes r) 0"
  shows "blocks_inv c r ts"
  using assms unfolding blocks_inv_def by blast

lemma blocks_invD:
  assumes "blocks_inv c r ts"
  shows "holds r ts h a \<Longrightarrow> block_at r (length c) a"
    and "h \<noteq> h' \<Longrightarrow> holds r ts h a \<Longrightarrow> holds r ts h' b \<Longrightarrow> apart_spans a (block_bytes r) b (block_bytes r)"
    and "holds r ts (Thread k) a \<Longrightarrow> LOG_SECTOR_SIZE dvd length c"
    and "holds r ts (Thread k) a \<Longrightarrow> subslice a (a + block_bytes r) c = replicate (block_bytes r) 0"
  using assms unfolding blocks_inv_def by blast+

text \<open>The reader, its device, and what it keeps of the start.\<close>

definition base_inv :: "('d \<Rightarrow> bool) \<Rightarrow> ('d \<Rightarrow> bytes) \<Rightarrow> 'd vhdx_reader \<Rightarrow> 'd vhdx_reader \<Rightarrow> bool" where
  "base_inv dev_ok content r0 r \<longleftrightarrow>
     same_layout r0 r \<and> block_size_ok (rd_block_size r) \<and> header_wf (rd_header r) \<and> dev_ok (rd_dev r) \<and>
     unat (rd_dev_size r) = length (content (rd_dev r)) \<and> log_region_ok (rd_dev_size r) (rd_header r) \<and>
     bat_placed (content (rd_dev r)) r \<and>
     (\<forall>i. rd_bat r ! i \<noteq> rd_bat r0 ! i \<longrightarrow> \<not> present r0 i \<and> present r i)"

section \<open>Consequences\<close>

lemma bat_entry_offset_aligned: "2 ^ 20 dvd unat (be_file_offset (bat_entry_from_u64 w))"
proof -
  have "push_bit 20 (drop_bit 20 w) = w AND NOT (mask 20)" by (rule bit_eqI) (auto simp: bit_simps)
  then have "unat (push_bit 20 (drop_bit 20 w)) = unat w div 2 ^ 20 * 2 ^ 20" by (simp only: unat_and_not_mask)
  then show ?thesis unfolding bat_entry_from_u64_def bat_entry.select_convs by (metis dvd_triv_right)
qed

lemma same_layout_refl [simp]: "same_layout r r"
  by (simp add: same_layout_def)

lemma same_layout_trans: "same_layout r s \<Longrightarrow> same_layout s t \<Longrightarrow> same_layout r t"
  by (simp add: same_layout_def)

lemma same_layout_fields:
  assumes "same_layout r r'"
  shows "rd_block_size r' = rd_block_size r" "rd_virtual_size r' = rd_virtual_size r" "slot_of r' = slot_of r"
    "payload_slot r' = payload_slot r" "block_at r' = block_at r" "length (rd_bat r') = length (rd_bat r)"
  using assms
  by (auto simp: same_layout_def slot_of_def payload_slot_def block_at_def apart_from_log_def log_span_def fun_eq_iff)

lemma same_layout_updates [simp]:
  "same_layout r (s\<lparr> rd_dev := d \<rparr>) = same_layout r s"
  "same_layout r (s\<lparr> rd_dev_size := n \<rparr>) = same_layout r s"
  "same_layout r (s\<lparr> rd_active_header_slot := a \<rparr>) = same_layout r s"
  "same_layout r (s\<lparr> rd_bat := (rd_bat s)[i := e] \<rparr>) = same_layout r s"
  by (simp_all add: same_layout_def)

lemma base_inv_layout:
  assumes "base_inv dev_ok content r0 r" "blocks_inv (content (rd_dev r)) r ts"
  shows "layout_ok (content (rd_dev r)) r"
proof -
  have b: "present r i \<Longrightarrow> block_at r (length (content (rd_dev r))) (block_start r i)" for i
    using assms(2) unfolding blocks_inv_def by (metis holds.simps(1))
  moreover have "apart_spans (block_start r i) (block_bytes r) (block_start r j) (block_bytes r)"
    if "present r i" "present r j" "i \<noteq> j" for i j
    using assms(2) that unfolding blocks_inv_def by (metis holds.simps(1) holder.inject(1))
  moreover have "bat_placed (content (rd_dev r)) r" using assms(1) by (simp add: base_inv_def)
  ultimately show ?thesis by (auto simp: layout_ok_def block_at_def bat_placed_def)
qed

lemma base_inv_block_pos: "base_inv dev_ok content r0 r \<Longrightarrow> 0 < block_bytes r"
  using block_size_ok_pos by (fastforce simp: base_inv_def)

text \<open>A slot that was present at the start is present, at the same place.\<close>

lemma base_inv_present:
  assumes "base_inv dev_ok content r0 r" "present r0 i"
  shows "present r i" "rd_bat r ! i = rd_bat r0 ! i"
proof -
  have f: "same_layout r0 r" using assms(1) by (simp add: base_inv_def)
  show "rd_bat r ! i = rd_bat r0 ! i" using assms unfolding base_inv_def by metis
  then show "present r i" using assms(2) same_layout_fields(4) [OF f] by (simp add: present_def)
qed

lemma base_inv_accepts:
  assumes "base_inv dev_ok content r0 r" "accepts r0 v"
  shows "accepts r v"
proof -
  have "slot_of r = slot_of r0" using assms(1) same_layout_fields(3) by (auto simp: base_inv_def)
  then show ?thesis
    using assms unfolding base_inv_def accepts_def Let_def by (metis present_def)
qed

text \<open>The contents change outside the blocks: nothing a reader sees changes.\<close>

lemma blocks_inv_frame:
  assumes "blocks_inv c r ts" "same_layout r r'" "length c' = length c"
    and "\<And>h a. holds r' ts' h a \<Longrightarrow> holds r ts h a"
    and "\<And>k a. holds r ts (Thread k) a \<Longrightarrow> subslice a (a + block_bytes r) c' = subslice a (a + block_bytes r) c"
  shows "blocks_inv c' r' ts'"
proof -
  note f = same_layout_fields [OF assms(2)]
  have "subslice a (a + block_bytes r) c' = replicate (block_bytes r) 0" if "holds r' ts' (Thread k) a" for k a
  proof -
    have h: "holds r ts (Thread k) a" by (rule assms(4) [OF that])
    then have "subslice a (a + block_bytes r) c = replicate (block_bytes r) 0"
      using assms(1) unfolding blocks_inv_def by blast
    then show ?thesis using assms(5) [OF h] by auto
  qed
  then show ?thesis
    using assms(1,4) unfolding blocks_inv_def f assms(3) by blast
qed

lemma vbyte_frame:
  assumes "blocks_inv c r ts" "same_layout r r'" "rd_bat r' = rd_bat r" "length c \<le> length c'" "0 < block_bytes r"
    and "\<And>i. present r i \<Longrightarrow> subslice (block_start r i) (block_start r i + block_bytes r) c' =
      subslice (block_start r i) (block_start r i + block_bytes r) c"
    and "v < unat (rd_virtual_size r)"
  shows "vbyte r' c' v = vbyte r c v"
proof (cases "present r (slot_of r v)")
  case True
  then have "block_at r (length c) (block_start r (slot_of r v))"
    using assms(1) unfolding blocks_inv_def by (metis holds.simps(1))
  then have "c' ! (block_start r (slot_of r v) + v mod block_bytes r) = c ! (block_start r (slot_of r v) + v mod block_bytes r)"
    using assms(4,5) by (intro nth_eq_of_subslice [OF assms(6) [OF True]]) (auto simp: block_at_def)
  then show ?thesis
    using True same_layout_fields [OF assms(2)] by (simp add: vbyte_def assms(3) Let_def)
next
  case False
  then have "be_state (rd_bat r ! slot_of r v) \<noteq> FullyPresent"
    using assms(7) by (auto simp: present_def payload_slot_def)
  then show ?thesis using same_layout_fields [OF assms(2)] by (simp add: vbyte_def assms(3) Let_def)
qed

section \<open>The steps of an allocation\<close>

text \<open>What a thread inside an allocation carries.\<close>

primrec sound_alloc :: "alloc_pc \<Rightarrow> bool" where
  "sound_alloc Claim = True"
| "sound_alloc (ZeroFill off) = True"
| "sound_alloc (ReadSector off) = True"
| "sound_alloc (JournalSector off s) = (length s = LOG_SECTOR_SIZE)"
| "sound_alloc (WriteSector off s) = (length s = LOG_SECTOR_SIZE)"
| "sound_alloc (CacheEntry off) = True"
| "sound_alloc (Allocated off) = False"

text \<open>The steps between the claim and the publication: no block changes.\<close>

definition blocks_kept :: "'d vhdx_reader \<Rightarrow> bytes \<Rightarrow> bytes \<Rightarrow> bool" where
  "blocks_kept r c c' \<longleftrightarrow>
     length c' = length c \<and>
     (\<forall>a. block_at r (length c) a \<longrightarrow> subslice a (a + block_bytes r) c' = subslice a (a + block_bytes r) c)"

lemma blocks_kept_refl [simp]: "blocks_kept r c c"
  by (simp add: blocks_kept_def)

lemma blocks_kept_journal: "journal_frame (rd_header r) c c' \<Longrightarrow> blocks_kept r c c'"
  by (simp add: blocks_kept_def journal_frame_def block_at_def)

context reliable_device
begin

lemma write_flush_ok:
  assumes "invar (rd_dev r)" "unat off + length bs \<le> length (contents (rd_dev r))"
  obtains d where
    "io_bind (reader_dev_write ops off bs) (\<lambda>_. io_bind (reader_dev_flush ops) (\<lambda>_. io_return p)) r =
       (Ok p, r\<lparr> rd_dev := d \<rparr>)"
    "invar d" "contents d = overwrite (unat off) bs (contents (rd_dev r))"
proof -
  obtain d1 where d1: "reader_dev_write ops off bs r = (Ok (), r\<lparr> rd_dev := d1 \<rparr>)" "invar d1"
    "contents d1 = overwrite (unat off) bs (contents (rd_dev r))" by (rule reader_write_ok [OF assms])
  obtain d2 where "reader_dev_flush ops (r\<lparr> rd_dev := d1 \<rparr>) = (Ok (), r\<lparr> rd_dev := d2 \<rparr>)" "invar d2"
    "contents d2 = contents d1"
    using reader_flush_ok [of "r\<lparr> rd_dev := d1 \<rparr>"] d1(2) by auto
  then show thesis using that [of d2] d1 by (simp add: io_bind_def io_return_def)
qed

lemma sector_off_blocks:
  assumes "invar (rd_dev r)" "bat_placed (contents (rd_dev r)) r" "block_size_ok (rd_block_size r)" "i < length (rd_bat r)"
    and "LOG_SECTOR_SIZE dvd length (contents (rd_dev r))" "length s = LOG_SECTOR_SIZE"
  shows "blocks_kept r (contents (rd_dev r)) (overwrite (unat (sector_off_of r i)) s (contents (rd_dev r)))"
proof -
  let ?c = "contents (rd_dev r)" and ?b = "unat (rd_bat_region_off r)" and ?e = "unat (entry_off_on_disk r i)"
  have b8: "8 dvd ?b" using assms(2) dvd_trans [of 8 "2 ^ 20 :: nat" ?b] by (simp add: bat_placed_def)
  have fit: "?b + 8 * i + 8 \<le> length ?c" using assms(2,4) by (simp add: bat_placed_def)
  note es = entry_sector [OF b8 fit contents_bound [OF assms(1)] assms(5),
      folded entry_off_on_disk_def, folded sector_off_of_def]
  obtain m where m: "20 \<le> m" "block_bytes r = 2 ^ m" using assms(3) by (elim block_size_okD)
  have lb: "(LOG_SECTOR_SIZE :: nat) dvd 2 ^ 20" by simp
  have bb: "LOG_SECTOR_SIZE dvd block_bytes r"
    unfolding m(2) by (rule dvd_trans [OF lb]) (rule le_imp_power_dvd [OF m(1)])
  have "subslice a (a + block_bytes r) (overwrite (unat (sector_off_of r i)) s ?c) = subslice a (a + block_bytes r) ?c"
    if a: "block_at r (length ?c) a" for a
  proof -
    have "apart_spans ?e 8 a (block_bytes r)"
      using a assms(4) es(1) by (auto simp: block_at_def apart_spans_def)
    moreover have "LOG_SECTOR_SIZE dvd a" using a dvd_trans [OF lb] by (simp add: block_at_def)
    ultimately have "apart_spans (unat (sector_off_of r i)) LOG_SECTOR_SIZE a (block_bytes r)"
      unfolding es(2) using bb by (intro sector_apart)
    then show ?thesis
      using es(5) assms(6) by (intro subslice_overwrite_disjoint) (auto simp: apart_spans_def)
  qed
  then show ?thesis using es(5) assms(6) by (simp add: blocks_kept_def)
qed

lemma between_claim_and_cache:
  assumes "base_inv invar contents r0 r" "crc_contract x" "i < length (rd_bat r)" "sound_alloc apc"
    and "claimed (Running i apc) = Some off" "\<And>off. apc \<noteq> CacheEntry off"
    and "block_at r (length (contents (rd_dev r))) (unat off)" "LOG_SECTOR_SIZE dvd length (contents (rd_dev r))"
    and "subslice (unat off) (unat off + block_bytes r) (contents (rd_dev r)) = replicate (block_bytes r) 0"
  obtains apc' d h s where
    "alloc_step x ops i apc r = (Ok apc', r\<lparr> rd_dev := d, rd_header := h, rd_active_header_slot := s \<rparr>)"
    "sound_alloc apc'" "claimed (Running i apc') = Some off" "invar d"
    "blocks_kept r (contents (rd_dev r)) (contents d)" "header_wf h"
    "hdr_log_offset h = hdr_log_offset (rd_header r)" "hdr_log_length h = hdr_log_length (rd_header r)"
proof -
  let ?c = "contents (rd_dev r)" and ?q = "sector_off_of r i"
  note goal1 = that
  have b: "invar (rd_dev r)" "bat_placed ?c r" "block_size_ok (rd_block_size r)" "header_wf (rd_header r)"
    "log_region_ok (rd_dev_size r) (rd_header r)" "unat (rd_dev_size r) = length ?c"
    using assms(1) by (auto simp: base_inv_def)
  note sec = spliced_sector_ok [OF b(1,2) assms(3,8)]
  have quiet: thesis if "alloc_step x ops i apc r = (Ok apc', r\<lparr> rd_dev := d \<rparr>)" "sound_alloc apc'"
    "claimed (Running i apc') = Some off" "invar d" "blocks_kept r ?c (contents d)" for apc' d
    using that b(4) goal1 [of apc' "rd_active_header_slot r" "rd_header r" d] by simp
  show thesis
  proof (cases apc)
    case Claim
    then show thesis using assms(5) by simp
  next
    case (ZeroFill o1)
    then have o1: "o1 = off" using assms(5) by simp
    have "unat off + length (replicate (block_bytes r) (0 :: u8)) \<le> length ?c" using assms(7) by (simp add: block_at_def)
    then obtain d where d: "io_bind (reader_dev_write ops off (replicate (block_bytes r) 0)) (\<lambda>_.
        io_bind (reader_dev_flush ops) (\<lambda>_. io_return (ReadSector off))) r = (Ok (ReadSector off), r\<lparr> rd_dev := d \<rparr>)"
      "invar d" "contents d = overwrite (unat off) (replicate (block_bytes r) 0) ?c" by (rule write_flush_ok [OF b(1)])
    have "contents d = ?c"
      unfolding d(3) using assms(7,9) by (intro overwrite_id) (simp_all add: block_at_def)
    then show thesis using d ZeroFill o1 by (intro quiet [of "ReadSector off" d]) (simp_all add: alloc_step_def)
  next
    case (ReadSector o1)
    then show thesis
      using assms(5) b(1) sec(1,3,4)
      by (intro quiet [of "JournalSector off (overwrite (entry_off_in_sector r i) (to_le_bytes (bat_word off))
            (subslice (unat ?q) (unat ?q + LOG_SECTOR_SIZE) ?c))" "rd_dev r"])
        (simp_all add: read_step_eq io_bind_def io_lift_def io_return_def)
  next
    case (JournalSector o1 s)
    have ls: "length s = LOG_SECTOR_SIZE" using assms(4) JournalSector by simp
    obtain d h a where j: "journal_sector_write x ops ?q s r =
        (Ok (), r\<lparr> rd_dev := d, rd_header := h, rd_active_header_slot := a \<rparr>)" "invar d"
      "journal_frame (rd_header r) ?c (contents d)" "header_wf h" "hdr_log_offset h = hdr_log_offset (rd_header r)"
      "hdr_log_length h = hdr_log_length (rd_header r)"
      by (rule journal_sector_write_ok [OF b(1) assms(2) b(4) ls b(5,6)])
    then show thesis
      using that [of "WriteSector off s" a h d] blocks_kept_journal [OF j(3)] JournalSector assms(5) ls
      by (simp add: alloc_step_def io_bind_def io_return_def)
  next
    case (WriteSector o1 s)
    have ls: "length s = LOG_SECTOR_SIZE" using assms(4) WriteSector by simp
    have "unat ?q + length s \<le> length ?c" using sec(1) ls by simp
    then obtain d where d: "io_bind (reader_dev_write ops ?q s) (\<lambda>_. io_bind (reader_dev_flush ops) (\<lambda>_.
        io_return (CacheEntry off))) r = (Ok (CacheEntry off), r\<lparr> rd_dev := d \<rparr>)"
      "invar d" "contents d = overwrite (unat ?q) s ?c" by (rule write_flush_ok [OF b(1)])
    then show thesis
      using WriteSector assms(5) sector_off_blocks [OF b(1-3) assms(3,8) ls]
      by (intro quiet [of "CacheEntry off" d]) (simp_all add: alloc_step_def)
  next
    case (CacheEntry o1)
    then show thesis using assms(6) by simp
  next
    case (Allocated o1)
    then show thesis using assms(4) by simp
  qed
qed

end

section \<open>Where the threads may be\<close>

definition at_block :: "'d vhdx_reader \<Rightarrow> nat \<Rightarrow> u64 \<Rightarrow> bool" where
  "at_block r w off \<longleftrightarrow> present r (slot_of r w) \<and> off = be_file_offset (rd_bat r ! slot_of r w)"

primrec write_course :: "'d vhdx_reader \<Rightarrow> nat \<Rightarrow> block_chunk \<Rightarrow> write_pc \<Rightarrow> bool" where
  "write_course r w ch LookUp = True"
| "write_course r w ch (Allocating apc) = (\<not> present r (slot_of r w) \<and> sound_alloc apc)"
| "write_course r w ch (Place off) = at_block r w off"
| "write_course r w ch (Store host) = at_block r w (host - bc_in_block ch)"
| "write_course r w ch Written = True"

primrec read_course :: "'d vhdx_reader \<Rightarrow> nat \<Rightarrow> block_chunk \<Rightarrow> read_pc \<Rightarrow> bool" where
  "read_course r w ch LookIn = True"
| "read_course r w ch (PlaceOf off) = at_block r w off"
| "read_course r w ch (Fetch host) = at_block r w (host - bc_in_block ch)"
| "read_course r w ch (Fetched bs) = True"

fun course :: "'d vhdx_reader \<Rightarrow> nat \<Rightarrow> task \<Rightarrow> thread_at \<Rightarrow> bool" where
  "course r w (WriteTask ch src) (AtWrite pc) = write_course r w ch pc"
| "course r w (ReadTask ch n) (AtRead pc) = read_course r w ch pc"
| "course r w t th = False"

lemma course_agree:
  assumes "same_layout r r'" "rd_bat r' = rd_bat r"
  shows "course r' w t th = course r w t th" "write_course r' w ch pc = write_course r w ch pc"
    "present r' = present r"
proof -
  note f = same_layout_fields [OF assms(1)]
  show p: "present r' = present r" by (simp add: fun_eq_iff present_def f assms(2))
  have a: "at_block r' = at_block r" by (simp add: fun_eq_iff at_block_def p f assms(2))
  show "write_course r' w ch pc = write_course r w ch pc" for pc by (cases pc) (simp_all add: p f a)
  have "read_course r' w ch pc = read_course r w ch pc" for ch pc by (cases pc) (simp_all add: p f a)
  moreover have "write_course r' w ch pc = write_course r w ch pc" for ch pc by (cases pc) (simp_all add: p f a)
  ultimately show "course r' w t th = course r w t th" by (cases t; cases th) simp_all
qed

definition may_claim :: "thread_at \<Rightarrow> bool" where
  "may_claim th \<longleftrightarrow> th = AtWrite LookUp \<or> th = AtWrite (Allocating Claim)"

lemma filter_update:
  assumes "k < length ts"
  shows "length (filter P (ts[k := t])) + (if P (ts ! k) then 1 else 0) = length (filter P ts) + (if P t then 1 else 0)"
  using assms
proof (induction ts arbitrary: k)
  case (Cons u us)
  then show ?case by (cases k) auto
qed simp

section \<open>The kinds of steps\<close>

text \<open>The room left for the claims still to come.\<close>

definition room_inv :: "nat \<Rightarrow> 'd vhdx_reader \<Rightarrow> thread_at list \<Rightarrow> bool" where
  "room_inv n r ts \<longleftrightarrow> n + 2 * block_bytes r * length (filter may_claim ts) < 2 ^ 64"

lemma room_inv_update:
  assumes "room_inv n r ts" "k < length ts" "may_claim t \<Longrightarrow> may_claim (ts ! k)" "block_bytes r' = block_bytes r"
  shows "room_inv n r' (ts[k := t])"
proof -
  have "length (filter may_claim (ts[k := t])) \<le> length (filter may_claim ts)"
    using filter_update [OF assms(2), of may_claim t] assms(3) by (auto split: if_splits)
  then have "2 * block_bytes r * length (filter may_claim (ts[k := t])) \<le> 2 * block_bytes r * length (filter may_claim ts)"
    by (rule mult_le_mono2)
  then show ?thesis using assms(1) unfolding room_inv_def assms(4) by linarith
qed

lemma holds_update:
  assumes "present r' = present r" "rd_bat r' = rd_bat r" "k < length ts"
    and "thread_claim t = None \<or> thread_claim t = thread_claim (ts ! k)" "holds r' (ts[k := t]) h a"
  shows "holds r ts h a"
  using assms by (cases h) (auto simp: nth_list_update split: if_splits)

context reliable_device
begin

text \<open>A step that changes no block.\<close>

lemma frame_kind:
  assumes "base_inv invar contents r0 r" "blocks_inv (contents (rd_dev r)) r ts" "k < length ts"
    and "thread_claim t = None \<or> thread_claim t = thread_claim (ts ! k)"
    and "r' = r\<lparr> rd_dev := d, rd_header := h, rd_active_header_slot := s \<rparr>" "invar d"
    and "blocks_kept r (contents (rd_dev r)) (contents d)" "header_wf h"
    and "hdr_log_offset h = hdr_log_offset (rd_header r)" "hdr_log_length h = hdr_log_length (rd_header r)"
  shows "base_inv invar contents r0 r'" "blocks_inv (contents d) r' (ts[k := t])" "same_layout r r'"
    "rd_bat r' = rd_bat r" "rd_dev r' = d"
    "v < unat (rd_virtual_size r) \<Longrightarrow> vbyte r' (contents d) v = vbyte r (contents (rd_dev r)) v"
proof -
  let ?c = "contents (rd_dev r)"
  have len: "length (contents d) = length ?c" using assms(7) by (simp add: blocks_kept_def)
  show sl: "same_layout r r'" using assms(9,10) by (simp add: assms(5) same_layout_def)
  show bat: "rd_bat r' = rd_bat r" by (simp add: assms(5))
  show dev: "rd_dev r' = d" by (simp add: assms(5))
  note pr = course_agree(3) [OF sl bat]
  have "log_region_ok (rd_dev_size r) h = log_region_ok (rd_dev_size r) (rd_header r)"
    using assms(9,10) by (simp add: log_region_ok_def)
  moreover have "bat_placed (contents d) r' = bat_placed ?c r"
    using assms(9,10) by (simp add: assms(5) bat_placed_def len apart_from_log_def log_span_def)
  ultimately show "base_inv invar contents r0 r'"
    using assms(1,6,8) same_layout_trans [OF _ sl, of r0] by (simp add: base_inv_def pr) (simp add: assms(5) len)
  have kept: "subslice a (a + block_bytes r) (contents d) = subslice a (a + block_bytes r) ?c" if "holds r ts h a" for h a
    using assms(2,7) that unfolding blocks_inv_def blocks_kept_def by blast
  show "blocks_inv (contents d) r' (ts[k := t])"
    by (rule blocks_inv_frame [OF assms(2) sl len holds_update [OF pr bat assms(3,4)] kept])
  show "vbyte r' (contents d) v = vbyte r ?c v" if "v < unat (rd_virtual_size r)"
    using kept [of "Slot _"] len
    by (intro vbyte_frame [OF assms(2) sl bat _ base_inv_block_pos [OF assms(1)] _ that]) simp_all
qed

text \<open>A claim: the file grows by a block that is no one's.\<close>

lemma claim_kind:
  assumes "base_inv invar contents r0 r" "blocks_inv (contents (rd_dev r)) r ts" "k < length ts"
    and "room_inv (length (contents (rd_dev r))) r ts" "ts ! k = AtWrite (Allocating Claim)"
  obtains r' off where
    "alloc_step x ops i Claim r = (Ok (ZeroFill off), r')" "base_inv invar contents r0 r'"
    "blocks_inv (contents (rd_dev r')) r' (ts[k := AtWrite (Allocating (ZeroFill off))])"
    "room_inv (length (contents (rd_dev r'))) r' (ts[k := AtWrite (Allocating (ZeroFill off))])"
    "same_layout r r'" "rd_bat r' = rd_bat r"
    "\<And>v. v < unat (rd_virtual_size r) \<Longrightarrow> vbyte r' (contents (rd_dev r')) v = vbyte r (contents (rd_dev r)) v"
proof -
  let ?c = "contents (rd_dev r)" and ?bs = "ucast (rd_block_size r) :: u64" and ?bb = "block_bytes r"
  have b: "invar (rd_dev r)" "unat (rd_dev_size r) = length ?c" "same_layout r0 r" "header_wf (rd_header r)"
    "log_region_ok (rd_dev_size r) (rd_header r)" "bat_placed ?c r"
    using assms(1) by (auto simp: base_inv_def)
  obtain m where m: "20 \<le> m" "?bb = 2 ^ m" using assms(1) by (auto simp: base_inv_def elim: block_size_okD)
  have more: "length (filter may_claim (ts[k := t])) + 1 = length (filter may_claim ts)" if "\<not> may_claim t" for t
    using filter_update [OF assms(3), of may_claim t] assms(5) that by (simp add: may_claim_def)
  obtain t0 where "\<not> may_claim t0" by (simp add: may_claim_def) (metis thread_at.distinct(1))
  then have "1 \<le> length (filter may_claim ts)" using more by fastforce
  then have "2 * ?bb * 1 \<le> 2 * ?bb * length (filter may_claim ts)" by (rule mult_le_mono2)
  then have room: "length ?c + 2 * ?bb < 2 ^ 64" using assms(4) unfolding room_inv_def by linarith
  obtain off d where c: "claim_tail ops r = (Ok off, r\<lparr> rd_dev := d, rd_dev_size := off + ?bs \<rparr>)" (is "_ = (_, ?r)")
    "invar d" "contents d = grown ?c (unat off + ?bb)" "length ?c \<le> unat off" "unat off < length ?c + ?bb"
    "unat (off + ?bs) = unat off + ?bb" "2 ^ 20 dvd unat off"
    by (rule claim_tail_grows [OF b(1,2) m(2,1) room])
  let ?t = "AtWrite (Allocating (ZeroFill off))" and ?n = "unat off + ?bb"
  have len: "length (contents d) = ?n" using c(3,4) by simp
  have sl: "same_layout r ?r" and bat: "rd_bat ?r = rd_bat r" by simp_all
  note pr = course_agree(3) [OF sl bat] and f = same_layout_fields [OF sl]
  have "log_region_ok (off + ?bs) (rd_header r)" using b(2,5) c(4,6) by (auto simp: log_region_ok_def)
  moreover have "bat_placed (contents d) ?r" using b(6) c(4) len by (auto simp: bat_placed_def)
  ultimately have base: "base_inv invar contents r0 ?r"
    using assms(1) c(2,6) len pr by (simp add: base_inv_def)
  have old: "holds ?r (ts[k := ?t]) h a \<Longrightarrow> h = Thread k \<and> a = unat off \<or> h \<noteq> Thread k \<and> holds r ts h a" for h a
    using assms(3) pr by (cases h) (auto simp: nth_list_update split: if_splits)
  have place: "block_at r (length ?c) a" if "holds r ts h a" for h a
    using assms(2) that unfolding blocks_inv_def by blast
  have in_old: "a + ?bb \<le> unat off" if "holds r ts h a" for h a
    using place [OF that] c(4) by (simp add: block_at_def)
  have new: "block_at r ?n (unat off)"
    using c(4,7) b(2,5,6) by (auto simp: block_at_def bat_placed_def apart_spans_def apart_from_log_def log_span_def log_region_ok_def)
  have grow: "block_at r ?n a" if "block_at r (length ?c) a" for a using that c(4) by (simp add: block_at_def)
  have dvd: "LOG_SECTOR_SIZE dvd ?n"
  proof -
    have "(2 :: nat) ^ 20 dvd ?n" unfolding m(2) by (rule dvd_add [OF c(7) le_imp_power_dvd [OF m(1)]])
    then show ?thesis by (rule dvd_trans [rotated]) simp
  qed
  have zero: "subslice a (a + ?bb) (contents d) = replicate ?bb 0" if "holds ?r (ts[k := ?t]) (Thread j) a" for j a
  proof (cases "j = k")
    case True
    then have "a = unat off" using old [OF that] by simp
    then show ?thesis using c(4) by (intro nth_equalityI) (auto simp: c(3) nth_subslice nth_grown)
  next
    case False
    then have h: "holds r ts (Thread j) a" using old [OF that] by simp
    then have "subslice a (a + ?bb) ?c = replicate ?bb 0" using assms(2) unfolding blocks_inv_def by blast
    then show ?thesis using place [OF h] by (simp add: c(3) subslice_grown_old block_at_def)
  qed
  have "apart_spans a ?bb a' ?bb"
    if hs: "h \<noteq> h'" "holds ?r (ts[k := ?t]) h a" "holds ?r (ts[k := ?t]) h' a'" for h h' a a'
  proof -
    consider "h = Thread k" "a = unat off" "holds r ts h' a'" | "h' = Thread k" "a' = unat off" "holds r ts h a"
      | "holds r ts h a" "holds r ts h' a'" using old [OF hs(2)] old [OF hs(3)] hs(1) by blast
    then show ?thesis
    proof cases
      case 3
      then show ?thesis using assms(2) hs(1) unfolding blocks_inv_def by blast
    qed (use in_old in \<open>fastforce simp: apart_spans_def\<close>)+
  qed
  moreover have "block_at r ?n a" if "holds ?r (ts[k := ?t]) h a" for h a
    using old [OF that] place grow new by blast
  ultimately have blocks: "blocks_inv (contents d) ?r (ts[k := ?t])"
    using zero dvd by (intro blocks_invI) (simp_all only: f len)
  have "2 * ?bb * length (filter may_claim (ts[k := ?t])) + 2 * ?bb = 2 * ?bb * length (filter may_claim ts)"
    using more [of ?t] by (metis (no_types, lifting) add_mult_distrib2 mult.right_neutral may_claim_def
        alloc_pc.distinct(1) thread_at.inject(1) write_pc.distinct(1) write_pc.inject(1))
  then have "room_inv ?n ?r (ts[k := ?t])" using assms(4) c(5) unfolding room_inv_def f(1) by linarith
  moreover have "vbyte ?r (contents d) v = vbyte r ?c v" if "v < unat (rd_virtual_size r)" for v
  proof (rule vbyte_frame [OF assms(2) sl bat _ base_inv_block_pos [OF assms(1)] _ that])
    show "length ?c \<le> length (contents d)" using len c(4) by simp
    show "subslice (block_start r i) (block_start r i + ?bb) (contents d) = subslice (block_start r i) (block_start r i + ?bb) ?c"
      if "present r i" for i
      using place [of "Slot i"] that by (simp add: c(3) subslice_grown_old block_at_def)
  qed
  moreover have "alloc_step x ops i Claim r = (Ok (ZeroFill off), ?r)"
    using c(1) by (simp add: alloc_step_def io_bind_def io_return_def)
  ultimately show thesis using that [of off ?r] base blocks sl bat len by simp
qed

text \<open>The publication: the block passes from the thread to the entry, and reads as the zeros it replaces.\<close>

lemma cache_kind:
  assumes "base_inv invar contents r0 r" "blocks_inv (contents (rd_dev r)) r ts" "k < length ts"
    and "ts ! k = AtWrite (Allocating (CacheEntry off))" "payload_slot r i" "\<not> present r i" "i < length (rd_bat r)"
    and "\<not> present r0 i"
  defines "r' \<equiv> r\<lparr> rd_bat := (rd_bat r)[i := \<lparr> be_state = FullyPresent, be_file_offset = off \<rparr>] \<rparr>"
  shows "alloc_step x ops i (CacheEntry off) r = (Ok (Allocated off), r')"
    and "base_inv invar contents r0 r'" "blocks_inv (contents (rd_dev r)) r' (ts[k := AtWrite (Place off)])"
    and "present r' j \<longleftrightarrow> present r j \<or> j = i"
    and "v < unat (rd_virtual_size r) \<Longrightarrow> vbyte r' (contents (rd_dev r)) v = vbyte r (contents (rd_dev r)) v"
proof -
  let ?c = "contents (rd_dev r)" and ?bb = "block_bytes r" and ?t = "AtWrite (Place off)"
  have own: "holds r ts (Thread k) (unat off)" using assms(3,4) by simp
  note B = blocks_invD [OF assms(2)]
  have at: "block_at r (length ?c) (unat off)" by (rule B(1) [OF own])
  have sl: "same_layout r r'" by (simp add: r'_def)
  note f = same_layout_fields [OF sl]
  have i0: "rd_bat r' ! i = \<lparr> be_state = FullyPresent, be_file_offset = off \<rparr>"
    and j0: "j \<noteq> i \<Longrightarrow> rd_bat r' ! j = rd_bat r ! j" for j
    using assms(7) by (simp_all add: r'_def)
  have pr: "present r' j \<longleftrightarrow> present r j \<or> j = i" for j
    using i0 j0 [of j] assms(5) by (cases "j = i") (auto simp: present_def f)
  then show "present r' j \<longleftrightarrow> present r j \<or> j = i" .
  have "bat_entry_from_u64 (bat_word off) = \<lparr> be_state = FullyPresent, be_file_offset = off \<rparr>"
    using bat_entry_of_word at by (simp add: block_at_def)
  then show "alloc_step x ops i (CacheEntry off) r = (Ok (Allocated off), r')"
    using assms(7) by (simp add: alloc_step_def r'_def)
  have "rd_bat r' ! j \<noteq> rd_bat r0 ! j \<longrightarrow> \<not> present r0 j \<and> present r' j" for j
    using assms(1,8) j0 [of j] pr [of j] by (cases "j = i") (auto simp: base_inv_def)
  then show "base_inv invar contents r0 r'"
    using assms(1) by (simp add: base_inv_def bat_placed_def r'_def)
  have bs: "j \<noteq> i \<Longrightarrow> block_start r' j = block_start r j" "block_start r' i = unat off" for j
    by (simp_all add: i0 j0)
  define was where "was h = (if h = Slot i then Thread k else h)" for h
  have old: "holds r ts (was h) a \<and> h \<noteq> Thread k" if "holds r' (ts[k := ?t]) h a" for h a
    using that own assms(3) pr bs by (cases h) (auto simp: was_def nth_list_update split: if_splits)
  show "blocks_inv ?c r' (ts[k := ?t])"
  proof (rule blocks_invI, unfold f)
    show "block_at r (length ?c) a" if "holds r' (ts[k := ?t]) h a" for h a
      using B(1) old [OF that] by blast
    show "apart_spans a ?bb b ?bb" if "h \<noteq> h'" "holds r' (ts[k := ?t]) h a" "holds r' (ts[k := ?t]) h' b" for h h' a b
      using B(2) [of "was h" "was h'" a b] old [OF that(2)] old [OF that(3)] that(1) by (auto simp: was_def split: if_splits)
    show "LOG_SECTOR_SIZE dvd length ?c" "subslice a (a + ?bb) ?c = replicate ?bb 0"
      if "holds r' (ts[k := ?t]) (Thread l) a" for l a
      using B(3,4) [of l a] old [OF that] by (auto simp: was_def)
  qed
  show "vbyte r' ?c v = vbyte r ?c v" if v: "v < unat (rd_virtual_size r)"
  proof (cases "slot_of r v = i")
    case True
    have m: "v mod ?bb < ?bb" using base_inv_block_pos [OF assms(1)] by simp
    have "?c ! (unat off + v mod ?bb) = subslice (unat off) (unat off + ?bb) ?c ! (v mod ?bb)"
      using at m by (simp add: nth_subslice block_at_def)
    also have "\<dots> = 0" unfolding B(4) [OF own] using m by simp
    finally show ?thesis
      using True assms(5,6) by (simp add: vbyte_def f i0 Let_def present_def)
  next
    case False
    then show ?thesis by (simp add: vbyte_def f j0 Let_def)
  qed
qed

text \<open>A store into a block that is present: its bytes change, and no thread's claim does.\<close>

lemma store_kind:
  assumes "base_inv invar contents r0 r" "blocks_inv (contents (rd_dev r)) r ts" "k < length ts"
    and "job_at r w (ch, src)" "at_block r w off"
  obtains r' where
    "reader_dev_write ops (off + bc_in_block ch) src r = (Ok (), r')" "base_inv invar contents r0 r'"
    "blocks_inv (contents (rd_dev r')) r' (ts[k := AtWrite Written])" "same_layout r r'" "rd_bat r' = rd_bat r"
    "length (contents (rd_dev r')) = length (contents (rd_dev r))"
    "\<And>v. v < unat (rd_virtual_size r) \<Longrightarrow> vbyte r' (contents (rd_dev r')) v =
      (if in_job w (ch, src) v then src ! (v - w) else vbyte r (contents (rd_dev r)) v)"
proof -
  let ?c = "contents (rd_dev r)" and ?bb = "block_bytes r" and ?a = "unat off"
  note B = blocks_invD [OF assms(2)]
  have inv: "invar (rd_dev r)" "unat (rd_dev_size r) = length ?c" using assms(1) by (auto simp: base_inv_def)
  have p: "present r (slot_of r w)" "off = be_file_offset (rd_bat r ! slot_of r w)" using assms(5) by (auto simp: at_block_def)
  have own: "holds r ts (Slot (slot_of r w)) ?a" using p by simp
  have at: "block_at r (length ?c) ?a" by (rule B(1) [OF own])
  have fits: "w mod ?bb + length src \<le> ?bb" using assms(4) by (simp add: job_at_def)
  have "?a + ?bb \<le> unat (rd_dev_size r)" using at inv(2) by (simp add: block_at_def)
  from place_ok(2) [OF inv(1) this inv(2) assms(4)]
  obtain d where d: "reader_dev_write ops (off + bc_in_block ch) src r = (Ok (), r\<lparr> rd_dev := d \<rparr>)" (is "_ = (_, ?r)")
    "invar d" "contents d = overwrite (?a + w mod ?bb) src ?c" by blast
  have len: "length (contents d) = length ?c" using at fits by (simp add: d(3) block_at_def)
  have sl: "same_layout r ?r" and bat: "rd_bat ?r = rd_bat r" by simp_all
  note pr = course_agree(3) [OF sl bat]
  have base: "base_inv invar contents r0 ?r"
    using assms(1) d(2) len pr by (simp add: base_inv_def bat_placed_def)
  have kept: "subslice a (a + ?bb) (contents d) = subslice a (a + ?bb) ?c" if h: "holds r ts (Thread j) a" for j a
  proof -
    have "apart_spans ?a ?bb a ?bb" by (rule B(2) [OF _ own h]) simp
    then show ?thesis
      unfolding d(3) using fits at by (intro subslice_overwrite_disjoint) (auto simp: apart_spans_def block_at_def)
  qed
  have "blocks_inv (contents d) ?r (ts[k := AtWrite Written])"
    by (rule blocks_inv_frame [OF assms(2) sl len holds_update [OF pr bat assms(3)] kept]) simp_all
  moreover have "vbyte ?r (contents d) v = (if in_job w (ch, src) v then src ! (v - w) else vbyte r ?c v)"
    if "v < unat (rd_virtual_size r)" for v
    using store_vbyte_layout [OF base_inv_block_pos [OF assms(1)] base_inv_layout [OF assms(1,2)] p(1) fits that] p(2)
    by (simp add: d(3) vpatch_def in_job_def)
  ultimately show thesis using that [OF d(1) base _ sl bat] len by simp
qed

lemma quiet_kind:
  assumes "blocks_inv c r ts" "k < length ts" "thread_claim t = None \<or> thread_claim t = thread_claim (ts ! k)"
  shows "blocks_inv c r (ts[k := t])"
  by (rule blocks_inv_frame [OF assms(1) _ _ holds_update [OF _ _ assms(2,3)]]) simp_all

end

section \<open>A step of a write\<close>

text \<open>What the tasks must be: pieces of the disk, the written ones apart, and none in the same block unless it is there.\<close>

definition tasks_ok :: "'d vhdx_reader \<Rightarrow> (nat \<Rightarrow> nat) \<Rightarrow> task list \<Rightarrow> bool" where
  "tasks_ok r at tasks \<longleftrightarrow>
     (\<forall>k < length tasks. job_at r (at k) (task_job (tasks ! k)) \<and> accepts r (at k)) \<and>
     (\<forall>j < length tasks. \<forall>k < length tasks. j \<noteq> k \<longrightarrow> is_write (tasks ! j) \<longrightarrow> is_write (tasks ! k) \<longrightarrow>
        (\<forall>v. writes_byte (at j) (tasks ! j) v \<longrightarrow> \<not> writes_byte (at k) (tasks ! k) v) \<and>
        (slot_of r (at j) = slot_of r (at k) \<longrightarrow> present r (slot_of r (at j))))"

definition effect ::
  "('d \<Rightarrow> bool) \<Rightarrow> ('d \<Rightarrow> bytes) \<Rightarrow> 'd vhdx_reader \<Rightarrow> (nat \<Rightarrow> nat) \<Rightarrow> task list \<Rightarrow> 'd vhdx_reader \<Rightarrow> thread_at list \<Rightarrow>
   nat \<Rightarrow> block_chunk \<Rightarrow> bytes \<Rightarrow> write_pc \<Rightarrow> 'd vhdx_reader \<Rightarrow> write_pc \<Rightarrow> bool" where
  "effect dev_ok content r0 at tasks r ts k ch src pc r' pc' \<longleftrightarrow>
     base_inv dev_ok content r0 r' \<and> blocks_inv (content (rd_dev r')) r' (ts[k := AtWrite pc']) \<and>
     room_inv (length (content (rd_dev r'))) r' (ts[k := AtWrite pc']) \<and>
     write_course r' (at k) ch pc' \<and> (\<forall>j < length tasks. j \<noteq> k \<longrightarrow> course r' (at j) (tasks ! j) (ts ! j)) \<and>
     (pc = Written \<longrightarrow> pc' = Written) \<and>
     (\<forall>v < unat (rd_virtual_size r). vbyte r' (content (rd_dev r')) v =
        (if pc' = Written \<and> pc \<noteq> Written \<and> in_job (at k) (ch, src) v then src ! (v - at k)
         else vbyte r (content (rd_dev r)) v))"

lemma course_cached:
  assumes "course r w t th" "same_layout r r'" "\<not> present r i" "\<And>j. present r' j \<longleftrightarrow> present r j \<or> j = i"
    and "\<And>j. j \<noteq> i \<Longrightarrow> rd_bat r' ! j = rd_bat r ! j" "is_write t \<Longrightarrow> slot_of r w \<noteq> i"
  shows "course r' w t th"
proof -
  note f = same_layout_fields [OF assms(2)]
  have a: "at_block r w off \<Longrightarrow> at_block r' w off" for off
    using assms(3-5) unfolding at_block_def f(3) by metis
  show ?thesis
  proof (cases t)
    case (WriteTask ch src)
    then obtain pc where pc: "th = AtWrite pc" using assms(1) by (cases th) auto
    then show ?thesis using assms(1,4,6) WriteTask a by (cases pc) (auto simp: f)
  next
    case (ReadTask ch n)
    then obtain pc where pc: "th = AtRead pc" using assms(1) by (cases th) auto
    then show ?thesis using assms(1) ReadTask a by (cases pc) auto
  qed
qed

context reliable_device
begin

lemma write_effect:
  assumes "crc_contract x" "base_inv invar contents r0 r" "blocks_inv (contents (rd_dev r)) r ts"
    and "room_inv (length (contents (rd_dev r))) r ts" "length ts = length tasks"
    and "\<forall>j < length tasks. course r (at j) (tasks ! j) (ts ! j)" "tasks_ok r0 at tasks"
    and "k < length tasks" "tasks ! k = WriteTask ch src" "ts ! k = AtWrite pc"
    and "geometry_ok r0" "write_step x ops ch src pc r = (res, r')"
  shows "\<exists>pc'. res = Ok pc' \<and> effect invar contents r0 at tasks r ts k ch src pc r' pc'"
proof -
  let ?c = "contents (rd_dev r)" and ?w = "at k" and ?i = "slot_of r (at k)"
  have sl: "same_layout r0 r" using assms(2) by (simp add: base_inv_def)
  note f = same_layout_fields [OF sl] and B = blocks_invD [OF assms(3)]
  have inv: "invar (rd_dev r)" "unat (rd_dev_size r) = length ?c" using assms(2) by (auto simp: base_inv_def)
  have kt: "k < length ts" using assms(5,8) by simp
  have job0: "job_at r0 ?w (ch, src)" "accepts r0 ?w" using assms(7,8,9) unfolding tasks_ok_def by force+
  then have job: "job_at r ?w (ch, src)" by (simp add: job_at_def f)
  have acc: "accepts r ?w" by (rule base_inv_accepts [OF assms(2) job0(2)])
  have wlt: "?w < unat (rd_virtual_size r)" "bc_bat_idx ch = ?i" using job by (simp_all add: job_at_def)
  have ilt: "?i < length (rd_bat r)" using assms(11) wlt(1) by (simp add: geometry_ok_def f)
  have ps: "payload_slot r ?i" using wlt(1) by (auto simp: payload_slot_def)
  have mine: "write_course r ?w ch pc" using assms(6,8,9,10) by (metis course.simps(1))
  have quiet: ?thesis
    if "res = Ok pc'" "r' = r" "claim_pc pc' = None \<or> claim_pc pc' = claim_pc pc" "write_course r ?w ch pc'"
      "may_claim (AtWrite pc') \<Longrightarrow> may_claim (AtWrite pc)" "pc = Written \<longleftrightarrow> pc' = Written" for pc'
    using that assms(2,6) quiet_kind [OF assms(3) kt, of "AtWrite pc'"] room_inv_update [OF assms(4) kt, of "AtWrite pc'" r] assms(10)
    by (intro exI [of _ pc']) (auto simp: effect_def)
  have still: "effect invar contents r0 at tasks r ts k ch src pc r' pc'"
    if "base_inv invar contents r0 r'" "blocks_inv (contents (rd_dev r')) r' (ts[k := AtWrite pc'])"
      "room_inv (length (contents (rd_dev r'))) r' (ts[k := AtWrite pc'])" "write_course r ?w ch pc'"
      "same_layout r r'" "rd_bat r' = rd_bat r" "pc = Written \<Longrightarrow> pc' = Written"
      "\<And>v. v < unat (rd_virtual_size r) \<Longrightarrow> vbyte r' (contents (rd_dev r')) v =
        (if pc' = Written \<and> pc \<noteq> Written \<and> in_job ?w (ch, src) v then src ! (v - ?w) else vbyte r ?c v)" for pc'
    using that assms(6) course_agree(1,2) [OF that(5,6)] by (simp add: effect_def)
  show ?thesis
  proof (cases pc)
    case LookUp
    show ?thesis
    proof (cases "be_state (rd_bat r ! ?i) = FullyPresent")
      case True
      then show ?thesis
        using LookUp assms(12) wlt(2) ilt ps
        by (intro quiet [of "Place (be_file_offset (rd_bat r ! ?i))"])
          (auto simp: write_step_def bat_entry_at_def look_up_def at_block_def present_def may_claim_def)
    next
      case False
      then have "zero_fill (be_state (rd_bat r ! ?i))" using acc by (simp add: accepts_def Let_def)
      then have "look_up (rd_bat r ! ?i) = Ok (Allocating Claim)"
        by (cases "be_state (rd_bat r ! ?i)") (simp_all add: look_up_def)
      then show ?thesis
        using LookUp assms(12) wlt(2) ilt False
        by (intro quiet [of "Allocating Claim"])
          (auto simp: write_step_def bat_entry_at_def present_def may_claim_def)
    qed
  next
    case (Allocating apc)
    have absent: "\<not> present r ?i" "sound_alloc apc" using mine Allocating by simp_all
    consider (Claim) "apc = Claim" | (CacheEntry) off where "apc = CacheEntry off" | (Allocated) off where "apc = Allocated off"
      | (between) off where "claimed (Running ?i apc) = Some off" "\<And>off. apc \<noteq> CacheEntry off" "\<And>off. apc \<noteq> Allocated off"
      by (cases apc) auto
    then show ?thesis
    proof cases
      case Claim
      obtain r1 off where c: "alloc_step x ops ?i Claim r = (Ok (ZeroFill off), r1)" "base_inv invar contents r0 r1"
        "blocks_inv (contents (rd_dev r1)) r1 (ts[k := AtWrite (Allocating (ZeroFill off))])"
        "room_inv (length (contents (rd_dev r1))) r1 (ts[k := AtWrite (Allocating (ZeroFill off))])"
        "same_layout r r1" "rd_bat r1 = rd_bat r"
        "\<And>v. v < unat (rd_virtual_size r) \<Longrightarrow> vbyte r1 (contents (rd_dev r1)) v = vbyte r ?c v"
        by (rule claim_kind [OF assms(2,3) kt assms(4)]) (use assms(10) Allocating Claim in auto)
      have run: "res = Ok (Allocating (ZeroFill off))" "r' = r1"
        using assms(12) c(1) by (simp_all add: Allocating Claim write_step_def wlt(2) io_bind_def io_return_def)
      show ?thesis
        unfolding run using c absent
        by (intro exI [of _ "Allocating (ZeroFill off)"] conjI refl still [unfolded run]) (simp_all add: Allocating)
    next
      case (CacheEntry off)
      have n0: "\<not> present r0 ?i" using absent(1) base_inv_present(1) [OF assms(2)] by blast
      have at: "ts ! k = AtWrite (Allocating (CacheEntry off))" using assms(10) Allocating CacheEntry by simp
      note c = cache_kind [OF assms(2,3) kt at ps absent(1) ilt n0]
      let ?r = "r\<lparr> rd_bat := (rd_bat r)[?i := \<lparr> be_state = FullyPresent, be_file_offset = off \<rparr>] \<rparr>"
      have run: "res = Ok (Place off)" "r' = ?r"
        using assms(12) c(1) by (simp_all add: Allocating CacheEntry write_step_def wlt(2) io_bind_def io_return_def)
      have sl2: "same_layout r ?r" by simp
      have "course ?r (at j) (tasks ! j) (ts ! j)" if j: "j < length tasks" "j \<noteq> k" for j
      proof (rule course_cached [OF _ sl2 absent(1) c(4)])
        show "course r (at j) (tasks ! j) (ts ! j)" using assms(6) j(1) by blast
        show "slot_of r (at j) \<noteq> ?i" if "is_write (tasks ! j)"
        proof
          assume "slot_of r (at j) = ?i"
          moreover have "slot_of r0 (at j) = slot_of r0 (at k) \<longrightarrow> present r0 (slot_of r0 (at j))"
            using assms(7,8,9) j that unfolding tasks_ok_def by (metis is_write.simps(1))
          ultimately show False using n0 by (simp add: f)
        qed
      qed simp
      moreover have "room_inv (length ?c) ?r (ts[k := AtWrite (Place off)])"
        by (rule room_inv_update [OF assms(4) kt]) (simp_all add: may_claim_def)
      moreover have "at_block ?r ?w off"
        using c(4) [of ?i] ilt same_layout_fields(3) [OF sl2] by (simp add: at_block_def)
      ultimately show ?thesis
        using run c(2,3,5) by (intro exI [of _ "Place off"]) (simp add: effect_def Allocating)
    next
      case (Allocated off)
      then show ?thesis using absent(2) by simp
    next
      case (between off)
      have "thread_claim (ts ! k) = Some off" using assms(10) Allocating between(1) by simp
      then have own: "holds r ts (Thread k) (unat off)" using kt by simp
      obtain apc' d h a where st: "alloc_step x ops ?i apc r = (Ok apc', r\<lparr> rd_dev := d, rd_header := h, rd_active_header_slot := a \<rparr>)"
        (is "_ = (_, ?r)")
        "sound_alloc apc'" "claimed (Running ?i apc') = Some off" "invar d"
        "blocks_kept r ?c (contents d)" "header_wf h" "hdr_log_offset h = hdr_log_offset (rd_header r)"
        "hdr_log_length h = hdr_log_length (rd_header r)"
        by (rule between_claim_and_cache [OF assms(2,1) ilt absent(2) between(1,2) B(1) [OF own] B(3) [OF own] B(4) [OF own]])
      have same: "allocating apc' = Allocating apc'" "\<not> may_claim (AtWrite (Allocating apc'))"
        using st(2,3) by (cases apc'; simp add: may_claim_def)+
      have run: "res = Ok (Allocating apc')" "r' = ?r"
        using assms(12) st(1) by (simp_all add: Allocating write_step_def wlt(2) io_bind_def io_return_def same)
      have cl: "thread_claim (AtWrite (Allocating apc')) = thread_claim (ts ! k)"
        using st(3) between(1) assms(10) Allocating by (cases apc'; cases apc; simp)
      note k1 = frame_kind [OF assms(2,3) kt disjI2 [OF cl] refl st(4-8)]
      have "room_inv (length (contents d)) ?r (ts[k := AtWrite (Allocating apc')])"
        using room_inv_update [OF assms(4) kt, of "AtWrite (Allocating apc')" ?r] same(2) st(5) by (simp add: blocks_kept_def)
      then show ?thesis
        unfolding run using k1 absent st(2)
        by (intro exI [of _ "Allocating apc'"] conjI refl still [unfolded run]) (simp_all add: Allocating)
    qed
  next
    case (Place off)
    have at: "at_block r ?w off" using mine Place by simp
    have "unat off + block_bytes r \<le> unat (rd_dev_size r)"
      using B(1) [of "Slot ?i"] at inv(2) by (simp add: at_block_def block_at_def)
    from place_ok(1) [OF inv(1) this inv(2) job] show ?thesis
      using Place assms(12) at
      by (intro quiet [of "Store (off + bc_in_block ch)"])
        (auto simp: write_step_def io_bind_def io_lift_def io_return_def may_claim_def)
  next
    case (Store host)
    have at: "at_block r ?w (host - bc_in_block ch)" using mine Store by simp
    obtain r1 where c: "reader_dev_write ops host src r = (Ok (), r1)" "base_inv invar contents r0 r1"
      "blocks_inv (contents (rd_dev r1)) r1 (ts[k := AtWrite Written])" "same_layout r r1" "rd_bat r1 = rd_bat r"
      "length (contents (rd_dev r1)) = length ?c"
      "\<And>v. v < unat (rd_virtual_size r) \<Longrightarrow> vbyte r1 (contents (rd_dev r1)) v =
        (if in_job ?w (ch, src) v then src ! (v - ?w) else vbyte r ?c v)"
      using store_kind [OF assms(2,3) kt job at] by auto
    have run: "res = Ok Written" "r' = r1"
      using assms(12) c(1) by (simp_all add: Store write_step_def io_bind_def io_return_def)
    have "room_inv (length (contents (rd_dev r1))) r1 (ts[k := AtWrite Written])"
      unfolding c(6) by (rule room_inv_update [OF assms(4) kt]) (simp_all add: may_claim_def same_layout_fields(1) [OF c(4)])
    then show ?thesis
      unfolding run using c by (intro exI [of _ Written] conjI refl still [unfolded run]) (simp_all add: Store)
  next
    case Written
    then show ?thesis using assms(12) by (intro quiet [of Written]) (auto simp: write_step_def io_return_def may_claim_def)
  qed
qed

section \<open>A step of a read\<close>

lemma read_effect:
  assumes "base_inv invar contents r0 r" "blocks_inv (contents (rd_dev r)) r ts" "geometry_ok r0"
    and "job_at r0 w (ch, replicate n 0)" "accepts r0 w" "read_course r w ch pc"
  shows "\<exists>pc'. read_step ops ch n pc r = Ok pc' \<and> read_course r w ch pc' \<and>
    (\<forall>bs. pc' = Fetched bs \<longrightarrow> pc = Fetched bs \<or>
       length bs = n \<and> (\<forall>j < n. bs ! j = vbyte r (contents (rd_dev r)) (w + j)))"
proof -
  let ?c = "contents (rd_dev r)" and ?i = "slot_of r w" and ?bb = "block_bytes r" and ?src = "replicate n 0 :: bytes"
  have sl: "same_layout r0 r" using assms(1) by (simp add: base_inv_def)
  note f = same_layout_fields [OF sl]
  have inv: "invar (rd_dev r)" "unat (rd_dev_size r) = length ?c" using assms(1) by (auto simp: base_inv_def)
  have job: "job_at r w (ch, ?src)" using assms(4) by (simp add: job_at_def f)
  have acc: "accepts r w" by (rule base_inv_accepts [OF assms(1,5)])
  have j: "w < unat (rd_virtual_size r)" "bc_bat_idx ch = ?i" "unat (bc_in_block ch) = w mod ?bb" "w mod ?bb + n \<le> ?bb"
    using job by (simp_all add: job_at_def)
  have ilt: "?i < length (rd_bat r)" using assms(3) j(1) by (simp add: geometry_ok_def f)
  have ps: "payload_slot r ?i" using j(1) by (auto simp: payload_slot_def)
  note pos = base_inv_block_pos [OF assms(1)]
  have piece: "slot_of r (w + k) = ?i" "(w + k) mod ?bb = w mod ?bb + k" if "k < n" for k
  proof -
    have w: "w \<le> w + k \<and> w + k < w + n" using that by simp
    show "slot_of r (w + k) = ?i" using in_piece_iff(1) [OF j(4) pos, of "w + k"] w by blast
    show "(w + k) mod ?bb = w mod ?bb + k"
      using in_piece_iff(1) [OF j(4) pos, of "w + k"] in_piece_iff(2) [OF j(4) pos, of "w + k"] w by auto
  qed
  have at: "unat off + ?bb \<le> length ?c" "host_offset r off (bc_in_block ch) n = Ok (off + bc_in_block ch)"
    "unat (off + bc_in_block ch) = unat off + w mod ?bb" if a: "at_block r w off" for off
  proof -
    show fit: "unat off + ?bb \<le> length ?c"
      using blocks_invD(1) [OF assms(2), of "Slot ?i"] a by (simp add: at_block_def block_at_def)
    show "host_offset r off (bc_in_block ch) n = Ok (off + bc_in_block ch)"
      using place_ok(1) [OF inv(1) _ inv(2) job, of off] fit inv(2) by simp
    show "unat (off + bc_in_block ch) = unat off + w mod ?bb"
      using fit j(3,4) contents_bound [OF inv(1)] by (subst unat_add_no_overflow) auto
  qed
  show ?thesis
  proof (cases pc)
    case LookIn
    show ?thesis
    proof (cases "be_state (rd_bat r ! ?i) = FullyPresent")
      case True
      then show ?thesis
        using LookIn j(2) ilt ps
        by (intro exI [of _ "PlaceOf (be_file_offset (rd_bat r ! ?i))"])
          (simp add: read_step_def bat_entry_at_def look_in_def at_block_def present_def)
    next
      case False
      then have "zero_fill (be_state (rd_bat r ! ?i))" using acc by (simp add: accepts_def Let_def)
      then have "look_in n (rd_bat r ! ?i) = Ok (Fetched ?src)"
        by (cases "be_state (rd_bat r ! ?i)") (simp_all add: look_in_def)
      then show ?thesis
        using LookIn j(2) ilt False piece(1)
        by (intro exI [of _ "Fetched ?src"]) (simp add: read_step_def bat_entry_at_def vbyte_def Let_def)
    qed
  next
    case (PlaceOf off)
    then show ?thesis
      using at(2) [of off] assms(6) by (intro exI [of _ "Fetch (off + bc_in_block ch)"]) (simp add: read_step_def)
  next
    case (Fetch host)
    let ?off = "host - bc_in_block ch"
    have a: "at_block r w ?off" using assms(6) Fetch by simp
    have uh: "unat host = unat ?off + w mod ?bb" using at(3) [OF a] by simp
    have "reader_dev_read ops r host n = Ok (subslice (unat host) (unat host + n) ?c)"
      using at(1) [OF a] j(4) uh by (intro reader_read_ok [OF inv(1)]) linarith
    moreover have "subslice (unat host) (unat host + n) ?c ! k = vbyte r ?c (w + k)" if "k < n" for k
      using at(1) [OF a] j(4) a that uh by (simp add: nth_subslice vbyte_def Let_def piece at_block_def present_def add.assoc)
    ultimately show ?thesis
      using Fetch at(1) [OF a] j(4) uh
      by (intro exI [of _ "Fetched (subslice (unat host) (unat host + n) ?c)"]) (simp add: read_step_def)
  next
    case (Fetched bs)
    then show ?thesis by (simp add: read_step_def)
  qed
qed

end

section \<open>Every interleaving\<close>

definition shared_inv ::
  "('d \<Rightarrow> bool) \<Rightarrow> ('d \<Rightarrow> bytes) \<Rightarrow> 'd vhdx_reader \<Rightarrow> (nat \<Rightarrow> nat) \<Rightarrow> task list \<Rightarrow>
   'd vhdx_reader \<times> thread_at list \<Rightarrow> bool" where
  "shared_inv dev_ok content r0 at tasks s \<longleftrightarrow>
     (case s of (r, ts) \<Rightarrow>
        base_inv dev_ok content r0 r \<and> blocks_inv (content (rd_dev r)) r ts \<and>
        room_inv (length (content (rd_dev r))) r ts \<and> length ts = length tasks \<and>
        (\<forall>k < length tasks. course r (at k) (tasks ! k) (ts ! k)) \<and>
        (\<forall>k < length tasks. \<forall>ch src v. tasks ! k = WriteTask ch src \<longrightarrow> ts ! k = AtWrite Written \<longrightarrow>
           in_job (at k) (ch, src) v \<longrightarrow> vbyte r (content (rd_dev r)) v = src ! (v - at k)) \<and>
        (\<forall>v < unat (rd_virtual_size r0). vbyte r (content (rd_dev r)) v = vbyte r0 (content (rd_dev r0)) v \<or>
           (\<exists>k < length tasks. \<exists>ch src. tasks ! k = WriteTask ch src \<and> in_job (at k) (ch, src) v \<and>
              vbyte r (content (rd_dev r)) v = src ! (v - at k))))"

text \<open>What a read that is done has returned: the bytes of the disk at one moment of the run.\<close>

definition moments_inv ::
  "('d \<Rightarrow> bytes) \<Rightarrow> ('d vhdx_reader \<times> thread_at list \<Rightarrow> 'd vhdx_reader \<times> thread_at list \<Rightarrow> bool) \<Rightarrow>
   (nat \<Rightarrow> nat) \<Rightarrow> task list \<Rightarrow> 'd vhdx_reader \<times> thread_at list \<Rightarrow> 'd vhdx_reader \<times> thread_at list \<Rightarrow> bool" where
  "moments_inv content run at tasks start s \<longleftrightarrow>
     (\<forall>k < length tasks. \<forall>ch n bs. tasks ! k = ReadTask ch n \<longrightarrow> snd s ! k = AtRead (Fetched bs) \<longrightarrow>
        length bs = n \<and> (\<exists>r1 ts1. run start (r1, ts1) \<and> run (r1, ts1) s \<and>
          (\<forall>j < n. bs ! j = vbyte r1 (content (rd_dev r1)) (at k + j))))"

lemma tasks_okD:
  assumes "tasks_ok r at tasks" "k < length tasks"
  shows "job_at r (at k) (task_job (tasks ! k))" "accepts r (at k)"
    and "tasks ! k = WriteTask ch src \<Longrightarrow> tasks ! j = WriteTask ch' src' \<Longrightarrow> j < length tasks \<Longrightarrow> j \<noteq> k \<Longrightarrow>
      in_job (at j) (ch', src') v \<Longrightarrow> \<not> in_job (at k) (ch, src) v"
proof -
  show "job_at r (at k) (task_job (tasks ! k))" "accepts r (at k)" using assms unfolding tasks_ok_def by blast+
  assume w: "tasks ! k = WriteTask ch src" "tasks ! j = WriteTask ch' src'" "j < length tasks" "j \<noteq> k"
    "in_job (at j) (ch', src') v"
  then have "writes_byte (at j) (tasks ! j) v \<longrightarrow> \<not> writes_byte (at k) (tasks ! k) v"
    using assms unfolding tasks_ok_def by force
  then show "\<not> in_job (at k) (ch, src) v" using w by simp
qed

context reliable_device
begin

lemma shared_inv_write:
  assumes "crc_contract x" "geometry_ok r0" "tasks_ok r0 at tasks" "shared_inv invar contents r0 at tasks (r, ts)"
    and "k < length tasks" "tasks ! k = WriteTask ch src" "ts ! k = AtWrite pc" "write_step x ops ch src pc r = (res, r')"
  shows "\<exists>pc'. res = Ok pc' \<and> shared_inv invar contents r0 at tasks (r', ts[k := AtWrite pc'])"
proof -
  note i = assms(4) [unfolded shared_inv_def prod.case]
  have b: "base_inv invar contents r0 r" "blocks_inv (contents (rd_dev r)) r ts"
    "room_inv (length (contents (rd_dev r))) r ts" "length ts = length tasks"
    "\<forall>k < length tasks. course r (at k) (tasks ! k) (ts ! k)" using i by blast+
  obtain pc' where pc': "res = Ok pc'" "effect invar contents r0 at tasks r ts k ch src pc r' pc'"
    using write_effect [OF assms(1) b assms(3,5-7,2,8)] by blast
  note e = pc'(2) [unfolded effect_def]
  let ?ts = "ts[k := AtWrite pc']" and ?c = "contents (rd_dev r)" and ?c' = "contents (rd_dev r')"
  have vs: "rd_virtual_size r = rd_virtual_size r0" using b(1) by (simp add: base_inv_def same_layout_def)
  have v: "vbyte r' ?c' v = (if pc' = Written \<and> pc \<noteq> Written \<and> in_job (at k) (ch, src) v then src ! (v - at k) else vbyte r ?c v)"
    if "v < unat (rd_virtual_size r0)" for v using e that vs by simp
  have "course r' (at j) (tasks ! j) (?ts ! j)" if "j < length tasks" for j
    using e that assms(5,6) b(4) by (cases "j = k") simp_all
  moreover have "vbyte r' ?c' v = src' ! (v - at j)"
    if j: "j < length tasks" "tasks ! j = WriteTask ch' src'" "?ts ! j = AtWrite Written" "in_job (at j) (ch', src') v" for j ch' src' v
  proof -
    have lt: "v < unat (rd_virtual_size r0)"
      using tasks_okD(1) [OF assms(3) j(1)] j(2,4) by (simp add: job_at_def in_job_def)
    have old: "ts ! j = AtWrite Written \<Longrightarrow> vbyte r ?c v = src' ! (v - at j)" using i j by blast
    show ?thesis
    proof (cases "j = k")
      case True
      then show ?thesis using j v [OF lt] old assms(5-7) b(4) by (auto split: if_splits)
    next
      case False
      then have "\<not> in_job (at k) (ch, src) v" using tasks_okD(3) [OF assms(3,5,6) j(2,1) False j(4)] by simp
      then show ?thesis using False j(3) v [OF lt] old by simp
    qed
  qed
  moreover have "vbyte r' ?c' v = vbyte r0 (contents (rd_dev r0)) v \<or>
      (\<exists>j < length tasks. \<exists>ch src. tasks ! j = WriteTask ch src \<and> in_job (at j) (ch, src) v \<and>
         vbyte r' ?c' v = src ! (v - at j))" if lt: "v < unat (rd_virtual_size r0)" for v
  proof (cases "pc' = Written \<and> pc \<noteq> Written \<and> in_job (at k) (ch, src) v")
    case True
    then show ?thesis using v [OF lt] assms(5,6) by auto
  next
    case False
    then have "vbyte r' ?c' v = vbyte r ?c v" by (rule trans [OF v [OF lt] if_not_P])
    then show ?thesis using i lt by metis
  qed
  ultimately show ?thesis using pc'(1) e b(4) by (simp add: shared_inv_def)
qed

lemma shared_inv_read:
  assumes "geometry_ok r0" "tasks_ok r0 at tasks" "shared_inv invar contents r0 at tasks (r, ts)"
    and "k < length tasks" "tasks ! k = ReadTask ch n" "ts ! k = AtRead pc"
  shows "\<exists>pc'. read_step ops ch n pc r = Ok pc' \<and> shared_inv invar contents r0 at tasks (r, ts[k := AtRead pc']) \<and>
    (\<forall>bs. pc' = Fetched bs \<longrightarrow> pc = Fetched bs \<or>
       length bs = n \<and> (\<forall>j < n. bs ! j = vbyte r (contents (rd_dev r)) (at k + j)))"
proof -
  note i = assms(3) [unfolded shared_inv_def prod.case]
  have b: "base_inv invar contents r0 r" "blocks_inv (contents (rd_dev r)) r ts"
    "room_inv (length (contents (rd_dev r))) r ts" "length ts = length tasks"
    "course r (at k) (tasks ! k) (ts ! k)" using i assms(4) by blast+
  have job: "job_at r0 (at k) (ch, replicate n 0)" "accepts r0 (at k)"
    using tasks_okD(1,2) [OF assms(2,4)] assms(5) by simp_all
  have rc: "read_course r (at k) ch pc" using b(5) assms(5,6) by simp
  obtain pc' where pc': "read_step ops ch n pc r = Ok pc'" "read_course r (at k) ch pc'"
    "\<forall>bs. pc' = Fetched bs \<longrightarrow> pc = Fetched bs \<or>
       length bs = n \<and> (\<forall>j < n. bs ! j = vbyte r (contents (rd_dev r)) (at k + j))"
    using read_effect [OF b(1,2) assms(1) job rc] by blast
  have kt: "k < length ts" using b(4) assms(4) by simp
  have "blocks_inv (contents (rd_dev r)) r (ts[k := AtRead pc'])" by (rule quiet_kind [OF b(2) kt]) simp
  moreover have "room_inv (length (contents (rd_dev r))) r (ts[k := AtRead pc'])"
    by (rule room_inv_update [OF b(3) kt]) (simp_all add: may_claim_def)
  moreover have "course r (at j) (tasks ! j) (ts[k := AtRead pc'] ! j)" if "j < length tasks" for j
    using i that pc'(2) assms(5) kt by (cases "j = k") simp_all
  moreover have "ts[k := AtRead pc'] ! j = AtWrite Written \<Longrightarrow> ts ! j = AtWrite Written" for j
    using kt by (cases "j = k") simp_all
  ultimately have "shared_inv invar contents r0 at tasks (r, ts[k := AtRead pc'])"
    using i by (simp add: shared_inv_def)
  then show ?thesis using pc'(1,3) by blast
qed

lemma shared_inv_start:
  assumes "invar (rd_dev r)" "disk_inv (contents (rd_dev r)) r"
    and "length (contents (rd_dev r)) + 2 * block_bytes r * length tasks < 2 ^ 64"
  shows "shared_inv invar contents r at tasks (r, start_transfers tasks)"
proof -
  let ?c = "contents (rd_dev r)" and ?ts = "start_transfers tasks"
  have ok: "reader_ok ?c r" "layout_ok ?c r" using assms(2) by (auto simp: disk_inv_def)
  have base: "base_inv invar contents r r"
    using ok assms(1) reader_ok_placed [OF ok] by (auto simp: base_inv_def reader_ok_def geometry_ok_def)
  have st: "k < length tasks \<Longrightarrow> ?ts ! k = start_task (tasks ! k)" "length ?ts = length tasks" for k
    by (simp_all add: start_transfers_def)
  have none: "\<not> holds r ?ts (Thread k) a" for k a
    using st by (cases "tasks ! k") auto
  have al: "2 ^ 20 dvd block_start r i" if "present r i" for i
  proof -
    have "i < length (rd_bat r)" using that ok(1) by (auto simp: present_def payload_slot_def reader_ok_def geometry_ok_def)
    then have "rd_bat r ! i = disk_bat_entry ?c (unat (rd_bat_region_off r)) i"
      using ok(1) by (simp add: reader_ok_def bat_synced_def)
    then show ?thesis by (simp only: disk_bat_entry_def bat_entry_offset_aligned)
  qed
  have "blocks_inv ?c r ?ts"
  proof (rule blocks_invI)
    show "block_at r (length ?c) a" if "holds r ?ts h a" for h a
      using that ok(2) al none by (cases h) (auto simp: layout_ok_def block_at_def)
    show "apart_spans a (block_bytes r) b (block_bytes r)" if "h \<noteq> h'" "holds r ?ts h a" "holds r ?ts h' b" for h h' a b
      using that ok(2) none by (cases h; cases h') (auto simp: layout_ok_def)
  qed (use none in blast)+
  moreover have "room_inv (length ?c) r ?ts"
  proof -
    have "length (filter may_claim ?ts) \<le> length tasks" using length_filter_le [of may_claim ?ts] st(2) by simp
    then have "2 * block_bytes r * length (filter may_claim ?ts) \<le> 2 * block_bytes r * length tasks" by (rule mult_le_mono2)
    then show ?thesis using assms(3) unfolding room_inv_def by linarith
  qed
  moreover have "course r (at k) (tasks ! k) (?ts ! k)" if "k < length tasks" for k
    using st(1) [OF that] by (cases "tasks ! k") simp_all
  moreover have "?ts ! k \<noteq> AtWrite Written" if "k < length tasks" for k
    using st(1) [OF that] by (cases "tasks ! k") simp_all
  ultimately show ?thesis using base st(2) by (simp add: shared_inv_def)
qed

lemma shared_inv_run:
  assumes "crc_contract x" "geometry_ok r0" "tasks_ok r0 at tasks" "shared_inv invar contents r0 at tasks s0"
    and "moments_inv contents (transfers_run x ops tasks) at tasks s0 s0" "transfers_run x ops tasks s0 s"
  shows "shared_inv invar contents r0 at tasks s \<and> moments_inv contents (transfers_run x ops tasks) at tasks s0 s"
  using assms(6)
proof (induction rule: rtranclp_induct)
  case base
  show ?case using assms(4,5) by blast
next
  case (step s s')
  obtain r ts where s: "s = (r, ts)" by (cases s)
  note inv = step.IH [THEN conjunct1, unfolded s] and mom = step.IH [THEN conjunct2]
  have len: "length ts = length tasks" using inv by (simp add: shared_inv_def)
  have keep: "moments_inv contents (transfers_run x ops tasks) at tasks s0 (r', ts[k := t])"
    if s': "s' = (r', ts[k := t])" and t: "\<And>ch n bs. tasks ! k = ReadTask ch n \<Longrightarrow> t = AtRead (Fetched bs) \<Longrightarrow>
        ts ! k = t \<or> length bs = n \<and> (\<forall>j < n. bs ! j = vbyte r (contents (rd_dev r)) (at k + j))" for r' k t
    unfolding moments_inv_def snd_conv
  proof (intro allI impI)
    fix l ch n bs
    assume l: "l < length tasks" "tasks ! l = ReadTask ch n" "ts[k := t] ! l = AtRead (Fetched bs)"
    have now: "transfers_run x ops tasks s0 (r, ts)" "transfers_run x ops tasks (r, ts) (r', ts[k := t])"
      using step.hyps s s' by auto
    show "length bs = n \<and> (\<exists>r1 ts1. transfers_run x ops tasks s0 (r1, ts1) \<and>
        transfers_run x ops tasks (r1, ts1) (r', ts[k := t]) \<and> (\<forall>j < n. bs ! j = vbyte r1 (contents (rd_dev r1)) (at l + j)))"
    proof (cases "ts ! l = AtRead (Fetched bs)")
      case True
      then obtain r1 ts1 where "length bs = n" "transfers_run x ops tasks s0 (r1, ts1)" "transfers_run x ops tasks (r1, ts1) (r, ts)"
        "\<forall>j < n. bs ! j = vbyte r1 (contents (rd_dev r1)) (at l + j)"
        using mom l(1,2) unfolding moments_inv_def s snd_conv by blast
      then show ?thesis using rtranclp_trans [OF _ now(2)] by blast
    next
      case False
      then have "l = k" using l(3) by (metis nth_list_update_neq)
      moreover have "t = AtRead (Fetched bs)" using calculation l(1,3) len by simp
      ultimately show ?thesis using t [of ch n bs] l(2) False now by metis
    qed
  qed
  show ?case
  proof (rule transfers_stepE [OF step.hyps(2) [unfolded s]])
    fix k ch src pc res r'
    assume w: "s' = (r', ts[k := at_write res])" "k < length tasks" "tasks ! k = WriteTask ch src" "ts ! k = AtWrite pc"
      "write_step x ops ch src pc r = (res, r')"
    obtain pc' where pc': "res = Ok pc'" "shared_inv invar contents r0 at tasks (r', ts[k := AtWrite pc'])"
      using shared_inv_write [OF assms(1-3) inv w(2-5)] by blast
    have s': "s' = (r', ts[k := AtWrite pc'])" using w(1) pc'(1) by (simp add: at_write_def)
    show ?case using pc'(2) keep [OF s'] w(3) unfolding s' by simp
  next
    fix k ch n pc
    assume w: "s' = (r, ts[k := at_read (read_step ops ch n pc r)])" "k < length tasks" "tasks ! k = ReadTask ch n"
      "ts ! k = AtRead pc"
    obtain pc' where pc': "read_step ops ch n pc r = Ok pc'" "shared_inv invar contents r0 at tasks (r, ts[k := AtRead pc'])"
      "\<forall>bs. pc' = Fetched bs \<longrightarrow> pc = Fetched bs \<or>
       length bs = n \<and> (\<forall>j < n. bs ! j = vbyte r (contents (rd_dev r)) (at k + j))"
      using shared_inv_read [OF assms(2,3) inv w(2-4)] by blast
    have s': "s' = (r, ts[k := AtRead pc'])" using w(1) pc'(1) by (simp add: at_read_def)
    show ?case using pc'(2,3) keep [OF s'] w(3,4) unfolding s' by simp
  qed
qed

lemma shared_run:
  assumes "invar (rd_dev r)" "crc_contract x" "disk_inv (contents (rd_dev r)) r"
    and "tasks_ok r at tasks" "length (contents (rd_dev r)) + 2 * block_bytes r * length tasks < 2 ^ 64"
    and "transfers_run x ops tasks (r, start_transfers tasks) (r', ts)"
  shows "(\<forall>k < length tasks.
      case tasks ! k of
        WriteTask ch src \<Rightarrow> \<exists>pc. ts ! k = AtWrite pc \<and>
          (pc = Written \<longrightarrow> (\<forall>v. in_job (at k) (ch, src) v \<longrightarrow> vbyte r' (contents (rd_dev r')) v = src ! (v - at k)))
      | ReadTask ch n \<Rightarrow> \<exists>pc. ts ! k = AtRead pc \<and>
          (\<forall>bs. pc = Fetched bs \<longrightarrow> length bs = n \<and> (\<exists>r1 ts1.
             transfers_run x ops tasks (r, start_transfers tasks) (r1, ts1) \<and> transfers_run x ops tasks (r1, ts1) (r', ts) \<and>
             (\<forall>j < n. bs ! j = vbyte r1 (contents (rd_dev r1)) (at k + j))))) \<and>
    (\<forall>v < unat (rd_virtual_size r). vbyte r' (contents (rd_dev r')) v = vbyte r (contents (rd_dev r)) v \<or>
       (\<exists>k < length tasks. \<exists>ch src. tasks ! k = WriteTask ch src \<and> in_job (at k) (ch, src) v \<and>
          vbyte r' (contents (rd_dev r')) v = src ! (v - at k)))"
    (is "?Threads \<and> ?Disk")
proof -
  have geo: "geometry_ok r" using assms(3) by (simp add: disk_inv_def reader_ok_def)
  have "start_transfers tasks ! k \<noteq> AtRead (Fetched bs)" if "k < length tasks" for k bs
    using that by (cases "tasks ! k") (simp_all add: start_transfers_def)
  then have "moments_inv contents (transfers_run x ops tasks) at tasks (r, start_transfers tasks) (r, start_transfers tasks)"
    by (simp add: moments_inv_def)
  from shared_inv_run [OF assms(2) geo assms(4) shared_inv_start [OF assms(1,3,5)] this assms(6)]
  have i: "shared_inv invar contents r at tasks (r', ts)"
    and m: "moments_inv contents (transfers_run x ops tasks) at tasks (r, start_transfers tasks) (r', ts)" by blast+
  note s = i [unfolded shared_inv_def prod.case] and m = m [unfolded moments_inv_def snd_conv]
  have ?Threads
  proof (intro allI impI)
    fix k assume k: "k < length tasks"
    have c: "course r' (at k) (tasks ! k) (ts ! k)" using s k by blast
    show "case tasks ! k of
        WriteTask ch src \<Rightarrow> \<exists>pc. ts ! k = AtWrite pc \<and>
          (pc = Written \<longrightarrow> (\<forall>v. in_job (at k) (ch, src) v \<longrightarrow> vbyte r' (contents (rd_dev r')) v = src ! (v - at k)))
      | ReadTask ch n \<Rightarrow> \<exists>pc. ts ! k = AtRead pc \<and>
          (\<forall>bs. pc = Fetched bs \<longrightarrow> length bs = n \<and> (\<exists>r1 ts1.
             transfers_run x ops tasks (r, start_transfers tasks) (r1, ts1) \<and> transfers_run x ops tasks (r1, ts1) (r', ts) \<and>
             (\<forall>j < n. bs ! j = vbyte r1 (contents (rd_dev r1)) (at k + j))))"
    proof (cases "tasks ! k")
      case (WriteTask ch src)
      then obtain pc where pc: "ts ! k = AtWrite pc" using c by (cases "ts ! k") auto
      moreover have "vbyte r' (contents (rd_dev r')) v = src ! (v - at k)" if "pc = Written" "in_job (at k) (ch, src) v" for v
        using s k WriteTask pc that by blast
      ultimately show ?thesis by (simp add: WriteTask)
    next
      case (ReadTask ch n)
      then obtain pc where pc: "ts ! k = AtRead pc" using c by (cases "ts ! k") auto
      then show ?thesis using m k ReadTask by (simp add: ReadTask)
    qed
  qed
  moreover have ?Disk using s by blast
  ultimately show ?thesis ..
qed

end

end
