(* ===== verification/Reader_Recovery.thy ===== *)
theory Reader_Recovery
  imports Reader_Write
begin

text \<open>
  The writer's journal against the opener's replay: the entry \<open>journal_sector_write\<close> splices
  at the start of the log region is the whole chain the next open collects, and applying it
  writes the journalled sector in place.
\<close>

section \<open>A region with one entry of the chain\<close>

text \<open>No slot of the grid from \<open>pos\<close> on carries the GUID.\<close>

definition foreign_from :: "bytes \<Rightarrow> guid \<Rightarrow> nat \<Rightarrow> bool" where
  "foreign_from L g pos \<longleftrightarrow>
     (\<forall>q. pos \<le> q \<longrightarrow> q + LOG_SECTOR_SIZE \<le> length L \<longrightarrow> (q - pos) mod LOG_SECTOR_SIZE = 0 \<longrightarrow>
        subslice (q + 32) (q + 48) L \<noteq> g)"

lemma foreign_from_next: "foreign_from L g pos \<Longrightarrow> foreign_from L g (pos + LOG_SECTOR_SIZE)"
  unfolding foreign_from_def
proof (intro allI impI)
  fix q
  assume f: "\<forall>q. pos \<le> q \<longrightarrow> q + LOG_SECTOR_SIZE \<le> length L \<longrightarrow> (q - pos) mod LOG_SECTOR_SIZE = 0 \<longrightarrow>
      subslice (q + 32) (q + 48) L \<noteq> g"
    and q: "pos + LOG_SECTOR_SIZE \<le> q" "q + LOG_SECTOR_SIZE \<le> length L"
      "(q - (pos + LOG_SECTOR_SIZE)) mod LOG_SECTOR_SIZE = 0"
  have "q - pos = (q - (pos + LOG_SECTOR_SIZE)) + LOG_SECTOR_SIZE" using q(1) by linarith
  then have "(q - pos) mod LOG_SECTOR_SIZE = (q - (pos + LOG_SECTOR_SIZE)) mod LOG_SECTOR_SIZE"
    by (metis mod_add_self2)
  moreover have "pos \<le> q" using q(1) by linarith
  ultimately show "subslice (q + 32) (q + 48) L \<noteq> g" using f q(2,3) by metis
qed

lemma parse_foreign:
  assumes "foreign_from L g pos" "pos + LOG_SECTOR_SIZE \<le> length L"
  shows "\<exists>j. parse_log_entry x L pos g st = (Err j, st)"
proof -
  have "subslice (pos + 32) (pos + 48) L \<noteq> g" using assms unfolding foreign_from_def by force
  then show ?thesis by (cases st) (auto simp: parse_log_entry_eq Let_def)
qed

text \<open>An entry written at the start of the region leaves what lies after it foreign.\<close>

lemma foreign_after_entry:
  assumes "length e = 8192" "lo + n \<le> length c" "foreign_from (subslice lo (lo + n) c) g 8192" "8192 \<le> n"
  shows "foreign_from (subslice lo (lo + n) (overwrite lo e c)) g 8192"
  unfolding foreign_from_def
proof (intro allI impI)
  let ?c1 = "overwrite lo e c"
  fix q
  assume q: "8192 \<le> q" "q + LOG_SECTOR_SIZE \<le> length (subslice lo (lo + n) ?c1)" "(q - 8192) mod LOG_SECTOR_SIZE = 0"
  have len: "length (subslice lo (lo + n) ?c1) = n" using assms(1,2,4) by simp
  have "subslice (q + 32) (q + 48) (subslice lo (lo + n) ?c1) = subslice (lo + (q + 32)) (lo + (q + 48)) ?c1"
    using q(2) len by (simp add: subslice_subslice)
  also have "\<dots> = subslice (lo + (q + 32)) (lo + (q + 48)) c"
    using q(1) assms(1,2,4) by (intro subslice_overwrite_disjoint) simp_all
  also have "\<dots> = subslice (q + 32) (q + 48) (subslice lo (lo + n) c)"
    using q(2) len by (simp add: subslice_subslice)
  finally show "subslice (q + 32) (q + 48) (subslice lo (lo + n) ?c1) \<noteq> g"
    using assms(2,3) q len by (simp add: foreign_from_def)
qed

lemma discover_from_foreign:
  assumes "foreign_from L g pos"
  shows "discover_from x L g pos st = (Ok [], st)"
  using assms
proof (induction "length L - pos" arbitrary: pos rule: less_induct)
  case less
  show ?case
  proof (cases "length L < pos + LOG_SECTOR_SIZE")
    case True
    then show ?thesis by (subst discover_from.simps) simp
  next
    case False
    then obtain j where j: "parse_log_entry x L pos g st = (Err j, st)"
      using parse_foreign [OF less.prems] by fastforce
    have "discover_from x L g (pos + LOG_SECTOR_SIZE) st = (Ok [], st)"
      using False by (intro less.hyps foreign_from_next [OF less.prems]) simp
    then show ?thesis using False j by (subst discover_from.simps) simp
  qed
qed

lemma select_single:
  assumes "le_log_offset_in_region e = 0" "leh_tail (le_header e) = 0" "0 < le_len e"
    and "le_len e \<le> length L"
  shows "select_chain L [e] = Ok [e]"
proof -
  have at: "entry_starting_at [e] p = (if word_of_nat p = (0 :: u64) then Some e else None)" for p
    using assms(1) by (auto simp: entry_starting_at_def)
  have stop: "walk_chain (length L) [e] p (Some (le_seq e + 1)) = []" for p
    by (subst walk_chain.simps) (simp add: at)
  have "walk_chain (length L) [e] 0 None = [e]"
    by (subst walk_chain.simps) (auto simp: at Let_def checked_add_def stop split: option.splits)
  then show ?thesis
    using assms(1,2) by (simp add: select_chain_def chain_head_def Let_def at)
qed

section \<open>The journal is what the open replays\<close>

definition journalled :: "header \<Rightarrow> u64 \<Rightarrow> u64 \<Rightarrow> bytes \<Rightarrow> log_entry" where
  "journalled h dev_size off sector =
     \<lparr> le_header =
         \<lparr> leh_entry_length = 8192, leh_tail = 0,
           leh_sequence_number = hdr_sequence_number (journal_header h),
           leh_descriptor_count = 1, leh_log_guid = hdr_log_guid (journal_header h),
           leh_flushed_file_offset = dev_size, leh_last_file_offset = dev_size \<rparr>,
       le_descriptors = [decoded_write (hdr_sequence_number (journal_header h))
         \<lparr> pw_file_offset = off, pw_sector = sector \<rparr>],
       le_log_offset_in_region = 0 \<rparr>"

lemma journal_collected:
  assumes "crc_contract x" "header_wf h" "length sector = LOG_SECTOR_SIZE"
    and "8192 \<le> length L" "length L < 2 ^ 62" "take 8192 L = journal_entry x h n off sector"
    and "foreign_from L (hdr_log_guid (journal_header h)) 8192"
  shows "collect_replay_chain x L (hdr_log_guid (journal_header h)) = Ok [journalled h n off sector]"
proof -
  let ?g = "hdr_log_guid (journal_header h)" and ?E = "journal_entry x h n off sector"
  let ?s = "hdr_sequence_number (journal_header h)"
  let ?ws = "[\<lparr> pw_file_offset = off, pw_sector = sector \<rparr>]"
  let ?b = "length L * DISCOVERY_CHECKSUM_PASSES"
  have g: "length ?g = 16" using journal_header_wf [OF assms(2)] by (simp add: header_wf_def)
  have nz: "\<not> list_all (\<lambda>b. b = 0) ?g"
    using stir_not_zero [of "hdr_log_guid h" "hdr_sequence_number h + 1"] assms(2)
    by (simp add: journal_header_def header_wf_def is_zero_guid_def Let_def)
  have e: "encode_entry x ?s 0 ?g n n ?ws = (Ok ?E :: (bytes, error) res)" "length ?E = 8192"
    using journal_entry_Ok [OF assms(1-3), of n off] by (simp_all add: journal_header_def Let_def)
  have span: "entry_span L 0 (length ?E) = ?E"
    using assms(4,6) e(2) by (simp add: entry_span_def)
  have p: "parse_log_entry x L 0 ?g (?b, False) = (Ok (journalled h n off sector), ?b - 8192, False)"
    using parse_encoded_entry [OF assms(1) g _ _ e(1), of 0 L ?b False] assms(3,4) span e(2)
    by (simp add: journalled_def)
  have "discover_from x L ?g 0 (?b, False) = (Ok [journalled h n off sector], ?b - 8192, False)"
    using assms(4) p discover_from_foreign [OF assms(7)]
    by (subst discover_from.simps) (simp add: journalled_def)
  moreover have "min ?b (2 ^ 64 - 1) = ?b" using assms(5) by (simp add: min_def)
  ultimately have "discover x L ?g = Ok ([journalled h n off sector], 8192, False)"
    using assms(4) by (simp add: discover_def Let_def)
  moreover have "select_chain L [journalled h n off sector] = Ok [journalled h n off sector]"
    using assms(4) by (intro select_single) (simp_all add: journalled_def)
  ultimately show ?thesis
    using nz by (simp add: collect_replay_chain_def)
qed

text \<open>Applying that chain writes the sector where it belongs, and nothing else.\<close>

lemma journalled_replay:
  assumes "length sector = LOG_SECTOR_SIZE"
  shows "chain_wf [journalled h n off sector]"
    and "replay (chain_descriptors [journalled h n off sector]) c = overwrite (unat off) sector c"
    and "n \<le> m \<Longrightarrow> allowed_extent m [journalled h n off sector] = m"
  using assms
  by (auto simp: chain_wf_def journalled_def decoded_write_def replay_def apply_desc_def
      desc_start_def allowed_extent_def max_or_zero_def Let_def max_def min_def)

text \<open>What journalling needs of a reader: less than \<open>reader_ok\<close>, so that a second thread may journal too.\<close>

definition journal_ready :: "bytes \<Rightarrow> 'd vhdx_reader \<Rightarrow> bool" where
  "journal_ready c r \<longleftrightarrow>
     header_wf (rd_header r) \<and> log_region_ok (rd_dev_size r) (rd_header r) \<and>
     unat (rd_dev_size r) = length c \<and> 8192 \<le> unat (hdr_log_length (rd_header r))"

lemma reader_ok_journal_ready:
  "reader_ok c r \<Longrightarrow> 8192 \<le> unat (hdr_log_length (rd_header r)) \<Longrightarrow> journal_ready c r"
  by (simp add: reader_ok_def journal_ready_def)

text \<open>The part of a region past the first entry decides what is foreign.\<close>

lemma foreign_from_agree:
  assumes "foreign_from (subslice lo (lo + n) c) g pos" "lo + n \<le> length c" "lo + n \<le> length c'"
    and "subslice (lo + pos) (lo + n) c' = subslice (lo + pos) (lo + n) c"
  shows "foreign_from (subslice lo (lo + n) c') g pos"
  unfolding foreign_from_def
proof (intro allI impI)
  fix q
  assume q: "pos \<le> q" "q + LOG_SECTOR_SIZE \<le> length (subslice lo (lo + n) c')" "(q - pos) mod LOG_SECTOR_SIZE = 0"
  have "subslice (q + 32) (q + 48) (subslice lo (lo + n) b) = subslice (q - pos + 32) (q - pos + 48) (subslice (lo + pos) (lo + n) b)"
    for b :: bytes using q(1,2) assms(3) by (simp add: subslice_subslice algebra_simps)
  then have "subslice (q + 32) (q + 48) (subslice lo (lo + n) c') = subslice (q + 32) (q + 48) (subslice lo (lo + n) c)"
    using assms(4) by metis
  then show "subslice (q + 32) (q + 48) (subslice lo (lo + n) c') \<noteq> g"
    using assms(1-3) q by (simp add: foreign_from_def)
qed

context reliable_device
begin

text \<open>
  Once a sector has been journalled, the device alone -- whatever happens to the reader --
  has the journalled chain pending, under the header the next open picks.
\<close>

text \<open>What journalling leaves: the entry in the log, and a header in the other slot that names it.\<close>

lemma journal_left:
  assumes "invar (rd_dev r)" "crc_contract x" "journal_ready (contents (rd_dev r)) r"
    and "length sector = LOG_SECTOR_SIZE" "journal_sector_write x ops off sector r = (Ok u, r')"
  defines "lo \<equiv> unat (hdr_log_offset (rd_header r))" and "n \<equiv> unat (hdr_log_length (rd_header r))"
    and "s \<equiv> slot_other (rd_active_header_slot r)"
    and "c1 \<equiv> overwrite (unat (hdr_log_offset (rd_header r)))
      (journal_entry x (rd_header r) (rd_dev_size r) off sector) (contents (rd_dev r))"
  obtains b where "invar (rd_dev r')" "rd_header r' = journal_header (rd_header r)" "rd_active_header_slot r' = s"
    "encode_header x (journal_header (rd_header r)) = Ok b" "length b = HEADER_SIZE"
    "slot_start s + HEADER_SIZE \<le> length c1" "contents (rd_dev r') = overwrite (slot_start s) b c1"
    "length c1 = length (contents (rd_dev r))" "lo + n \<le> length (contents (rd_dev r))" "2 ^ 20 \<le> lo"
    "length (contents (rd_dev r')) = length (contents (rd_dev r))"
    "r' = r\<lparr> rd_dev := rd_dev r', rd_header := journal_header (rd_header r), rd_active_header_slot := s \<rparr>"
proof -
  have ok: "header_wf (rd_header r)" "log_region_ok (rd_dev_size r) (rd_header r)"
    "unat (rd_dev_size r) = length (contents (rd_dev r))" "8192 \<le> unat (hdr_log_length (rd_header r))"
    using assms(3) by (auto simp: journal_ready_def)
  obtain d' b where j: "journal_sector_write x ops off sector r =
       (Ok (), r\<lparr> rd_dev := d', rd_header := journal_header (rd_header r), rd_active_header_slot := s \<rparr>)"
    "invar d'" "encode_header x (journal_header (rd_header r)) = Ok b" "length b = HEADER_SIZE"
    "slot_start s + HEADER_SIZE \<le> length (contents (rd_dev r))" "contents d' = overwrite (slot_start s) b c1"
    unfolding s_def c1_def
    by (rule journal_sector_write_journals [OF assms(1,2) ok(1) assms(4) ok(2-4)])
  have "hdr_log_length (rd_header r) \<noteq> 0" using ok(4) by auto
  then have log: "lo + n \<le> length (contents (rd_dev r))" "2 ^ 20 \<le> lo"
    using ok(2,3) by (auto simp: log_region_ok_def lo_def n_def)
  have len: "length c1 = length (contents (rd_dev r))"
    using log(1) journal_entry_Ok(2) [OF assms(2) ok(1) assms(4)] ok(4) by (simp add: c1_def lo_def n_def)
  show thesis using that [of b] j(2-6) j(1) assms(5) len log by simp
qed

lemma journal_newest:
  assumes "invar (rd_dev r)" "crc_contract x" "journal_ready (contents (rd_dev r)) r"
    and "newest_header x (contents (rd_dev r)) = Some (rd_header r, rd_active_header_slot r)"
    and "hdr_sequence_number (rd_header r) \<noteq> - 1"
    and "length sector = LOG_SECTOR_SIZE" "journal_sector_write x ops off sector r = (Ok u, r')"
  shows "newest_header x (contents (rd_dev r')) = Some (rd_header r', rd_active_header_slot r')"
proof -
  let ?h = "rd_header r" and ?c = "contents (rd_dev r)"
  let ?c1 = "overwrite (unat (hdr_log_offset ?h)) (journal_entry x ?h (rd_dev_size r) off sector) ?c"
  have wf: "header_wf ?h" and lg: "8192 \<le> unat (hdr_log_length ?h)" using assms(3) by (simp_all add: journal_ready_def)
  obtain b where b: "rd_header r' = journal_header ?h" "rd_active_header_slot r' = slot_other (rd_active_header_slot r)"
    "encode_header x (journal_header ?h) = Ok b" "slot_start (slot_other (rd_active_header_slot r)) + HEADER_SIZE \<le> length ?c1"
    "contents (rd_dev r') = overwrite (slot_start (slot_other (rd_active_header_slot r))) b ?c1"
    "length ?c1 = length ?c"
    and log: "unat (hdr_log_offset ?h) + unat (hdr_log_length ?h) \<le> length ?c" "2 ^ 20 \<le> unat (hdr_log_offset ?h)"
    by (rule journal_left [OF assms(1-3,6,7)])
  have "slot_header x ?c1 t = slot_header x ?c t" for t
    using log journal_entry_Ok(2) [OF assms(2) wf assms(6)] lg
    by (intro slot_header_agree [OF b(6)] subslice_overwrite_disjoint) (cases t; simp)+
  then have "newest_header x ?c1 = Some (?h, rd_active_header_slot r)"
    using assms(4) by (simp add: newest_header_def)
  moreover have "hdr_sequence_number ?h < hdr_sequence_number (journal_header ?h)"
    using unat_succ [OF assms(5)] by (simp add: journal_header_def Let_def word_less_nat_alt)
  ultimately show ?thesis
    unfolding b(1,2,5) using journal_header_wf [OF wf] b(3,4) by (intro newest_header_rotated) auto
qed

lemma journal_pending:
  assumes "invar (rd_dev r)" "crc_contract x" "journal_ready (contents (rd_dev r)) r"
    and "length sector = LOG_SECTOR_SIZE" "journal_sector_write x ops off sector r = (Ok u, r')"
    and "foreign_from (subslice (unat (hdr_log_offset (rd_header r)))
      (unat (hdr_log_offset (rd_header r)) + unat (hdr_log_length (rd_header r))) (contents (rd_dev r)))
      (hdr_log_guid (journal_header (rd_header r))) 8192"
  shows "pending_chain x ops (rd_dev r') (rd_dev_size r) (rd_header r') =
      Ok [journalled (rd_header r) (rd_dev_size r) off sector]"
proof -
  let ?h = "rd_header r" and ?s = "slot_other (rd_active_header_slot r)" and ?c = "contents (rd_dev r)"
  let ?e = "journal_entry x ?h (rd_dev_size r) off sector"
  let ?lo = "unat (hdr_log_offset ?h)" and ?n = "unat (hdr_log_length ?h)"
  let ?c1 = "overwrite ?lo ?e ?c"
  have ok: "header_wf ?h" "unat (rd_dev_size r) = length ?c" "8192 \<le> ?n" using assms(3) by (auto simp: journal_ready_def)
  obtain b where b: "invar (rd_dev r')" "rd_header r' = journal_header ?h" "length b = HEADER_SIZE"
    "slot_start ?s + HEADER_SIZE \<le> length ?c1" "contents (rd_dev r') = overwrite (slot_start ?s) b ?c1"
    "length ?c1 = length ?c" and log: "?lo + ?n \<le> length ?c" "2 ^ 20 \<le> ?lo"
    by (rule journal_left [OF assms(1-5)])
  have el: "length ?e = 8192" by (rule journal_entry_Ok(2) [OF assms(2) ok(1) assms(4)])
  let ?L = "subslice ?lo (?lo + ?n) (contents (rd_dev r'))"
  have L: "?L = subslice ?lo (?lo + ?n) ?c1"
    unfolding b(5) using b(3,4) log(2)
    by (intro subslice_overwrite_disjoint) (cases ?s; simp)+
  have Ln: "length ?L = ?n" using log(1) b(6) by (simp add: L)
  have read: "dev_read_at ops (rd_dev r') (hdr_log_offset ?h) ?n = Ok ?L"
    using reader_read_ok [OF b(1), of "hdr_log_offset ?h" ?n] b(3-6) log(1)
    by (simp add: reader_dev_read_def)
  have "take 8192 ?L = subslice ?lo (?lo + 8192) ?c1"
    unfolding L using ok(3) by (simp add: subslice_def min_def)
  also have "\<dots> = ?e" using log(1) el ok(3) by (intro subslice_overwrite_same) simp_all
  finally have head: "take 8192 ?L = ?e" .
  have foreign: "foreign_from ?L (hdr_log_guid (journal_header ?h)) 8192"
    unfolding L by (rule foreign_after_entry [OF _ log(1) assms(6)]) (simp_all add: el ok(3))
  have "8192 \<le> length ?L" "length ?L < 2 ^ 62"
    unfolding Ln by (rule ok(3), rule less_trans [OF unat_lt_u32]) simp
  then have col: "collect_replay_chain x ?L (hdr_log_guid (journal_header ?h)) =
      Ok [journalled ?h (rd_dev_size r) off sector]"
    by (rule journal_collected [OF assms(2) ok(1) assms(4) _ _ head foreign])
  have "\<not> is_zero_guid (hdr_log_guid (journal_header ?h))"
    using stir_not_zero ok(1) by (simp add: journal_header_def header_wf_def Let_def)
  moreover have "hdr_log_offset ?h \<noteq> 0" "hdr_log_length ?h \<noteq> 0" using log(2) ok(3) by auto
  moreover have "span_inside_the_file (rd_dev_size r) (hdr_log_offset ?h) (ucast (hdr_log_length ?h)) m = Ok ?n" for m
    using log(1) ok(2) by (simp add: span_inside_the_file_Ok_iff)
  ultimately show ?thesis
    using read col by (simp add: pending_chain_def b(2) word_gt_0)
qed

lemma pending_chain_agree:
  assumes "invar d" "invar e" "length (contents e) = length (contents d)"
    and "unat n = length (contents d)"
    and "subslice (unat (hdr_log_offset h)) (unat (hdr_log_offset h) + unat (hdr_log_length h)) (contents e) =
      subslice (unat (hdr_log_offset h)) (unat (hdr_log_offset h) + unat (hdr_log_length h)) (contents d)"
  shows "pending_chain x ops e n h = pending_chain x ops d n h"
proof -
  let ?o = "hdr_log_offset h" and ?k = "unat (hdr_log_length h)"
  have "dev_read_at ops e ?o k = dev_read_at ops d ?o k"
    if sp: "span_inside_the_file n ?o (ucast (hdr_log_length h)) m = Ok k" for k m
  proof -
    have k: "k = ?k" "unat ?o + k \<le> length (contents d)"
      using sp assms(4) by (simp_all add: span_inside_the_file_Ok_iff)
    obtain a b where ab: "dev_read_at ops e ?o k = Ok a" "dev_read_at ops d ?o k = Ok b"
      using read_succeeds [OF assms(1) k(2)] read_succeeds [of e ?o k] assms(2,3) k(2)
      by (auto simp: is_Ok_iff)
    then show ?thesis
      using read_law [OF assms(1) _ ab(2)] read_law [OF assms(2) _ ab(1)] assms(5) k contents_bound [OF assms(1)]
      by simp
  qed
  then show ?thesis
    unfolding pending_chain_def
    by (cases "span_inside_the_file n ?o (ucast (hdr_log_length h))
        ''log region reaches past the end of the file''") simp_all
qed

text \<open>
  A later state of the device with the same header slots and the same log region: the replay the
  next open runs puts the journalled sector in place, over whatever the device holds elsewhere.
\<close>

lemma journal_replayed:
  assumes "invar (rd_dev r)" "crc_contract x" "journal_ready (contents (rd_dev r)) r"
    and "newest_header x (contents (rd_dev r)) = Some (rd_header r, rd_active_header_slot r)"
    and "hdr_sequence_number (rd_header r) \<noteq> - 1"
    and "length sector = LOG_SECTOR_SIZE" "journal_sector_write x ops off sector r = (Ok u, r')"
    and "foreign_from (subslice (unat (hdr_log_offset (rd_header r)))
      (unat (hdr_log_offset (rd_header r)) + unat (hdr_log_length (rd_header r))) (contents (rd_dev r)))
      (hdr_log_guid (journal_header (rd_header r))) 8192"
    and place: "unat off + LOG_SECTOR_SIZE \<le> length (contents (rd_dev r'))"
    and e: "invar e" "length (contents e) = length (contents (rd_dev r'))"
      "\<And>a n. a + n \<le> 2 ^ 20 \<Longrightarrow> subslice a (a + n) (contents e) = subslice a (a + n) (contents (rd_dev r'))"
      "subslice (unat (hdr_log_offset (rd_header r)))
        (unat (hdr_log_offset (rd_header r)) + unat (hdr_log_length (rd_header r))) (contents e) =
       subslice (unat (hdr_log_offset (rd_header r)))
        (unat (hdr_log_offset (rd_header r)) + unat (hdr_log_length (rd_header r))) (contents (rd_dev r'))"
  shows "newest_header x (contents e) = Some (rd_header r', rd_active_header_slot r')"
    and "\<exists>e'. replay_log x ops True (dev_size_bytes ops e) (rd_header r') e =
        (Ok (True, dev_size_bytes ops e), e') \<and> invar e' \<and>
      contents e' = overwrite (unat off) sector (contents e)"
proof -
  let ?c = "contents (rd_dev r')" and ?n = "rd_dev_size r"
  let ?ch = "[journalled (rd_header r) ?n off sector]"
  note pend = journal_newest [OF assms(1-7)] journal_pending [OF assms(1-3,6-8)]
  obtain b where j: "invar (rd_dev r')" "rd_header r' = journal_header (rd_header r)"
    "length ?c = length (contents (rd_dev r))" by (rule journal_left [OF assms(1-3,6,7)])
  have n: "unat ?n = length ?c" using j(3) assms(3) by (simp add: journal_ready_def)
  have sz: "dev_size_bytes ops e = ?n" using size_law [OF e(1)] n e(2) by (simp add: word_unat_eq_iff)
  have "slot_header x (contents e) s = slot_header x ?c s" for s
    by (intro slot_header_agree e(2,3)) (cases s; simp)
  then show "newest_header x (contents e) = Some (rd_header r', rd_active_header_slot r')"
    using pend(1) by (simp add: newest_header_def)
  have "pending_chain x ops e ?n (rd_header r') = pending_chain x ops (rd_dev r') ?n (rd_header r')"
    using e(1,2,4) j(1) n by (intro pending_chain_agree) (simp_all add: j(2))
  then have pe: "pending_chain x ops e ?n (rd_header r') = Ok ?ch" using pend(2) by simp
  have jr: "chain_wf ?ch" "replay (chain_descriptors ?ch) c = overwrite (unat off) sector c" for c
    using journalled_replay(1,2) [OF assms(6)] by blast+
  have ext: "allowed_extent ?n ?ch = ?n" by (rule journalled_replay(3) [OF assms(6)]) simp
  have fit: "\<forall>z \<in> set (chain_descriptors ?ch). desc_end z \<le> unat (allowed_extent ?n ?ch)"
    unfolding ext using place n assms(6)
    by (simp add: journalled_def decoded_write_def desc_end_def desc_start_def desc_payload_def)
  obtain e' where e': "apply_chain x ops ?ch e = (Ok (), e')"
    using apply_chain_succeeds [OF e(1) jr(1)] fit sz by metis
  have "invar e'" "contents e' = overwrite (unat off) sector (contents e)"
    using apply_chain_Ok(1) [OF e(1) jr(1) e'] e(2)
    unfolding jr(2) by (simp_all add: sz ext n resize_def)
  moreover have "replay_log x ops True ?n (rd_header r') e = (Ok (True, ?n), e')"
    using pe e' replayed_extent_eq [OF jr(1) fit] ext
    by (simp add: replay_log_def io_bind_def io_return_def)
  ultimately show "\<exists>e'. replay_log x ops True (dev_size_bytes ops e) (rd_header r') e =
        (Ok (True, dev_size_bytes ops e), e') \<and> invar e' \<and>
      contents e' = overwrite (unat off) sector (contents e)"
    unfolding sz by blast
qed

text \<open>A sector written outside the first megabyte and the log region is such a change.\<close>

lemma sector_overwrite_agrees:
  assumes "2 ^ 20 \<le> q" "apart_from_log h q (length z)" "hdr_log_length h \<noteq> 0" "q + length z \<le> length c"
  shows "a + n \<le> 2 ^ 20 \<Longrightarrow> subslice a (a + n) (overwrite q z c) = subslice a (a + n) c"
    and "subslice (unat (hdr_log_offset h)) (unat (hdr_log_offset h) + unat (hdr_log_length h)) (overwrite q z c) =
      subslice (unat (hdr_log_offset h)) (unat (hdr_log_offset h) + unat (hdr_log_length h)) c"
  using assms
  by (auto simp: apart_from_log_def apart_spans_def log_span_def intro!: subslice_overwrite_disjoint)

text \<open>
  The write the journal protects may be cut short at any byte: whatever it left where the
  sector belongs, the replay the next open runs puts the whole sector there.
\<close>

lemma torn_sector_recovered:
  assumes "invar (rd_dev r)" "crc_contract x" "reader_ok (contents (rd_dev r)) r"
    and "newest_header x (contents (rd_dev r)) = Some (rd_header r, rd_active_header_slot r)"
    and "hdr_sequence_number (rd_header r) \<noteq> - 1" "8192 \<le> unat (hdr_log_length (rd_header r))"
    and "length sector = LOG_SECTOR_SIZE" "journal_sector_write x ops off sector r = (Ok u, r')"
    and "foreign_from (subslice (unat (hdr_log_offset (rd_header r)))
      (unat (hdr_log_offset (rd_header r)) + unat (hdr_log_length (rd_header r))) (contents (rd_dev r)))
      (hdr_log_guid (journal_header (rd_header r))) 8192"
    and place: "2 ^ 20 \<le> unat off" "unat off + LOG_SECTOR_SIZE \<le> length (contents (rd_dev r'))"
      "apart_from_log (rd_header r) (unat off) LOG_SECTOR_SIZE"
    and torn: "invar e" "length t = LOG_SECTOR_SIZE"
      "contents e = overwrite (unat off) t (contents (rd_dev r'))"
  shows "newest_header x (contents e) = Some (rd_header r', rd_active_header_slot r')"
    and "\<exists>e'. replay_log x ops True (dev_size_bytes ops e) (rd_header r') e =
        (Ok (True, dev_size_bytes ops e), e') \<and> invar e' \<and>
      contents e' = overwrite (unat off) sector (contents (rd_dev r'))"
proof -
  have nz: "hdr_log_length (rd_header r) \<noteq> 0" using assms(6) by auto
  note same = sector_overwrite_agrees [of "unat off" "rd_header r" t "contents (rd_dev r')", unfolded torn(2),
      OF place(1,3) nz place(2), folded torn(3)]
  have len: "length (contents e) = length (contents (rd_dev r'))" using torn place by simp
  note rep = journal_replayed [OF assms(1,2) reader_ok_journal_ready [OF assms(3,6)] assms(4,5,7-9) place(2) torn(1) len same]
  show "newest_header x (contents e) = Some (rd_header r', rd_active_header_slot r')" by (rule rep(1))
  have "overwrite (unat off) sector (contents e) = overwrite (unat off) sector (contents (rd_dev r'))"
    using torn(2) assms(7) place(2) by (simp add: torn(3) slice_simps)
  then show "\<exists>e'. replay_log x ops True (dev_size_bytes ops e) (rd_header r') e =
        (Ok (True, dev_size_bytes ops e), e') \<and> invar e' \<and>
      contents e' = overwrite (unat off) sector (contents (rd_dev r'))"
    using rep(2) by simp
qed

text \<open>
  The two header slots: what a rewrite leaves is what the next open picks, and a rewrite that
  was cut short costs at most itself.
\<close>

lemma probe_at_reliable:
  assumes "invar d" "\<And>b. parse b \<noteq> Panic" "unat off + n < 2 ^ 64"
  shows "probe_at ops d (dev_size_bytes ops d) off n parse =
    Ok (if length (contents d) < unat off + n then None
        else res_some (parse (subslice (unat off) (unat off + n) (contents d))))"
proof -
  have u: "unat (off + word_of_nat n) = unat off + n"
    using assms(3) by (subst unat_add_no_overflow) (simp_all add: unat_of_nat)
  have c: "dev_size_bytes ops d < off + word_of_nat n \<longleftrightarrow> length (contents d) < unat off + n"
    using size_law [OF assms(1)] by (simp add: word_less_nat_alt u)
  obtain r where r: "probe_at ops d (dev_size_bytes ops d) off n parse = Ok r"
  proof (cases "length (contents d) < unat off + n")
    case False
    then obtain buf where "dev_read_at ops d off n = Ok buf"
      using read_succeeds [OF assms(1), of off n] by (auto simp: is_Ok_iff)
    then show ?thesis using that False c assms(2) by (auto simp: probe_at_def res_ok_Ok_iff)
  qed (use that c in \<open>auto simp: probe_at_def\<close>)
  show ?thesis using probe_at_Ok [OF assms(1) r assms(3)] r by simp
qed

lemma pick_header_newest:
  assumes "invar d" "newest_header x (contents d) = Some hs"
  shows "pick_header x ops d (dev_size_bytes ops d) = Ok hs"
proof -
  have "probe_at ops d (dev_size_bytes ops d) HEADER1_OFFSET HEADER_SIZE (header_parse x) =
      Ok (slot_header x (contents d) One)"
    "probe_at ops d (dev_size_bytes ops d) HEADER2_OFFSET HEADER_SIZE (header_parse x) =
      Ok (slot_header x (contents d) Two)"
    by (simp_all add: probe_at_reliable [OF assms(1) header_parse_not_Panic] slot_header_def)
  then show ?thesis
    using assms(2) by (auto simp: pick_header_def newest_header_def split: option.splits if_splits)
qed

lemma header_rotation:
  assumes "invar d" "pick_header x ops d (dev_size_bytes ops d) = Ok (h, s)"
    and "rewrite_header_clear_log x ops h s d = (Ok (h', s'), d')" "hdr_sequence_number h \<noteq> - 1"
  shows "pick_header x ops d' (dev_size_bytes ops d') = Ok (h', s')"
    and "slot_header x (contents d') s = Some h"
proof -
  have n: "newest_header x (contents d) = Some (h, s)" by (rule pick_header_Ok [OF assms(1,2)])
  have sh: "slot_header x (contents d) s = Some h" by (rule newest_header_Some(1) [OF n])
  have wf: "header_wf h" by (rule slot_header_wf [OF sh])
  note rw = rewrite_header_clear_log_Ok [OF assms(1) wf assms(3)]
  obtain b where b: "encode_header x h' = Ok b" "slot_start s' + HEADER_SIZE \<le> length (contents d)"
    "contents d' = overwrite (slot_start s') b (contents d)" using rw(5) by blast
  have lt: "hdr_sequence_number h < hdr_sequence_number h'"
    using unat_succ [OF assms(4)] rw(1) by (simp add: word_less_nat_alt)
  have "newest_header x (contents d') = Some (h', s')"
    using newest_header_rotated [OF n rw(4) b(1) _ lt] b(2,3) rw(2) by simp
  then show "pick_header x ops d' (dev_size_bytes ops d') = Ok (h', s')"
    by (rule pick_header_newest [OF rw(3)])
  show "slot_header x (contents d') s = Some h"
    using slot_header_overwritten(2) [OF rw(4) b(1,2)] sh rw(2) b(3) by simp
qed

lemma header_torn:
  assumes "invar d" "invar d'" "pick_header x ops d (dev_size_bytes ops d) = Ok (h, s)"
    and "length (contents d') = length (contents d)"
    and "subslice (slot_start s) (slot_start s + HEADER_SIZE) (contents d') =
      subslice (slot_start s) (slot_start s + HEADER_SIZE) (contents d)"
  shows "pick_header x ops d' (dev_size_bytes ops d') = Ok (h, s) \<or>
    (\<exists>h'. slot_header x (contents d') (slot_other s) = Some h' \<and>
       pick_header x ops d' (dev_size_bytes ops d') = Ok (h', slot_other s) \<and>
       hdr_sequence_number h \<le> hdr_sequence_number h')"
  using newest_header_torn [OF pick_header_Ok [OF assms(1,3)] assms(4,5)] pick_header_newest [OF assms(2)]
  by blast

end

end
