(* ===== verification/Sample.thy ===== *)
theory Sample
  imports Img_Verbs Fuzz Reader_Shared Reader_Recovery
begin

text \<open>
  A small image, for the witnesses: four megabytes, a clean header in slot one, a log region at
  1 MiB, the metadata region at 2 MiB and a one-entry BAT at 3 MiB describing a virtual disk of
  one unallocated block. Its checksums are those of \<open>sum_ext\<close>. The lemmas open it.
\<close>

section \<open>The image\<close>

definition sample_regions :: bytes where
  "sample_regions =
     (REGION_TABLE_SIGNATURE @ to_le_bytes (0xFF9 :: u32) @ to_le_bytes (2 :: u32) @ replicate 4 0) @
     (guid_METADATA @ to_le_bytes (0x200000 :: u64) @ to_le_bytes (148 :: u32) @ to_le_bytes (1 :: u32)) @
     (guid_BAT @ to_le_bytes (0x300000 :: u64) @ to_le_bytes (8 :: u32) @ to_le_bytes (1 :: u32)) @
     replicate 65456 0"

definition sample_metadata :: bytes where
  "sample_metadata =
     (METADATA_SIGNATURE @ [0, 0] @ to_le_bytes (3 :: u16) @ replicate 20 0) @
     (FILE_PARAMETERS @ to_le_bytes (128 :: u32) @ to_le_bytes (8 :: u32) @ to_le_bytes (4 :: u32) @ replicate 4 0) @
     (VIRTUAL_DISK_SIZE @ to_le_bytes (136 :: u32) @ to_le_bytes (8 :: u32) @ to_le_bytes (4 :: u32) @ replicate 4 0) @
     (LOGICAL_SECTOR_SIZE @ to_le_bytes (144 :: u32) @ to_le_bytes (4 :: u32) @ to_le_bytes (4 :: u32) @ replicate 4 0) @
     to_le_bytes (0x100000 :: u32) @ to_le_bytes (0 :: u32) @ to_le_bytes (0x100000 :: u64) @
     to_le_bytes (512 :: u32)"

definition sample_header :: header where
  "sample_header = \<lparr> hdr_sequence_number = 7, hdr_file_write_guid = replicate 16 1,
     hdr_data_write_guid = replicate 16 2, hdr_log_guid = replicate 16 0, hdr_log_version = 0,
     hdr_version = 1, hdr_log_length = 0x100000, hdr_log_offset = 0x100000 \<rparr>"

definition header_bytes :: "ext \<Rightarrow> header \<Rightarrow> bytes" where
  "header_bytes x h = overwrite 4 (to_le_bytes (crc32c x (header_body h))) (header_body h)"

definition sample_image :: bytes where
  "sample_image =
     overwrite 0x200000 sample_metadata
      (overwrite 0x30000 sample_regions
       (overwrite 0x10000 (header_bytes sum_ext sample_header)
        (overwrite 0 FILE_IDENTIFIER_SIGNATURE (replicate 0x400000 0))))"

definition sample_region_table :: region_table where
  "sample_region_table =
     [\<lparr> re_guid = guid_METADATA, re_file_offset = 0x200000, re_length = 148, re_required = True \<rparr>,
      \<lparr> re_guid = guid_BAT, re_file_offset = 0x300000, re_length = 8, re_required = True \<rparr>]"

definition sample_geometry :: geometry where
  "sample_geometry =
     \<lparr> geo_virtual_size = 0x100000, geo_block_size = 0x100000, geo_sector_size = 512,
       geo_physical_sector_size = None, geo_chunk_ratio = 4096 \<rparr>"

definition sample_reader :: "bool \<Rightarrow> bytes vhdx_reader" where
  "sample_reader writable =
     new_reader writable 0x400000 sample_header One sample_geometry 0x300000
       [\<lparr> be_state = NotPresent, be_file_offset = 0 \<rparr>] sample_image"

text \<open>A device that takes no writes.\<close>

definition read_only :: "bytes dev_ops" where
  "read_only = vec_ops\<lparr> dev_is_writable := (\<lambda>_. False) \<rparr>"

section \<open>Its parts\<close>

lemma sample_header_wf [simp]: "header_wf sample_header"
  by (simp add: header_wf_def sample_header_def)

lemma length_header_bytes [simp]: "header_wf h \<Longrightarrow> length (header_bytes x h) = HEADER_SIZE"
  by (simp add: header_bytes_def length_header_body)

lemma header_parse_bytes [simp]: "header_wf h \<Longrightarrow> header_parse x (header_bytes x h) = Ok h"
  using header_parse_encode [of h x] by (simp add: encode_header_eq header_bytes_def)

lemma length_guids [simp]: "length guid_METADATA = 16" "length guid_BAT = 16"
  "length FILE_PARAMETERS = 16" "length VIRTUAL_DISK_SIZE = 16" "length LOGICAL_SECTOR_SIZE = 16"
  by (simp_all add: guid_METADATA_def guid_BAT_def FILE_PARAMETERS_def VIRTUAL_DISK_SIZE_def
      LOGICAL_SECTOR_SIZE_def)

lemma length_sample_parts [simp]: "length sample_regions = 65536" "length sample_metadata = 148"
  by (simp_all add: sample_regions_def sample_metadata_def)

lemma length_sample_image [simp]: "length sample_image = 0x400000"
  by (simp add: sample_image_def)

lemma sample_slices:
  "subslice 0 8 sample_image = FILE_IDENTIFIER_SIGNATURE"
  "subslice 0x10000 0x11000 sample_image = header_bytes sum_ext sample_header"
  "subslice 0x20000 0x21000 sample_image = replicate 4096 0"
  "subslice 0x30000 0x40000 sample_image = sample_regions"
  "subslice 0x200000 0x200094 sample_image = sample_metadata"
  "subslice 0x300000 0x300008 sample_image = replicate 8 0"
  "subslice 0x100000 0x200000 sample_image = replicate 0x100000 0"
  by (simp_all add: sample_image_def slice_simps)

lemma subslice_append: "subslice i j (xs @ ys) = subslice i j xs @ subslice (i - length xs) (j - length xs) ys"
  by (cases "i \<le> length xs") (auto simp: subslice_def)

lemma subslice_Cons [simp]:
  "subslice 0 (numeral k) (x # xs) = x # subslice 0 (pred_numeral k) xs"
  "subslice 0 (Suc n) (x # xs) = x # subslice 0 n xs"
  "subslice (numeral i) (numeral j) (x # xs) = subslice (pred_numeral i) (pred_numeral j) xs"
  "subslice (Suc m) (numeral j) (x # xs) = subslice m (pred_numeral j) xs"
  by (simp_all add: subslice_def numeral_eq_Suc)

declare from_le_zeros [simp]

lemma subslice_outside [simp]: "length xs \<le> i \<Longrightarrow> subslice i j xs = []"
  by (simp add: subslice_def)

lemma sample_regions_crc:
  "crc32c sum_ext (overwrite 4 (replicate 4 0) sample_regions) = 0xFF9"
proof -
  let ?p = "REGION_TABLE_SIGNATURE @ to_le_bytes (0xFF9 :: u32) @ to_le_bytes (2 :: u32) @ replicate 4 0"
  have "overwrite 4 (replicate 4 0) ?p = REGION_TABLE_SIGNATURE @ replicate 4 0 @ to_le_bytes (2 :: u32) @ replicate 4 0"
    by (simp add: overwrite_def)
  then have eq: "overwrite 4 (replicate 4 0) sample_regions =
      (REGION_TABLE_SIGNATURE @ replicate 4 0 @ to_le_bytes (2 :: u32) @ replicate 4 0) @
      (guid_METADATA @ to_le_bytes (0x200000 :: u64) @ to_le_bytes (148 :: u32) @ to_le_bytes (1 :: u32)) @
      (guid_BAT @ to_le_bytes (0x300000 :: u64) @ to_le_bytes (8 :: u32) @ to_le_bytes (1 :: u32)) @
      replicate 65456 0"
    unfolding sample_regions_def by (subst overwrite_append_left) (simp_all del: append_assoc)
  moreover have "byte_sum 0 \<dots> = 0xFF9"
    by (simp add: byte_sum_append guid_METADATA_def guid_BAT_def to_le_bytes_def le_bytes_numeral)
  ultimately show ?thesis by (simp add: sum_ext_def)
qed

lemma sample_region_table_parse:
  "region_table_parse sum_ext sample_regions = Ok sample_region_table"
proof -
  have "subslice 0 4 sample_regions = REGION_TABLE_SIGNATURE"
    "subslice 4 8 sample_regions = to_le_bytes (0xFF9 :: u32)"
    "subslice 8 12 sample_regions = to_le_bytes (2 :: u32)"
    by (simp_all add: sample_regions_def subslice_append)
  moreover have "region_fields sample_regions 0 = sample_region_table ! 0"
    "region_fields sample_regions 1 = sample_region_table ! 1"
    by (simp_all add: region_fields_def sample_regions_def sample_region_table_def subslice_append)
  ultimately show ?thesis
    by (simp add: region_table_parse_eq sample_regions_crc upt_rec sample_region_table_def)
qed

definition sample_table :: metadata_table where
  "sample_table =
     \<lparr> mt_entries =
         [\<lparr> me_item_id = FILE_PARAMETERS, me_offset = 128, me_length = 8, me_flags = 4 \<rparr>,
          \<lparr> me_item_id = VIRTUAL_DISK_SIZE, me_offset = 136, me_length = 8, me_flags = 4 \<rparr>,
          \<lparr> me_item_id = LOGICAL_SECTOR_SIZE, me_offset = 144, me_length = 4, me_flags = 4 \<rparr>],
       mt_region_bytes = sample_metadata \<rparr>"

lemma sample_metadata_parse: "metadata_table_parse sample_metadata = Ok sample_table"
proof -
  have "subslice 0 8 sample_metadata = METADATA_SIGNATURE"
    "subslice 10 12 sample_metadata = to_le_bytes (3 :: u16)"
    by (simp_all add: sample_metadata_def subslice_append)
  moreover have "metadata_fields sample_metadata 0 = mt_entries sample_table ! 0"
    "metadata_fields sample_metadata 1 = mt_entries sample_table ! 1"
    "metadata_fields sample_metadata (Suc (Suc 0)) = mt_entries sample_table ! 2"
    by (simp_all add: metadata_fields_def sample_metadata_def sample_table_def subslice_append)
  ultimately show ?thesis
    by (simp add: metadata_table_parse_eq upt_rec sample_table_def)
qed

lemma guids_distinct [simp]:
  "FILE_PARAMETERS \<noteq> VIRTUAL_DISK_SIZE" "FILE_PARAMETERS \<noteq> LOGICAL_SECTOR_SIZE"
  "VIRTUAL_DISK_SIZE \<noteq> LOGICAL_SECTOR_SIZE" "FILE_PARAMETERS \<noteq> PHYSICAL_SECTOR_SIZE"
  "VIRTUAL_DISK_SIZE \<noteq> PHYSICAL_SECTOR_SIZE" "LOGICAL_SECTOR_SIZE \<noteq> PHYSICAL_SECTOR_SIZE"
  "guid_METADATA \<noteq> guid_BAT"
  by (simp_all add: FILE_PARAMETERS_def VIRTUAL_DISK_SIZE_def LOGICAL_SECTOR_SIZE_def
      PHYSICAL_SECTOR_SIZE_def guid_METADATA_def guid_BAT_def)

lemma sample_items:
  "item_data sample_table FILE_PARAMETERS = Ok (Some (to_le_bytes (0x100000 :: u32) @ to_le_bytes (0 :: u32)))"
  "item_data sample_table VIRTUAL_DISK_SIZE = Ok (Some (to_le_bytes (0x100000 :: u64)))"
  "item_data sample_table LOGICAL_SECTOR_SIZE = Ok (Some (to_le_bytes (512 :: u32)))"
  "item_data sample_table PHYSICAL_SECTOR_SIZE = Ok None"
  by (simp_all add: item_data_def sample_table_def Let_def, simp_all add: sample_metadata_def subslice_append)

lemma sample_check_geometry:
  "check_geometry sample_table \<lparr> fp_block_size = 0x100000, fp_flags = 0 \<rparr> 0x100000 512 None = Ok sample_geometry"
proof -
  have "is_power_of_two 0x100000"
    unfolding is_power_of_two_def list_ex_iff by (intro bexI [of _ 20]) simp_all
  moreover have "metadata_unknown_required sample_table = None"
    by (simp add: metadata_unknown_required_def sample_table_def RECOGNISED_ITEMS_def)
  ultimately show ?thesis
    by (simp add: check_geometry_def fp_has_parent_def chunk_ratio_of_def sample_geometry_def)
qed

lemma sample_read_geometry: "read_geometry vec_ops sample_image 0x400000 sample_region_table = Ok sample_geometry"
proof -
  have "load_metadata vec_ops sample_image 0x400000 sample_region_table = Ok sample_table"
    using sample_slices(5)
    by (simp add: load_metadata_def sample_region_table_def region_find_def span_inside_the_file_def
        checked_add_def vec_ops_def sample_metadata_parse)
  moreover have "file_parameters_parse (to_le_bytes (0x100000 :: u32) @ to_le_bytes (0 :: u32)) =
      Ok \<lparr> fp_block_size = 0x100000, fp_flags = 0 \<rparr>"
    by (simp add: file_parameters_parse_def subslice_append)
  ultimately show ?thesis
    by (simp add: read_geometry_def metadata_item_def sample_items read_virtual_disk_size_def
        read_sector_size_def sample_check_geometry)
qed

lemma sample_bat_region: "bat_region_covers_the_disk 8 0x100000 0x100000 4096 = Ok 1"
  by (simp add: bat_region_covers_the_disk_def is_multiple_of_def div_ceil_def data_bat_index_def checked_add_def)

lemma sample_load_bat:
  "load_bat vec_ops sample_image 0x400000 sample_region_table sample_geometry =
     Ok (0x300000, [\<lparr> be_state = NotPresent, be_file_offset = 0 \<rparr>])"
proof -
  have "bat_from_bytes 1 (replicate 8 0) = [\<lparr> be_state = NotPresent, be_file_offset = 0 \<rparr>]"
    by (simp add: bat_entry_from_u64_def payload_state_from_u8_def)
  then show ?thesis
    using sample_slices(6) sample_bat_region
    by (simp add: load_bat_def sample_region_table_def region_find_def span_inside_the_file_def
        checked_add_def checked_mul_def vec_ops_def sample_geometry_def)
qed

lemma sample_pick:
  "pick_header sum_ext vec_ops sample_image 0x400000 = Ok (sample_header, One)"
  "pick_region_table sum_ext vec_ops sample_image 0x400000 = Ok sample_region_table"
proof -
  have z: "header_parse sum_ext (replicate 4096 0) = Err (Corrupt ''header signature mismatch'')"
  proof -
    have "set (replicate 4 (0 :: u8)) \<noteq> set HEADER_SIGNATURE" by simp
    then have "replicate 4 (0 :: u8) \<noteq> HEADER_SIGNATURE" by metis
    then show ?thesis by (simp add: header_parse_eq)
  qed
  show "pick_header sum_ext vec_ops sample_image 0x400000 = Ok (sample_header, One)"
    using sample_slices(2,3) z by (simp add: pick_header_def probe_at_def vec_ops_def)
  show "pick_region_table sum_ext vec_ops sample_image 0x400000 = Ok sample_region_table"
    using sample_slices(4) by (simp add: pick_region_table_def probe_at_def vec_ops_def sample_region_table_parse)
qed

lemma sample_identify: "identify sum_ext vec_ops sample_image 0x400000 = Ok (sample_header, One)"
proof -
  have "check_file_identifier vec_ops sample_image = Ok ()"
    using sample_slices(1) by (simp add: check_file_identifier_def vec_ops_def)
  moreover have "validate_log_region 0x400000 sample_header = Ok ()"
    by (simp add: validate_log_region_def sample_header_def is_multiple_of_def span_inside_the_file_def checked_add_def)
  moreover have "log_region_clear_of_declared_regions sample_region_table sample_header = Ok ()"
    by (simp add: log_region_clear_of_declared_regions_def sample_header_def sample_region_table_def saturating_add_def)
  ultimately show ?thesis
    by (simp add: identify_def sample_pick, simp add: sample_header_def)
qed

lemma sample_size [simp]: "dev_size_bytes vec_ops sample_image = 0x400000"
  by (simp add: vec_ops_def)

lemma sample_governing: "governing_regions sum_ext vec_ops sample_image 0x400000 sample_header = Ok sample_region_table"
  by (simp add: governing_regions_def sample_pick region_unknown_required_def sample_region_table_def
      log_region_clear_of_declared_regions_def sample_header_def saturating_add_def)

lemma sample_open: "open_inner sum_ext vec_ops w rc sample_image = (Ok (sample_reader w), sample_image)"
proof -
  have "replay_log sum_ext vec_ops rc 0x400000 sample_header sample_image = (Ok (False, 0x400000), sample_image)"
    by (simp add: replay_log_def pending_chain_def sample_header_def is_zero_guid_def list_all_iff
        io_bind_def io_return_def)
  then show ?thesis
    by (simp add: sample_governing open_inner_def open_sized_def io_bind_def sample_identify io_return_def
        sample_read_geometry sample_load_bat sample_reader_def)
qed

section \<open>The invariant of the open image\<close>

lemma sample_vec_invar [simp]: "vec_invar sample_image"
  by (simp add: vec_invar_def)

lemma sample_reader_fields [simp]:
  "rd_dev (sample_reader w) = sample_image" "rd_dev_size (sample_reader w) = 0x400000"
  "rd_header (sample_reader w) = sample_header" "rd_active_header_slot (sample_reader w) = One"
  "rd_virtual_size (sample_reader w) = 0x100000" "rd_block_size (sample_reader w) = 0x100000"
  "rd_chunk_ratio (sample_reader w) = 4096" "rd_bat_region_off (sample_reader w) = 0x300000"
  "rd_bat (sample_reader w) = [\<lparr> be_state = NotPresent, be_file_offset = 0 \<rparr>]"
  "rd_writable (sample_reader w) = w"
  by (simp_all add: sample_reader_def new_reader_def sample_geometry_def)

lemma sample_reader_ok: "reader_ok sample_image (sample_reader w)"
  using vec.open_inner_reader_ok(4) [OF sample_vec_invar sample_open] .

lemma sample_slot [simp]: "v < 0x100000 \<Longrightarrow> slot_of (sample_reader w) v = 0"
  by (simp add: slot_of_def bat_slot_def)

lemma sample_disk_inv: "disk_inv sample_image (sample_reader w)"
proof -
  have "\<not> present (sample_reader w) i" for i
    by (auto simp: present_def payload_slot_def)
  moreover have "apart_from_log sample_header 0x300000 8"
    by (simp add: apart_from_log_def apart_spans_def log_span_def sample_header_def)
  ultimately have "layout_ok sample_image (sample_reader w)"
    by (simp add: layout_ok_def)
  then show ?thesis
    using sample_reader_ok by (simp add: disk_inv_def missing_blocks_def)
qed

lemma sample_accepts: "v < 0x100000 \<Longrightarrow> accepts (sample_reader w) v"
  by (simp add: accepts_def)

lemma sample_geometry_ok: "geometry_ok (sample_reader w)"
  using sample_reader_ok by (simp add: reader_ok_def)

lemma sample_readable: "v < 0x100000 \<Longrightarrow> readable (sample_reader w) v"
  by (simp add: readable_def)

lemma sample_read:
  "\<exists>bs. read_at vec_ops (sample_reader w) 100 [7, 7, 7, 7] = Ok bs"
  using vec.read_at_total [of "sample_reader w" "[7, 7, 7, 7]" 100] sample_geometry_ok [of w]
    sample_readable [of _ w] by auto

lemma sample_rewrite:
  "\<exists>hs d'. rewrite_header_clear_log sum_ext vec_ops sample_header One sample_image = (Ok hs, d')"
proof -
  let ?h = "sample_header\<lparr> hdr_sequence_number := hdr_sequence_number sample_header + 1,
    hdr_log_guid := replicate 16 0 \<rparr>"
  have wf: "header_wf ?h" using sample_header_wf by (simp add: header_wf_def)
  obtain b where b: "encode_header sum_ext ?h = Ok b" "length b = HEADER_SIZE"
    using encode_header_eq [OF wf] encode_header_length [OF wf] by blast
  then show ?thesis
    by (simp add: rewrite_header_clear_log_def Let_def io_bind_def io_lift_def io_map_err_def vec_ops_def io_return_def)
qed

section \<open>The image under an overlay\<close>

text \<open>The steps of an open that only read depend on the device through its reads alone.\<close>

lemma reading_steps_cong:
  assumes "dev_read_at ops d = dev_read_at ops' d'"
  shows "identify x ops d n = identify x ops' d' n"
    and "governing_regions x ops d n h = governing_regions x ops' d' n h"
    and "read_geometry ops d n t = read_geometry ops' d' n t"
    and "load_bat ops d n t geo = load_bat ops' d' n t geo"
  unfolding identify_def governing_regions_def read_geometry_def load_bat_def check_file_identifier_def
    pick_header_def pick_region_table_def probe_at_def load_metadata_def assms by (rule refl)+

lemma sample_overlay_reads:
  "dev_read_at (overlay_ops vec_ops) (overlay_new vec_ops sample_image) = dev_read_at vec_ops sample_image"
proof (intro ext)
  fix off n
  show "dev_read_at (overlay_ops vec_ops) (overlay_new vec_ops sample_image) off n = dev_read_at vec_ops sample_image off n"
  proof (cases "unat off + n \<le> length sample_image")
    case True
    then show ?thesis
      using vec_base.overlay_new_reads [OF sample_vec_invar True] by (simp add: vec_ops_def)
  next
    case False
    then show ?thesis
      by (simp add: overlay_ops_def overlay_read_at_def bound_def overlay_new_def vec_ops_def)
  qed
qed

lemma sample_img_open:
  "\<exists>r. img_open sum_ext vec_ops path (Ok sample_image) = Ok (r, overlay_new vec_ops sample_image)"
proof -
  let ?ops = "overlay_ops vec_ops" and ?ov = "overlay_new vec_ops sample_image"
  note cong = reading_steps_cong [OF sample_overlay_reads]
  have "replay_log sum_ext ?ops True 0x400000 sample_header ?ov = (Ok (False, 0x400000), ?ov)"
    by (simp add: replay_log_def pending_chain_def sample_header_def is_zero_guid_def list_all_iff
        io_bind_def io_return_def)
  then have "open_sized sum_ext ?ops False True 0x400000 ?ov =
      (Ok (new_reader False 0x400000 sample_header One sample_geometry 0x300000
         [\<lparr> be_state = NotPresent, be_file_offset = 0 \<rparr>] ?ov), ?ov)"
    by (simp add: open_sized_def io_bind_def cong sample_identify io_return_def sample_governing
        sample_read_geometry sample_load_bat)
  moreover have "dev_is_writable ?ops ?ov" "dev_size_bytes ?ops ?ov = 0x400000"
    by (simp_all add: overlay_ops_def overlay_new_def)
  ultimately show ?thesis by (simp add: img_open_def open_on_device_def open_inner_def)
qed

lemma sample_envelope:
  "\<exists>rep. envelope sum_ext vec_ops path (Ok sample_image) opened = Ok rep"
proof -
  have "\<exists>h. better_header sum_ext vec_ops path sample_image (slot_offset s) best = Ok h" for s best
    using header_parse_not_Panic
    by (cases s) (simp_all add: better_header_def vec_ops_def word_less_nat_alt split: res.splits)
  then obtain h1 h2 where "better_header sum_ext vec_ops path sample_image (slot_offset One) None = Ok h1"
    "better_header sum_ext vec_ops path sample_image (slot_offset Two) h1 = Ok h2" by blast
  then show ?thesis by (cases opened) (simp add: envelope_def file_header_def)
qed

section \<open>The image with a journalled write\<close>

definition sample_sector :: bytes where
  "sample_sector = replicate 4096 1"

definition sample_dirty :: "bytes vhdx_reader" where
  "sample_dirty = snd (journal_sector_write sum_ext vec_ops 0x300000 sample_sector (sample_reader True))"

lemma sample_sector_length [simp]: "length sample_sector = 4096"
  by (simp add: sample_sector_def)

lemma sample_newest: "newest_header sum_ext sample_image = Some (sample_header, One)"
  using vec.pick_header_Ok [OF sample_vec_invar, of sum_ext "(sample_header, One)"] sample_pick(1) by simp

lemma sample_log_fields [simp]:
  "hdr_log_offset sample_header = 0x100000" "hdr_log_length sample_header = 0x100000"
  "hdr_sequence_number sample_header = 7"
  by (simp_all add: sample_header_def)

lemma sample_journal:
  obtains b where
    "journal_sector_write sum_ext vec_ops 0x300000 sample_sector (sample_reader True) = (Ok (), sample_dirty)"
    "rd_header sample_dirty = journal_header sample_header" "rd_active_header_slot sample_dirty = Two"
    "vec_invar (rd_dev sample_dirty)" "encode_header sum_ext (journal_header sample_header) = Ok b"
    "length b = HEADER_SIZE"
    "rd_dev sample_dirty = overwrite 0x20000 b (overwrite 0x100000
       (journal_entry sum_ext sample_header 0x400000 0x300000 sample_sector) sample_image)"
proof -
  have ok: "header_wf (rd_header (sample_reader True))"
    "log_region_ok (rd_dev_size (sample_reader True)) (rd_header (sample_reader True))"
    "unat (rd_dev_size (sample_reader True)) = length (rd_dev (sample_reader True))"
    using sample_reader_ok [of True] by (auto simp: reader_ok_def)
  have pre: "vec_invar (rd_dev (sample_reader True))"
    "8192 \<le> unat (hdr_log_length (rd_header (sample_reader True)))" by simp_all
  obtain d' b where j: "journal_sector_write sum_ext vec_ops 0x300000 sample_sector (sample_reader True) =
      (Ok (), (sample_reader True)\<lparr> rd_dev := d', rd_header := journal_header sample_header,
         rd_active_header_slot := Two \<rparr>)"
    "vec_invar d'" "encode_header sum_ext (journal_header sample_header) = Ok b" "length b = HEADER_SIZE"
    "d' = overwrite 0x20000 b (overwrite 0x100000
       (journal_entry sum_ext sample_header 0x400000 0x300000 sample_sector) sample_image)"
    by (rule vec.journal_sector_write_journals [where off = "0x300000",
        OF pre(1) sum_ext_contract ok(1) sample_sector_length ok(2,3) pre(2)]) simp
  have d: "sample_dirty = (sample_reader True)\<lparr> rd_dev := d', rd_header := journal_header sample_header,
      rd_active_header_slot := Two \<rparr>"
    using j(1) by (simp add: sample_dirty_def)
  show thesis using that [of b] j by (simp add: d)
qed

lemma length_journal_entry [simp]:
  "header_wf h \<Longrightarrow> length sector = 4096 \<Longrightarrow> length (journal_entry sum_ext h n off sector) = 8192"
  by (rule journal_entry_Ok(2) [OF sum_ext_contract])

lemma sample_guid_not_zero: "replicate 16 0 \<noteq> hdr_log_guid (journal_header sample_header)"
proof -
  have "\<not> is_zero_guid (hdr_log_guid (journal_header sample_header))"
    using stir_not_zero by (simp add: journal_header_def Let_def sample_header_def)
  moreover have "is_zero_guid (replicate 16 0)" by (simp add: is_zero_guid_def list_all_iff)
  ultimately show ?thesis by metis
qed

lemma sample_log_foreign:
  assumes "\<not> is_zero_guid g"
  shows "foreign_from (subslice 0x100000 0x200000 sample_image) g pos"
  unfolding foreign_from_def sample_slices(7)
proof (intro allI impI)
  fix q
  assume q: "q + LOG_SECTOR_SIZE \<le> length (replicate 0x100000 (0 :: u8))"
  have "subslice (q + 32) (q + 48) (replicate 0x100000 (0 :: u8)) = replicate 16 0"
    using q by (subst subslice_replicate) simp_all
  moreover have "is_zero_guid (replicate 16 0)" by (simp add: is_zero_guid_def list_all_iff)
  ultimately show "subslice (q + 32) (q + 48) (replicate 0x100000 0) \<noteq> g" using assms by metis
qed

lemma sample_foreign:
  "foreign_from (subslice 0x100000 0x200000 sample_image) (hdr_log_guid (journal_header sample_header)) 8192"
  using stir_not_zero
  by (intro sample_log_foreign) (simp add: journal_header_def Let_def sample_header_def)

lemma sample_pending:
  "newest_header sum_ext (rd_dev sample_dirty) = Some (journal_header sample_header, Two)"
  "pending_chain sum_ext vec_ops (rd_dev sample_dirty) 0x400000 (journal_header sample_header) =
     Ok [journalled sample_header 0x400000 0x300000 sample_sector]"
proof -
  obtain b where j: "journal_sector_write sum_ext vec_ops 0x300000 sample_sector (sample_reader True) = (Ok (), sample_dirty)"
    "rd_header sample_dirty = journal_header sample_header" "rd_active_header_slot sample_dirty = Two"
    by (rule sample_journal)
  note p = vec.journal_newest [OF _ sum_ext_contract _ _ _ sample_sector_length j(1)]
    vec.journal_pending [OF _ sum_ext_contract _ sample_sector_length j(1)]
    reader_ok_journal_ready [OF sample_reader_ok [of True]]
  show "newest_header sum_ext (rd_dev sample_dirty) = Some (journal_header sample_header, Two)"
    using p(1,3) sample_newest sample_foreign j(2,3) by simp
  show "pending_chain sum_ext vec_ops (rd_dev sample_dirty) 0x400000 (journal_header sample_header) =
     Ok [journalled sample_header 0x400000 0x300000 sample_sector]"
    using p(2,3) sample_newest sample_foreign j(2,3) by simp
qed

lemma sample_dirty_size [simp]: "length (rd_dev sample_dirty) = 0x400000"
  "dev_size_bytes vec_ops (rd_dev sample_dirty) = 0x400000"
  by (rule sample_journal, simp add: vec_ops_def)+

lemma sample_dirty_identify:
  "identify sum_ext vec_ops (rd_dev sample_dirty) 0x400000 = Ok (journal_header sample_header, Two)"
proof -
  obtain b where j: "encode_header sum_ext (journal_header sample_header) = Ok b" "length b = HEADER_SIZE"
    "rd_dev sample_dirty = overwrite 0x20000 b (overwrite 0x100000
       (journal_entry sum_ext sample_header 0x400000 0x300000 sample_sector) sample_image)"
    by (rule sample_journal)
  let ?d = "rd_dev sample_dirty" and ?h = "journal_header sample_header"
  have sl: "subslice 0 8 ?d = FILE_IDENTIFIER_SIGNATURE"
    "subslice 0x10000 0x11000 ?d = header_bytes sum_ext sample_header"
    "subslice 0x20000 0x21000 ?d = b" "subslice 0x30000 0x40000 ?d = sample_regions"
    using j(2) by (simp_all add: j(3) slice_simps sample_slices)
  have b: "header_parse sum_ext b = Ok ?h"
    using header_parse_encode [OF journal_header_wf [OF sample_header_wf], of sum_ext] j(1) by simp
  have seq: "hdr_sequence_number ?h = 8" "hdr_log_version ?h = LOG_VERSION_V0"
    by (simp_all add: journal_header_def Let_def sample_header_def)
  have "check_file_identifier vec_ops ?d = Ok ()"
    using sl(1) by (simp add: check_file_identifier_def vec_ops_def)
  moreover have "pick_header sum_ext vec_ops ?d 0x400000 = Ok (?h, Two)"
    using sl(2,3) b by (simp add: pick_header_def probe_at_def vec_ops_def seq)
  moreover have "pick_region_table sum_ext vec_ops ?d 0x400000 = Ok sample_region_table"
    using sl(4) by (simp add: pick_region_table_def probe_at_def vec_ops_def sample_region_table_parse)
  moreover have "validate_log_region 0x400000 ?h = Ok ()"
    by (simp add: validate_log_region_def is_multiple_of_def span_inside_the_file_def checked_add_def)
  moreover have "log_region_clear_of_declared_regions sample_region_table ?h = Ok ()"
    by (simp add: log_region_clear_of_declared_regions_def sample_region_table_def saturating_add_def)
  ultimately show ?thesis by (simp add: identify_def seq)
qed

section \<open>A chain to apply\<close>

abbreviation sample_chain :: "u64 \<Rightarrow> log_entry list" where
  "sample_chain off \<equiv> [journalled sample_header 0x400000 off sample_sector]"

lemma sample_chain_wf: "chain_wf (sample_chain off)"
  by (rule journalled_replay(1)) simp

lemma sample_extent: "allowed_extent 0x400000 (sample_chain off) = 0x400000"
  by (rule journalled_replay(3)) simp_all

lemma sample_fits:
  "\<forall>e \<in> set (chain_descriptors (sample_chain 0x300000)). desc_end e \<le> 0x400000"
  by (simp add: journalled_def decoded_write_def desc_end_def desc_start_def)

lemma sample_apply: "\<exists>d'. apply_chain sum_ext vec_ops (sample_chain 0x300000) sample_image = (Ok (), d')"
  using vec.apply_chain_succeeds [OF sample_vec_invar sample_chain_wf [of "0x300000"]] sample_fits sample_extent by simp

definition sample_log :: bytes where
  "sample_log = journal_entry sum_ext sample_header 0x400000 0x300000 sample_sector @ replicate 8192 0"

lemma length_sample_log [simp]: "length sample_log = 16384"
  by (simp add: sample_log_def)

lemma sample_collected:
  "collect_replay_chain sum_ext sample_log (hdr_log_guid (journal_header sample_header)) = Ok (sample_chain 0x300000)"
proof (rule journal_collected [OF sum_ext_contract sample_header_wf sample_sector_length])
  show "take 8192 sample_log = journal_entry sum_ext sample_header 0x400000 0x300000 sample_sector"
    by (simp add: sample_log_def)
  show "foreign_from sample_log (hdr_log_guid (journal_header sample_header)) 8192"
    unfolding foreign_from_def
  proof (intro allI impI)
    fix q
    assume q: "8192 \<le> q" "q + LOG_SECTOR_SIZE \<le> length sample_log"
    have "subslice (q + 32) (q + 48) sample_log = replicate 16 0"
      using q by (simp add: sample_log_def subslice_append)
    then show "subslice (q + 32) (q + 48) sample_log \<noteq> hdr_log_guid (journal_header sample_header)"
      using sample_guid_not_zero by metis
  qed
qed simp_all

text \<open>An entry at the start of the region, for the witness: its tail is the parameter.\<close>

definition lone_entry :: "u32 \<Rightarrow> log_entry" where
  "lone_entry tail =
     \<lparr> le_header = \<lparr> leh_entry_length = 4096, leh_tail = tail, leh_sequence_number = 1,
         leh_descriptor_count = 0, leh_log_guid = replicate 16 1, leh_flushed_file_offset = 0,
         leh_last_file_offset = 0 \<rparr>,
       le_descriptors = [], le_log_offset_in_region = 0 \<rparr>"

text \<open>A blank log region holds no entry of any sequence.\<close>

lemma blank_foreign: "foreign_from (replicate n 0) (replicate 16 1) pos"
  unfolding foreign_from_def
proof (intro allI impI)
  fix q assume "q + LOG_SECTOR_SIZE \<le> length (replicate n (0 :: u8))"
  then have "subslice (q + 32) (q + 48) (replicate n (0 :: u8)) = replicate 16 0"
    by (subst subslice_replicate) simp_all
  then show "subslice (q + 32) (q + 48) (replicate n (0 :: u8)) \<noteq> replicate 16 1" by simp
qed

lemma blank_discover: "discover x (replicate n 0) (replicate 16 1) = Ok ([], 0, False)"
  by (simp add: discover_def discover_from_foreign [OF blank_foreign] Let_def)

lemma blank_collect: "collect_replay_chain x (replicate n 0) (replicate 16 1) = Ok []"
  by (simp add: collect_replay_chain_def blank_discover select_chain_def list_all_iff)

section \<open>An image of two blocks\<close>

text \<open>The same file read as a disk of \<open>n\<close> blocks, for threads to allocate.\<close>

definition blank_reader :: "nat \<Rightarrow> bytes vhdx_reader" where
  "blank_reader n = (sample_reader True)\<lparr> rd_virtual_size := word_of_nat (n * 0x100000),
     rd_bat := replicate n \<lparr> be_state = NotPresent, be_file_offset = 0 \<rparr> \<rparr>"

lemma blank_fields [simp]:
  "rd_dev (blank_reader n) = sample_image" "rd_dev_size (blank_reader n) = 0x400000"
  "rd_header (blank_reader n) = sample_header"
  "rd_block_size (blank_reader n) = 0x100000" "rd_chunk_ratio (blank_reader n) = 4096"
  "rd_bat_region_off (blank_reader n) = 0x300000"
  "rd_active_header_slot (blank_reader n) = rd_active_header_slot (sample_reader True)"
  "rd_bat (blank_reader n) = replicate n \<lparr> be_state = NotPresent, be_file_offset = 0 \<rparr>"
  by (simp_all add: blank_reader_def)

lemma blank_size: "n \<le> 4096 \<Longrightarrow> unat (rd_virtual_size (blank_reader n)) = n * 0x100000"
  by (simp add: blank_reader_def unat_of_nat del: of_nat_mult)

lemma blank_slot: "n \<le> 4096 \<Longrightarrow> v < n * 0x100000 \<Longrightarrow> slot_of (blank_reader n) v < n"
  by (simp add: slot_of_def bat_slot_eq div_less_iff_less_mult)

lemma blank_disk_inv:
  assumes "n \<le> 4096"
  shows "disk_inv sample_image (blank_reader n)"
proof -
  note ok = sample_reader_ok [of True, unfolded reader_ok_def]
  have "disk_bat_entry sample_image 0x300000 i = \<lparr> be_state = NotPresent, be_file_offset = 0 \<rparr>" if "i < 4096" for i
  proof -
    have "subslice (0x300000 + 8 * i) (0x300000 + 8 * i + 8) sample_image = replicate 8 0"
      using that by (simp add: sample_image_def slice_simps)
    then show ?thesis by (simp add: disk_bat_entry_def bat_entry_from_u64_def payload_state_from_u8_def)
  qed
  then have "bat_synced (blank_reader n) sample_image" using assms by (simp add: bat_synced_def)
  moreover have "geometry_ok (blank_reader n)"
    using ok blank_slot [OF assms] blank_size [OF assms] by (simp add: geometry_ok_def)
  ultimately have "reader_ok sample_image (blank_reader n)" using ok by (simp add: reader_ok_def)
  moreover have "\<not> present (blank_reader n) i" for i
    using blank_slot [OF assms] blank_size [OF assms] by (auto simp: present_def payload_slot_def)
  then have "layout_ok sample_image (blank_reader n)"
    using assms by (simp add: layout_ok_def apart_from_log_def apart_spans_def log_span_def sample_header_def)
  ultimately show ?thesis using assms by (simp add: disk_inv_def missing_blocks_def)
qed

text \<open>Two blocks have their entries in one sector; of 513, the last has its own.\<close>

definition two_block_reader :: "bytes vhdx_reader" where
  "two_block_reader = blank_reader 2"

lemma two_block_fields [simp]:
  "rd_dev two_block_reader = sample_image" "rd_dev_size two_block_reader = 0x400000"
  "rd_header two_block_reader = sample_header" "rd_virtual_size two_block_reader = 0x200000"
  "rd_block_size two_block_reader = 0x100000" "rd_chunk_ratio two_block_reader = 4096"
  "rd_bat_region_off two_block_reader = 0x300000"
  "rd_bat two_block_reader = replicate 2 \<lparr> be_state = NotPresent, be_file_offset = 0 \<rparr>"
  by (simp_all add: two_block_reader_def) (simp add: blank_reader_def)

lemma two_block_disk_inv: "disk_inv sample_image two_block_reader"
  unfolding two_block_reader_def by (rule blank_disk_inv) simp

lemma blank_sectors: "sector_off_of (blank_reader n) 0 = 0x300000" "sector_off_of (blank_reader n) 512 = 0x301000"
  by (simp_all add: sector_off_of_def entry_off_on_disk_def)

lemma two_block_sector: "sector_off_of two_block_reader 0 = sector_off_of two_block_reader 1"
  by (simp add: sector_off_of_def entry_off_on_disk_def)

section \<open>Two pieces of one block\<close>

definition sample_jobs :: "(block_chunk \<times> bytes) list" where
  "sample_jobs =
     [(\<lparr> bc_in_block = 16, bc_bat_idx = 0, bc_buf_pos = 0, bc_chunk_len = 2 \<rparr>, [1, 2]),
      (\<lparr> bc_in_block = 100, bc_bat_idx = 0, bc_buf_pos = 0, bc_chunk_len = 1 \<rparr>, [3])]"

definition sample_at :: "nat \<Rightarrow> nat" where
  "sample_at k = (if k = 0 then 16 else 100)"

lemma sample_job:
  assumes "k < 2" "rd_virtual_size r = 0x100000" "rd_block_size r = 0x100000"
  shows "job_at r (sample_at k) (sample_jobs ! k)" "slot_of r (sample_at k) = 0"
proof -
  have "k = 0 \<or> k = 1" using assms(1) by auto
  then show "job_at r (sample_at k) (sample_jobs ! k)" "slot_of r (sample_at k) = 0"
    using assms(2,3) by (auto simp: job_at_def sample_jobs_def sample_at_def slot_of_def bat_slot_def)
qed

section \<open>JSON values\<close>

text \<open>A tree of values, for the witness of the \<open>get\<close> verb.\<close>

datatype json_tree =
    JNull
  | JText string
  | JNumber nat
  | JFlag bool
  | JFields "(string \<times> json_tree) list"

definition json_number :: "nat option \<Rightarrow> json_tree" where
  "json_number n = (case n of None \<Rightarrow> JNull | Some n \<Rightarrow> JNumber n)"

definition json_tree_ops :: "json_tree json_ops" where
  "json_tree_ops =
     \<lparr> json_null = JNull, json_string = JText, json_u32 = (\<lambda>n. JNumber (unat n)), json_u64 = (\<lambda>n. JNumber (unat n)),
       json_bool = JFlag, json_u32_option = (\<lambda>n. json_number (map_option unat n)),
       json_u64_option = (\<lambda>n. json_number (map_option unat n)), json_object = JFields,
       json_get = (\<lambda>j k. case j of JFields fs \<Rightarrow> map_of fs k | _ \<Rightarrow> None),
       json_to_text = (\<lambda>j. case j of JNumber n \<Rightarrow> show_nat n | JText s \<Rightarrow> s | _ \<Rightarrow> []) \<rparr>"

lemma json_tree_contract: "json_contract json_tree_ops"
  by (auto simp: json_contract_def json_tree_ops_def json_number_def split: option.splits)

section \<open>Trait defaults\<close>

definition refusing_defaults :: "bytes dev_ops" where
  "refusing_defaults = vec_ops\<lparr> dev_write_at := (\<lambda>_ _ v. (Err FsReadOnly, v)),
     dev_set_len := (\<lambda>_ v. (Err FsReadOnly, v)), dev_is_writable := (\<lambda>_. False) \<rparr>"

lemma refusing_defaults_ok: "read_only_defaults refusing_defaults"
  by (simp add: read_only_defaults_def refusing_defaults_def vec_ops_def)

section \<open>A write and a read of one block that is not there\<close>

definition sample_tasks :: "task list" where
  "sample_tasks = [WriteTask (fst (sample_jobs ! 0)) [1, 2], ReadTask (fst (sample_jobs ! 1)) 1]"

lemma sample_tasks_ok: "tasks_ok (sample_reader True) sample_at sample_tasks"
proof -
  have "job_at (sample_reader True) (sample_at k) (task_job (sample_tasks ! k)) \<and> accepts (sample_reader True) (sample_at k)"
    if "k < 2" for k
  proof -
    have k: "k = 0 \<or> k = 1" using that by auto
    have "job_at (sample_reader True) (sample_at k) (sample_jobs ! k)" by (rule sample_job(1) [OF that]) simp_all
    moreover have "accepts (sample_reader True) (sample_at k)" using k by (auto simp: sample_at_def intro!: sample_accepts)
    ultimately show ?thesis using k by (auto simp: sample_tasks_def sample_jobs_def job_at_def)
  qed
  moreover have "k = 0" if "k < 2" "is_write (sample_tasks ! k)" for k
    using that by (cases "k = 0") (auto simp: sample_tasks_def less_2_cases_iff)
  moreover have "length sample_tasks = 2" by (simp add: sample_tasks_def)
  ultimately show ?thesis unfolding tasks_ok_def by metis
qed

text \<open>The read finds no block and the write then allocates one.\<close>

lemma sample_transfers:
  obtains r' where "transfers_run sum_ext vec_ops sample_tasks (sample_reader True, start_transfers sample_tasks)
    (r', [AtWrite Written, AtRead (Fetched [0])])"
proof -
  let ?r = "sample_reader True" and ?c1 = "fst (sample_jobs ! 0)" and ?c2 = "fst (sample_jobs ! 1)"
  let ?run = "transfers_run sum_ext vec_ops sample_tasks"
  have ts: "sample_tasks = [WriteTask ?c1 [1, 2], ReadTask ?c2 1]" by (rule sample_tasks_def)
  have inv: "reader_ok sample_image ?r" "layout_ok sample_image ?r"
    using sample_disk_inv [of True] by (simp_all add: disk_inv_def)
  have job: "job_at ?r 16 (?c1, [1, 2])" using sample_job(1) [of 0 ?r] by (simp add: sample_at_def sample_jobs_def)
  have slot: "slot_of ?r 16 = 0" using sample_job(2) [of 0 ?r] by (simp add: sample_at_def)
  obtain r1 where r1: "write_run 8 sum_ext vec_ops ?c1 [1, 2] (Allocating Claim) ?r = (Ok Written, r1)"
    by (rule vec.allocating_writer [OF _ sum_ext_contract _ _ job]) (use inv in auto)
  have look: "bat_entry_at ?r 0 = Ok \<lparr> be_state = NotPresent, be_file_offset = 0 \<rparr>" by (simp add: bat_entry_at_def)
  have rd: "read_step vec_ops ?c2 1 LookIn ?r = Ok (Fetched [0])" by (simp add: read_step_def sample_jobs_def look look_in_def)
  have wr: "write_step sum_ext vec_ops ?c1 [1, 2] LookUp ?r = (Ok (Allocating Claim), ?r)"
    by (simp add: write_step_def sample_jobs_def look look_up_def)
  have "start_transfers sample_tasks = [AtWrite LookUp, AtRead LookIn]" by (simp add: start_transfers_def ts)
  then have "?run (?r, start_transfers sample_tasks) (?r, [AtWrite LookUp, AtRead (Fetched [0])])"
    using transfers_step.reads [of 1 "start_transfers sample_tasks" sample_tasks ?c2 1 LookIn sum_ext vec_ops ?r] rd
    by (auto simp: ts at_read_def)
  also have "?run \<dots> (?r, [AtWrite (Allocating Claim), AtRead (Fetched [0])])"
    using transfers_step.writes [OF _ _ _ _ wr, of 0 "[AtWrite LookUp, AtRead (Fetched [0])]" sample_tasks]
    by (auto simp: ts at_write_def)
  also have "?run \<dots> (r1, [AtWrite Written, AtRead (Fetched [0])])"
    using transfers_run_of_write_run [OF r1, of 0 "[AtWrite (Allocating Claim), AtRead (Fetched [0])]" sample_tasks]
    by (simp add: ts)
  finally show thesis by (rule that)
qed

section \<open>An image inside an image\<close>

text \<open>
  Eight megabytes that hold the sample image with its block allocated behind it, and the one block,
  of eight megabytes, of an image that holds them. Both readers are open for writing.
\<close>

definition inner_image :: bytes where
  "inner_image = overwrite 0x300000 (to_le_bytes (0x400006 :: u64)) (sample_image @ replicate 0x400000 0)"

definition outer_image :: bytes where
  "outer_image =
     overwrite 0x300000 (to_le_bytes (0x800006 :: u64)) (sample_image @ replicate 0x400000 0) @ inner_image"

definition outer_reader :: "bytes vhdx_reader" where
  "outer_reader = new_reader True 0x1000000 sample_header One
     \<lparr> geo_virtual_size = 0x800000, geo_block_size = 0x800000, geo_sector_size = 512,
       geo_physical_sector_size = None, geo_chunk_ratio = 512 \<rparr> 0x300000
     [\<lparr> be_state = FullyPresent, be_file_offset = 0x800000 \<rparr>] outer_image"

definition inner_reader :: "bytes vhdx_reader vhdx_reader" where
  "inner_reader = new_reader True 0x800000 sample_header One sample_geometry 0x300000
     [\<lparr> be_state = FullyPresent, be_file_offset = 0x400000 \<rparr>] outer_reader"

lemma nested_fields [simp]:
  "rd_dev outer_reader = outer_image" "rd_dev_size outer_reader = 0x1000000"
  "rd_header outer_reader = sample_header" "rd_virtual_size outer_reader = 0x800000"
  "rd_block_size outer_reader = 0x800000" "rd_chunk_ratio outer_reader = 512"
  "rd_bat_region_off outer_reader = 0x300000" "rd_writable outer_reader"
  "rd_bat outer_reader = [\<lparr> be_state = FullyPresent, be_file_offset = 0x800000 \<rparr>]"
  "rd_dev inner_reader = outer_reader" "rd_dev_size inner_reader = 0x800000"
  "rd_header inner_reader = sample_header" "rd_virtual_size inner_reader = 0x100000"
  "rd_block_size inner_reader = 0x100000" "rd_chunk_ratio inner_reader = 4096"
  "rd_bat_region_off inner_reader = 0x300000" "rd_writable inner_reader"
  "rd_bat inner_reader = [\<lparr> be_state = FullyPresent, be_file_offset = 0x400000 \<rparr>]"
  by (simp_all add: outer_reader_def inner_reader_def new_reader_def sample_geometry_def)

lemma nested_lengths [simp]: "length inner_image = 0x800000" "length outer_image = 0x1000000"
  by (simp_all add: inner_image_def outer_image_def)

lemma nested_slots [simp]:
  "v < 0x800000 \<Longrightarrow> slot_of outer_reader v = 0" "v < 0x100000 \<Longrightarrow> slot_of inner_reader v = 0"
  by (simp_all add: slot_of_def bat_slot_def)

lemma bat_entry_of_block:
  "bat_entry_from_u64 0x400006 = \<lparr> be_state = FullyPresent, be_file_offset = 0x400000 \<rparr>"
  "bat_entry_from_u64 0x800006 = \<lparr> be_state = FullyPresent, be_file_offset = 0x800000 \<rparr>"
  by code_simp+

lemma one_block_disk_inv:
  assumes "rd_bat r = [\<lparr> be_state = FullyPresent, be_file_offset = start \<rparr>]" "rd_bat_region_off r = 0x300000"
    and "rd_header r = sample_header" "rd_chunk_ratio r \<noteq> 0" "block_bytes r = 2 ^ k" "20 \<le> k" "k \<le> 28"
    and "\<forall>v < unat (rd_virtual_size r). slot_of r v = 0" "unat (rd_dev_size r) = length c"
    and "0x300008 \<le> unat start" "unat start + block_bytes r \<le> length c"
    and "subslice 0x300000 0x300008 c = to_le_bytes w" "bat_entry_from_u64 w = \<lparr> be_state = FullyPresent, be_file_offset = start \<rparr>"
  shows "disk_inv c r"
proof -
  have p: "present r i \<Longrightarrow> i = 0" for i using assms(8) by (auto simp: present_def payload_slot_def)
  have log: "log_span sample_header = (0x100000, 0x100000)" by (simp add: log_span_def sample_header_def)
  have lr: "log_region_ok (rd_dev_size r) sample_header"
    using assms(9,10,11) by (simp add: log_region_ok_def sample_header_def)
  have "length c < 2 ^ 64" using assms(9) unat_lt_u64 [of "rd_dev_size r"] by (simp del: unat_lt_u64)
  moreover have "disk_bat_entry c 0x300000 0 = \<lparr> be_state = FullyPresent, be_file_offset = start \<rparr>"
    using assms(12,13) by (simp add: disk_bat_entry_def)
  ultimately have "reader_ok c r"
    using assms(1-11) lr by (auto simp: reader_ok_def geometry_ok_def block_size_ok_def bat_synced_def)
  moreover have "layout_ok c r"
    using assms(1,2,3,10,11) by (auto simp: layout_ok_def apart_from_log_def log apart_spans_def dest!: p)
  ultimately show ?thesis
    using \<open>length c < 2 ^ 64\<close> assms(1) by (simp add: disk_inv_def missing_blocks_def)
qed

lemma outer_disk_inv: "disk_inv outer_image outer_reader"
  by (rule one_block_disk_inv [where k = 23 and w = "0x800006"])
    (simp_all add: bat_entry_of_block outer_image_def slice_simps)

lemma disk_of_outer: "disk_of (\<lambda>v. v) outer_reader = inner_image"
  by (intro nth_equalityI) (simp_all add: disk_of_nth vbyte_def Let_def, simp add: outer_image_def nth_append)

lemma inner_image_ok: "image_ok (image_ok vec_invar (\<lambda>v. v)) (disk_of (\<lambda>v. v)) inner_reader"
proof -
  have "disk_inv inner_image inner_reader"
    by (rule one_block_disk_inv [where k = 20 and w = "0x400006"])
      (simp_all add: bat_entry_of_block inner_image_def slice_simps)
  then show ?thesis using outer_disk_inv by (simp add: image_ok_def disk_of_outer vec_invar_def)
qed

lemma inner_takes:
  "v < 0x100000 \<Longrightarrow> image_takes (\<lambda>r v. rd_writable r \<and> accepts r v) inner_reader v"
  by (simp add: image_takes_def place_of_def accepts_def)

end
