(* ===== verification/Img_Cli.thy ===== *)
theory Img_Cli
  imports Img_Verbs
begin

text \<open>
  \<open>src/cli/vhdx/img.rs\<close>, the command line: the table of verbs and arguments \<open>command\<close> declares, without
  the prose of its help pages, and \<open>run\<close> from what \<open>clap\<close> parsed. The accessors of \<open>clap\<close> are a record
  of operations on its matches; \<open>command_parsed\<close> states what \<open>clap\<close> promises of the matches of a command:
  an argument may be asked for with the type it was declared with, a required one is there, and a
  subcommand is one that was declared. The lemmas show that \<open>run\<close> asks for nothing else, so that none of
  its \<open>expect\<close>s fails and its \<open>unreachable!\<close> is not reached.
\<close>

section \<open>The table\<close>

datatype value_parser = TextParser | PathParser | SizeParser

record arg_spec =
  as_id :: string
  as_short :: "char option"
  as_long :: "string option"
  as_value_name :: string
  as_help :: "string option"
  as_parser :: value_parser
  as_required :: bool

record cmd_spec =
  cs_name :: string
  cs_about :: string
  cs_args :: "arg_spec list"

definition byte_count :: "string \<Rightarrow> string \<Rightarrow> arg_spec" where
  "byte_count arg_id help =
     \<lparr> as_id = arg_id, as_short = None, as_long = Some arg_id, as_value_name = ''BYTES'', as_help = Some help,
       as_parser = SizeParser, as_required = False \<rparr>"

definition text_arg :: "string \<Rightarrow> string \<Rightarrow> string option \<Rightarrow> bool \<Rightarrow> arg_spec" where
  "text_arg arg_id value_name help required =
     \<lparr> as_id = arg_id, as_short = None, as_long = None, as_value_name = value_name, as_help = help,
       as_parser = TextParser, as_required = required \<rparr>"

definition key_command :: "string \<Rightarrow> string \<Rightarrow> cmd_spec" where
  "key_command name about =
     \<lparr> cs_name = name, cs_about = about,
       cs_args = [text_arg ''key'' ''KEY'' (Some (''One of: '' @ join_with '', '' KEYS @ '' (or vhdx.<field>)'')) False] \<rparr>"

definition image_arg :: arg_spec where
  "image_arg =
     \<lparr> as_id = ''image'', as_short = None, as_long = None, as_value_name = ''IMAGE'',
       as_help = Some ''The VHDX image file'', as_parser = PathParser, as_required = True \<rparr>"

definition read_command :: cmd_spec where
  "read_command =
     \<lparr> cs_name = ''read'',
       cs_about = ''Write the guest's bytes to stdout, or to a file with -o: the whole disk, or a range'',
       cs_args =
         [byte_count ''offset'' ''Where to start, in the guest (default 0)'',
          byte_count ''length'' ''How many bytes (default: to the end of the virtual disk)'',
          \<lparr> as_id = ''output'', as_short = Some CHR ''o'', as_long = Some ''output'', as_value_name = ''FILE'',
            as_help = Some ''Write here instead of stdout (zero runs are left sparse)'',
            as_parser = PathParser, as_required = False \<rparr>] \<rparr>"

definition write_command :: cmd_spec where
  "write_command =
     \<lparr> cs_name = ''write'', cs_about = ''Write the bytes on stdin into the guest at an offset'',
       cs_args = [(byte_count ''offset'' ''Where to write, in the guest'')\<lparr> as_required := True \<rparr>] \<rparr>"

definition create_command :: cmd_spec where
  "create_command =
     \<lparr> cs_name = ''create'', cs_about = ''Create a new, empty image (not implemented)'',
       cs_args = [text_arg ''size'' ''SIZE'' None True] \<rparr>"

definition set_command :: cmd_spec where
  "set_command =
     \<lparr> cs_name = ''set'', cs_about = ''Change a property (not implemented)'',
       cs_args = [text_arg ''key'' ''KEY'' None True, text_arg ''value'' ''VALUE'' None True] \<rparr>"

definition resize_command :: cmd_spec where
  "resize_command =
     \<lparr> cs_name = ''resize'', cs_about = ''Grow or shrink the virtual disk (not implemented)'',
       cs_args = [text_arg ''size'' ''SIZE'' None True] \<rparr>"

definition img_subcommands :: "cmd_spec list" where
  "img_subcommands =
     [key_command ''info'' ''Report the image's properties, or one of them'',
      key_command ''get'' ''The same as info: every property, or one of them'',
      read_command, write_command, create_command, set_command, resize_command]"

section \<open>What was parsed\<close>

record 'm clap_ops =
  clap_text :: "'m \<Rightarrow> string \<Rightarrow> (string option, cli_error) res"
  clap_path :: "'m \<Rightarrow> string \<Rightarrow> (string option, cli_error) res"
  clap_size :: "'m \<Rightarrow> string \<Rightarrow> (u64 option, cli_error) res"
  clap_subcommand :: "'m \<Rightarrow> (string \<times> 'm) option"

definition arg_found :: "('a option, cli_error) res \<Rightarrow> bool \<Rightarrow> bool" where
  "arg_found answer required \<longleftrightarrow> (\<exists>v. answer = Ok v \<and> (required \<longrightarrow> v \<noteq> None))"

definition arg_parsed :: "'m clap_ops \<Rightarrow> 'm \<Rightarrow> arg_spec \<Rightarrow> bool" where
  "arg_parsed C m a =
     (case as_parser a of
        TextParser \<Rightarrow> arg_found (clap_text C m (as_id a)) (as_required a)
      | PathParser \<Rightarrow> arg_found (clap_path C m (as_id a)) (as_required a)
      | SizeParser \<Rightarrow> arg_found (clap_size C m (as_id a)) (as_required a))"

definition command_parsed :: "'m clap_ops \<Rightarrow> 'm \<Rightarrow> bool" where
  "command_parsed C m \<longleftrightarrow>
     arg_parsed C m image_arg \<and>
     (\<exists>c sub. c \<in> set img_subcommands \<and> clap_subcommand C m = Some (cs_name c, sub) \<and>
        (\<forall>a \<in> set (cs_args c). arg_parsed C sub a))"

text \<open>\<open>Option::expect\<close>\<close>

definition expect_some :: "'a option \<Rightarrow> ('a, 'e) res" where
  "expect_some v = (case v of None \<Rightarrow> Panic | Some a \<Rightarrow> Ok a)"

definition run_args :: "'m clap_ops \<Rightarrow> 'm \<Rightarrow> (string \<times> verb, cli_error) res" where
  "run_args C m =
     res_bind (res_bind (clap_path C m ''image'') expect_some) (\<lambda>image.
     res_bind (expect_some (clap_subcommand C m)) (\<lambda>(name, sub).
     res_bind
       (if name = ''info'' then res_bind (clap_text C sub ''key'') (\<lambda>key. Ok (VInfo key))
        else if name = ''get'' then res_bind (clap_text C sub ''key'') (\<lambda>key. Ok (VGet key))
        else if name = ''read'' then
          res_bind (clap_size C sub ''offset'') (\<lambda>offset.
          res_bind (clap_size C sub ''length'') (\<lambda>len.
          res_bind (clap_path C sub ''output'') (\<lambda>output. Ok (VRead offset len output))))
        else if name = ''write'' then
          res_bind (res_bind (clap_size C sub ''offset'') expect_some) (\<lambda>offset. Ok (VWrite offset))
        else if name = ''create'' then Ok VCreate
        else if name = ''set'' then Ok VSet
        else if name = ''resize'' then Ok VResize
        else Panic) (\<lambda>v. Ok (image, v))))"

definition run_cli ::
  "ext \<Rightarrow> 'j json_ops \<Rightarrow> 'm clap_ops \<Rightarrow> ('b, 'y) read_ops_scheme \<Rightarrow> ('d, 'z) dev_ops_scheme \<Rightarrow> 'o sink_ops \<Rightarrow>
   'o sink_ops \<Rightarrow> 'o fs_ops \<Rightarrow> 'm \<Rightarrow> (('b, 'd, 'o) world, 'j outcome, cli_error) io" where
  "run_cli x J C bops ops stdout out fs m =
     io_bind (io_lift (run_args C m)) (\<lambda>(path, v). run_verb x J bops ops stdout out fs path v)"

section \<open>Lemmas\<close>

primrec verb_name :: "verb \<Rightarrow> string" where
  "verb_name (VInfo key) = ''info''"
| "verb_name (VGet key) = ''get''"
| "verb_name (VRead offset len output) = ''read''"
| "verb_name (VWrite offset) = ''write''"
| "verb_name VCreate = ''create''"
| "verb_name VSet = ''set''"
| "verb_name VResize = ''resize''"

lemma img_subcommand_cases:
  assumes "c \<in> set img_subcommands"
  obtains (key) about where "c = key_command ''info'' about" | (get) about where "c = key_command ''get'' about"
    | "c = read_command" | "c = write_command" | "c = create_command" | "c = set_command" | "c = resize_command"
  using assms by (auto simp: img_subcommands_def)

lemma run_args_total:
  assumes "command_parsed C m"
  shows "\<exists>path v sub. run_args C m = Ok (path, v) \<and> clap_subcommand C m = Some (verb_name v, sub)"
proof -
  obtain c sub where c: "c \<in> set img_subcommands" "clap_subcommand C m = Some (cs_name c, sub)"
    "\<forall>a \<in> set (cs_args c). arg_parsed C sub a" and im: "arg_parsed C m image_arg"
    using assms by (auto simp: command_parsed_def)
  obtain path where path: "clap_path C m ''image'' = Ok (Some path)"
    using im by (auto simp: arg_parsed_def image_arg_def arg_found_def)
  have "\<exists>v. run_args C m = Ok (path, v) \<and> verb_name v = cs_name c"
    using c(1)
  proof (cases rule: img_subcommand_cases)
    case key
    then show ?thesis using c(2,3) path
      by (auto simp: run_args_def expect_some_def key_command_def text_arg_def arg_parsed_def arg_found_def)
  next
    case get
    then show ?thesis using c(2,3) path
      by (auto simp: run_args_def expect_some_def key_command_def text_arg_def arg_parsed_def arg_found_def)
  next
    case 3
    then show ?thesis using c(2,3) path
      by (auto simp: run_args_def expect_some_def read_command_def byte_count_def arg_parsed_def arg_found_def)
  next
    case 4
    then show ?thesis using c(2,3) path
      by (auto simp: run_args_def expect_some_def write_command_def byte_count_def arg_parsed_def arg_found_def)
  qed (use c(2) path in \<open>auto simp: run_args_def expect_some_def create_command_def set_command_def resize_command_def\<close>)
  then show ?thesis using c(2) by auto
qed

end
