(* ===== verification/Capi.thy ===== *)
theory Capi
  imports Reader_Open
begin

text \<open>
  \<open>src/capi.rs\<close>: the C entry points. A pointer argument is an option, \<open>None\<close> for null; a path
  is the text it decodes to, \<open>None\<close> when it is not UTF-8. A call answers the handle it returns,
  \<open>None\<close> for null, and threads the thread's last error. \<open>catch_unwind\<close> turns a panic into an
  error; the text of the panic's payload, which \<open>fs_core\<close> prints, is an argument.
\<close>

type_synonym last_error = "string option"

text \<open>What both bodies do with the reader they opened.\<close>

definition finish_open ::
  "string \<Rightarrow> string \<Rightarrow> ('r, error) res \<Rightarrow> last_error \<Rightarrow> 'r option \<times> last_error" where
  "finish_open entry panic_message reader prev =
     (case reader of
        Ok r \<Rightarrow> (Some r, prev)
      | Err e \<Rightarrow> (None, Some (error_to_string e))
      | Panic \<Rightarrow> (None, Some (''panic in '' @ entry @ '': '' @ panic_message)))"

text \<open>The path openers take what \<open>FileDevice\<close> gives for a path, read-only and read-write.\<close>

definition capi_open_path ::
  "ext \<Rightarrow> ('d, 'z) dev_ops_scheme \<Rightarrow> string \<Rightarrow> (string \<Rightarrow> ('d, fs_error) res) \<Rightarrow>
   (string \<Rightarrow> ('d, fs_error) res) \<Rightarrow> string option option \<Rightarrow> bool \<Rightarrow> last_error \<Rightarrow>
   'd vhdx_reader option \<times> last_error" where
  "capi_open_path x ops panic_message open_file open_file_rw path writable prev =
     (case path of
        None \<Rightarrow> (None, Some ''path is null'')
      | Some None \<Rightarrow> (None, Some ''path is not valid UTF-8'')
      | Some (Some s) \<Rightarrow>
          finish_open ''vhdx_open'' panic_message
            (if writable then open_rw_path x ops (open_file_rw s) else open_path x ops (open_file s)) prev)"

definition capi_open_on_device ::
  "ext \<Rightarrow> ('d, 'z) dev_ops_scheme \<Rightarrow> string \<Rightarrow> 'd option \<Rightarrow> bool \<Rightarrow> last_error \<Rightarrow>
   'd vhdx_reader option \<times> last_error" where
  "capi_open_on_device x ops panic_message inner writable prev =
     (case inner of
        None \<Rightarrow> (None, Some ''inner device handle is null'')
      | Some dev \<Rightarrow>
          finish_open ''vhdx_open_on_device'' panic_message
            (fst (if writable then open_rw_on_device x ops dev else open_on_device x ops dev)) prev)"

section \<open>The entry points\<close>

definition vhdx_open ::
  "ext \<Rightarrow> ('d, 'z) dev_ops_scheme \<Rightarrow> string \<Rightarrow> (string \<Rightarrow> ('d, fs_error) res) \<Rightarrow>
   (string \<Rightarrow> ('d, fs_error) res) \<Rightarrow> string option option \<Rightarrow> last_error \<Rightarrow> 'd vhdx_reader option \<times> last_error" where
  "vhdx_open x ops panic_message open_file open_file_rw path prev =
     capi_open_path x ops panic_message open_file open_file_rw path False prev"

definition vhdx_open_rw ::
  "ext \<Rightarrow> ('d, 'z) dev_ops_scheme \<Rightarrow> string \<Rightarrow> (string \<Rightarrow> ('d, fs_error) res) \<Rightarrow>
   (string \<Rightarrow> ('d, fs_error) res) \<Rightarrow> string option option \<Rightarrow> last_error \<Rightarrow> 'd vhdx_reader option \<times> last_error" where
  "vhdx_open_rw x ops panic_message open_file open_file_rw path prev =
     capi_open_path x ops panic_message open_file open_file_rw path True prev"

definition vhdx_open_on_device ::
  "ext \<Rightarrow> ('d, 'z) dev_ops_scheme \<Rightarrow> string \<Rightarrow> 'd option \<Rightarrow> last_error \<Rightarrow> 'd vhdx_reader option \<times> last_error" where
  "vhdx_open_on_device x ops panic_message inner prev = capi_open_on_device x ops panic_message inner False prev"

definition vhdx_open_rw_on_device ::
  "ext \<Rightarrow> ('d, 'z) dev_ops_scheme \<Rightarrow> string \<Rightarrow> 'd option \<Rightarrow> last_error \<Rightarrow> 'd vhdx_reader option \<times> last_error" where
  "vhdx_open_rw_on_device x ops panic_message inner prev = capi_open_on_device x ops panic_message inner True prev"

section \<open>Lemmas\<close>

lemma finish_open_cases:
  "finish_open entry pm reader prev = (h, l) \<Longrightarrow>
     (\<exists>r. reader = Ok r \<and> h = Some r \<and> l = prev) \<or> ((\<forall>r. reader \<noteq> Ok r) \<and> h = None \<and> l \<noteq> None)"
  by (auto simp: finish_open_def split: res.splits)

text \<open>
  The openers answer a handle exactly when the path is there and the library opens the image, and
  otherwise null with the last error set, whether or not the library panicked.
\<close>

lemma c_open_answers_a_handle_or_an_error:
  "(\<exists>r. capi_open_path x ops pm open_file open_file_rw path writable prev = (Some r, prev) \<and>
      (\<exists>s. path = Some (Some s) \<and>
        (if writable then open_rw_path x ops (open_file_rw s) else open_path x ops (open_file s)) = Ok r)) \<or>
   (\<exists>m. capi_open_path x ops pm open_file open_file_rw path writable prev = (None, Some m) \<and>
      (\<forall>s r. path = Some (Some s) \<longrightarrow>
        (if writable then open_rw_path x ops (open_file_rw s) else open_path x ops (open_file s)) \<noteq> Ok r))"
  by (auto simp: capi_open_path_def finish_open_def split: option.splits res.splits)

end
