(* ===== verification/Size.thy ===== *)
theory Size
  imports Vhdx_Error
begin

text \<open>
  \<open>src/cli/vhdx/size.rs\<close>: the byte counts of the command line. A string is the list of its
  scalar values, so that \<open>trim\<close> and the ASCII tests are those of Rust's \<open>str\<close>. The errors are
  the five places the parser fails at, without the text each message quotes.
\<close>

section \<open>Strings and integers of the standard library\<close>

type_synonym ustring = "nat list"

definition text_of :: "string \<Rightarrow> ustring" where
  "text_of s = map of_char s"

text \<open>\<open>char::is_whitespace\<close>: the Unicode property \<open>White_Space\<close>.\<close>

definition is_whitespace :: "nat \<Rightarrow> bool" where
  "is_whitespace c \<longleftrightarrow> 9 \<le> c \<and> c \<le> 13 \<or> c = 32 \<or> c = 0x85 \<or> c = 0xA0 \<or> c = 0x1680 \<or>
     0x2000 \<le> c \<and> c \<le> 0x200A \<or> c = 0x2028 \<or> c = 0x2029 \<or> c = 0x202F \<or> c = 0x205F \<or> c = 0x3000"

definition trim :: "ustring \<Rightarrow> ustring" where
  "trim t = rev (dropWhile is_whitespace (rev (dropWhile is_whitespace t)))"

definition is_ascii_digit :: "nat \<Rightarrow> bool" where
  "is_ascii_digit c \<longleftrightarrow> 48 \<le> c \<and> c \<le> 57"

definition to_ascii_lowercase :: "ustring \<Rightarrow> ustring" where
  "to_ascii_lowercase = map (\<lambda>c. if 65 \<le> c \<and> c \<le> 90 then c + 32 else c)"

text \<open>\<open>char::to_digit\<close> for the two radices used.\<close>

definition to_digit :: "nat \<Rightarrow> nat \<Rightarrow> nat option" where
  "to_digit radix c =
     (let v = if 48 \<le> c \<and> c \<le> 57 then Some (c - 48)
              else if 97 \<le> c \<and> c \<le> 122 then Some (c - 87)
              else if 65 \<le> c \<and> c \<le> 90 then Some (c - 55)
              else None
      in case v of None \<Rightarrow> None | Some d \<Rightarrow> if d < radix then Some d else None)"

datatype int_error = IntEmpty | InvalidDigit | PosOverflow

definition digit_step :: "nat \<Rightarrow> u64 \<Rightarrow> nat \<Rightarrow> (u64, int_error) res" where
  "digit_step radix acc c =
     (case to_digit radix c of
        None \<Rightarrow> Err InvalidDigit
      | Some d \<Rightarrow>
          res_bind (ok_or (checked_mul acc (word_of_nat radix)) PosOverflow) (\<lambda>m.
          ok_or (checked_add m (word_of_nat d)) PosOverflow))"

primrec parse_digits :: "nat \<Rightarrow> u64 \<Rightarrow> ustring \<Rightarrow> (u64, int_error) res" where
  "parse_digits radix acc [] = Ok acc"
| "parse_digits radix acc (c # cs) = res_bind (digit_step radix acc c) (\<lambda>acc. parse_digits radix acc cs)"

text \<open>\<open>u64::from_str_radix\<close>, which takes a leading plus sign.\<close>

definition from_str_radix :: "nat \<Rightarrow> ustring \<Rightarrow> (u64, int_error) res" where
  "from_str_radix radix t =
     (case t of
        [] \<Rightarrow> Err IntEmpty
      | c # cs \<Rightarrow>
          if cs = [] \<and> (c = 43 \<or> c = 45) then Err InvalidDigit
          else if c = 43 then parse_digits radix 0 cs
          else parse_digits radix 0 t)"

section \<open>The parser\<close>

datatype size_error =
    BadHex int_error
  | NotAByteCount
  | BadDecimal int_error
  | UnknownSuffix ustring
  | DoesNotFit

definition strip_prefix :: "ustring \<Rightarrow> ustring \<Rightarrow> ustring option" where
  "strip_prefix p t = (if take (length p) t = p then Some (drop (length p) t) else None)"

definition suffix_shift :: "ustring \<Rightarrow> nat option" where
  "suffix_shift s =
     (if s \<in> set (map text_of ['''', ''b'']) then Some 0
      else if s \<in> set (map text_of [''k'', ''kb'', ''kib'']) then Some 10
      else if s \<in> set (map text_of [''m'', ''mb'', ''mib'']) then Some 20
      else if s \<in> set (map text_of [''g'', ''gb'', ''gib'']) then Some 30
      else if s \<in> set (map text_of [''t'', ''tb'', ''tib'']) then Some 40
      else None)"

definition size_parse :: "ustring \<Rightarrow> (u64, size_error) res" where
  "size_parse text =
     (let text = trim text in
      case (case strip_prefix (text_of ''0x'') text of
              Some hex \<Rightarrow> Some hex | None \<Rightarrow> strip_prefix (text_of ''0X'') text) of
        Some hex \<Rightarrow> res_map_err BadHex (from_str_radix 16 hex)
      | None \<Rightarrow>
          let digits = takeWhile is_ascii_digit text;
              suffix = dropWhile is_ascii_digit text
          in if digits = [] then Err NotAByteCount
             else
               res_bind (res_map_err BadDecimal (from_str_radix 10 digits)) (\<lambda>n.
               case suffix_shift (to_ascii_lowercase suffix) of
                 None \<Rightarrow> Err (UnknownSuffix suffix)
               | Some shift \<Rightarrow> ok_or (checked_mul n (push_bit shift 1)) DoesNotFit))"

section \<open>Lemmas\<close>

lemma parse_digits_append:
  "parse_digits radix acc (xs @ ys) = res_bind (parse_digits radix acc xs) (\<lambda>acc. parse_digits radix acc ys)"
proof (induction xs arbitrary: acc)
  case (Cons c cs)
  then show ?case by (cases "digit_step radix acc c") simp_all
qed simp

lemma of_char_digit:
  "d < 16 \<Longrightarrow> of_char (digit_char d) = (if d < 10 then 48 + d else 87 + d)"
  by (simp add: digit_char_def)

lemma digit_step_digit:
  assumes "radix = 10 \<or> radix = 16" "d < radix" "unat acc * radix + d < 2 ^ 64"
  shows "digit_step radix acc (of_char (digit_char d)) = Ok (word_of_nat (unat acc * radix + d))"
proof -
  have d: "d < 16" using assms(1,2) by auto
  then have t: "to_digit radix (of_char (digit_char d)) = Some d"
    using assms(2) by (auto simp: to_digit_def of_char_digit)
  have r: "unat (word_of_nat radix :: u64) = radix" "unat (word_of_nat d :: u64) = d"
    using assms(1) d by (auto simp: unat_of_nat take_bit_nat_eq_self)
  have "unat acc * radix < 2 ^ 64" using assms(3) by linarith
  then have lt: "unat acc * unat (word_of_nat radix :: u64) < 2 ^ LENGTH(64)" unfolding r by simp
  have m: "checked_mul acc (word_of_nat radix) = Some (acc * word_of_nat radix)"
    unfolding checked_mul_def using lt by (rule if_P)
  have um: "unat (acc * word_of_nat radix) = unat acc * radix"
    using unat_mult_no_overflow [OF lt] unfolding r .
  have "checked_add (acc * word_of_nat radix) (word_of_nat d) = Some (acc * word_of_nat radix + word_of_nat d)"
    unfolding checked_add_def um r using assms(3) by simp
  moreover have "acc * word_of_nat radix + word_of_nat d = word_of_nat (unat acc * radix + d)"
    by simp
  ultimately show ?thesis by (simp only: digit_step_def t m option.case ok_or.simps res_bind.simps)
qed

lemma parse_digits_show:
  assumes "radix = 10 \<or> radix = 16" "n < 2 ^ 64"
  shows "parse_digits radix 0 (text_of (show_radix radix n)) = Ok (word_of_nat n)"
  using assms
proof (induction radix n rule: show_radix.induct)
  case (1 r n)
  show ?case
  proof (cases "n < r")
    case True
    then show ?thesis
      using 1(2) digit_step_digit [of r n 0] 1(3)
      by (subst show_radix.simps) (auto simp: text_of_def)
  next
    case False
    have q: "n div r < 2 ^ 64" using 1(3) by (rule le_less_trans [OF div_le_dividend])
    then have IH: "parse_digits r 0 (text_of (show_radix r (n div r))) = Ok (word_of_nat (n div r))"
      using 1 False by auto
    have u: "unat (word_of_nat (n div r) :: u64) = n div r" using q by (simp add: unat_of_nat_u64)
    have s: "show_radix r n = show_radix r (n div r) @ [digit_char (n mod r)]"
      using False 1(2) by (subst show_radix.simps) auto
    have "digit_step r (word_of_nat (n div r)) (of_char (digit_char (n mod r))) = Ok (word_of_nat n)"
      using digit_step_digit [OF 1(2), of "n mod r" "word_of_nat (n div r)"] 1(2,3) by (auto simp: u)
    then show ?thesis using IH by (simp add: s text_of_def parse_digits_append)
  qed
qed

text \<open>A numeral of \<open>2 ^ 64\<close> or more is refused at the digit that leaves the type.\<close>

lemma digit_step_overflow:
  assumes "radix = 10 \<or> radix = 16" "d < radix" "2 ^ 64 \<le> unat acc * radix + d"
  shows "digit_step radix acc (of_char (digit_char d)) = Err PosOverflow"
proof -
  have d: "d < 16" using assms(1,2) by auto
  then have t: "to_digit radix (of_char (digit_char d)) = Some d"
    using assms(2) by (auto simp: to_digit_def of_char_digit)
  have r: "unat (word_of_nat radix :: u64) = radix" "unat (word_of_nat d :: u64) = d"
    using assms(1) d by (auto simp: unat_of_nat take_bit_nat_eq_self)
  show ?thesis
  proof (cases "unat acc * radix < 2 ^ 64")
    case False
    then have "checked_mul acc (word_of_nat radix) = None" by (simp add: checked_mul_def r)
    then show ?thesis by (simp add: digit_step_def t)
  next
    case True
    then have lt: "unat acc * unat (word_of_nat radix :: u64) < 2 ^ LENGTH(64)" unfolding r by simp
    have m: "checked_mul acc (word_of_nat radix) = Some (acc * word_of_nat radix)"
      unfolding checked_mul_def using lt by (rule if_P)
    have um: "unat (acc * word_of_nat radix) = unat acc * radix"
      using unat_mult_no_overflow [OF lt] unfolding r .
    have "checked_add (acc * word_of_nat radix) (word_of_nat d) = None"
      unfolding checked_add_def um r using assms(3) by simp
    then show ?thesis by (simp only: digit_step_def t m option.case ok_or.simps res_bind.simps)
  qed
qed

lemma parse_digits_overflow:
  assumes "radix = 10 \<or> radix = 16" "2 ^ 64 \<le> n"
  shows "parse_digits radix 0 (text_of (show_radix radix n)) = Err PosOverflow"
  using assms
proof (induction radix n rule: show_radix.induct)
  case (1 r n)
  have s: "show_radix r n = show_radix r (n div r) @ [digit_char (n mod r)]"
    using 1(2,3) by (subst show_radix.simps) auto
  show ?case
  proof (cases "n div r < 2 ^ 64")
    case True
    have u: "unat (word_of_nat (n div r) :: u64) = n div r" using True by (simp add: unat_of_nat_u64)
    have "digit_step r (word_of_nat (n div r)) (of_char (digit_char (n mod r))) = Err PosOverflow"
      using digit_step_overflow [OF 1(2), of "n mod r" "word_of_nat (n div r)"] 1(2,3) by (auto simp: u)
    then show ?thesis
      using parse_digits_show [OF 1(2) True] by (simp add: s text_of_def parse_digits_append)
  next
    case False
    then have "parse_digits r 0 (text_of (show_radix r (n div r))) = Err PosOverflow"
      using 1 by auto
    then show ?thesis by (simp add: s text_of_def parse_digits_append)
  qed
qed

lemma show_radix_not_Nil: "radix = 10 \<or> radix = 16 \<Longrightarrow> show_radix radix n \<noteq> []"
  by (subst show_radix.simps) auto

lemma show_radix_digits:
  "radix = 10 \<or> radix = 16 \<Longrightarrow> \<forall>c \<in> set (text_of (show_radix radix n)). \<exists>d < radix. c = (if d < 10 then 48 + d else 87 + d)"
proof (induction radix n rule: show_radix.induct)
  case (1 r n)
  have d: "\<exists>d < r. of_char (digit_char m) = (if d < 10 then 48 + d else 87 + d)" if "m < r" for m
    using that 1(2) of_char_digit [of m] by (intro exI [of _ m]) auto
  show ?case
  proof (cases "n < r")
    case True
    then show ?thesis using 1(2) d [OF True] by (subst show_radix.simps) (auto simp: text_of_def)
  next
    case False
    then show ?thesis
      using 1 d [of "n mod r"] by (subst show_radix.simps) (auto simp: text_of_def)
  qed
qed

lemma from_str_radix_show:
  assumes "radix = 10 \<or> radix = 16"
  shows "from_str_radix radix (text_of (show_radix radix n)) =
    (if n < 2 ^ 64 then Ok (word_of_nat n) else Err PosOverflow)"
proof -
  obtain c cs where t: "text_of (show_radix radix n) = c # cs"
    using show_radix_not_Nil [OF assms, of n] by (cases "text_of (show_radix radix n)") (auto simp: text_of_def)
  have "c \<noteq> 43 \<and> c \<noteq> 45"
    using show_radix_digits [OF assms, of n] by (auto simp: t split: if_splits)
  then have "from_str_radix radix (c # cs) = parse_digits radix 0 (c # cs)" by (simp add: from_str_radix_def)
  then show ?thesis
    using parse_digits_show [OF assms, of n] parse_digits_overflow [OF assms, of n] unfolding t by simp
qed

lemma to_digit_not_space: "to_digit radix c = Some d \<Longrightarrow> \<not> is_whitespace c"
  by (auto simp: to_digit_def is_whitespace_def Let_def split: if_splits)

lemma trim_id: "\<forall>c \<in> set t. \<not> is_whitespace c \<Longrightarrow> trim t = t"
proof -
  assume "\<forall>c \<in> set t. \<not> is_whitespace c"
  then have "dropWhile is_whitespace u = u" if "set u \<subseteq> set t" for u
    using that by (cases u) (auto simp: dropWhile_eq_self_iff)
  from this [of t] this [of "rev t"] show ?thesis by (simp add: trim_def)
qed

lemma show_radix_chars:
  assumes "radix = 10 \<or> radix = 16" "c \<in> set (text_of (show_radix radix n))"
  shows "\<not> is_whitespace c" "c \<noteq> 120" "c \<noteq> 88" "radix = 10 \<Longrightarrow> is_ascii_digit c"
  using show_radix_digits [OF assms(1), of n] assms
  by (auto simp: is_whitespace_def is_ascii_digit_def split: if_splits)

lemma suffix_shift_le: "suffix_shift s = Some k \<Longrightarrow> k \<le> 40"
  by (auto simp: suffix_shift_def split: if_splits)

text \<open>The suffixes as one table.\<close>

lemma suffix_shift_table:
  "suffix_shift s = map_of (map (\<lambda>(s, k). (text_of s, k))
     [('''', 0), (''b'', 0), (''k'', 10), (''kb'', 10), (''kib'', 10), (''m'', 20), (''mb'', 20), (''mib'', 20),
      (''g'', 30), (''gb'', 30), (''gib'', 30), (''t'', 40), (''tb'', 40), (''tib'', 40)]) s"
  by (simp add: suffix_shift_def)

text \<open>
  A numeral followed by text that does not begin with a digit or end in a space, and that does not
  make the numeral \<open>0\<close> the prefix \<open>0x\<close>.
\<close>

definition suffix_text :: "nat \<Rightarrow> ustring \<Rightarrow> bool" where
  "suffix_text n suf \<longleftrightarrow>
     (suf \<noteq> [] \<longrightarrow> \<not> is_ascii_digit (hd suf) \<and> \<not> is_whitespace (List.last suf) \<and>
        (n = 0 \<longrightarrow> hd suf \<noteq> 120 \<and> hd suf \<noteq> 88))"

lemma show_nat_no_hex_prefix:
  assumes "suffix_text n suf"
  shows "strip_prefix (text_of ''0x'') (text_of (show_nat n) @ suf) = None"
    "strip_prefix (text_of ''0X'') (text_of (show_nat n) @ suf) = None"
proof -
  have "take 2 (text_of (show_nat n) @ suf) \<noteq> [48, y]" if y: "y = 120 \<or> y = 88" for y
  proof (cases "n < 10")
    case True
    then have d: "text_of (show_nat n) = [48 + n]"
      by (simp add: show_nat_def show_radix.simps text_of_def of_char_digit)
    show ?thesis using y assms by (cases suf) (auto simp: d suffix_text_def)
  next
    case False
    then have "show_nat n = show_radix 10 (n div 10) @ [digit_char (n mod 10)]"
      unfolding show_nat_def by (subst show_radix.simps) simp
    moreover obtain a as where "show_radix 10 (n div 10) = a # as"
      using show_radix_not_Nil [of 10 "n div 10"] by (cases "show_radix 10 (n div 10)") auto
    ultimately obtain c d cs where t: "text_of (show_nat n) = c # d # cs"
      by (cases as) (auto simp: text_of_def)
    have "d \<noteq> 120 \<and> d \<noteq> 88"
      using show_radix_chars(2,3) [of 10 d n] by (auto simp: t [unfolded show_nat_def])
    then show ?thesis using y by (auto simp: t)
  qed
  from this [of 120] this [of 88]
  show "strip_prefix (text_of ''0x'') (text_of (show_nat n) @ suf) = None"
    "strip_prefix (text_of ''0X'') (text_of (show_nat n) @ suf) = None"
    by (simp_all add: strip_prefix_def text_of_def numeral_2_eq_2 [symmetric])
qed

lemma trim_ends:
  assumes "t \<noteq> []" "\<not> is_whitespace (hd t)" "\<not> is_whitespace (List.last t)"
  shows "trim t = t"
proof -
  have d: "dropWhile is_whitespace u = u" if "u \<noteq> []" "\<not> is_whitespace (hd u)" for u
    using that by (cases u) simp_all
  show ?thesis
    using d [OF assms(1,2)] d [of "rev t"] assms by (simp add: trim_def hd_rev)
qed

lemma size_parse_decimal:
  assumes "suffix_text n suf"
  shows "size_parse (text_of (show_nat n) @ suf) =
    (if 2 ^ 64 \<le> n then Err (BadDecimal PosOverflow)
     else case suffix_shift (to_ascii_lowercase suf) of
       None \<Rightarrow> Err (UnknownSuffix suf)
     | Some k \<Rightarrow> if n * 2 ^ k < 2 ^ 64 then Ok (word_of_nat (n * 2 ^ k)) else Err DoesNotFit)"
proof -
  let ?d = "text_of (show_nat n)"
  note dc = show_radix_chars [of 10 _ n, folded show_nat_def, simplified]
  have ne: "?d \<noteq> []" using show_radix_not_Nil [of 10 n] by (simp add: text_of_def show_nat_def)
  then have t: "trim (?d @ suf) = ?d @ suf"
    using dc(1) assms by (intro trim_ends) (cases suf; auto simp: suffix_text_def)+
  have tk: "takeWhile is_ascii_digit (?d @ suf) = ?d" "dropWhile is_ascii_digit (?d @ suf) = suf"
    using dc(4) assms by (cases suf; auto simp: suffix_text_def takeWhile_append dropWhile_append)+
  have n: "from_str_radix 10 ?d = (if n < 2 ^ 64 then Ok (word_of_nat n) else Err PosOverflow)"
    using from_str_radix_show [of 10 n] by (simp add: show_nat_def)
  have m: "ok_or (checked_mul (word_of_nat n) (push_bit k 1 :: u64)) DoesNotFit =
      (if n * 2 ^ k < 2 ^ 64 then Ok (word_of_nat (n * 2 ^ k)) else Err DoesNotFit)"
    if "n < 2 ^ 64" "suffix_shift s = Some k" for s k
  proof -
    have "(2 :: nat) ^ k < 2 ^ 64" using suffix_shift_le [OF that(2)] by (intro power_strict_increasing) auto
    then have "unat (word_of_nat (2 ^ k) :: u64) = 2 ^ k" by (intro unat_of_nat_u64) simp
    then have k: "unat (push_bit k 1 :: u64) = 2 ^ k" by (simp add: push_bit_of_1)
    have u: "unat (word_of_nat n :: u64) = n" using that(1) by (simp add: unat_of_nat_u64)
    show ?thesis unfolding checked_mul_def u k by (simp add: push_bit_of_1)
  qed
  show ?thesis
    unfolding size_parse_def Let_def t tk show_nat_no_hex_prefix [OF assms] option.case n
    using ne m by (auto split: option.splits)
qed

lemma size_parse_hex:
  "size_parse (text_of (show_hex n)) = (if n < 2 ^ 64 then Ok (word_of_nat n) else Err (BadHex PosOverflow))"
proof -
  let ?d = "text_of (show_radix 16 n)"
  have s: "text_of (show_hex n) = 48 # 120 # ?d" by (simp add: show_hex_def text_of_def)
  have t: "trim (48 # 120 # ?d) = 48 # 120 # ?d"
    using show_radix_chars(1) [of 16] by (intro trim_id) (auto simp: is_whitespace_def)
  have "strip_prefix (text_of ''0x'') (48 # 120 # ?d) = Some ?d"
    by (simp add: strip_prefix_def text_of_def)
  then show ?thesis
    using from_str_radix_show [of 16 n] by (simp add: size_parse_def Let_def s t)
qed

lemma parse_digits_not_Panic: "parse_digits radix acc t \<noteq> Panic"
  by (induction t arbitrary: acc) (auto simp: res_bind_Panic_iff digit_step_def split: option.splits)

lemma from_str_radix_not_Panic: "from_str_radix radix t \<noteq> Panic"
  using parse_digits_not_Panic by (simp add: from_str_radix_def del: parse_digits.simps split: list.splits)

lemma size_parse_not_Panic: "size_parse t \<noteq> Panic"
  by (auto simp: size_parse_def Let_def res_bind_Panic_iff from_str_radix_not_Panic
      split: option.splits if_splits)

end
