(* ===== verification/Reader_Crash.thy ===== *)
theory Reader_Crash
  imports Reader_Recovery Reader_Threads
begin

text \<open>
  A crash while two threads write. The journal holds one entry: the second thread's entry is
  spliced over the first's, and the header it writes names the second alone. When the first has not
  yet written its sector in place, nothing is left to repair that write from.
\<close>

section \<open>What a second thread needs to journal\<close>

lemma newest_header_grown:
  assumes "2 ^ 20 \<le> length c" "length c \<le> n"
  shows "newest_header x (grown c n) = newest_header x c"
proof -
  have "slot_header x (grown c n) s = slot_header x c s" for s
    using assms by (cases s) (simp_all add: slot_header_def subslice_grown_old)
  then show ?thesis by (simp add: newest_header_def)
qed

text \<open>Two sectors that are not the same do not touch.\<close>

lemma sectors_apart:
  fixes a b :: nat
  assumes "LOG_SECTOR_SIZE dvd a" "LOG_SECTOR_SIZE dvd b" "a \<noteq> b"
  shows "a + LOG_SECTOR_SIZE \<le> b \<or> b + LOG_SECTOR_SIZE \<le> a"
proof -
  obtain j k where "a = LOG_SECTOR_SIZE * j" "b = LOG_SECTOR_SIZE * k"
    using assms(1,2) by (auto elim!: dvdE)
  then show ?thesis using assms(3) by (cases j k rule: linorder_cases) auto
qed

context reliable_device
begin

lemma sector_off_aligned:
  assumes "invar (rd_dev r)" "bat_placed (contents (rd_dev r)) r" "i < length (rd_bat r)"
    and "LOG_SECTOR_SIZE dvd length (contents (rd_dev r))"
  shows "LOG_SECTOR_SIZE dvd unat (sector_off_of r i)"
proof -
  have b8: "8 dvd unat (rd_bat_region_off r)"
    using assms(2) dvd_trans [of 8 "2 ^ 20 :: nat" "unat (rd_bat_region_off r)"] by (simp add: bat_placed_def)
  have fit: "unat (rd_bat_region_off r) + 8 * i + 8 \<le> length (contents (rd_dev r))"
    using assms(2,3) by (simp add: bat_placed_def)
  show ?thesis
    using entry_sector(2) [OF b8 fit contents_bound [OF assms(1)] assms(4),
        folded entry_off_on_disk_def, folded sector_off_of_def] by simp
qed

text \<open>Journalling leaves a reader that may journal again, under a header that is the newest.\<close>

lemma journal_again:
  assumes "invar (rd_dev r)" "crc_contract x" "journal_ready (contents (rd_dev r)) r"
    and "newest_header x (contents (rd_dev r)) = Some (rd_header r, rd_active_header_slot r)"
    and "hdr_sequence_number (rd_header r) \<noteq> - 1" "length s = LOG_SECTOR_SIZE"
    and "foreign_from (subslice (unat (hdr_log_offset (rd_header r)))
      (unat (hdr_log_offset (rd_header r)) + unat (hdr_log_length (rd_header r))) (contents (rd_dev r))) g 8192"
  obtains r' where "journal_sector_write x ops off s r = (Ok (), r')" "invar (rd_dev r')"
    "r' = r\<lparr> rd_dev := rd_dev r', rd_header := journal_header (rd_header r),
        rd_active_header_slot := slot_other (rd_active_header_slot r) \<rparr>"
    "length (contents (rd_dev r')) = length (contents (rd_dev r))"
    "journal_ready (contents (rd_dev r')) r'"
    "newest_header x (contents (rd_dev r')) = Some (rd_header r', rd_active_header_slot r')"
    "foreign_from (subslice (unat (hdr_log_offset (rd_header r)))
      (unat (hdr_log_offset (rd_header r)) + unat (hdr_log_length (rd_header r))) (contents (rd_dev r'))) g 8192"
proof -
  let ?h = "rd_header r" and ?c = "contents (rd_dev r)" and ?s = "slot_other (rd_active_header_slot r)"
  let ?lo = "unat (hdr_log_offset ?h)" and ?n = "unat (hdr_log_length ?h)"
  let ?e = "journal_entry x ?h (rd_dev_size r) off s"
  have ok: "header_wf ?h" "log_region_ok (rd_dev_size r) ?h" "unat (rd_dev_size r) = length ?c" "8192 \<le> ?n"
    using assms(3) by (auto simp: journal_ready_def)
  obtain r' where j: "journal_sector_write x ops off s r = (Ok (), r')"
    by (rule journal_sector_write_journals [OF assms(1,2) ok(1) assms(6) ok(2-4)]) auto
  obtain b where b: "invar (rd_dev r')" "length b = HEADER_SIZE" "slot_start ?s + HEADER_SIZE \<le> length (overwrite ?lo ?e ?c)"
    "contents (rd_dev r') = overwrite (slot_start ?s) b (overwrite ?lo ?e ?c)" "length (overwrite ?lo ?e ?c) = length ?c"
    "?lo + ?n \<le> length ?c" "2 ^ 20 \<le> ?lo" "length (contents (rd_dev r')) = length ?c"
    "r' = r\<lparr> rd_dev := rd_dev r', rd_header := journal_header ?h, rd_active_header_slot := ?s \<rparr>"
    by (rule journal_left [OF assms(1-3,6) j])
  have flds: "rd_header r' = journal_header ?h" "rd_dev_size r' = rd_dev_size r"
    by (subst b(9), simp)+
  have ready: "journal_ready (contents (rd_dev r')) r'"
    using ok b(8) journal_header_wf [OF ok(1)] by (simp add: journal_ready_def flds log_region_ok_def)
  have el: "length ?e = 8192" by (rule journal_entry_Ok(2) [OF assms(2) ok(1) assms(6)])
  have "subslice (?lo + 8192) (?lo + ?n) (contents (rd_dev r')) = subslice (?lo + 8192) (?lo + ?n) (overwrite ?lo ?e ?c)"
    unfolding b(4) using b(2,3,7) by (intro subslice_overwrite_disjoint) (cases ?s; simp)+
  also have "\<dots> = subslice (?lo + 8192) (?lo + ?n) ?c"
    using el b(6) ok(4) by (intro subslice_overwrite_disjoint) simp_all
  finally have "foreign_from (subslice ?lo (?lo + ?n) (contents (rd_dev r'))) g 8192"
    using foreign_from_agree [OF assms(7) b(6)] b(6,8) by simp
  then show thesis
    using that [OF j b(1,9,8) ready journal_newest [OF assms(1-6) j]] by simp
qed

section \<open>The second entry replaces the first\<close>

text \<open>
  Two threads have each read and changed a sector of their own. Both journal theirs before either
  writes it in place. What a crash then leaves of the first thread's write stays: the replay puts the
  second sector in place and does not touch the first.
\<close>

lemma second_journal_wins:
  assumes "invar (rd_dev r)" "crc_contract x" "journal_ready (contents (rd_dev r)) r"
    and "newest_header x (contents (rd_dev r)) = Some (rd_header r, rd_active_header_slot r)"
    and "hdr_sequence_number (rd_header r) \<noteq> - 1" "hdr_sequence_number (journal_header (rd_header r)) \<noteq> - 1"
    and "length s = LOG_SECTOR_SIZE" "length t = LOG_SECTOR_SIZE"
    and "foreign_from (subslice (unat (hdr_log_offset (rd_header r)))
      (unat (hdr_log_offset (rd_header r)) + unat (hdr_log_length (rd_header r))) (contents (rd_dev r)))
      (hdr_log_guid (journal_header (journal_header (rd_header r)))) 8192"
    and "2 ^ 20 \<le> unat p" "unat p + LOG_SECTOR_SIZE \<le> length (contents (rd_dev r))"
    and "apart_from_log (rd_header r) (unat p) LOG_SECTOR_SIZE" "unat q + LOG_SECTOR_SIZE \<le> length (contents (rd_dev r))"
    and "unat p + LOG_SECTOR_SIZE \<le> unat q \<or> unat q + LOG_SECTOR_SIZE \<le> unat p"
  obtains r1 r2 where "journal_sector_write x ops p s r = (Ok (), r1)" "journal_sector_write x ops q t r1 = (Ok (), r2)"
    "invar (rd_dev r2)" "length (contents (rd_dev r2)) = length (contents (rd_dev r))"
    "sector_off_of r1 = sector_off_of r" "sector_off_of r2 = sector_off_of r"
    "\<forall>e z. invar e \<longrightarrow> length z = LOG_SECTOR_SIZE \<longrightarrow> contents e = overwrite (unat p) z (contents (rd_dev r2)) \<longrightarrow>
       newest_header x (contents e) = Some (rd_header r2, rd_active_header_slot r2) \<and>
       (\<exists>e'. replay_log x ops True (dev_size_bytes ops e) (rd_header r2) e = (Ok (True, dev_size_bytes ops e), e') \<and>
          subslice (unat p) (unat p + LOG_SECTOR_SIZE) (contents e') = z \<and>
          subslice (unat q) (unat q + LOG_SECTOR_SIZE) (contents e') = t)"
proof -
  let ?h = "rd_header r" and ?g = "hdr_log_guid (journal_header (journal_header (rd_header r)))"
  let ?L = "LOG_SECTOR_SIZE"
  obtain r1 where r1: "journal_sector_write x ops p s r = (Ok (), r1)" "invar (rd_dev r1)"
    "r1 = r\<lparr> rd_dev := rd_dev r1, rd_header := journal_header ?h, rd_active_header_slot := slot_other (rd_active_header_slot r) \<rparr>"
    "length (contents (rd_dev r1)) = length (contents (rd_dev r))" "journal_ready (contents (rd_dev r1)) r1"
    "newest_header x (contents (rd_dev r1)) = Some (rd_header r1, rd_active_header_slot r1)"
    "foreign_from (subslice (unat (hdr_log_offset ?h)) (unat (hdr_log_offset ?h) + unat (hdr_log_length ?h)) (contents (rd_dev r1))) ?g 8192"
    by (rule journal_again [OF assms(1-5,7,9)])
  have h1: "rd_header r1 = journal_header ?h" by (subst r1(3)) simp
  note second = r1(2) assms(2) r1(5,6) assms(6) [folded h1] assms(8)
  note foreign = r1(7) [folded h1 journal_header_log(1) [of ?h] journal_header_log(2) [of ?h], folded h1]
  obtain r2 where r2: "journal_sector_write x ops q t r1 = (Ok (), r2)" "invar (rd_dev r2)"
    "r2 = r1\<lparr> rd_dev := rd_dev r2, rd_header := journal_header (rd_header r1), rd_active_header_slot := slot_other (rd_active_header_slot r1) \<rparr>"
    "length (contents (rd_dev r2)) = length (contents (rd_dev r1))"
    by (rule journal_again [OF second foreign])
  have off: "sector_off_of r1 = sector_off_of r" "sector_off_of r2 = sector_off_of r"
    by (subst r2(3) r1(3), (subst r1(3))?, simp add: fun_eq_iff sector_off_of_def entry_off_on_disk_def)+
  have place: "unat q + ?L \<le> length (contents (rd_dev r2))" "unat p + ?L \<le> length (contents (rd_dev r2))"
    using assms(11,13) r1(4) r2(4) by simp_all
  have log: "hdr_log_length (rd_header r1) \<noteq> 0" "apart_from_log (rd_header r1) (unat p) ?L"
    using r1(5) assms(12) by (auto simp: journal_ready_def h1 apart_from_log_def log_span_def)
  have "newest_header x (contents e) = Some (rd_header r2, rd_active_header_slot r2) \<and>
       (\<exists>e'. replay_log x ops True (dev_size_bytes ops e) (rd_header r2) e = (Ok (True, dev_size_bytes ops e), e') \<and>
          subslice (unat p) (unat p + ?L) (contents e') = z \<and> subslice (unat q) (unat q + ?L) (contents e') = t)"
    if e: "invar e" "length z = ?L" "contents e = overwrite (unat p) z (contents (rd_dev r2))" for e z
  proof -
    have len: "length (contents e) = length (contents (rd_dev r2))" using e(2,3) place(2) by simp
    note same = sector_overwrite_agrees [of "unat p" "rd_header r1" z "contents (rd_dev r2)", unfolded e(2),
        OF assms(10) log(2,1) place(2), folded e(3)]
    note rep = journal_replayed [OF second r2(1) foreign place(1) e(1) len same]
    obtain e' where e': "replay_log x ops True (dev_size_bytes ops e) (rd_header r2) e = (Ok (True, dev_size_bytes ops e), e')"
      "contents e' = overwrite (unat q) t (contents e)" using rep(2) by blast
    have "subslice (unat p) (unat p + ?L) (contents e') = subslice (unat p) (unat p + ?L) (contents e)"
      unfolding e'(2) using assms(8,14) place(1) len by (intro subslice_overwrite_disjoint) auto
    moreover have "subslice (unat p) (unat p + ?L) (contents e) = z"
      unfolding e(3) using e(2) place(2) by (intro subslice_overwrite_same) auto
    moreover have "subslice (unat q) (unat q + ?L) (contents e') = t"
      unfolding e'(2) using assms(8) place(1) len by (intro subslice_overwrite_same) auto
    ultimately show ?thesis using rep(1) e'(1) by auto
  qed
  then show thesis using that [OF r1(1) r2(1,2) _ off] r1(4) r2(4) by simp
qed

lemma journal_step_eq:
  assumes "journal_sector_write x ops (sector_off_of r i) s r = (Ok (), r')"
  shows "alloc_step x ops i (JournalSector off s) r = (Ok (WriteSector off s), r')"
  using assms by (simp add: alloc_step_def io_bind_def io_return_def)

lemma torn_write_unrepaired:
  assumes "invar (rd_dev r)" "crc_contract x" "disk_inv (contents (rd_dev r)) r"
    and "newest_header x (contents (rd_dev r)) = Some (rd_header r, rd_active_header_slot r)"
    and "hdr_sequence_number (rd_header r) \<noteq> - 1" "hdr_sequence_number (journal_header (rd_header r)) \<noteq> - 1"
    and "8192 \<le> unat (hdr_log_length (rd_header r))"
    and "i < length (rd_bat r)" "j < length (rd_bat r)" "sector_off_of r i \<noteq> sector_off_of r j"
    and "length (contents (rd_dev r)) + 4 * block_bytes r < 2 ^ 64"
    and "foreign_from (subslice (unat (hdr_log_offset (rd_header r)))
      (unat (hdr_log_offset (rd_header r)) + unat (hdr_log_length (rd_header r))) (contents (rd_dev r)))
      (hdr_log_guid (journal_header (journal_header (rd_header r)))) 8192"
  defines "p \<equiv> unat (sector_off_of r i)" and "q \<equiv> unat (sector_off_of r j)"
  shows "\<exists>r' a b s t. threads_run x ops (r, start_threads [i, j])
      (r', [Running i (WriteSector a s), Running j (WriteSector b t)]) \<and> invar (rd_dev r') \<and>
    sector_off_of r' i = sector_off_of r i \<and> p + LOG_SECTOR_SIZE \<le> length (contents (rd_dev r')) \<and>
    (\<forall>e z. invar e \<longrightarrow> length z = LOG_SECTOR_SIZE \<longrightarrow> contents e = overwrite p z (contents (rd_dev r')) \<longrightarrow>
       newest_header x (contents e) = Some (rd_header r', rd_active_header_slot r') \<and>
       (\<exists>e'. replay_log x ops True (dev_size_bytes ops e) (rd_header r') e = (Ok (True, dev_size_bytes ops e), e') \<and>
          subslice p (p + LOG_SECTOR_SIZE) (contents e') = z \<and>
          subslice q (q + LOG_SECTOR_SIZE) (contents e') = t))"
proof -
  let ?c = "contents (rd_dev r)" and ?bs = "ucast (rd_block_size r) :: u64" and ?bb = "block_bytes r"
  let ?L = "LOG_SECTOR_SIZE"
  have ok: "reader_ok ?c r" "layout_ok ?c r" using assms(3) by (auto simp: disk_inv_def)
  obtain m where m: "?bb = 2 ^ m" "20 \<le> m" using ok(1) by (auto simp: reader_ok_def geometry_ok_def elim: block_size_okD)
  have sz: "unat (rd_dev_size r) = length ?c" and hw: "header_wf (rd_header r)"
    and lg: "log_region_ok (rd_dev_size r) (rd_header r)"
    using ok(1) by (auto simp: reader_ok_def)
  obtain a b d where run: "threads_run x ops (r, start_threads [i, j])
      (r\<lparr> rd_dev := d, rd_dev_size := b + ?bs \<rparr>, [Running i (ReadSector a), Running j (ReadSector b)])" (is "_ (?r, _)")
    and d: "invar d" "contents d = grown ?c (unat b + ?bb)" "length ?c \<le> unat b"
    and n: "unat (b + ?bs) = unat b + ?bb" and al: "2 ^ 20 dvd unat b"
    by (rule two_claims [OF assms(1) sz m assms(11)])
  have "2 ^ 20 dvd unat b + ?bb" using al le_imp_power_dvd [OF m(2), of "2 :: nat"] by (simp only: m(1) dvd_add)
  note ready = grown_ready [OF ok trans_le_add1 [OF d(3)] this n, folded d(2)]
  have same: "sector_off_of ?r = sector_off_of r" by simp
  have pre: "invar (rd_dev ?r)" "bat_placed (contents (rd_dev ?r)) ?r" "?L dvd length (contents (rd_dev ?r))"
    "i < length (rd_bat ?r)" "j < length (rd_bat ?r)" "log_region_ok (rd_dev_size ?r) (rd_header ?r)"
    using d(1) ready(1-3) assms(8,9) by simp_all
  note si = spliced_sector_ok [OF pre(1,2,4,3), unfolded same, folded p_def]
    and sj = spliced_sector_ok [OF pre(1,2,5,3), unfolded same, folded q_def]
    and ai = entry_sector_apart [OF pre(1,2,4,3,6), unfolded same, folded p_def]
    and pq = sector_off_aligned [OF pre(1,2,4,3), unfolded same, folded p_def]
      sector_off_aligned [OF pre(1,2,5,3), unfolded same, folded q_def]
  obtain s where s: "alloc_step x ops i (ReadSector a) ?r = (Ok (JournalSector a s), ?r)" "length s = ?L"
    using si(1,3,4) by (simp add: read_step_eq io_bind_def io_lift_def io_return_def)
  obtain t where t: "alloc_step x ops j (ReadSector b) ?r = (Ok (JournalSector b t), ?r)" "length t = ?L"
    using sj(1,3,4) by (simp add: read_step_eq io_bind_def io_lift_def io_return_def)
  have "p \<noteq> q" using assms(10) by (simp add: p_def q_def word_unat_eq_iff)
  note far = sectors_apart [OF pq this, unfolded p_def q_def]
  have log: "unat (hdr_log_offset (rd_header r)) + unat (hdr_log_length (rd_header r)) \<le> length ?c" "2 ^ 20 \<le> length ?c"
    using lg sz assms(7) by (auto simp: log_region_ok_def)
  have rdy: "journal_ready (contents (rd_dev ?r)) ?r"
    using hw ready(3,4) assms(7) by (simp add: journal_ready_def)
  have nh: "newest_header x (contents (rd_dev ?r)) = Some (rd_header ?r, rd_active_header_slot ?r)"
    using newest_header_grown [OF log(2), of "unat b + ?bb" x] d(3) assms(4) by (simp add: d(2))
  have fr: "foreign_from (subslice (unat (hdr_log_offset (rd_header ?r)))
      (unat (hdr_log_offset (rd_header ?r)) + unat (hdr_log_length (rd_header ?r))) (contents (rd_dev ?r)))
      (hdr_log_guid (journal_header (journal_header (rd_header ?r)))) 8192"
    using assms(12) log(1) by (simp add: d(2) subslice_grown_old)
  have place: "hdr_sequence_number (rd_header ?r) \<noteq> - 1" "hdr_sequence_number (journal_header (rd_header ?r)) \<noteq> - 1"
    "2 ^ 20 \<le> unat (sector_off_of r i)" "unat (sector_off_of r i) + ?L \<le> length (contents (rd_dev ?r))"
    "apart_from_log (rd_header ?r) (unat (sector_off_of r i)) ?L"
    "unat (sector_off_of r j) + ?L \<le> length (contents (rd_dev ?r))"
    using assms(5,6) ai si(1) sj(1) by (simp_all add: p_def q_def)
  obtain r1 r2 where j: "journal_sector_write x ops (sector_off_of r i) s ?r = (Ok (), r1)"
    "journal_sector_write x ops (sector_off_of r j) t r1 = (Ok (), r2)" "invar (rd_dev r2)"
    "length (contents (rd_dev r2)) = length (contents (rd_dev ?r))"
    "sector_off_of r1 = sector_off_of ?r" "sector_off_of r2 = sector_off_of ?r"
    "\<forall>e z. invar e \<longrightarrow> length z = ?L \<longrightarrow> contents e = overwrite p z (contents (rd_dev r2)) \<longrightarrow>
       newest_header x (contents e) = Some (rd_header r2, rd_active_header_slot r2) \<and>
       (\<exists>e'. replay_log x ops True (dev_size_bytes ops e) (rd_header r2) e = (Ok (True, dev_size_bytes ops e), e') \<and>
          subslice p (p + ?L) (contents e') = z \<and> subslice q (q + ?L) (contents e') = t)"
    unfolding p_def q_def
    by (rule second_journal_wins [OF pre(1) assms(2) rdy nh place(1,2) s(2) t(2) fr place(3-6) far])
  note steps = journal_step_eq [of x ?r i s r1 a, unfolded same, OF j(1)]
    journal_step_eq [of x r1 j t r2 b, unfolded j(5) same, OF j(2)]
  have "threads_run x ops (r, start_threads [i, j]) (r2, [Running i (WriteSector a s), Running j (WriteSector b t)])"
    by (rule threads_run_second [OF threads_run_first [OF threads_run_second [OF threads_run_first [OF run s(1)] t(1)]
            steps(1)] steps(2)])
  then show ?thesis
    using j(3,4,6,7) si(1) same by (intro exI [of _ r2] exI [of _ a] exI [of _ b] exI [of _ s] exI [of _ t]) simp
qed

end

end
