(* ===== verification/Tests_Support.thy ===== *)
theory Tests_Support
  imports Header
begin

unbundle bit_operations_syntax

text \<open>
  What the unit tests of the crate share: the assertion macros over the model's results, and what
  the tests that corrupt a byte need of the checksum. CRC-32C notices every burst of 32 bits or
  less, so a changed byte; \<open>sum_ext\<close> does as well.
\<close>

section \<open>What the assertions say\<close>

fun unwrap_and :: "('a, 'e) res \<Rightarrow> ('a \<Rightarrow> bool) \<Rightarrow> bool" where
  "unwrap_and (Ok v) P = P v"
| "unwrap_and _ P = False"

fun unwrap_err_and :: "('a, 'e) res \<Rightarrow> ('e \<Rightarrow> bool) \<Rightarrow> bool" where
  "unwrap_err_and (Err e) P = P e"
| "unwrap_err_and _ P = False"

fun is_corrupt :: "error \<Rightarrow> bool" where
  "is_corrupt (Corrupt _) = True"
| "is_corrupt _ = False"

fun is_bad_metadata :: "error \<Rightarrow> bool" where
  "is_bad_metadata (BadMetadata _) = True"
| "is_bad_metadata _ = False"

fun is_bad_checksum_of :: "string \<Rightarrow> error \<Rightarrow> bool" where
  "is_bad_checksum_of w (BadChecksum _ _ what) = (what = w)"
| "is_bad_checksum_of w _ = False"

fun is_err :: "('a, 'e) res \<Rightarrow> bool" where
  "is_err (Err _) = True"
| "is_err _ = False"

section \<open>Checksums that notice\<close>

definition crc_detects_a_byte :: "ext \<Rightarrow> bool" where
  "crc_detects_a_byte x \<longleftrightarrow>
     (\<forall>a b b' c. b \<noteq> b' \<longrightarrow> crc32c x (a @ b # c) \<noteq> crc32c x (a @ b' # c))"

lemma crc_notices:
  assumes x: "crc_detects_a_byte x" and i: "8 \<le> i" "i < length h" and v: "v \<noteq> h ! i"
  shows "crc32c x (overwrite 4 (replicate 4 0) (h[i := v])) \<noteq> crc32c x (overwrite 4 (replicate 4 0) h)"
proof -
  let ?z = "overwrite 4 (replicate 4 0) h"
  have "overwrite 4 (replicate 4 0) (h[i := v]) = ?z[i := v]"
    using i by (intro nth_equalityI) (auto simp: nth_overwrite nth_list_update)
  also have "\<dots> = take i ?z @ v # drop (Suc i) ?z"
    using i by (simp add: upd_conv_take_nth_drop)
  finally have "overwrite 4 (replicate 4 0) (h[i := v]) = take i ?z @ v # drop (Suc i) ?z" .
  moreover have "?z ! i = h ! i" using i by (simp add: nth_overwrite)
  then have "?z = take i ?z @ h ! i # drop (Suc i) ?z"
    using i id_take_nth_drop [of i ?z] by simp
  ultimately show ?thesis
    using x v unfolding crc_detects_a_byte_def by metis
qed

lemma subslice_list_update: "i < a \<or> b \<le> i \<Longrightarrow> subslice a b (h[i := v]) = subslice a b h"
  by (rule nth_equalityI) (auto simp: nth_subslice)

lemma subslice_list_update_inside:
  "a \<le> i \<Longrightarrow> i < b \<Longrightarrow> b \<le> length h \<Longrightarrow> subslice a b (h[i := v]) = (subslice a b h)[i - a := v]"
  by (rule nth_equalityI) (auto simp: nth_subslice nth_list_update)

lemma sum_ext_detects: "crc_detects_a_byte sum_ext"
proof -
  have sums: "byte_sum c bs = c + byte_sum 0 bs" for c bs
  proof (induction bs arbitrary: c)
    case (Cons b bs)
    show ?case by (metis Cons.IH byte_sum_Cons add.assoc add.left_neutral)
  qed simp
  have "unat (ucast (b :: u8) :: u32) = unat b" for b
    by (simp add: unsigned_ucast_eq take_bit_nat_eq_self less_trans [OF unat_lt_u8])
  then have "(b :: u8) = b'" if "(ucast b :: u32) = ucast b'" for b b'
    using that by (metis word_unat_eq_iff)
  then show ?thesis
    by (auto simp: crc_detects_a_byte_def sum_ext_def byte_sum_append sums [of "_ + _"])
qed

lemma overwrite_swap:
  "i + length a \<le> j \<or> j + length b \<le> i \<Longrightarrow> i + length a \<le> length buf \<Longrightarrow> j + length b \<le> length buf \<Longrightarrow>
   overwrite j b (overwrite i a buf) = overwrite i a (overwrite j b buf)"
  by (rule nth_equalityI) (auto simp: nth_overwrite)

lemma xor_FF_neq: "(b :: u8) XOR 0xFF \<noteq> b"
proof
  assume "b XOR 0xFF = b"
  then have "(b XOR b) XOR 0xFF = b XOR b" by (metis xor.left_commute xor.commute)
  then show False by simp
qed

end
