(* ===== verification/Tests_Format.thy ===== *)
theory Tests_Format
  imports Region_Table Metadata Bat Size Tests_Support
begin

unbundle bit_operations_syntax

text \<open>
  The unit tests of the parsers, \<open>mod tests\<close> of \<open>src/bat.rs\<close>, \<open>src/endian.rs\<close>, \<open>src/header.rs\<close>,
  \<open>src/region_table.rs\<close>, \<open>src/metadata.rs\<close> and \<open>src/cli/vhdx/size.rs\<close>, run against the model.
  A fixture is a definition; a test is the conjunction of its assertions, with \<open>unwrap\<close> and
  \<open>unwrap_err\<close> false on the other outcome. The checksum stays a parameter, so a test holds for
  every \<open>crc32c\<close>; the two tests that corrupt a byte and leave the checksum need one that
  notices, which is \<open>crc_detects_a_byte\<close>: CRC-32C catches every burst of 32 bits or less.
\<close>

section \<open>\<open>src/bat.rs\<close>\<close>

definition payload_state_decodes_every_documented_value :: bool where
  "payload_state_decodes_every_documented_value \<longleftrightarrow>
     payload_state_from_u8 0 = NotPresent \<and> payload_state_from_u8 1 = Undefined \<and>
     payload_state_from_u8 2 = ZeroState \<and> payload_state_from_u8 3 = Unmapped \<and>
     payload_state_from_u8 6 = FullyPresent \<and> payload_state_from_u8 7 = PartiallyPresent"

definition payload_state_maps_unknown_values_to_reserved :: bool where
  "payload_state_maps_unknown_values_to_reserved \<longleftrightarrow>
     payload_state_from_u8 4 = Reserved 4 \<and> payload_state_from_u8 5 = Reserved 5 \<and>
     payload_state_from_u8 255 = Reserved 255"

definition block_on_disk_only_for_present_states :: bool where
  "block_on_disk_only_for_present_states \<longleftrightarrow>
     block_on_disk FullyPresent \<and> block_on_disk PartiallyPresent \<and>
     list_all (\<lambda>s. \<not> block_on_disk s) [NotPresent, Undefined, ZeroState, Unmapped, Reserved 4]"

definition zero_fill_for_the_four_absent_states_only :: bool where
  "zero_fill_for_the_four_absent_states_only \<longleftrightarrow>
     list_all zero_fill [NotPresent, Undefined, ZeroState, Unmapped] \<and>
     \<not> zero_fill FullyPresent \<and> \<not> zero_fill PartiallyPresent \<and> \<not> zero_fill (Reserved 4)"

definition bat_entry_splits_state_and_megabyte_offset :: bool where
  "bat_entry_splits_state_and_megabyte_offset \<longleftrightarrow>
     (let e = bat_entry_from_u64 (push_bit 20 3 OR 6)
      in be_state e = FullyPresent \<and> be_file_offset e = push_bit 20 3)"

definition bat_entry_ignores_reserved_bits_between_state_and_offset :: bool where
  "bat_entry_ignores_reserved_bits_between_state_and_offset \<longleftrightarrow>
     (let reserved = 0xFFFF8;
          raw = (push_bit 20 10 OR reserved) OR 2;
          e = bat_entry_from_u64 raw
      in be_state e = ZeroState \<and> be_file_offset e = push_bit 20 10)"

definition bat_entry_unallocated_is_zero_raw :: bool where
  "bat_entry_unallocated_is_zero_raw \<longleftrightarrow>
     (let e = bat_entry_from_u64 0 in be_state e = NotPresent \<and> be_file_offset e = 0)"

definition chunk_ratio_matches_spec_formula :: bool where
  "chunk_ratio_matches_spec_formula \<longleftrightarrow>
     chunk_ratio_of (push_bit 20 1) 512 = (Ok 4096 :: (u64, unit) res) \<and>
     chunk_ratio_of (push_bit 20 2) 512 = (Ok 2048 :: (u64, unit) res) \<and>
     chunk_ratio_of (push_bit 20 1) 4096 = (Ok 32768 :: (u64, unit) res)"

definition data_bat_index_accounts_for_interleaved_sector_bitmap_entries :: bool where
  "data_bat_index_accounts_for_interleaved_sector_bitmap_entries \<longleftrightarrow>
     (let cr = 4096; index = data_bat_index :: u64 \<Rightarrow> u64 \<Rightarrow> (u64, unit) res
      in index 0 cr = Ok 0 \<and> index (cr - 1) cr = Ok (cr - 1) \<and>
         index cr cr = Ok (cr + 1) \<and> index (cr + 1) cr = Ok (cr + 2) \<and>
         index (2 * cr) cr = Ok (2 * cr + 2))"

lemma bat_tests_pass:
  payload_state_decodes_every_documented_value payload_state_maps_unknown_values_to_reserved
  block_on_disk_only_for_present_states zero_fill_for_the_four_absent_states_only
  bat_entry_splits_state_and_megabyte_offset
  bat_entry_ignores_reserved_bits_between_state_and_offset bat_entry_unallocated_is_zero_raw
  chunk_ratio_matches_spec_formula data_bat_index_accounts_for_interleaved_sector_bitmap_entries
  by (simp_all add: payload_state_decodes_every_documented_value_def
      payload_state_maps_unknown_values_to_reserved_def block_on_disk_only_for_present_states_def
      zero_fill_for_the_four_absent_states_only_def bat_entry_splits_state_and_megabyte_offset_def
      bat_entry_ignores_reserved_bits_between_state_and_offset_def
      bat_entry_unallocated_is_zero_raw_def chunk_ratio_matches_spec_formula_def
      data_bat_index_accounts_for_interleaved_sector_bitmap_entries_def payload_state_from_u8_def
      bat_entry_from_u64_def chunk_ratio_of_def data_bat_index_def Let_def push_bit_eq_mult
      drop_bit_eq_div)

section \<open>\<open>src/endian.rs\<close>\<close>

definition the_low_byte_comes_first :: bool where
  "the_low_byte_comes_first \<longleftrightarrow>
     (let b = [0x01, 0x02, 0x03, 0x04, 0x05, 0x06, 0x07, 0x08]
      in read_u16_le b 0 = (Ok 0x0201 :: (u16, unit) res) \<and>
         read_u32_le b 0 = (Ok 0x04030201 :: (u32, unit) res) \<and>
         read_u64_le b 0 = (Ok 0x0807060504030201 :: (u64, unit) res))"

definition the_offset_counts_bytes :: bool where
  "the_offset_counts_bytes \<longleftrightarrow>
     read_u16_le [0x00, 0xAA, 0xBB, 0x00] 1 = (Ok 0xBBAA :: (u16, unit) res)"

definition the_widest_values_survive_the_round_trip :: bool where
  "the_widest_values_survive_the_round_trip \<longleftrightarrow>
     (let b = replicate 8 0xFF
      in read_u16_le b 0 = (Ok (- 1) :: (u16, unit) res) \<and>
         read_u32_le b 0 = (Ok (- 1) :: (u32, unit) res) \<and>
         read_u64_le b 0 = (Ok (- 1) :: (u64, unit) res))"

lemma replicate_8: "replicate 8 x = [x, x, x, x, x, x, x, x]"
  by (simp add: eval_nat_numeral)

lemma endian_tests_pass:
  the_low_byte_comes_first the_offset_counts_bytes the_widest_values_survive_the_round_trip
  by (simp_all add: the_low_byte_comes_first_def the_offset_counts_bytes_def
      the_widest_values_survive_the_round_trip_def Let_def subslice_def from_le_bytes_def replicate_8)

section \<open>\<open>src/header.rs\<close>\<close>

definition seal_header :: "ext \<Rightarrow> bytes \<Rightarrow> (bytes, error) res" where
  "seal_header x h = res_bind (header_compute_crc x h) (\<lambda>crc. copy_into h 4 8 (to_le_bytes crc))"

definition valid_header :: "ext \<Rightarrow> u64 \<Rightarrow> (bytes, error) res" where
  "valid_header x seq =
     res_bind (copy_into (replicate HEADER_SIZE 0) 0 4 HEADER_SIGNATURE) (\<lambda>h.
     res_bind (copy_into h 8 16 (to_le_bytes seq)) (\<lambda>h.
     res_bind (copy_into h 16 32 (replicate 16 0xAA)) (\<lambda>h.
     res_bind (copy_into h 32 48 (replicate 16 0xBB)) (\<lambda>h.
     res_bind (copy_into h 48 64 (replicate 16 0xCC)) (\<lambda>h.
     res_bind (copy_into h 66 68 (to_le_bytes HEADER_VERSION)) (\<lambda>h.
     res_bind (copy_into h 68 72 (to_le_bytes (push_bit 20 1 :: u32))) (\<lambda>h.
     res_bind (copy_into h 72 80 (to_le_bytes (push_bit 20 4 :: u64))) (\<lambda>h.
     seal_header x h))))))))"

definition parses_a_valid_header_and_exposes_fields :: "ext \<Rightarrow> bool" where
  "parses_a_valid_header_and_exposes_fields x \<longleftrightarrow>
     unwrap_and (res_bind (valid_header x 42) (header_parse x)) (\<lambda>parsed.
       hdr_sequence_number parsed = 42 \<and> hdr_version parsed = 1 \<and>
       hdr_log_length parsed = push_bit 20 1 \<and> hdr_log_offset parsed = push_bit 20 4 \<and>
       hdr_file_write_guid parsed = replicate 16 0xAA \<and>
       hdr_data_write_guid parsed = replicate 16 0xBB \<and>
       hdr_log_guid parsed = replicate 16 0xCC \<and> hdr_log_version parsed = LOG_VERSION_V0)"

definition exposes_a_log_version_it_does_not_recognise :: "ext \<Rightarrow> bool" where
  "exposes_a_log_version_it_does_not_recognise x \<longleftrightarrow>
     unwrap_and
       (res_bind (valid_header x 1) (\<lambda>h.
        res_bind (copy_into h 64 66 (to_le_bytes (1 :: u16))) (\<lambda>h.
        res_bind (seal_header x h) (header_parse x))))
       (\<lambda>parsed. hdr_log_version parsed = 1 \<and> hdr_version parsed = 1)"

definition header_rejects_buffer_shorter_than_4_kib :: "ext \<Rightarrow> bool" where
  "header_rejects_buffer_shorter_than_4_kib x \<longleftrightarrow>
     unwrap_err_and (header_parse x (replicate 100 0)) is_corrupt"

definition header_rejects_bad_signature :: "ext \<Rightarrow> bool" where
  "header_rejects_bad_signature x \<longleftrightarrow>
     unwrap_and
       (res_bind (valid_header x 1) (\<lambda>h.
        res_bind (copy_into h 0 4 (map word_of_nat (text_of ''xxxx''))) (seal_header x)))
       (\<lambda>h. unwrap_err_and (header_parse x h) is_corrupt)"

definition header_rejects_crc_mismatch :: "ext \<Rightarrow> bool" where
  "header_rejects_crc_mismatch x \<longleftrightarrow>
     unwrap_and (valid_header x 1) (\<lambda>h.
       unwrap_err_and (header_parse x (h[8 := h ! 8 XOR 0xFF])) (is_bad_checksum_of ''header''))"

definition header_rejects_unsupported_version :: "ext \<Rightarrow> bool" where
  "header_rejects_unsupported_version x \<longleftrightarrow>
     unwrap_and
       (res_bind (valid_header x 1) (\<lambda>h.
        res_bind (copy_into h 66 68 (to_le_bytes (2 :: u16))) (seal_header x)))
       (\<lambda>h. unwrap_err_and (header_parse x h) (\<lambda>e. e = Corrupt ''unsupported VHDX header version''))"

definition compute_crc_is_independent_of_stored_checksum_field :: "ext \<Rightarrow> bool" where
  "compute_crc_is_independent_of_stored_checksum_field x \<longleftrightarrow>
     unwrap_and (valid_header x 7) (\<lambda>h.
     unwrap_and (header_compute_crc x h) (\<lambda>a.
     unwrap_and (copy_into h 4 8 (to_le_bytes (0xDEADBEEF :: u32)) :: (bytes, error) res) (\<lambda>h.
     unwrap_and (header_compute_crc x h) (\<lambda>b. a = b))))"

definition header_compute_crc_refuses_an_empty_buffer :: "ext \<Rightarrow> bool" where
  "header_compute_crc_refuses_an_empty_buffer x \<longleftrightarrow>
     unwrap_err_and (header_compute_crc x []) is_corrupt"

definition header_compute_crc_refuses_a_buffer_one_byte_short :: "ext \<Rightarrow> bool" where
  "header_compute_crc_refuses_a_buffer_one_byte_short x \<longleftrightarrow>
     unwrap_err_and (header_compute_crc x (replicate (HEADER_SIZE - 1) 0)) is_corrupt"

definition header_compute_crc_accepts_an_exactly_sized_buffer :: "ext \<Rightarrow> bool" where
  "header_compute_crc_accepts_an_exactly_sized_buffer x \<longleftrightarrow>
     is_Ok (header_compute_crc x (replicate HEADER_SIZE 0))"

definition header_test_body :: "u64 \<Rightarrow> bytes" where
  "header_test_body seq =
     overwrite 72 (to_le_bytes (push_bit 20 4 :: u64))
      (overwrite 68 (to_le_bytes (push_bit 20 1 :: u32))
      (overwrite 66 (to_le_bytes HEADER_VERSION)
      (overwrite 48 (replicate 16 0xCC)
      (overwrite 32 (replicate 16 0xBB)
      (overwrite 16 (replicate 16 0xAA)
      (overwrite 8 (to_le_bytes seq)
      (overwrite 0 HEADER_SIGNATURE (replicate HEADER_SIZE 0))))))))"

lemma length_header_test_body [simp]: "length (header_test_body seq) = 4096"
  by (simp add: header_test_body_def)

definition header_sealed :: "ext \<Rightarrow> bytes \<Rightarrow> bytes" where
  "header_sealed x h = overwrite 4 (to_le_bytes (crc32c x (overwrite 4 (replicate 4 0) h))) h"

lemma length_header_sealed [simp]: "8 \<le> length h \<Longrightarrow> length (header_sealed x h) = length h"
  by (simp add: header_sealed_def)

lemma seal_header_Ok: "length h = 4096 \<Longrightarrow> seal_header x h = Ok (header_sealed x h)"
  by (simp add: seal_header_def header_compute_crc_Ok header_sealed_def)

lemma valid_header_Ok: "valid_header x seq = Ok (header_sealed x (header_test_body seq))"
  by (simp add: valid_header_def header_test_body_def seal_header_Ok)

lemma subslice_header_sealed:
  "8 \<le> length h \<Longrightarrow> b \<le> 4 \<or> 8 \<le> a \<Longrightarrow> subslice a b (header_sealed x h) = subslice a b h"
  by (auto simp: header_sealed_def slice_simps)

lemma header_fields_sealed:
  "8 \<le> length h \<Longrightarrow> header_fields (header_sealed x h) = header_fields h"
  by (simp add: header_fields_def subslice_header_sealed)

lemma zero_header_sealed:
  "8 \<le> length h \<Longrightarrow> overwrite 4 (replicate 4 0) (header_sealed x h) = overwrite 4 (replicate 4 0) h"
  by (simp add: header_sealed_def overwrite_overwrite_same)

lemma header_parse_sealed:
  assumes "length h = 4096"
  shows "header_parse x (header_sealed x h) =
    (if subslice 0 4 h \<noteq> HEADER_SIGNATURE then Err (Corrupt ''header signature mismatch'')
     else if hdr_version (header_fields h) \<noteq> HEADER_VERSION
     then Err (Corrupt ''unsupported VHDX header version'')
     else Ok (header_fields h))"
proof -
  have "subslice 4 8 (header_sealed x h) = to_le_bytes (crc32c x (overwrite 4 (replicate 4 0) h))"
    using assms by (simp add: header_sealed_def subslice_overwrite_same)
  then show ?thesis
    using assms
    by (simp add: header_parse_eq header_fields_sealed zero_header_sealed subslice_header_sealed)
qed

lemma overwrite_header_sealed:
  assumes "8 \<le> length h" "i + length src \<le> 4 \<or> 8 \<le> i" "i + length src \<le> length h"
  shows "header_sealed x (overwrite i src (header_sealed x h)) = header_sealed x (overwrite i src h)"
proof -
  have "overwrite i src (header_sealed x h) =
      overwrite 4 (to_le_bytes (crc32c x (overwrite 4 (replicate 4 0) h))) (overwrite i src h)"
    unfolding header_sealed_def using assms by (intro overwrite_swap) auto
  then show ?thesis
    using assms by (simp add: header_sealed_def overwrite_overwrite_same)
qed

lemma header_fields_test_body:
  "header_fields (header_test_body seq) =
     \<lparr> hdr_sequence_number = seq, hdr_file_write_guid = replicate 16 0xAA,
       hdr_data_write_guid = replicate 16 0xBB, hdr_log_guid = replicate 16 0xCC,
       hdr_log_version = 0, hdr_version = 1, hdr_log_length = push_bit 20 1,
       hdr_log_offset = push_bit 20 4 \<rparr>"
  by (simp add: header_fields_def header_test_body_def slice_simps)
    (simp add: from_le_bytes_def eval_nat_numeral)

lemma signature_test_body: "subslice 0 4 (header_test_body seq) = HEADER_SIGNATURE"
  by (simp add: header_test_body_def slice_simps)

lemma header_tests_pass:
  "parses_a_valid_header_and_exposes_fields x" "exposes_a_log_version_it_does_not_recognise x"
  "header_rejects_buffer_shorter_than_4_kib x" "header_rejects_bad_signature x"
  "header_rejects_unsupported_version x" "compute_crc_is_independent_of_stored_checksum_field x"
  "header_compute_crc_refuses_an_empty_buffer x"
  "header_compute_crc_refuses_a_buffer_one_byte_short x"
  "header_compute_crc_accepts_an_exactly_sized_buffer x"
proof -
  note fs = valid_header_Ok seal_header_Ok overwrite_header_sealed header_parse_sealed header_fields_test_body
    signature_test_body
  show "parses_a_valid_header_and_exposes_fields x"
    by (simp add: parses_a_valid_header_and_exposes_fields_def fs)
  have "header_fields (overwrite 64 (to_le_bytes (1 :: u16)) (header_test_body 1)) =
      header_fields (header_test_body 1) \<lparr> hdr_log_version := 1 \<rparr>"
    by (simp add: header_fields_def slice_simps)
  then show "exposes_a_log_version_it_does_not_recognise x"
    by (simp add: exposes_a_log_version_it_does_not_recognise_def fs subslice_overwrite_disjoint)
  show "header_rejects_buffer_shorter_than_4_kib x"
    by (simp add: header_rejects_buffer_shorter_than_4_kib_def header_parse_def)
  show "header_rejects_bad_signature x"
    by (simp add: header_rejects_bad_signature_def fs text_of_def subslice_overwrite_same)
  have "header_fields (overwrite 66 (to_le_bytes (2 :: u16)) (header_test_body 1)) =
      header_fields (header_test_body 1) \<lparr> hdr_version := 2 \<rparr>"
    by (simp add: header_fields_def slice_simps)
  then show "header_rejects_unsupported_version x"
    by (simp add: header_rejects_unsupported_version_def fs subslice_overwrite_disjoint)
  show "compute_crc_is_independent_of_stored_checksum_field x"
    by (simp add: compute_crc_is_independent_of_stored_checksum_field_def fs header_compute_crc_Ok
        overwrite_overwrite_same)
  show "header_compute_crc_refuses_an_empty_buffer x"
    "header_compute_crc_refuses_a_buffer_one_byte_short x"
    "header_compute_crc_accepts_an_exactly_sized_buffer x"
    by (simp_all add: header_compute_crc_refuses_an_empty_buffer_def
        header_compute_crc_refuses_a_buffer_one_byte_short_def
        header_compute_crc_accepts_an_exactly_sized_buffer_def header_compute_crc_def)
qed

lemma header_rejects_crc_mismatch_passes:
  assumes "crc_detects_a_byte x"
  shows "header_rejects_crc_mismatch x"
proof -
  let ?h = "header_sealed x (header_test_body 1)" let ?v = "?h ! 8 XOR 0xFF"
  have "crc32c x (overwrite 4 (replicate 4 0) (?h[8 := ?v])) \<noteq> crc32c x (overwrite 4 (replicate 4 0) ?h)"
    by (rule crc_notices [OF assms _ _ xor_FF_neq]) simp_all
  moreover have "subslice 4 8 ?h = to_le_bytes (crc32c x (overwrite 4 (replicate 4 0) (header_test_body 1)))"
    by (simp add: header_sealed_def subslice_overwrite_same)
  ultimately show ?thesis
    by (simp add: header_rejects_crc_mismatch_def valid_header_Ok header_parse_eq Let_def
        subslice_list_update subslice_header_sealed signature_test_body zero_header_sealed)
qed

section \<open>\<open>src/region_table.rs\<close>\<close>

definition seal_regions :: "ext \<Rightarrow> bytes \<Rightarrow> (bytes, error) res" where
  "seal_regions x rt = res_bind (region_compute_crc x rt) (\<lambda>crc. copy_into rt 4 8 (to_le_bytes crc))"

definition valid_region_table :: "ext \<Rightarrow> (bytes, error) res" where
  "valid_region_table x =
     res_bind (copy_into (replicate REGION_TABLE_SIZE 0) 0 4 REGION_TABLE_SIGNATURE) (\<lambda>rt.
     res_bind (copy_into rt 8 12 (to_le_bytes (2 :: u32))) (\<lambda>rt.
     let off = 16 in
     res_bind (copy_into rt off (off + 16) guid_BAT) (\<lambda>rt.
     res_bind (copy_into rt (off + 16) (off + 24) (to_le_bytes (push_bit 20 2 :: u64))) (\<lambda>rt.
     res_bind (copy_into rt (off + 24) (off + 28) (to_le_bytes (8 :: u32))) (\<lambda>rt.
     res_bind (copy_into rt (off + 28) (off + 32) (to_le_bytes (1 :: u32))) (\<lambda>rt.
     let off = 48 in
     res_bind (copy_into rt off (off + 16) guid_METADATA) (\<lambda>rt.
     res_bind (copy_into rt (off + 16) (off + 24) (to_le_bytes (push_bit 20 1 :: u64))) (\<lambda>rt.
     res_bind (copy_into rt (off + 24) (off + 28) (to_le_bytes (64 * 1024 :: u32))) (\<lambda>rt.
     res_bind (copy_into rt (off + 28) (off + 32) (to_le_bytes (0 :: u32))) (\<lambda>rt.
     seal_regions x rt))))))))))"

definition parses_entries_and_finds_known_guids :: "ext \<Rightarrow> bool" where
  "parses_entries_and_finds_known_guids x \<longleftrightarrow>
     unwrap_and (res_bind (valid_region_table x) (region_table_parse x)) (\<lambda>rt.
       length rt = 2 \<and>
       (case region_find rt guid_BAT of
          Some bat \<Rightarrow> re_file_offset bat = push_bit 20 2 \<and> re_length bat = 8 \<and> re_required bat
        | None \<Rightarrow> False) \<and>
       (case region_find rt guid_METADATA of
          Some meta \<Rightarrow> re_file_offset meta = push_bit 20 1 \<and> \<not> re_required meta
        | None \<Rightarrow> False))"

definition find_returns_none_for_unknown_guid :: "ext \<Rightarrow> bool" where
  "find_returns_none_for_unknown_guid x \<longleftrightarrow>
     unwrap_and (res_bind (valid_region_table x) (region_table_parse x)) (\<lambda>rt.
       region_find rt (replicate 16 0xFF) = None)"

definition region_rejects_buffer_shorter_than_64_kib :: "ext \<Rightarrow> bool" where
  "region_rejects_buffer_shorter_than_64_kib x \<longleftrightarrow>
     unwrap_err_and (region_table_parse x (replicate 1000 0)) is_corrupt"

definition region_rejects_bad_signature :: "ext \<Rightarrow> bool" where
  "region_rejects_bad_signature x \<longleftrightarrow>
     unwrap_and
       (res_bind (valid_region_table x) (\<lambda>rt.
        res_bind (copy_into rt 0 4 (map word_of_nat (text_of ''junk''))) (seal_regions x)))
       (\<lambda>rt. unwrap_err_and (region_table_parse x rt) is_corrupt)"

definition region_rejects_crc_mismatch :: "ext \<Rightarrow> bool" where
  "region_rejects_crc_mismatch x \<longleftrightarrow>
     unwrap_and (valid_region_table x) (\<lambda>rt.
       unwrap_err_and (region_table_parse x (rt[16 := rt ! 16 XOR 0xFF]))
         (is_bad_checksum_of ''region-table''))"

definition region_rejects_entry_count_above_max :: "ext \<Rightarrow> bool" where
  "region_rejects_entry_count_above_max x \<longleftrightarrow>
     unwrap_and
       (res_bind (valid_region_table x) (\<lambda>rt.
        res_bind (copy_into rt 8 12 (to_le_bytes (2048 :: u32))) (seal_regions x)))
       (\<lambda>rt. unwrap_err_and (region_table_parse x rt) is_corrupt)"

definition region_compute_crc_refuses_an_empty_buffer :: "ext \<Rightarrow> bool" where
  "region_compute_crc_refuses_an_empty_buffer x \<longleftrightarrow>
     unwrap_err_and (region_compute_crc x []) is_corrupt"

definition region_compute_crc_refuses_a_buffer_one_byte_short :: "ext \<Rightarrow> bool" where
  "region_compute_crc_refuses_a_buffer_one_byte_short x \<longleftrightarrow>
     unwrap_err_and (region_compute_crc x (replicate (REGION_TABLE_SIZE - 1) 0)) is_corrupt"

definition region_compute_crc_accepts_an_exactly_sized_buffer :: "ext \<Rightarrow> bool" where
  "region_compute_crc_accepts_an_exactly_sized_buffer x \<longleftrightarrow>
     is_Ok (region_compute_crc x (replicate REGION_TABLE_SIZE 0))"

definition region_test_body :: bytes where
  "region_test_body =
     overwrite 76 (to_le_bytes (0 :: u32))
      (overwrite 72 (to_le_bytes (64 * 1024 :: u32))
      (overwrite 64 (to_le_bytes (push_bit 20 1 :: u64))
      (overwrite 48 guid_METADATA
      (overwrite 44 (to_le_bytes (1 :: u32))
      (overwrite 40 (to_le_bytes (8 :: u32))
      (overwrite 32 (to_le_bytes (push_bit 20 2 :: u64))
      (overwrite 16 guid_BAT
      (overwrite 8 (to_le_bytes (2 :: u32))
      (overwrite 0 REGION_TABLE_SIGNATURE (replicate REGION_TABLE_SIZE 0))))))))))"

lemma length_region_guids [simp]: "length guid_BAT = 16" "length guid_METADATA = 16"
  by (simp_all add: guid_BAT_def guid_METADATA_def)

lemma length_region_test_body [simp]: "length region_test_body = 65536"
  by (simp add: region_test_body_def)

lemma seal_regions_Ok: "length rt = 65536 \<Longrightarrow> seal_regions x rt = Ok (header_sealed x rt)"
  by (simp add: seal_regions_def region_compute_crc_Ok header_sealed_def)

lemma valid_region_table_Ok: "valid_region_table x = Ok (header_sealed x region_test_body)"
  by (simp add: valid_region_table_def region_test_body_def seal_regions_Ok Let_def)

lemma region_table_parse_sealed:
  assumes "length rt = 65536"
  shows "region_table_parse x (header_sealed x rt) =
    (let n = unat (from_le_bytes (subslice 8 12 rt) :: u32)
     in if subslice 0 4 rt \<noteq> REGION_TABLE_SIGNATURE
        then Err (Corrupt ''region-table signature mismatch'')
        else if MAX_REGION_ENTRIES < n then Err (Corrupt ''region-table entry_count > 2047'')
        else Ok (map (region_fields rt) [0..<n]))"
proof -
  have "region_fields (header_sealed x rt) i = region_fields rt i" for i
    using assms by (simp add: region_fields_def subslice_header_sealed)
  moreover have "subslice 4 8 (header_sealed x rt) = to_le_bytes (crc32c x (overwrite 4 (replicate 4 0) rt))"
    using assms by (simp add: header_sealed_def subslice_overwrite_same)
  ultimately show ?thesis
    using assms
    by (simp add: region_table_parse_eq zero_header_sealed subslice_header_sealed Let_def cong: map_cong)
qed

lemma seal_regions_overwrite:
  assumes "length h = 65536" "i + length src \<le> 4 \<or> 8 \<le> i" "i + length src \<le> 65536"
  shows "seal_regions x (overwrite i src (header_sealed x h)) = Ok (header_sealed x (overwrite i src h))"
  using assms by (simp add: seal_regions_Ok overwrite_header_sealed)

lemma region_test_slices:
  "subslice 0 4 region_test_body = REGION_TABLE_SIGNATURE"
  "from_le_bytes (subslice 8 12 region_test_body) = (2 :: u32)"
  by (simp_all add: region_test_body_def slice_simps)

lemma region_fields_test_body:
  "region_fields region_test_body 0 =
     \<lparr> re_guid = guid_BAT, re_file_offset = push_bit 20 2, re_length = 8, re_required = True \<rparr>"
  "region_fields region_test_body 1 =
     \<lparr> re_guid = guid_METADATA, re_file_offset = push_bit 20 1, re_length = 64 * 1024,
       re_required = False \<rparr>"
  by (simp_all add: region_fields_def region_test_body_def slice_simps from_le_zeros)

lemma region_tests_pass:
  "parses_entries_and_finds_known_guids x" "find_returns_none_for_unknown_guid x"
  "region_rejects_buffer_shorter_than_64_kib x" "region_rejects_bad_signature x"
  "region_rejects_entry_count_above_max x" "region_compute_crc_refuses_an_empty_buffer x"
  "region_compute_crc_refuses_a_buffer_one_byte_short x"
  "region_compute_crc_accepts_an_exactly_sized_buffer x"
proof -
  note rs = valid_region_table_Ok seal_regions_overwrite region_table_parse_sealed
    region_test_slices Let_def subslice_overwrite_same subslice_overwrite_disjoint
  have two: "[0..<2] = [0, 1]" by (simp add: upt_rec)
  have guids: "guid_METADATA \<noteq> guid_BAT" "guid_BAT \<noteq> guid_METADATA"
    "guid_BAT \<noteq> replicate 16 0xFF" "guid_METADATA \<noteq> replicate 16 0xFF"
    by (simp_all add: guid_BAT_def guid_METADATA_def eval_nat_numeral)
  show "parses_entries_and_finds_known_guids x" "find_returns_none_for_unknown_guid x"
    using guids
    by (simp_all add: parses_entries_and_finds_known_guids_def find_returns_none_for_unknown_guid_def
        rs two region_fields_test_body [simplified] region_find_def)
  show "region_rejects_buffer_shorter_than_64_kib x"
    by (simp add: region_rejects_buffer_shorter_than_64_kib_def region_table_parse_def)
  show "region_rejects_bad_signature x"
    by (simp add: region_rejects_bad_signature_def rs text_of_def)
  show "region_rejects_entry_count_above_max x"
    by (simp add: region_rejects_entry_count_above_max_def rs)
  show "region_compute_crc_refuses_an_empty_buffer x"
    "region_compute_crc_refuses_a_buffer_one_byte_short x"
    "region_compute_crc_accepts_an_exactly_sized_buffer x"
    by (simp_all add: region_compute_crc_refuses_an_empty_buffer_def
        region_compute_crc_refuses_a_buffer_one_byte_short_def
        region_compute_crc_accepts_an_exactly_sized_buffer_def region_compute_crc_def)
qed

lemma region_rejects_crc_mismatch_passes:
  assumes "crc_detects_a_byte x"
  shows "region_rejects_crc_mismatch x"
proof -
  let ?h = "header_sealed x region_test_body" let ?v = "?h ! 16 XOR 0xFF"
  have len: "length ?h = 65536" by (simp add: header_sealed_def)
  have "crc32c x (overwrite 4 (replicate 4 0) (?h[16 := ?v])) \<noteq> crc32c x (overwrite 4 (replicate 4 0) ?h)"
    by (rule crc_notices [OF assms _ _ xor_FF_neq]) (simp_all add: len)
  moreover have "subslice 4 8 ?h = to_le_bytes (crc32c x (overwrite 4 (replicate 4 0) region_test_body))"
    by (simp add: header_sealed_def subslice_overwrite_same)
  ultimately show ?thesis
    by (simp add: region_rejects_crc_mismatch_def valid_region_table_Ok region_table_parse_eq Let_def
        subslice_list_update subslice_header_sealed region_test_slices zero_header_sealed len)
qed

section \<open>\<open>src/metadata.rs\<close>\<close>

definition region_with_one_file_params :: "u16 \<Rightarrow> u32 \<Rightarrow> u32 \<Rightarrow> (bytes, error) res" where
  "region_with_one_file_params entry_count block_size flags =
     res_bind (copy_into (replicate (64 * 1024) 0) 0 8 METADATA_SIGNATURE) (\<lambda>m.
     res_bind (copy_into m 10 12 (to_le_bytes entry_count)) (\<lambda>m.
     let item_off = word_of_nat (METADATA_HEADER_SIZE + METADATA_ENTRY_SIZE) :: u32;
         entry = METADATA_HEADER_SIZE in
     res_bind (copy_into m entry (entry + 16) FILE_PARAMETERS) (\<lambda>m.
     res_bind (copy_into m (entry + 16) (entry + 20) (to_le_bytes item_off)) (\<lambda>m.
     res_bind (copy_into m (entry + 20) (entry + 24) (to_le_bytes (8 :: u32))) (\<lambda>m.
     res_bind (copy_into m (entry + 24) (entry + 28) (to_le_bytes (0x6 :: u32))) (\<lambda>m.
     let i = unat item_off in
     res_bind (copy_into m i (i + 4) (to_le_bytes block_size)) (\<lambda>m.
     copy_into m (i + 4) (i + 8) (to_le_bytes flags))))))))"

definition parses_entries_and_reads_item_data :: bool where
  "parses_entries_and_reads_item_data \<longleftrightarrow>
     unwrap_and (res_bind (region_with_one_file_params 1 (push_bit 20 1) 0) metadata_table_parse)
       (\<lambda>table. length (mt_entries table) = 1 \<and>
          (case item_data table FILE_PARAMETERS :: (bytes option, error) res of
             Ok (Some data) \<Rightarrow>
               unwrap_and (file_parameters_parse data) (\<lambda>fp.
                 fp_block_size fp = push_bit 20 1 \<and> \<not> fp_has_parent fp)
           | _ \<Rightarrow> False))"

definition item_data_returns_none_for_absent_item :: bool where
  "item_data_returns_none_for_absent_item \<longleftrightarrow>
     unwrap_and (res_bind (region_with_one_file_params 1 (push_bit 20 1) 0) metadata_table_parse)
       (\<lambda>table. item_data table VIRTUAL_DISK_SIZE = (Ok None :: (bytes option, error) res))"

definition item_data_returns_none_when_entry_points_out_of_bounds :: bool where
  "item_data_returns_none_when_entry_points_out_of_bounds \<longleftrightarrow>
     unwrap_and
       (res_bind (region_with_one_file_params 1 (push_bit 20 1) 0) (\<lambda>m.
        let entry = METADATA_HEADER_SIZE in
        res_bind (copy_into m (entry + 20) (entry + 24) (to_le_bytes (- 1 :: u32))) metadata_table_parse))
       (\<lambda>table. item_data table FILE_PARAMETERS = (Ok None :: (bytes option, error) res))"

definition rejects_region_shorter_than_header :: bool where
  "rejects_region_shorter_than_header \<longleftrightarrow>
     unwrap_err_and (metadata_table_parse (replicate 8 0)) is_bad_metadata"

definition metadata_rejects_bad_signature :: bool where
  "metadata_rejects_bad_signature \<longleftrightarrow>
     unwrap_and
       (res_bind (region_with_one_file_params 1 (push_bit 20 1) 0) (\<lambda>m.
        copy_into m 0 8 (map word_of_nat (text_of ''NOTmeta!''))))
       (\<lambda>m. unwrap_err_and (metadata_table_parse m) is_bad_metadata)"

definition metadata_rejects_entry_count_above_max :: bool where
  "metadata_rejects_entry_count_above_max \<longleftrightarrow>
     unwrap_and
       (res_bind (region_with_one_file_params 1 (push_bit 20 1) 0) (\<lambda>m.
        copy_into m 10 12 (to_le_bytes (2048 :: u16))))
       (\<lambda>m. unwrap_err_and (metadata_table_parse m) is_bad_metadata)"

definition rejects_region_truncated_mid_entry :: bool where
  "rejects_region_truncated_mid_entry \<longleftrightarrow>
     unwrap_and
       (res_bind (copy_into (replicate (METADATA_HEADER_SIZE + METADATA_ENTRY_SIZE) 0) 0 8
                    METADATA_SIGNATURE) (\<lambda>m.
        copy_into m 10 12 (to_le_bytes (3 :: u16)) :: (bytes, error) res))
       (\<lambda>m. unwrap_err_and (metadata_table_parse m) is_bad_metadata)"

definition file_parameters_has_parent_reads_flag_bit_1 :: bool where
  "file_parameters_has_parent_reads_flag_bit_1 \<longleftrightarrow>
     unwrap_and (file_parameters_parse [0, 0, 16, 0, 0x02, 0, 0, 0]) fp_has_parent \<and>
     unwrap_and (file_parameters_parse [0, 0, 16, 0, 0x01, 0, 0, 0]) (\<lambda>fp. \<not> fp_has_parent fp)"

definition file_parameters_rejects_short_buffer :: bool where
  "file_parameters_rejects_short_buffer \<longleftrightarrow>
     unwrap_err_and (file_parameters_parse (replicate 4 0)) is_bad_metadata"

definition reads_virtual_disk_size_little_endian :: bool where
  "reads_virtual_disk_size_little_endian \<longleftrightarrow>
     unwrap_and (read_virtual_disk_size (to_le_bytes (0x123456789ABC :: u64)))
       (\<lambda>v. v = 0x123456789ABC) \<and>
     is_err (read_virtual_disk_size (replicate 4 0))"

definition reads_sector_size_little_endian :: bool where
  "reads_sector_size_little_endian \<longleftrightarrow>
     unwrap_and (read_sector_size (to_le_bytes (512 :: u32))) (\<lambda>s. s = 512) \<and>
     is_err (read_sector_size (replicate 2 0))"

definition metadata_test_body :: bytes where
  "metadata_test_body =
     overwrite 68 (to_le_bytes (0 :: u32))
      (overwrite 64 (to_le_bytes (push_bit 20 1 :: u32))
      (overwrite 56 (to_le_bytes (0x6 :: u32))
      (overwrite 52 (to_le_bytes (8 :: u32))
      (overwrite 48 (to_le_bytes (64 :: u32))
      (overwrite 32 FILE_PARAMETERS
      (overwrite 10 (to_le_bytes (1 :: u16))
      (overwrite 0 METADATA_SIGNATURE (replicate 65536 0))))))))"

lemma length_FILE_PARAMETERS [simp]: "length FILE_PARAMETERS = 16"
  by (simp add: FILE_PARAMETERS_def)

lemma length_metadata_test_body [simp]: "length metadata_test_body = 65536"
  by (simp add: metadata_test_body_def)

lemma region_with_one_file_params_Ok:
  "region_with_one_file_params 1 (push_bit 20 1) 0 = Ok metadata_test_body"
  by (simp add: region_with_one_file_params_def metadata_test_body_def Let_def)

lemma metadata_test_slices:
  "subslice 0 8 metadata_test_body = METADATA_SIGNATURE"
  "from_le_bytes (subslice 10 12 metadata_test_body) = (1 :: u16)"
  "subslice 64 72 metadata_test_body = to_le_bytes (push_bit 20 1 :: u32) @ to_le_bytes (0 :: u32)"
  "metadata_fields metadata_test_body 0 =
     \<lparr> me_item_id = FILE_PARAMETERS, me_offset = 64, me_length = 8, me_flags = 6 \<rparr>"
proof -
  show "subslice 0 8 metadata_test_body = METADATA_SIGNATURE"
    "from_le_bytes (subslice 10 12 metadata_test_body) = (1 :: u16)"
    "metadata_fields metadata_test_body 0 =
       \<lparr> me_item_id = FILE_PARAMETERS, me_offset = 64, me_length = 8, me_flags = 6 \<rparr>"
    by (simp_all add: metadata_fields_def metadata_test_body_def slice_simps)
  show "subslice 64 72 metadata_test_body = to_le_bytes (push_bit 20 1 :: u32) @ to_le_bytes (0 :: u32)"
    unfolding metadata_test_body_def
    by (subst overwrite_overwrite_adjacent) (simp_all add: subslice_overwrite_same)
qed

lemma metadata_tests_pass:
  parses_entries_and_reads_item_data item_data_returns_none_for_absent_item
  item_data_returns_none_when_entry_points_out_of_bounds rejects_region_shorter_than_header
  metadata_rejects_bad_signature metadata_rejects_entry_count_above_max
  rejects_region_truncated_mid_entry file_parameters_has_parent_reads_flag_bit_1
  file_parameters_rejects_short_buffer reads_virtual_disk_size_little_endian
  reads_sector_size_little_endian
proof -
  note ms = region_with_one_file_params_Ok [simplified] metadata_test_slices metadata_table_parse_eq
    Let_def subslice_overwrite_same subslice_overwrite_disjoint item_data_def
  have "subslice 4 8 (to_le_bytes (w :: u32) @ replicate 4 0) = replicate 4 0" for w
    by (simp add: subslice_def)
  then show parses_entries_and_reads_item_data
    by (simp add: parses_entries_and_reads_item_data_def ms file_parameters_parse_def fp_has_parent_def
        from_le_zeros)
  have "VIRTUAL_DISK_SIZE \<noteq> FILE_PARAMETERS"
    by (simp add: VIRTUAL_DISK_SIZE_def FILE_PARAMETERS_def)
  then show item_data_returns_none_for_absent_item
    by (simp add: item_data_returns_none_for_absent_item_def ms)
  have "metadata_fields (overwrite 52 (to_le_bytes (- 1 :: u32)) metadata_test_body) 0 =
      (metadata_fields metadata_test_body 0) \<lparr> me_length := - 1 \<rparr>"
    by (simp add: metadata_fields_def slice_simps)
  then show item_data_returns_none_when_entry_points_out_of_bounds
    by (simp add: item_data_returns_none_when_entry_points_out_of_bounds_def ms unat_minus_one_max)
  show rejects_region_shorter_than_header
    by (simp add: rejects_region_shorter_than_header_def metadata_table_parse_def)
  show metadata_rejects_bad_signature
    by (simp add: metadata_rejects_bad_signature_def ms text_of_def)
  show metadata_rejects_entry_count_above_max
    by (simp add: metadata_rejects_entry_count_above_max_def ms)
  show rejects_region_truncated_mid_entry
    by (simp add: rejects_region_truncated_mid_entry_def ms)
  show file_parameters_has_parent_reads_flag_bit_1
    by (simp add: file_parameters_has_parent_reads_flag_bit_1_def file_parameters_parse_def
        fp_has_parent_def subslice_def from_le_bytes_def)
  show file_parameters_rejects_short_buffer
    by (simp add: file_parameters_rejects_short_buffer_def file_parameters_parse_def)
  show reads_virtual_disk_size_little_endian
    by (simp add: reads_virtual_disk_size_little_endian_def read_virtual_disk_size_def)
  show reads_sector_size_little_endian
    by (simp add: reads_sector_size_little_endian_def read_sector_size_def)
qed

section \<open>\<open>src/cli/vhdx/size.rs\<close>\<close>

definition plain_hex_and_suffixed_counts_are_read :: bool where
  "plain_hex_and_suffixed_counts_are_read \<longleftrightarrow>
     size_parse (text_of ''4096'') = Ok 4096 \<and>
     size_parse (text_of ''0x1000'') = Ok 4096 \<and>
     size_parse (text_of ''64K'') = Ok (push_bit 10 64) \<and>
     size_parse (text_of ''2MiB'') = Ok (push_bit 20 2) \<and>
     size_parse (text_of ''1g'') = Ok (push_bit 30 1) \<and>
     size_parse (text_of ''3TB'') = Ok (push_bit 40 3)"

definition nonsense_and_overflow_are_refused :: bool where
  "nonsense_and_overflow_are_refused \<longleftrightarrow>
     is_err (size_parse (text_of '''')) \<and> is_err (size_parse (text_of ''K'')) \<and>
     is_err (size_parse (text_of ''12Q'')) \<and> is_err (size_parse (text_of ''-1'')) \<and>
     is_err (size_parse (text_of ''99999999999T''))"

lemmas size_eval = size_parse_def from_str_radix_def digit_step_def to_digit_def trim_def
  is_whitespace_def strip_prefix_def text_of_def is_ascii_digit_def to_ascii_lowercase_def
  suffix_shift_def checked_add_def checked_mul_def

lemma size_tests_pass: plain_hex_and_suffixed_counts_are_read nonsense_and_overflow_are_refused
  by (simp_all add: plain_hex_and_suffixed_counts_are_read_def
      nonsense_and_overflow_are_refused_def size_eval)

end
