(* ===== verification/Log_Layout.thy ===== *)
theory Log_Layout
  imports Log_Chain Tests_Support
begin

text \<open>
  What the scan of a log region does with a region laid out by hand: a stretch without entry
  signatures is passed over, an encoded entry is found whole wherever it lies, and an entry with
  a byte changed is refused by any checksum that notices a changed byte. The lemmas compute
  \<open>discover\<close> on such a region step by step; the unit tests of the log are proved with them.
\<close>

section \<open>Steps of the scan\<close>

lemma discover_from_end: "length L < pos + 4096 \<Longrightarrow> discover_from x L g pos st = (Ok [], st)"
  by (subst discover_from.simps) simp

lemma discover_from_skip:
  assumes "pos + 4096 \<le> length L" "subslice pos (pos + 4) L \<noteq> LOG_ENTRY_SIGNATURE"
  shows "discover_from x L g pos st = discover_from x L g (pos + 4096) st"
  using assms by (cases st, subst discover_from.simps) (simp add: parse_log_entry_eq Let_def)

lemma discover_from_reject:
  assumes "pos + 4096 \<le> length L" "parse_log_entry x L pos g st = (Err r, st')"
  shows "discover_from x L g pos st = discover_from x L g (pos + 4096) st'"
  using assms by (subst discover_from.simps) simp

lemma discover_from_entry:
  assumes "pos + 4096 \<le> length L" "parse_log_entry x L pos g st = (Ok e, st')"
    and "discover_from x L g (pos + le_len e) st' = (Ok es, st'')"
  shows "discover_from x L g pos st = (Ok (e # es), st'')"
  using assms by (subst discover_from.simps) simp

definition quiet :: "bytes \<Rightarrow> nat \<Rightarrow> nat \<Rightarrow> bool" where
  "quiet L a b \<longleftrightarrow> (\<forall>p. a \<le> p \<longrightarrow> p + 4096 \<le> b \<longrightarrow> subslice p (p + 4) L \<noteq> LOG_ENTRY_SIGNATURE)"

lemma discover_from_quiet:
  assumes "quiet L a b" "b \<le> length L" "b = a + k * 4096"
  shows "discover_from x L g a st = discover_from x L g b st"
  using assms
proof (induction k arbitrary: a)
  case (Suc k)
  have "discover_from x L g a st = discover_from x L g (a + 4096) st"
    using Suc.prems by (intro discover_from_skip) (simp_all add: quiet_def)
  also have "\<dots> = discover_from x L g b st"
    using Suc.prems by (intro Suc.IH) (auto simp: quiet_def)
  finally show ?case .
qed simp

lemma discover_from_quiet_end:
  assumes "quiet L a (length L)" "length L = a + k * 4096"
  shows "discover_from x L g a st = (Ok [], st)"
  using discover_from_quiet [OF assms(1) order_refl assms(2)] by (simp add: discover_from_end)

lemma quiet_short [simp]: "b < a + 4096 \<Longrightarrow> quiet L a b"
  by (simp add: quiet_def)

lemma quiet_zeros [simp]: "quiet (replicate n 0) a b"
proof -
  have "set (subslice p (p + 4) (replicate n 0)) \<subseteq> {0 :: u8}" for p
    by (auto simp: subslice_def dest!: in_set_takeD in_set_dropD)
  moreover have "\<not> set LOG_ENTRY_SIGNATURE \<subseteq> {0}" by simp
  ultimately have "subslice p (p + 4) (replicate n (0 :: u8)) \<noteq> LOG_ENTRY_SIGNATURE" for p
    by metis
  then show ?thesis by (simp add: quiet_def)
qed

lemma quiet_overwrite [simp]:
  "off + length e \<le> length L \<Longrightarrow> off + length e \<le> a \<or> b \<le> off \<Longrightarrow> quiet (overwrite off e L) a b = quiet L a b"
  by (auto simp: quiet_def slice_simps)

lemma quiet_list_update [simp]: "i < a \<or> b \<le> i \<Longrightarrow> quiet (L[i := v]) a b = quiet L a b"
proof -
  assume "i < a \<or> b \<le> i"
  then have "subslice p (p + 4) (L[i := v]) = subslice p (p + 4) L" if "a \<le> p" "p + 4096 \<le> b" for p
    using that by (intro subslice_list_update) auto
  then show ?thesis by (auto simp: quiet_def)
qed

section \<open>Entries of one write\<close>

definition one_entry :: "ext \<Rightarrow> u64 \<Rightarrow> u32 \<Rightarrow> guid \<Rightarrow> u64 \<Rightarrow> u64 \<Rightarrow> pending_write \<Rightarrow> bytes" where
  "one_entry x s tail g flushed lastoff w =
     (case encode_entry x s tail g flushed lastoff [w] :: (bytes, error) res of Ok E \<Rightarrow> E | _ \<Rightarrow> [])"

definition one_parsed :: "u64 \<Rightarrow> u32 \<Rightarrow> guid \<Rightarrow> u64 \<Rightarrow> u64 \<Rightarrow> pending_write \<Rightarrow> nat \<Rightarrow> log_entry" where
  "one_parsed s tail g flushed lastoff w pos =
     \<lparr> le_header = \<lparr> leh_entry_length = 8192, leh_tail = tail, leh_sequence_number = s,
         leh_descriptor_count = 1, leh_log_guid = g, leh_flushed_file_offset = flushed,
         leh_last_file_offset = lastoff \<rparr>,
       le_descriptors = [decoded_write s w], le_log_offset_in_region = word_of_nat pos \<rparr>"

lemma one_entry_facts:
  assumes "crc_contract x" "length g = 16" "length (pw_sector w) = 4096"
  shows "encode_entry x s tail g flushed lastoff [w] = (Ok (one_entry x s tail g flushed lastoff w) :: (bytes, error) res)"
    and "length (one_entry x s tail g flushed lastoff w) = 8192"
    and "subslice 0 4 (one_entry x s tail g flushed lastoff w) = LOG_ENTRY_SIGNATURE"
    and "subslice 8 12 (one_entry x s tail g flushed lastoff w) = to_le_bytes (8192 :: u32)"
    and "subslice 32 48 (one_entry x s tail g flushed lastoff w) = g"
    and "subslice 4096 4100 (one_entry x s tail g flushed lastoff w) = DATA_SECTOR_SIGNATURE"
    and "from_le_bytes (subslice 4 8 (one_entry x s tail g flushed lastoff w)) =
      crc32c x (overwrite 4 (replicate 4 0) (one_entry x s tail g flushed lastoff w))"
proof -
  have b: "round_up_sector (64 + length [w] * 32) = 4096" by (subst round_up_sector_eq) simp_all
  obtain E where E: "encode_entry x s tail g flushed lastoff [w] = (Ok E :: (bytes, error) res)" "length E = 8192"
    "holds_writes s 4096 0 [w] E" "entry_header_bytes 8192 tail s 1 g flushed lastoff E"
    "from_le_bytes (subslice 4 8 E) = crc32c x (overwrite 4 (replicate 4 0) E)"
    using encode_entry_Ok [OF assms(1,2), of "[w]" s tail flushed lastoff, where ?'e = error] assms(3)
    unfolding b by auto
  have eq: "one_entry x s tail g flushed lastoff w = E" using E(1) by (simp add: one_entry_def)
  have "subslice 4096 8192 E = stamped_sector s w"
    using E(3) by (simp add: holds_writes_def)
  then have "subslice 0 4 (subslice 4096 8192 E) = subslice 0 4 (stamped_sector s w)" by simp
  then have "subslice 4096 4100 E = DATA_SECTOR_SIGNATURE"
    using assms(3) by (simp add: subslice_subslice stamped_sector_def slice_simps)
  then show "encode_entry x s tail g flushed lastoff [w] = (Ok (one_entry x s tail g flushed lastoff w) :: (bytes, error) res)"
    "length (one_entry x s tail g flushed lastoff w) = 8192"
    "subslice 0 4 (one_entry x s tail g flushed lastoff w) = LOG_ENTRY_SIGNATURE"
    "subslice 8 12 (one_entry x s tail g flushed lastoff w) = to_le_bytes (8192 :: u32)"
    "subslice 32 48 (one_entry x s tail g flushed lastoff w) = g"
    "subslice 4096 4100 (one_entry x s tail g flushed lastoff w) = DATA_SECTOR_SIGNATURE"
    "from_le_bytes (subslice 4 8 (one_entry x s tail g flushed lastoff w)) =
      crc32c x (overwrite 4 (replicate 4 0) (one_entry x s tail g flushed lastoff w))"
    using E by (simp_all add: eq entry_header_bytes_def)
qed

lemma entry_span_inside: "pos + n \<le> length L \<Longrightarrow> entry_span L pos n = subslice pos (pos + n) L"
  by (simp add: entry_span_def subslice_def)

lemma discover_one_entry:
  assumes "crc_contract x" "length g = 16" "length (pw_sector w) = 4096"
    and "entry_span L pos 8192 = one_entry x s tail g flushed lastoff w"
    and "pos + 4096 \<le> length L" "8192 \<le> length L" "8192 \<le> budget"
    and "discover_from x L g (pos + 8192) (budget - 8192, ex) = (Ok es, st)"
  shows "discover_from x L g pos (budget, ex) =
    (Ok (one_parsed s tail g flushed lastoff w pos # es), st)"
proof (rule discover_from_entry)
  note E = one_entry_facts [OF assms(1-3), of s tail flushed lastoff]
  show "parse_log_entry x L pos g (budget, ex) =
      (Ok (one_parsed s tail g flushed lastoff w pos), budget - 8192, ex)"
    using parse_encoded_entry [OF assms(1,2) _ _ E(1), of pos L budget ex] assms(3-7)
    by (simp add: E(2) one_parsed_def)
qed (use assms(5,8) in \<open>simp_all add: one_parsed_def\<close>)

text \<open>A foreign entry and a torn one are passed over, the first without touching the budget.\<close>

lemma discover_foreign_entry:
  assumes "crc_contract x" "length g' = 16" "length (pw_sector w) = 4096" "g' \<noteq> g"
    and "subslice pos (pos + 8192) L = one_entry x s tail g' flushed lastoff w"
    and "pos + 8192 \<le> length L"
  shows "discover_from x L g pos st = discover_from x L g (pos + 8192) st"
proof -
  note E = one_entry_facts [OF assms(1-3), of s tail flushed lastoff]
  have sub: "subslice (pos + a) (pos + b) L = subslice a b (one_entry x s tail g' flushed lastoff w)"
    if "b \<le> 8192" for a b
    using that assms(5) subslice_subslice [of b "pos + 8192" pos a L] by simp
  obtain budget ex where st: "st = (budget, ex)" by (cases st)
  have "parse_log_entry x L pos g st = (Err RejectForeignChain, st)"
    using assms(4,6) sub [of 4 0] sub [of 12 8] sub [of 48 32]
    by (simp add: st parse_log_entry_eq Let_def E)
  then have "discover_from x L g pos st = discover_from x L g (pos + 4096) st"
    using assms(6) by (intro discover_from_reject) simp_all
  also have "\<dots> = discover_from x L g (pos + 4096 + 4096) st"
    using assms(6) sub [of 4100 4096] by (intro discover_from_skip) (simp_all add: E add.assoc)
  finally show ?thesis by (simp add: add.assoc)
qed

lemma parse_torn_entry:
  assumes "crc_contract x" "crc_detects_a_byte x" "length g = 16" "length (pw_sector w) = 4096"
    and "entry_span L pos 8192 = (one_entry x s tail g flushed lastoff w)[i := v]"
    and "64 \<le> i" "i < 8192" "v \<noteq> one_entry x s tail g flushed lastoff w ! i"
    and "pos + 4096 \<le> length L" "8192 \<le> length L" "8192 \<le> budget"
  shows "parse_log_entry x L pos g (budget, ex) = (Err RejectCorrupt, budget - 8192, ex)"
proof -
  let ?E = "one_entry x s tail g flushed lastoff w"
  note E = one_entry_facts [OF assms(1,3,4), of s tail flushed lastoff]
  have sub: "subslice (pos + a) (pos + b) L = subslice a b ?E" if "b \<le> 64" for a b
    using that assms(5,6,9,10) subslice_entry_span [of b 8192 pos L a]
    by (simp add: subslice_list_update)
  have "parse_entry_body x L pos 8192 g = Err RejectCorrupt"
    using crc_notices [OF assms(2), of i ?E v] assms(1,5-10) E(2,7)
    by (simp add: parse_entry_body_eq subslice_list_update)
  then show ?thesis
    using assms(9-11) sub [of 4 0] sub [of 12 8] sub [of 48 32] by (simp add: parse_log_entry_eq Let_def E)
qed

end
