(* ===== verification/Tests_Log.thy ===== *)
theory Tests_Log
  imports Log_Layout
begin

unbundle bit_operations_syntax

text \<open>
  The unit tests of \<open>src/log.rs\<close> that find the active chain, run against the model: the fixtures
  that lay entries into a region, the tests on the shape of the chain and those on the checksum
  budget. Each test holds for every checksum that meets its contract; the ones that tear an entry
  need it to notice a changed byte, and the ones whose slots carry a zero checksum need the real
  checksums of those slots not to be zero.
\<close>

section \<open>Fixtures\<close>

abbreviation TEST_REGION_LEN :: nat where "TEST_REGION_LEN \<equiv> 1024 * 1024"
abbreviation ONE_WRITE_ENTRY_LEN :: nat where "ONE_WRITE_ENTRY_LEN \<equiv> 2 * LOG_SECTOR_SIZE"

definition LIVE_GUID :: guid where "LIVE_GUID = replicate 16 0x42"
definition FOREIGN_GUID :: guid where "FOREIGN_GUID = replicate 16 0x99"

definition target_of :: "u64 \<Rightarrow> u64" where
  "target_of seq = 4 * 1024 * 1024 + seq * word_of_nat LOG_SECTOR_SIZE"

definition one_write_entry :: "ext \<Rightarrow> u64 \<Rightarrow> u32 \<Rightarrow> guid \<Rightarrow> (bytes, error) res" where
  "one_write_entry x seq tail guid =
     encode_entry x seq tail guid 0 0
       [\<lparr> pw_file_offset = target_of seq, pw_sector = replicate LOG_SECTOR_SIZE (0x10 + ucast seq) \<rparr>]"

definition splice :: "nat \<Rightarrow> bytes \<Rightarrow> bytes \<Rightarrow> (bytes, error) res" where
  "splice off entry region = copy_into region off (off + length entry) entry"

definition splice_write :: "ext \<Rightarrow> nat \<Rightarrow> u64 \<Rightarrow> nat \<Rightarrow> guid \<Rightarrow> bytes \<Rightarrow> (bytes, error) res" where
  "splice_write x off seq tail guid region =
     res_bind (one_write_entry x seq (word_of_nat tail) guid) (\<lambda>entry. splice off entry region)"

definition contiguous_chain :: "ext \<Rightarrow> nat \<Rightarrow> (bytes, error) res" where
  "contiguous_chain x count =
     foldl (\<lambda>region seq. res_bind region
         (splice_write x ((seq - 1) * ONE_WRITE_ENTRY_LEN) (word_of_nat seq) 0 LIVE_GUID))
       (Ok (replicate TEST_REGION_LEN 0)) [1..<Suc count]"

definition sequences :: "log_entry list \<Rightarrow> u64 list" where
  "sequences chain = map (\<lambda>e. leh_sequence_number (le_header e)) chain"

definition replayed_offsets :: "log_entry list \<Rightarrow> u64 list" where
  "replayed_offsets chain =
     map (\<lambda>d. case d of DataDesc _ _ file_offset _ _ \<Rightarrow> file_offset | ZeroDesc _ file_offset _ \<Rightarrow> file_offset)
       (concat (map le_descriptors chain))"

definition splice_wrapping :: "nat \<Rightarrow> bytes \<Rightarrow> bytes \<Rightarrow> bytes" where
  "splice_wrapping off entry region =
     fold (\<lambda>(i, b) region. region[(off + i) mod length region := b]) (enumerate 0 entry) region"

definition flip :: "nat \<Rightarrow> bytes \<Rightarrow> (bytes, error) res" where
  "flip i region = (if i < length region then Ok (region[i := region ! i XOR 0xFF]) else Panic)"

section \<open>The tests\<close>

definition encode_then_parse_roundtrip :: "ext \<Rightarrow> bool" where
  "encode_then_parse_roundtrip x \<longleftrightarrow>
     (let log_guid = replicate 16 0x42;
          sector = replicate LOG_SECTOR_SIZE 0xAB;
          sector = overwrite 0 (to_le_bytes (0x1122334455667788 :: u64)) sector;
          sector = overwrite (LOG_SECTOR_SIZE - 4) (to_le_bytes (0xDEADBEEF :: u32)) sector
      in unwrap_and
           (res_bind (encode_entry x 7 0 log_guid (64 * 1024 * 1024) (64 * 1024 * 1024)
              [\<lparr> pw_file_offset = 4 * 1024 * 1024, pw_sector = sector \<rparr>]) (\<lambda>entry.
            res_bind (copy_into (replicate (1024 * 1024) 0) 0 (length entry) entry) (\<lambda>log_bytes.
            collect_replay_chain x log_bytes log_guid)))
           (\<lambda>chain. length chain = 1 \<and>
              (case le_descriptors (chain ! 0) ! 0 of
                 DataDesc _ _ file_offset _ reconstructed \<Rightarrow>
                   file_offset = 4 * 1024 * 1024 \<and> reconstructed = sector
               | _ \<Rightarrow> False)))"

definition empty_log_guid_skips_replay :: "ext \<Rightarrow> bool" where
  "empty_log_guid_skips_replay x \<longleftrightarrow>
     unwrap_and (collect_replay_chain x (replicate (1024 * 1024) 0) (replicate 16 0)) (\<lambda>chain. chain = [])"

definition contiguous_multi_entry_chain_replays_in_full :: "ext \<Rightarrow> bool" where
  "contiguous_multi_entry_chain_replays_in_full x \<longleftrightarrow>
     unwrap_and
       (res_bind (contiguous_chain x 4) (\<lambda>region. collect_replay_chain x region LIVE_GUID))
       (\<lambda>chain. sequences chain = [1, 2, 3, 4] \<and> replayed_offsets chain = map target_of [1, 2, 3, 4])"

definition torn_chain :: "ext \<Rightarrow> (bytes, error) res" where
  "torn_chain x =
     res_bind (contiguous_chain x 4) (flip (2 * ONE_WRITE_ENTRY_LEN + LOG_SECTOR_SIZE + 100))"

definition torn_entry_ends_the_chain_and_its_successors_are_dropped :: "ext \<Rightarrow> bool" where
  "torn_entry_ends_the_chain_and_its_successors_are_dropped x \<longleftrightarrow>
     unwrap_and
       (res_bind (torn_chain x) (\<lambda>region. collect_replay_chain x region LIVE_GUID))
       (\<lambda>chain. sequences chain = [1, 2] \<and> target_of 4 \<notin> set (replayed_offsets chain))"

definition a_sequence_gap_ends_the_chain :: "ext \<Rightarrow> bool" where
  "a_sequence_gap_ends_the_chain x \<longleftrightarrow>
     unwrap_and
       (res_bind (contiguous_chain x 4) (\<lambda>region.
        res_bind (splice_write x (2 * ONE_WRITE_ENTRY_LEN) 9 0 LIVE_GUID region) (\<lambda>region.
        collect_replay_chain x region LIVE_GUID)))
       (\<lambda>chain. sequences chain = [1, 2])"

definition a_foreign_chain_entry_ends_the_chain :: "ext \<Rightarrow> bool" where
  "a_foreign_chain_entry_ends_the_chain x \<longleftrightarrow>
     unwrap_and
       (res_bind (contiguous_chain x 4) (\<lambda>region.
        res_bind (splice_write x (2 * ONE_WRITE_ENTRY_LEN) 3 0 FOREIGN_GUID region) (\<lambda>region.
        collect_replay_chain x region LIVE_GUID)))
       (\<lambda>chain. sequences chain = [1, 2])"

definition tail_anchors_the_chain_past_an_older_one_in_the_same_region :: "ext \<Rightarrow> bool" where
  "tail_anchors_the_chain_past_an_older_one_in_the_same_region x \<longleftrightarrow>
     unwrap_and
       (res_bind (splice_write x 0 5 0 LIVE_GUID (replicate TEST_REGION_LEN 0)) (\<lambda>region.
        res_bind (splice_write x ONE_WRITE_ENTRY_LEN 6 0 LIVE_GUID region) (\<lambda>region.
        res_bind (splice_write x (4 * ONE_WRITE_ENTRY_LEN) 1 (4 * ONE_WRITE_ENTRY_LEN) LIVE_GUID region)
          (\<lambda>region.
        res_bind (splice_write x (5 * ONE_WRITE_ENTRY_LEN) 2 (4 * ONE_WRITE_ENTRY_LEN) LIVE_GUID region)
          (\<lambda>region.
        collect_replay_chain x region LIVE_GUID)))))
       (\<lambda>chain. sequences chain = [5, 6] \<and>
          target_of 1 \<notin> set (replayed_offsets chain) \<and> target_of 2 \<notin> set (replayed_offsets chain))"

definition a_chain_starting_away_from_offset_zero_is_found_via_tail :: "ext \<Rightarrow> bool" where
  "a_chain_starting_away_from_offset_zero_is_found_via_tail x \<longleftrightarrow>
     (let start = 3 * ONE_WRITE_ENTRY_LEN in
      unwrap_and
        (res_bind (splice_write x start 1 start LIVE_GUID (replicate TEST_REGION_LEN 0)) (\<lambda>region.
         res_bind (splice_write x (start + ONE_WRITE_ENTRY_LEN) 2 start LIVE_GUID region) (\<lambda>region.
         collect_replay_chain x region LIVE_GUID)))
        (\<lambda>chain. sequences chain = [1, 2] \<and> le_log_offset_in_region (chain ! 0) = word_of_nat start))"

definition a_chain_that_wraps_the_end_of_the_region_is_followed_round :: "ext \<Rightarrow> bool" where
  "a_chain_that_wraps_the_end_of_the_region_is_followed_round x \<longleftrightarrow>
     (let start = TEST_REGION_LEN - 2 * ONE_WRITE_ENTRY_LEN in
      unwrap_and
        (res_bind (splice_write x start 1 start LIVE_GUID (replicate TEST_REGION_LEN 0)) (\<lambda>region.
         res_bind (splice_write x (TEST_REGION_LEN - ONE_WRITE_ENTRY_LEN) 2 start LIVE_GUID region)
           (\<lambda>region.
         res_bind (splice_write x 0 3 start LIVE_GUID region) (\<lambda>region.
         collect_replay_chain x region LIVE_GUID))))
        (\<lambda>chain. sequences chain = [1, 2, 3]))"

definition an_entry_straddling_the_end_of_the_region_is_read_whole :: "ext \<Rightarrow> bool" where
  "an_entry_straddling_the_end_of_the_region_is_read_whole x \<longleftrightarrow>
     (let start = TEST_REGION_LEN - LOG_SECTOR_SIZE - ONE_WRITE_ENTRY_LEN;
          straddling = TEST_REGION_LEN - LOG_SECTOR_SIZE
      in unwrap_and
           (res_bind (splice_write x start 1 start LIVE_GUID (replicate TEST_REGION_LEN 0)) (\<lambda>region.
            res_bind (one_write_entry x 2 (word_of_nat start) LIVE_GUID) (\<lambda>entry.
            let region = splice_wrapping straddling entry region in
            res_bind (splice_write x LOG_SECTOR_SIZE 3 start LIVE_GUID region) (\<lambda>region.
            collect_replay_chain x region LIVE_GUID))))
           (\<lambda>chain. sequences chain = [1, 2, 3] \<and>
              le_log_offset_in_region (chain ! 1) = word_of_nat straddling \<and>
              (case le_descriptors (chain ! 1) of
                 [DataDesc _ _ file_offset _ sector] \<Rightarrow>
                   file_offset = target_of 2 \<and> sector = replicate LOG_SECTOR_SIZE 0x12
               | _ \<Rightarrow> False)))"

definition a_torn_straddling_entry_ends_the_chain :: "ext \<Rightarrow> bool" where
  "a_torn_straddling_entry_ends_the_chain x \<longleftrightarrow>
     (let start = TEST_REGION_LEN - LOG_SECTOR_SIZE - ONE_WRITE_ENTRY_LEN in
      unwrap_and
        (res_bind (splice_write x start 1 start LIVE_GUID (replicate TEST_REGION_LEN 0)) (\<lambda>region.
         res_bind (one_write_entry x 2 (word_of_nat start) LIVE_GUID) (\<lambda>entry.
         let region = splice_wrapping (TEST_REGION_LEN - LOG_SECTOR_SIZE) entry region in
         res_bind (flip 100 region) (\<lambda>region.
         collect_replay_chain x region LIVE_GUID))))
        (\<lambda>chain. sequences chain = [1]))"

text \<open>\<open>m.contains(s)\<close>\<close>

definition str_contains :: "string \<Rightarrow> string \<Rightarrow> bool" where
  "str_contains m s \<longleftrightarrow> s \<in> set (map (\<lambda>i. take (length s) (drop i m)) [0..<Suc (length m)])"

definition an_unlocatable_chain_start_is_refused_rather_than_read_as_nothing_to_do :: "ext \<Rightarrow> bool" where
  "an_unlocatable_chain_start_is_refused_rather_than_read_as_nothing_to_do x \<longleftrightarrow>
     unwrap_and
       (res_bind (contiguous_chain x 4) (\<lambda>region.
        res_bind (splice_write x (3 * ONE_WRITE_ENTRY_LEN) 4 ONE_WRITE_ENTRY_LEN LIVE_GUID region)
          (flip (ONE_WRITE_ENTRY_LEN + LOG_SECTOR_SIZE + 7))))
       (\<lambda>region.
          case collect_replay_chain x region LIVE_GUID of
            Err (LogUnassembled m) \<Rightarrow> str_contains m ''tail''
          | _ \<Rightarrow> False)"

definition claim_the_rest :: "nat \<Rightarrow> bytes \<Rightarrow> (bytes, error) res" where
  "claim_the_rest pos region =
     (let len = word_of_nat (length region - pos) :: u32 in
      res_bind (copy_into region pos (pos + 4) LOG_ENTRY_SIGNATURE) (\<lambda>region.
      res_bind (copy_into region (pos + 8) (pos + 12) (to_le_bytes len)) (\<lambda>region.
      copy_into region (pos + 32) (pos + 48) LIVE_GUID)))"

definition overlapping_claims :: "(bytes, error) res" where
  "overlapping_claims =
     (let REGION = 4 * 1024 * 1024 in
      foldl (\<lambda>region i. res_bind region (claim_the_rest (i * LOG_SECTOR_SIZE)))
        (Ok (replicate REGION 0)) [0..<REGION div LOG_SECTOR_SIZE])"

definition a_region_of_overlapping_claims_is_checksummed_a_bounded_number_of_times :: "ext \<Rightarrow> bool" where
  "a_region_of_overlapping_claims_is_checksummed_a_bounded_number_of_times x \<longleftrightarrow>
     unwrap_and (res_bind overlapping_claims (\<lambda>region. discover x region LIVE_GUID))
       (\<lambda>(found, checksummed, _). found = [] \<and>
          checksummed \<le> 4 * 1024 * 1024 * DISCOVERY_CHECKSUM_PASSES)"

definition hidden_entry :: "ext \<Rightarrow> (bytes, error) res" where
  "hidden_entry x = splice_write x 0xE000 1 0xE000 LIVE_GUID (replicate (64 * 1024) 0)"

definition crowded_region :: "ext \<Rightarrow> (bytes, error) res" where
  "crowded_region x =
     foldl (\<lambda>region i. res_bind region (claim_the_rest (i * LOG_SECTOR_SIZE))) (hidden_entry x) [0..<13]"

definition a_valid_entry_behind_slots_that_exhaust_the_budget_is_not_silently_dropped :: "ext \<Rightarrow> bool" where
  "a_valid_entry_behind_slots_that_exhaust_the_budget_is_not_silently_dropped x \<longleftrightarrow>
     unwrap_and (res_bind (hidden_entry x) (\<lambda>region. collect_replay_chain x region LIVE_GUID))
       (\<lambda>control. sequences control = [1]) \<and>
     unwrap_and (crowded_region x) (\<lambda>region.
       case collect_replay_chain x region LIVE_GUID of
         Err (Corrupt m) \<Rightarrow> str_contains m ''may not have been examined''
       | _ \<Rightarrow> False)"

definition a_well_formed_region_stays_well_inside_the_budget :: "ext \<Rightarrow> bool" where
  "a_well_formed_region_stays_well_inside_the_budget x \<longleftrightarrow>
     unwrap_and
       (res_bind (contiguous_chain x 4) (\<lambda>region.
        res_bind (discover x region LIVE_GUID) (\<lambda>(found, checksummed, _).
        Ok (found, checksummed, length region))))
       (\<lambda>(found, checksummed, n). sequences found = [1, 2, 3, 4] \<and> checksummed \<le> n)"

section \<open>The fixtures as bytes\<close>

definition test_write :: "u64 \<Rightarrow> pending_write" where
  "test_write seq = \<lparr> pw_file_offset = target_of seq, pw_sector = replicate 4096 (0x10 + ucast seq) \<rparr>"

abbreviation live :: "ext \<Rightarrow> u64 \<Rightarrow> u32 \<Rightarrow> bytes" where
  "live x seq tail \<equiv> one_entry x seq tail LIVE_GUID 0 0 (test_write seq)"

abbreviation live_at :: "u64 \<Rightarrow> u32 \<Rightarrow> nat \<Rightarrow> log_entry" where
  "live_at seq tail pos \<equiv> one_parsed seq tail LIVE_GUID 0 0 (test_write seq) pos"

lemma length_test_guids [simp]: "length LIVE_GUID = 16" "length FOREIGN_GUID = 16"
  by (simp_all add: LIVE_GUID_def FOREIGN_GUID_def)

lemma length_test_write [simp]: "length (pw_sector (test_write seq)) = 4096"
  by (simp add: test_write_def)

lemma live_not_zero: "\<not> list_all (\<lambda>b. b = 0) LIVE_GUID"
  by (simp add: LIVE_GUID_def list_all_iff)

lemma one_write_entry_Ok:
  assumes "crc_contract x" "length g = 16"
  shows "one_write_entry x seq tail g = Ok (one_entry x seq tail g 0 0 (test_write seq))"
  unfolding one_write_entry_def test_write_def [symmetric]
  by (rule one_entry_facts(1)) (use assms in simp_all)

lemma length_one_write [simp]:
  "crc_contract x \<Longrightarrow> length g = 16 \<Longrightarrow> length (one_entry x seq tail g 0 0 (test_write seq)) = 8192"
  by (rule one_entry_facts(2)) simp_all

lemma splice_write_Ok:
  assumes "crc_contract x" "length g = 16" "off + 8192 \<le> length region"
  shows "splice_write x off seq tail g region =
    Ok (overwrite off (one_entry x seq (word_of_nat tail) g 0 0 (test_write seq)) region)"
  using assms by (simp add: splice_write_def one_write_entry_Ok splice_def)

text \<open>A stretch of the region that holds these entries and is quiet between them.\<close>

fun laid :: "ext \<Rightarrow> bytes \<Rightarrow> nat \<Rightarrow> (nat \<times> u64 \<times> u32) list \<Rightarrow> nat \<Rightarrow> bool" where
  "laid x L a [] b \<longleftrightarrow> a \<le> b \<and> b \<le> length L \<and> 4096 dvd b - a \<and> quiet L a b"
| "laid x L a ((p, s, t) # ts) b \<longleftrightarrow>
     a \<le> p \<and> 4096 dvd p - a \<and> quiet L a p \<and> p + 8192 \<le> length L \<and>
     subslice p (p + 8192) L = live x s t \<and> laid x L (p + 8192) ts b"

definition laid_entries :: "(nat \<times> u64 \<times> u32) list \<Rightarrow> log_entry list" where
  "laid_entries ts = map (\<lambda>(p, s, t). live_at s t p) ts"

lemma discover_laid_then:
  assumes x: "crc_contract x" and "laid x L a ts b" "8192 * length ts \<le> budget"
    and "discover_from x L LIVE_GUID b (budget - 8192 * length ts, ex) = (Ok es, st)"
  shows "discover_from x L LIVE_GUID a (budget, ex) = (Ok (laid_entries ts @ es), st)"
  using assms(2-)
proof (induction ts arbitrary: a budget)
  case Nil
  then have b: "b = a + (b - a) div 4096 * 4096" by simp
  have "discover_from x L LIVE_GUID a (budget, ex) = discover_from x L LIVE_GUID b (budget, ex)"
    by (rule discover_from_quiet [OF _ _ b]) (use Nil.prems(1) in simp_all)
  then show ?case using Nil by (simp add: laid_entries_def)
next
  case (Cons t ts)
  obtain p s u where t: "t = (p, s, u)" by (cases t)
  have p: "p = a + (p - a) div 4096 * 4096" using Cons.prems(1) by (simp add: t)
  have "discover_from x L LIVE_GUID a (budget, ex) = discover_from x L LIVE_GUID p (budget, ex)"
    by (rule discover_from_quiet [OF _ _ p]) (use Cons.prems(1) in \<open>simp_all add: t\<close>)
  also have "\<dots> = (Ok (live_at s u p # laid_entries ts @ es), st)"
    using Cons.prems Cons.IH [of "p + 8192" "budget - 8192"]
    by (intro discover_one_entry [OF x]) (simp_all add: t entry_span_inside)
  finally show ?case by (simp add: t laid_entries_def)
qed

lemma discover_laid:
  assumes "crc_contract x" "laid x L 0 ts (length L)" "length L < 2 ^ 62" "8192 * length ts \<le> length L"
  shows "discover x L LIVE_GUID = Ok (laid_entries ts, 8192 * length ts, False)"
proof -
  have "discover_from x L LIVE_GUID 0 (length L * 4, False) =
      (Ok (laid_entries ts @ []), length L * 4 - 8192 * length ts, False)"
  proof (rule discover_laid_then [OF assms(1,2)])
    show "discover_from x L LIVE_GUID (length L) (length L * 4 - 8192 * length ts, False) =
        (Ok [], length L * 4 - 8192 * length ts, False)"
      by (rule discover_from_end) simp
  qed (use assms(4) in simp)
  then show ?thesis
    using assms(3,4) by (simp add: discover_def Let_def)
qed

lemma collect_discovered:
  "discover x L LIVE_GUID = Ok (found, n, False) \<Longrightarrow> collect_replay_chain x L LIVE_GUID = select_chain L found"
  by (simp add: collect_replay_chain_def live_not_zero)

lemma fold_update_overwrite:
  assumes "\<And>i. i < length e \<Longrightarrow> (off + n + i) mod k = p + i" "p + length e \<le> k" "length r = k"
  shows "fold (\<lambda>(i, b) r. r[(off + i) mod length r := b]) (enumerate n e) r = overwrite p e r"
  using assms
proof (induction e arbitrary: n p r)
  case (Cons b e)
  have "(off + n) mod k = p" using Cons.prems(1) [of 0] by simp
  then have "fold (\<lambda>(i, b) r. r[(off + i) mod length r := b]) (enumerate n (b # e)) r =
      fold (\<lambda>(i, b) r. r[(off + i) mod length r := b]) (enumerate (Suc n) e) (r[p := b])"
    by (simp add: Cons.prems(3))
  also have "\<dots> = overwrite (Suc p) e (r[p := b])"
    using Cons.prems Cons.prems(1) [of "Suc _"] by (intro Cons.IH) auto
  also have "\<dots> = overwrite p (b # e) r"
    using Cons.prems by (intro nth_equalityI) (auto simp: nth_overwrite nth_list_update nth_Cons')
  finally show ?case .
qed simp

lemma splice_wrapping_eq:
  assumes "off \<le> length r" "length e \<le> length r" "length r \<le> off + length e" "0 < length r"
  shows "splice_wrapping off e r = overwrite 0 (drop (length r - off) e) (overwrite off (take (length r - off) e) r)"
proof -
  let ?k = "length r - off"
  let ?step = "\<lambda>(i, b) r. r[(off + i) mod length r := b]"
  have "enumerate 0 (take ?k e @ drop ?k e) = enumerate 0 (take ?k e) @ enumerate (0 + length (take ?k e)) (drop ?k e)"
    by (rule enumerate_append_eq)
  then have "splice_wrapping off e r =
      fold ?step (enumerate ?k (drop ?k e)) (fold ?step (enumerate 0 (take ?k e)) r)"
    using assms by (simp add: splice_wrapping_def)
  also have "fold ?step (enumerate 0 (take ?k e)) r = overwrite off (take ?k e) r"
    using assms by (intro fold_update_overwrite [where k = "length r"]) auto
  also have "fold ?step (enumerate ?k (drop ?k e)) (overwrite off (take ?k e) r) =
      overwrite 0 (drop ?k e) (overwrite off (take ?k e) r)"
    using assms by (intro fold_update_overwrite [where k = "length r"]) auto
  finally show ?thesis .
qed

section \<open>The tests pass\<close>

text \<open>What the selection does with entries of this length, computed.\<close>

lemmas select_eval = select_chain_def laid_entries_def chain_head_def entry_starting_at_def
  one_parsed_def walk_chain.simps checked_add_def sequences_def replayed_offsets_def
  decoded_write_def test_write_def target_of_def

lemma contiguous_chain_Ok:
  assumes "crc_contract x"
  shows "contiguous_chain x 4 = Ok (overwrite 24576 (live x 4 0) (overwrite 16384 (live x 3 0)
    (overwrite 8192 (live x 2 0) (overwrite 0 (live x 1 0) (replicate TEST_REGION_LEN 0)))))"
proof -
  have "[1..<Suc 4] = [1, 2, 3, 4]" by (simp add: upt_rec)
  then show ?thesis
    using assms by (simp add: contiguous_chain_def splice_write_Ok)
qed

lemma contiguous_laid:
  assumes "crc_contract x"
  shows "\<exists>R. contiguous_chain x 4 = Ok R \<and> length R = TEST_REGION_LEN \<and>
    laid x R 0 [(0, 1, 0), (8192, 2, 0), (16384, 3, 0), (24576, 4, 0)] TEST_REGION_LEN"
  using assms by (simp add: contiguous_chain_Ok slice_simps)

lemma empty_log_guid_skips_replay_passes: "empty_log_guid_skips_replay x"
  by (simp add: empty_log_guid_skips_replay_def collect_replay_chain_def list_all_iff)

lemma contiguous_tests_pass:
  assumes x: "crc_contract x"
  shows "contiguous_multi_entry_chain_replays_in_full x"
    "a_well_formed_region_stays_well_inside_the_budget x"
proof -
  obtain R where R: "contiguous_chain x 4 = Ok R" "length R = TEST_REGION_LEN"
    "laid x R 0 [(0, 1, 0), (8192, 2, 0), (16384, 3, 0), (24576, 4, 0)] (length R)"
    using contiguous_laid [OF x] by auto
  have d: "discover x R LIVE_GUID =
      Ok (laid_entries [(0, 1, 0), (8192, 2, 0), (16384, 3, 0), (24576, 4, 0)], 8192 * 4, False)"
    using discover_laid [OF x R(3)] R(2) by simp
  show "contiguous_multi_entry_chain_replays_in_full x"
    by (simp add: contiguous_multi_entry_chain_replays_in_full_def R(1,2) collect_discovered [OF d] select_eval)
  show "a_well_formed_region_stays_well_inside_the_budget x"
    by (simp add: a_well_formed_region_stays_well_inside_the_budget_def R(1,2) d select_eval)
qed

lemma laid_live:
  assumes "crc_contract x" "laid x L a ts b" "discover_from x L LIVE_GUID b (budget, ex) = (Ok es, st)"
  shows "discover_from x L LIVE_GUID a (budget + 8192 * length ts, ex) = (Ok (laid_entries ts @ es), st)"
  using discover_laid_then [OF assms(1,2), of "budget + 8192 * length ts"] assms(3) by simp

text \<open>A torn entry among sound ones costs its length and is passed over.\<close>

lemma discover_torn:
  assumes x: "crc_contract x" "crc_detects_a_byte x" and a: "laid x L 0 ts p"
    and t: "entry_span L p 8192 = (live x s t)[i := v]" "64 \<le> i" "i < 4096 \<or> 4100 \<le> i" "i < 8192"
      "v \<noteq> live x s t ! i" "p + 8192 \<le> length L"
    and b: "laid x L (p + 8192) ts' (length L)"
    and n: "length L < 2 ^ 62" "8192 * Suc (length ts + length ts') \<le> length L"
    and e: "es = laid_entries (ts @ ts')" "k = 8192 * Suc (length ts + length ts')"
  shows "discover x L LIVE_GUID = Ok (es, k, False)"
proof -
  let ?b = "length L * 4 - 8192 * Suc (length ts + length ts')"
  let ?r = "(Ok (laid_entries ts'), ?b, False) :: (log_entry list, error) res \<times> nat \<times> bool"
  have "discover_from x L LIVE_GUID (p + 8192) (?b + 8192 * length ts', False) = ?r"
    using laid_live [OF x(1) b] by (simp add: discover_from_end)
  moreover have "subslice (p + 4096) (p + 4096 + 4) L = subslice 4096 4100 (live x s t)"
    using t(1,3,6) subslice_entry_span [of 4100 8192 p L 4096]
    by (simp add: subslice_list_update add.assoc)
  then have "discover_from x L LIVE_GUID (p + 4096) st = discover_from x L LIVE_GUID (p + 8192) st" for st
    using t(6) discover_from_skip [of "p + 4096" L]
    by (simp add: one_entry_facts(6) [OF x(1)] add.assoc)
  moreover have "discover_from x L LIVE_GUID p (?b + 8192 * length ts' + 8192, False) =
      discover_from x L LIVE_GUID (p + 4096) (?b + 8192 * length ts', False)"
    using parse_torn_entry [OF x _ _ t(1,2,4,5), of "?b + 8192 * length ts' + 8192" False] t(6)
    by (intro discover_from_reject) simp_all
  ultimately have "discover_from x L LIVE_GUID p (?b + 8192 * length ts' + 8192, False) = ?r"
    by simp
  from laid_live [OF x(1) a this]
  have "discover_from x L LIVE_GUID 0 (length L * 4, False) =
      (Ok (laid_entries ts @ laid_entries ts'), ?b, False)"
    using n(2) by (simp add: algebra_simps)
  then show ?thesis
    using n e by (simp add: discover_def Let_def laid_entries_def)
qed

lemma torn_region:
  assumes x: "crc_contract x" "crc_detects_a_byte x"
  shows "\<exists>R. torn_chain x = Ok R \<and>
    discover x R LIVE_GUID = Ok (laid_entries [(0, 1, 0), (8192, 2, 0), (24576, 4, 0)], 32768, False) \<and>
    length R = TEST_REGION_LEN"
proof -
  let ?C = "overwrite 24576 (live x 4 0) (overwrite 16384 (live x 3 0)
    (overwrite 8192 (live x 2 0) (overwrite 0 (live x 1 0) (replicate TEST_REGION_LEN 0))))"
  let ?R = "?C[20580 := ?C ! 20580 XOR 0xFF]"
  have len: "length ?R = TEST_REGION_LEN" using x by simp
  have "torn_chain x = Ok ?R"
    using x by (simp add: torn_chain_def contiguous_chain_Ok flip_def)
  moreover have "discover x ?R LIVE_GUID =
      Ok (laid_entries [(0, 1, 0), (8192, 2, 0), (24576, 4, 0)], 32768, False)"
  proof (rule discover_torn [OF x, where p = 16384 and s = 3 and t = 0 and i = 4196
        and ts = "[(0, 1, 0), (8192, 2, 0)]" and ts' = "[(24576, 4, 0)]"])
    show "laid x ?R 0 [(0, 1, 0), (8192, 2, 0)] 16384" "laid x ?R (16384 + 8192) [(24576, 4, 0)] (length ?R)"
      using x by (simp_all add: slice_simps subslice_list_update)
    show "entry_span ?R 16384 8192 = (live x 3 0)[4196 := live x 3 0 ! 4196 XOR 0xFF]"
      using x by (simp add: entry_span_inside subslice_list_update_inside slice_simps nth_overwrite)
  qed (use x xor_FF_neq in simp_all)
  ultimately show ?thesis using len by blast
qed

lemma torn_entry_test_passes:
  assumes "crc_contract x" "crc_detects_a_byte x"
  shows "torn_entry_ends_the_chain_and_its_successors_are_dropped x"
proof -
  obtain R where R: "torn_chain x = Ok R" "length R = TEST_REGION_LEN"
    "discover x R LIVE_GUID = Ok (laid_entries [(0, 1, 0), (8192, 2, 0), (24576, 4, 0)], 32768, False)"
    using torn_region [OF assms] by blast
  show ?thesis
    by (simp add: torn_entry_ends_the_chain_and_its_successors_are_dropped_def R(1,2)
        collect_discovered [OF R(3)] select_eval)
qed

text \<open>A region that holds only sound entries is collected as the selection says.\<close>

abbreviation empty_region :: bytes where "empty_region \<equiv> replicate TEST_REGION_LEN 0"

lemma select_chain_region:
  assumes "length R = TEST_REGION_LEN"
  shows "select_chain R found = select_chain empty_region found"
  unfolding select_chain_def assms length_replicate ..

lemma collect_laid:
  assumes "crc_contract x" "laid x R 0 ts (length R)" "length R = TEST_REGION_LEN" "length ts \<le> 128"
  shows "collect_replay_chain x R LIVE_GUID = select_chain empty_region (laid_entries ts)"
  using discover_laid [OF assms(1,2)] assms(3,4) select_chain_region [OF assms(3)]
  by (subst collect_discovered) simp_all

lemma sound_region_tests_pass:
  assumes x: "crc_contract x"
  shows "a_sequence_gap_ends_the_chain x"
    "tail_anchors_the_chain_past_an_older_one_in_the_same_region x"
    "a_chain_starting_away_from_offset_zero_is_found_via_tail x"
    "a_chain_that_wraps_the_end_of_the_region_is_followed_round x"
proof -
  let ?R = "overwrite 16384 (live x 9 0) (overwrite 24576 (live x 4 0) (overwrite 16384 (live x 3 0)
    (overwrite 8192 (live x 2 0) (overwrite 0 (live x 1 0) empty_region))))"
  have "collect_replay_chain x ?R LIVE_GUID =
      select_chain empty_region (laid_entries [(0, 1, 0), (8192, 2, 0), (16384, 9, 0), (24576, 4, 0)])"
    using x by (intro collect_laid) (simp_all add: slice_simps)
  then show "a_sequence_gap_ends_the_chain x"
    using x by (simp add: a_sequence_gap_ends_the_chain_def contiguous_chain_Ok splice_write_Ok)
      (simp add: select_eval)
  let ?R = "overwrite 40960 (live x 2 32768) (overwrite 32768 (live x 1 32768)
    (overwrite 8192 (live x 6 0) (overwrite 0 (live x 5 0) empty_region)))"
  have "collect_replay_chain x ?R LIVE_GUID =
      select_chain empty_region (laid_entries [(0, 5, 0), (8192, 6, 0), (32768, 1, 32768), (40960, 2, 32768)])"
    using x by (intro collect_laid) (simp_all add: slice_simps)
  then show "tail_anchors_the_chain_past_an_older_one_in_the_same_region x"
    using x by (simp add: tail_anchors_the_chain_past_an_older_one_in_the_same_region_def splice_write_Ok)
      (simp add: select_eval)
  let ?R = "overwrite 32768 (live x 2 24576) (overwrite 24576 (live x 1 24576) empty_region)"
  have "collect_replay_chain x ?R LIVE_GUID =
      select_chain empty_region (laid_entries [(24576, 1, 24576), (32768, 2, 24576)])"
    using x by (intro collect_laid) (simp_all add: slice_simps)
  then show "a_chain_starting_away_from_offset_zero_is_found_via_tail x"
    using x by (simp add: a_chain_starting_away_from_offset_zero_is_found_via_tail_def splice_write_Ok)
      (simp add: select_eval)
  let ?R = "overwrite 0 (live x 3 1032192) (overwrite 1040384 (live x 2 1032192)
    (overwrite 1032192 (live x 1 1032192) empty_region))"
  have "collect_replay_chain x ?R LIVE_GUID =
      select_chain empty_region (laid_entries [(0, 3, 1032192), (1032192, 1, 1032192), (1040384, 2, 1032192)])"
    using x by (intro collect_laid) (simp_all add: slice_simps)
  then show "a_chain_that_wraps_the_end_of_the_region_is_followed_round x"
    using x by (simp add: a_chain_that_wraps_the_end_of_the_region_is_followed_round_def splice_write_Ok)
      (simp add: select_eval)
qed

lemma discover_with_foreign:
  assumes x: "crc_contract x" and a: "laid x R 0 ts p" and b: "laid x R (p + 8192) ts' (length R)"
    and e: "subslice p (p + 8192) R = one_entry x s t FOREIGN_GUID 0 0 (test_write s)" "p + 8192 \<le> length R"
    and n: "length R < 2 ^ 62" "8192 * (length ts + length ts') \<le> length R"
  shows "discover x R LIVE_GUID = Ok (laid_entries (ts @ ts'), 8192 * (length ts + length ts'), False)"
proof -
  let ?b = "length R * 4 - 8192 * (length ts + length ts')"
  have "FOREIGN_GUID \<noteq> LIVE_GUID" by (simp add: FOREIGN_GUID_def LIVE_GUID_def)
  then have "discover_from x R LIVE_GUID p st = discover_from x R LIVE_GUID (p + 8192) st" for st
    using e by (intro discover_foreign_entry [OF x]) simp_all
  moreover have "discover_from x R LIVE_GUID (p + 8192) (?b + 8192 * length ts', False) =
      (Ok (laid_entries ts' @ []), ?b, False)"
    by (rule laid_live [OF x b]) (simp add: discover_from_end)
  ultimately have "discover_from x R LIVE_GUID p (?b + 8192 * length ts', False) =
      (Ok (laid_entries ts'), ?b, False)" by simp
  from laid_live [OF x a this] show ?thesis
    using n by (simp add: discover_def Let_def laid_entries_def algebra_simps)
qed

lemma a_foreign_chain_entry_test_passes:
  assumes x: "crc_contract x"
  shows "a_foreign_chain_entry_ends_the_chain x"
proof -
  let ?R = "overwrite 16384 (one_entry x 3 0 FOREIGN_GUID 0 0 (test_write 3)) (overwrite 24576 (live x 4 0)
    (overwrite 16384 (live x 3 0) (overwrite 8192 (live x 2 0) (overwrite 0 (live x 1 0) empty_region))))"
  have "discover x ?R LIVE_GUID =
      Ok (laid_entries ([(0, 1, 0), (8192, 2, 0)] @ [(24576, 4, 0)]),
        8192 * (length [(0 :: nat, 1 :: u64, 0 :: u32), (8192, 2, 0)] + length [(24576 :: nat, 4 :: u64, 0 :: u32)]),
        False)"
    using x by (intro discover_with_foreign [where p = 16384 and s = 3 and t = 0]) (simp_all add: slice_simps)
  from collect_discovered [OF this]
  have "collect_replay_chain x ?R LIVE_GUID =
      select_chain empty_region (laid_entries [(0, 1, 0), (8192, 2, 0), (24576, 4, 0)])"
    using x select_chain_region [of ?R] by simp
  then show ?thesis
    using x by (simp add: a_foreign_chain_entry_ends_the_chain_def contiguous_chain_Ok splice_write_Ok)
      (simp add: select_eval)
qed

lemma collect_one_entry:
  assumes x: "crc_contract x" and w: "length (pw_sector w) = 4096"
  shows "collect_replay_chain x (overwrite 0 (one_entry x s 0 LIVE_GUID flushed lastoff w) empty_region) LIVE_GUID =
    Ok [one_parsed s 0 LIVE_GUID flushed lastoff w 0]"
proof -
  define E where "E = one_entry x s 0 LIVE_GUID flushed lastoff w"
  define e where "e = one_parsed s 0 LIVE_GUID flushed lastoff w 0"
  define R where "R = overwrite 0 E empty_region"
  have E: "length E = 8192"
    unfolding E_def by (rule one_entry_facts [OF x]; simp add: w)
  have R: "length R = TEST_REGION_LEN" "entry_span R 0 8192 = E"
    using E by (simp_all add: R_def entry_span_inside slice_simps)
  have "discover_from x R LIVE_GUID (0 + 8192) st = (Ok [], st)" for st
    by (rule discover_from_quiet_end [where k = 254]) (use R(1) E in \<open>simp_all add: R_def\<close>)
  then have "discover_from x R LIVE_GUID 0 (4194304, False) = (Ok [e], 4194304 - 8192, False)"
    unfolding e_def using R
    by (intro discover_one_entry [OF x _ w, where es = "[]", simplified]) (simp_all add: E_def)
  then have "discover x R LIVE_GUID = Ok ([e], 8192, False)"
    using R(1) by (simp add: discover_def Let_def)
  then have "collect_replay_chain x R LIVE_GUID = Ok [e]"
    by (simp add: collect_discovered) (simp add: select_chain_def chain_head_def entry_starting_at_def
        e_def one_parsed_def walk_chain.simps checked_add_def R(1))
  then show ?thesis by (simp only: R_def E_def e_def)
qed

lemma encode_then_parse_roundtrip_passes:
  assumes x: "crc_contract x"
  shows "encode_then_parse_roundtrip x"
proof -
  let ?s = "overwrite (LOG_SECTOR_SIZE - 4) (to_le_bytes (0xDEADBEEF :: u32))
    (overwrite 0 (to_le_bytes (0x1122334455667788 :: u64)) (replicate LOG_SECTOR_SIZE 0xAB))"
  define w where "w = \<lparr> pw_file_offset = 4 * 1024 * 1024, pw_sector = ?s \<rparr>"
  have w: "length (pw_sector w) = 4096" by (simp add: w_def)
  note E = one_entry_facts [OF x _ w, of LIVE_GUID 7 0 "64 * 1024 * 1024" "64 * 1024 * 1024", simplified length_test_guids, OF refl]
  have cp: "copy_into empty_region 0 (length e) e = (Ok (overwrite 0 e empty_region) :: (bytes, error) res)"
    if "length e = 8192" for e using that by simp
  have g: "replicate 16 0x42 = LIVE_GUID" by (simp add: LIVE_GUID_def)
  show ?thesis
    unfolding encode_then_parse_roundtrip_def Let_def g w_def [symmetric]
    by (simp only: E(1) cp [OF E(2)] collect_one_entry [OF x w] res_bind.simps unwrap_and.simps)
      (simp add: one_parsed_def decoded_write_def w_def)
qed

lemma straddling_span:
  assumes "length E = 8192" "length R = TEST_REGION_LEN"
    "subslice 1044480 1048576 R = take 4096 E" "subslice 0 4096 R = drop 4096 E"
  shows "entry_span R 1044480 8192 = E"
  using entry_span_halves [of 1044480 R 8192] assms by simp

lemma straddling_test_passes:
  assumes x: "crc_contract x"
  shows "an_entry_straddling_the_end_of_the_region_is_read_whole x"
proof -
  define E where "E = live x 2 1036288"
  define R where "R = overwrite 4096 (live x 3 1036288) (overwrite 0 (drop 4096 E)
    (overwrite 1044480 (take 4096 E) (overwrite 1036288 (live x 1 1036288) empty_region)))"
  let ?ts = "[(4096 :: nat, 3 :: u64, 1036288 :: u32), (1036288, 1, 1036288)]"
  have E: "length E = 8192" using x by (simp add: E_def)
  have R: "length R = TEST_REGION_LEN" using x E by (simp add: R_def)
  have span: "entry_span R 1044480 8192 = E"
    by (rule straddling_span [OF E R]) (use x E in \<open>simp_all add: R_def slice_simps\<close>)
  have "subslice 0 4 (drop 4096 E) = DATA_SECTOR_SIGNATURE"
    using one_entry_facts(6) [OF x, of LIVE_GUID "test_write 2" 2 1036288 0 0]
    by (simp add: E_def subslice_def)
  moreover have "subslice 0 4 (subslice 0 4096 R) = subslice 0 4 (drop 4096 E)"
    using x E by (simp add: R_def slice_simps)
  ultimately have "subslice 0 (0 + 4) R \<noteq> LOG_ENTRY_SIGNATURE" by (simp add: subslice_subslice)
  then have skip: "discover_from x R LIVE_GUID 0 st = discover_from x R LIVE_GUID (0 + 4096) st" for st
    by (intro discover_from_skip) (simp_all add: R)
  have "discover_from x R LIVE_GUID (1044480 + 8192) st = (Ok [], st)" for st
    by (rule discover_from_end) (simp add: R)
  then have "discover_from x R LIVE_GUID 1044480 (4177920, False) = (Ok [live_at 2 1036288 1044480], 4169728, False)"
    using R span by (intro discover_one_entry [OF x _ _ , where es = "[]", simplified]) (simp_all add: E_def)
  moreover have "laid x R 4096 ?ts 1044480"
    using x E by (simp add: R_def slice_simps)
  ultimately have "discover_from x R LIVE_GUID 4096 (4177920 + 8192 * length ?ts, False) =
      (Ok (laid_entries ?ts @ [live_at 2 1036288 1044480]), 4169728, False)"
    by (intro laid_live [OF x])
  then have "discover x R LIVE_GUID =
      Ok (laid_entries (?ts @ [(1044480, 2, 1036288)]), 24576, False)"
    using R skip by (simp add: discover_def Let_def laid_entries_def)
  from collect_discovered [OF this]
  have c: "collect_replay_chain x R LIVE_GUID =
      select_chain empty_region (laid_entries (?ts @ [(1044480, 2, 1036288)]))"
    by (simp only: select_chain_region [OF R])
  have "splice_wrapping 1044480 E (overwrite 1036288 (live x 1 1036288) empty_region) =
      overwrite 0 (drop 4096 E) (overwrite 1044480 (take 4096 E) (overwrite 1036288 (live x 1 1036288) empty_region))"
    using x E by (subst splice_wrapping_eq) simp_all
  then have "an_entry_straddling_the_end_of_the_region_is_read_whole x \<longleftrightarrow>
      unwrap_and (collect_replay_chain x R LIVE_GUID)
        (\<lambda>chain. sequences chain = [1, 2, 3] \<and>
           le_log_offset_in_region (chain ! 1) = word_of_nat 1044480 \<and>
           (case le_descriptors (chain ! 1) of
              [DataDesc _ _ file_offset _ sector] \<Rightarrow>
                file_offset = target_of 2 \<and> sector = replicate LOG_SECTOR_SIZE 0x12
            | _ \<Rightarrow> False))"
    using x E unfolding an_entry_straddling_the_end_of_the_region_is_read_whole_def Let_def
    by (simp add: splice_write_Ok one_write_entry_Ok R_def flip: E_def)
  then show ?thesis unfolding c by (simp add: select_eval)
qed

lemma torn_straddling_test_passes:
  assumes x: "crc_contract x" "crc_detects_a_byte x"
  shows "a_torn_straddling_entry_ends_the_chain x"
proof -
  define E where "E = live x 2 1036288"
  define R0 where "R0 = overwrite 0 (drop 4096 E)
    (overwrite 1044480 (take 4096 E) (overwrite 1036288 (live x 1 1036288) empty_region))"
  define v where "v = R0 ! 100 XOR 0xFF"
  define R where "R = R0[100 := v]"
  have E: "length E = 8192" using x by (simp add: E_def)
  have R: "length R0 = TEST_REGION_LEN" "length R = TEST_REGION_LEN" using x E by (simp_all add: R0_def R_def)
  have "R0 ! 100 = E ! 4196" using x E by (simp add: R0_def nth_overwrite)
  then have v: "v \<noteq> E ! 4196" by (simp add: v_def xor_FF_neq)
  have halves: "subslice 1044480 1048576 R0 = take 4096 E" "subslice 0 4096 R0 = drop 4096 E"
    using x E by (simp_all add: R0_def slice_simps)
  have span: "entry_span R 1044480 8192 = E[4196 := v]"
    by (rule straddling_span) (use E R halves in \<open>simp_all add: R_def subslice_list_update
        subslice_list_update_inside drop_update_swap\<close>)
  have "subslice 0 4 (subslice 0 4096 R0) = subslice 4096 4100 E"
    unfolding halves(2) by (simp add: subslice_def)
  then have "subslice 0 (0 + 4) R \<noteq> LOG_ENTRY_SIGNATURE"
    using one_entry_facts(6) [OF x(1), of LIVE_GUID "test_write 2" 2 1036288 0 0]
    by (simp add: R_def E_def subslice_subslice subslice_list_update)
  then have skip: "discover_from x R LIVE_GUID 0 st = discover_from x R LIVE_GUID (0 + 4096) st" for st
    by (intro discover_from_skip) (simp_all add: R)
  have "parse_log_entry x R 1044480 LIVE_GUID (4177920 + 8192, False) = (Err RejectCorrupt, 4177920 + 8192 - 8192, False)"
    using R v span by (intro parse_torn_entry [OF x, where i = 4196]) (simp_all add: E_def)
  then have "discover_from x R LIVE_GUID 1044480 (4177920 + 8192, False) =
      discover_from x R LIVE_GUID (1044480 + 4096) (4177920, False)"
    using R by (intro discover_from_reject) simp_all
  also have "\<dots> = (Ok [], 4177920, False)"
    by (rule discover_from_end) (simp add: R)
  finally have tail: "discover_from x R LIVE_GUID 1044480 (4177920 + 8192, False) = (Ok [], 4177920, False)" .
  have "laid x R 4096 [(1036288, 1, 1036288)] 1044480"
    using x E R by (simp add: R_def R0_def slice_simps subslice_list_update)
  from laid_live [OF x(1) this tail]
  have "discover x R LIVE_GUID = Ok (laid_entries [(1036288, 1, 1036288)], 16384, False)"
    using R skip by (simp add: discover_def Let_def)
  from collect_discovered [OF this]
  have c: "collect_replay_chain x R LIVE_GUID = select_chain empty_region (laid_entries [(1036288, 1, 1036288)])"
    by (simp only: select_chain_region [OF R(2)])
  have sw: "splice_wrapping 1044480 E (overwrite 1036288 (live x 1 1036288) empty_region) = R0"
    using x E by (subst splice_wrapping_eq) (simp_all add: R0_def)
  have "flip 100 R0 = Ok R" using R by (simp add: flip_def R_def v_def)
  then have "a_torn_straddling_entry_ends_the_chain x \<longleftrightarrow>
      unwrap_and (collect_replay_chain x R LIVE_GUID) (\<lambda>chain. sequences chain = [1])"
    using x sw unfolding a_torn_straddling_entry_ends_the_chain_def Let_def
    by (simp add: splice_write_Ok one_write_entry_Ok flip: E_def)
  then show ?thesis unfolding c by (simp add: select_eval)
qed

lemma unlocatable_test_passes:
  assumes x: "crc_contract x" "crc_detects_a_byte x"
  shows "an_unlocatable_chain_start_is_refused_rather_than_read_as_nothing_to_do x"
proof -
  define R0 where "R0 = overwrite 24576 (live x 4 8192) (overwrite 24576 (live x 4 0)
    (overwrite 16384 (live x 3 0) (overwrite 8192 (live x 2 0) (overwrite 0 (live x 1 0) empty_region))))"
  define v where "v = R0 ! 12295 XOR 0xFF"
  define R where "R = R0[12295 := v]"
  have R: "length R0 = TEST_REGION_LEN" "length R = TEST_REGION_LEN" using x by (simp_all add: R0_def R_def)
  have "R0 ! 12295 = live x 2 0 ! 4103" using x by (simp add: R0_def nth_overwrite)
  then have v: "v \<noteq> live x 2 0 ! 4103" by (simp add: v_def xor_FF_neq)
  have "discover x R LIVE_GUID = Ok (laid_entries [(0, 1, 0), (16384, 3, 0), (24576, 4, 8192)], 32768, False)"
  proof (rule discover_torn [OF x, where p = 8192 and s = 2 and t = 0 and i = 4103 and v = v
        and ts = "[(0, 1, 0)]" and ts' = "[(16384, 3, 0), (24576, 4, 8192)]"])
    show "laid x R 0 [(0, 1, 0)] 8192" "laid x R (8192 + 8192) [(16384, 3, 0), (24576, 4, 8192)] (length R)"
      using x by (simp_all add: R_def R0_def slice_simps subslice_list_update)
    show "entry_span R 8192 8192 = (live x 2 0)[4103 := v]"
      using x by (simp add: R_def R0_def entry_span_inside subslice_list_update_inside slice_simps)
  qed (use R v in simp_all)
  from collect_discovered [OF this]
  have c: "collect_replay_chain x R LIVE_GUID =
      select_chain empty_region (laid_entries [(0, 1, 0), (16384, 3, 0), (24576, 4, 8192)])"
    by (simp only: select_chain_region [OF R(2)])
  have "flip 12295 R0 = Ok R" using R by (simp add: flip_def R_def v_def)
  then have "an_unlocatable_chain_start_is_refused_rather_than_read_as_nothing_to_do x \<longleftrightarrow>
      (case collect_replay_chain x R LIVE_GUID of
         Err (LogUnassembled m) \<Rightarrow> str_contains m ''tail'' | _ \<Rightarrow> False)"
    using x unfolding an_unlocatable_chain_start_is_refused_rather_than_read_as_nothing_to_do_def R0_def
    by (simp add: contiguous_chain_Ok splice_write_Ok)
  also have "\<dots>" unfolding c by (simp add: select_eval str_contains_def upt_rec)
  finally show ?thesis .
qed

section \<open>Slots that claim the rest of the region\<close>

definition claims_rest :: "bytes \<Rightarrow> nat \<Rightarrow> bool" where
  "claims_rest R p \<longleftrightarrow>
     subslice p (p + 4) R = LOG_ENTRY_SIGNATURE \<and> subslice (p + 4) (p + 8) R = replicate 4 0 \<and>
     subslice (p + 8) (p + 12) R = to_le_bytes (word_of_nat (length R - p) :: u32) \<and>
     subslice (p + 32) (p + 48) R = LIVE_GUID"

lemma claim_the_rest_Ok:
  assumes "p + 48 \<le> length R" "subslice (p + 4) (p + 8) R = replicate 4 0"
  shows "\<exists>R'. claim_the_rest p R = Ok R' \<and> length R' = length R \<and> claims_rest R' p \<and>
    (\<forall>a b. b \<le> p \<or> p + 48 \<le> a \<longrightarrow> subslice a b R' = subslice a b R)"
  using assms by (simp add: claim_the_rest_def claims_rest_def Let_def slice_simps)

lemma claims_rest_cong:
  "claims_rest R q \<Longrightarrow> q + 48 \<le> p \<Longrightarrow> length R' = length R \<Longrightarrow>
   \<forall>a b. b \<le> p \<or> p + 48 \<le> a \<longrightarrow> subslice a b R' = subslice a b R \<Longrightarrow> claims_rest R' q"
  by (simp add: claims_rest_def)

lemma claims_Ok:
  assumes "n * 4096 \<le> length R0" "\<forall>i < n. subslice (i * 4096 + 4) (i * 4096 + 8) R0 = replicate 4 0"
  shows "\<exists>R. foldl (\<lambda>region i. res_bind region (claim_the_rest (i * LOG_SECTOR_SIZE))) (Ok R0) [0..<n] = Ok R \<and>
    length R = length R0 \<and> (\<forall>i < n. claims_rest R (i * 4096)) \<and>
    (\<forall>a b. n * 4096 \<le> a \<longrightarrow> subslice a b R = subslice a b R0)"
  using assms
proof (induction n)
  case (Suc n)
  obtain R where R: "foldl (\<lambda>region i. res_bind region (claim_the_rest (i * LOG_SECTOR_SIZE))) (Ok R0) [0..<n] = Ok R"
    "length R = length R0" "\<forall>i < n. claims_rest R (i * 4096)"
    "\<forall>a b. n * 4096 \<le> a \<longrightarrow> subslice a b R = subslice a b R0"
    using Suc by auto
  have room: "n * 4096 + 48 \<le> length R" using R(2) Suc.prems(1) by simp
  have zeros: "subslice (n * 4096 + 4) (n * 4096 + 8) R = replicate 4 0"
    using R(4) Suc.prems(2) by (metis le_add1 lessI)
  obtain R' where R': "claim_the_rest (n * 4096) R = Ok R'" "length R' = length R" "claims_rest R' (n * 4096)"
    "\<forall>a b. b \<le> n * 4096 \<or> n * 4096 + 48 \<le> a \<longrightarrow> subslice a b R' = subslice a b R"
    using claim_the_rest_Ok [OF room zeros] by blast
  have "claims_rest R' (i * 4096)" if "i < n" for i
  proof (rule claims_rest_cong)
    show "claims_rest R (i * 4096)" using that R(3) by blast
    show "i * 4096 + 48 \<le> n * 4096" using that by simp
  qed (rule R'(2,4))+
  then have "\<forall>i < Suc n. claims_rest R' (i * 4096)" using R'(3) less_Suc_eq by auto
  moreover have "\<forall>a b. Suc n * 4096 \<le> a \<longrightarrow> subslice a b R' = subslice a b R0"
    using R(4) R'(4) by auto
  ultimately show ?case using R R' by simp
qed simp

lemma parse_claim:
  assumes x: "crc_contract x" and c: "claims_rest R p" "4096 dvd p" "4096 dvd length R" "p < length R" "length R < 2 ^ 32"
    and n: "crc32c x (drop p R) \<noteq> 0"
  shows "\<exists>st'. parse_log_entry x R p LIVE_GUID st = (Err RejectCorrupt, st')"
    "length R - p \<le> b \<Longrightarrow> parse_log_entry x R p LIVE_GUID (b, ex) = (Err RejectCorrupt, b - (length R - p), ex)"
    "b < length R - p \<Longrightarrow> parse_log_entry x R p LIVE_GUID (b, ex) = (Err RejectCorrupt, b, True)"
proof -
  let ?n = "length R - p"
  have room: "4096 \<le> ?n" "4096 dvd ?n" using c(2-4) by (auto intro: dvd_imp_le dvd_diff_nat)
  have span: "entry_span R p ?n = drop p R" using c(4) by (simp add: entry_span_def)
  have z: "overwrite 4 (replicate 4 0) (drop p R) = drop p R"
    using c(1) room by (intro overwrite_id [of 8]) (simp_all add: claims_rest_def subslice_def add.commute)
  have s: "subslice 4 8 (drop p R) = replicate 4 0"
    using c(1) by (simp add: claims_rest_def subslice_def add.commute)
  have "from_le_bytes (replicate 4 0) = (0 :: u32)"
    using from_to_le_u32 [of 0] by (simp del: from_to_le_u32)
  then have body: "parse_entry_body x R p ?n LIVE_GUID = Err RejectCorrupt"
    using n room c(4) by (subst parse_entry_body_eq [OF x]) (simp_all add: span z s)
  have len: "unat (from_le_bytes (subslice (p + 8) (p + 12) R) :: u32) = ?n"
    using c(1,5) by (simp add: claims_rest_def unat_of_nat)
  show *: "?n \<le> b \<Longrightarrow> parse_log_entry x R p LIVE_GUID (b, ex) = (Err RejectCorrupt, b - ?n, ex)"
    "b < ?n \<Longrightarrow> parse_log_entry x R p LIVE_GUID (b, ex) = (Err RejectCorrupt, b, True)" for b ex
    using room c(1) by (simp_all add: parse_log_entry_eq Let_def len body) (auto simp: claims_rest_def)
  show "\<exists>st'. parse_log_entry x R p LIVE_GUID st = (Err RejectCorrupt, st')"
    using * by (cases st) (metis not_less)
qed

lemma exhausted_for_good:
  assumes "discover_from x L g pos st = (Ok es, st')"
  shows "snd st \<longrightarrow> snd st'"
  using assms
proof (induction rule: discover_from_induct)
  case (Found pos st e st1 es st2)
  then show ?case by (cases st) (auto simp: parse_log_entry_eq Let_def split: if_splits)
next
  case (Skip pos st j st1 es st2)
  then show ?case by (cases st) (auto simp: parse_log_entry_eq Let_def split: if_splits)
qed simp

lemma discover_all_rejected:
  assumes "\<And>p st. p < length L \<Longrightarrow> 4096 dvd p \<Longrightarrow> \<exists>r st'. parse_log_entry x L p g st = (Err r, st')"
    and "4096 dvd a"
  shows "\<exists>st'. discover_from x L g a st = (Ok [], st')"
  using assms(2)
proof (induction "length L - a" arbitrary: a st rule: less_induct)
  case less
  show ?case
  proof (cases "length L < a + 4096")
    case True
    then show ?thesis by (simp add: discover_from_end)
  next
    case False
    then obtain r st' where "parse_log_entry x L a g st = (Err r, st')"
      using assms(1) [of a st] less.prems by auto
    moreover have "\<exists>st''. discover_from x L g (a + 4096) st' = (Ok [], st'')"
      using less.prems False by (intro less.hyps) auto
    ultimately show ?thesis using False by (simp add: discover_from_reject)
  qed
qed

lemma overlapping_claims_test_passes:
  assumes x: "crc_contract x"
    and c: "\<And>R p. overlapping_claims = Ok R \<Longrightarrow> p < length R \<Longrightarrow> 4096 dvd p \<Longrightarrow> crc32c x (drop p R) \<noteq> 0"
  shows "a_region_of_overlapping_claims_is_checksummed_a_bounded_number_of_times x"
proof -
  obtain R where R: "overlapping_claims = Ok R" "length R = 4194304" "\<forall>i < 1024. claims_rest R (i * 4096)"
    using claims_Ok [of 1024 "replicate (4 * 1024 * 1024) 0"]
    by (auto simp: overlapping_claims_def)
  have dvd: "(4096 :: nat) dvd 4194304" by (intro dvdI [of _ _ 1024]) simp
  have "\<exists>r st'. parse_log_entry x R p LIVE_GUID st = (Err r, st')" if p: "p < length R" "4096 dvd p" for p st
  proof -
    obtain i where i: "p = i * 4096" using p(2) by (metis dvdE mult.commute)
    then have "claims_rest R p" using R(2,3) p(1) by simp
    then show ?thesis
      using parse_claim(1) [OF x _ p(2) _ p(1) _ c [OF R(1) p]] R(2) dvd by fastforce
  qed
  then obtain st where "discover_from x R LIVE_GUID 0 (16777216, False) = (Ok [], st)"
    using discover_all_rejected [of R x LIVE_GUID 0 "(16777216, False)"] by auto
  then show ?thesis
    by (cases st) (simp add: a_region_of_overlapping_claims_is_checksummed_a_bounded_number_of_times_def
        R(1,2) discover_def)
qed

lemma hidden_entry_laid:
  assumes x: "crc_contract x"
  shows "hidden_entry x = Ok (overwrite 57344 (live x 1 57344) (replicate 65536 0))"
  using x by (simp add: hidden_entry_def splice_write_Ok)

lemma crowded_test_passes:
  assumes x: "crc_contract x"
    and c: "\<And>R i. crowded_region x = Ok R \<Longrightarrow> i < 5 \<Longrightarrow> crc32c x (drop (i * 4096) R) \<noteq> 0"
  shows "a_valid_entry_behind_slots_that_exhaust_the_budget_is_not_silently_dropped x"
proof -
  let ?H = "overwrite 57344 (live x 1 57344) (replicate 65536 0)"
  have H: "length ?H = 65536" using x by simp
  have "discover x ?H LIVE_GUID = Ok (laid_entries [(57344, 1, 57344)], 8192, False)"
    using discover_laid [OF x, of ?H "[(57344, 1, 57344)]"] x by (simp add: slice_simps)
  from collect_discovered [OF this]
  have control: "unwrap_and (collect_replay_chain x ?H LIVE_GUID) (\<lambda>control. sequences control = [1])"
    unfolding select_chain_def H by (simp add: select_eval)
  obtain R where R: "crowded_region x = Ok R" "length R = 65536" "\<forall>i < 13. claims_rest R (i * 4096)"
    using claims_Ok [of 13 ?H] x by (auto simp: crowded_region_def hidden_entry_laid slice_simps)
  have dvd: "(4096 :: nat) dvd 65536" by (intro dvdI [of _ _ 16]) simp
  have step: "discover_from x R LIVE_GUID (i * 4096) (b, ex) =
      discover_from x R LIVE_GUID (Suc i * 4096)
        (if 65536 - i * 4096 \<le> b then (b - (65536 - i * 4096), ex) else (b, True))" if "i < 5" for i b ex
  proof -
    have "claims_rest R (i * 4096)" "crc32c x (drop (i * 4096) R) \<noteq> 0" using that R(3) c [OF R(1)] by simp_all
    from parse_claim(2,3) [OF x this(1) _ _ _ _ this(2)] show ?thesis
      using that R(2) dvd discover_from_reject [of "i * 4096" R x LIVE_GUID] by (simp add: add.commute)
  qed
  have "discover_from x R LIVE_GUID 0 (262144, False) = discover_from x R LIVE_GUID 20480 (24576, True)"
    using step [of 0 262144 False] step [of 1 196608 False] step [of 2 135168 False] step [of 3 77824 False]
      step [of 4 24576 False] by simp
  moreover obtain es st where "discover_from x R LIVE_GUID 20480 (24576, True) = (Ok es, st)"
    using discover_from_Ok by blast
  moreover from exhausted_for_good [OF this] have "snd st" by simp
  ultimately have "\<exists>n. discover x R LIVE_GUID = Ok (es, n, True)"
    using R(2) by (cases st) (simp add: discover_def Let_def)
  then have "collect_replay_chain x R LIVE_GUID =
      Err (Corrupt (''the log region declares more entry bytes than discovery will checksum, ''
          @ ''so entries in it may not have been examined''))"
    by (auto simp: collect_replay_chain_def live_not_zero)
  with control show ?thesis
    by (simp add: a_valid_entry_behind_slots_that_exhaust_the_budget_is_not_silently_dropped_def
        hidden_entry_laid [OF x] R(1) str_contains_def upt_rec)
qed

end
