(* ===== verification/Tests_Replay.thy ===== *)
theory Tests_Replay
  imports Tests_Log Log_Replay
begin

unbundle bit_operations_syntax

text \<open>
  The unit tests of \<open>src/log.rs\<close> that apply a chain, run against the model: the two in-memory
  devices the tests bring (one that cannot grow and panics out of range, one that grows and refuses
  to be written past its end), the hand-built entry with a zero descriptor, and the tests on what
  reaches the device and what is refused before anything does. \<open>flush\<close>, \<open>set_len\<close> and \<open>can_grow\<close>
  of the first device are the defaults of \<open>rust-fs-core\<close>'s trait, which the tests describe.
\<close>

section \<open>The devices of the tests\<close>

definition mem_ops :: "bytes dev_ops" where
  "mem_ops =
     \<lparr> dev_size_bytes = (\<lambda>m. word_of_nat (length m)),
       dev_read_at = (\<lambda>m offset n. get_slice m (unat offset) (unat offset + n)),
       dev_write_at = (\<lambda>offset buf m.
         case copy_into m (unat offset) (unat offset + length buf) buf of
           Ok m' \<Rightarrow> (Ok (), m') | Err e \<Rightarrow> (Err e, m) | Panic \<Rightarrow> (Panic, m)),
       dev_flush = (\<lambda>m. (Ok (), m)),
       dev_set_len = (\<lambda>new_len m. (Err FsReadOnly, m)),
       dev_is_writable = (\<lambda>_. True),
       dev_can_grow = (\<lambda>_. False) \<rparr>"

definition mem_filled :: "nat \<Rightarrow> u8 \<Rightarrow> bytes" where
  "mem_filled len fill = replicate len fill"

definition mem_byte_at :: "bytes \<Rightarrow> u64 \<Rightarrow> (u8, fs_error) res" where
  "mem_byte_at dev off = res_bind (dev_read_at mem_ops dev off 1) (\<lambda>b. Ok (b ! 0))"

record growable_mem =
  gm_bytes :: bytes
  gm_extensions :: nat

definition growable_filled :: "nat \<Rightarrow> u8 \<Rightarrow> growable_mem" where
  "growable_filled len fill = \<lparr> gm_bytes = replicate len fill, gm_extensions = 0 \<rparr>"

definition growable_ops :: "growable_mem dev_ops" where
  "growable_ops =
     \<lparr> dev_size_bytes = (\<lambda>m. word_of_nat (length (gm_bytes m))),
       dev_read_at = (\<lambda>m offset n. get_slice (gm_bytes m) (unat offset) (unat offset + n)),
       dev_write_at = (\<lambda>offset buf m.
         case checked_add offset (word_of_nat (length buf)) of
           None \<Rightarrow> (Panic, m)
         | Some end \<Rightarrow>
             if word_of_nat (length (gm_bytes m)) < end
             then (Err (FsOutOfBounds offset (word_of_nat (length buf)) (word_of_nat (length (gm_bytes m)))), m)
             else
               case copy_into (gm_bytes m) (unat offset) (unat offset + length buf) buf of
                 Ok b \<Rightarrow> (Ok (), m \<lparr> gm_bytes := b \<rparr>) | Err e \<Rightarrow> (Err e, m) | Panic \<Rightarrow> (Panic, m)),
       dev_flush = (\<lambda>m. (Ok (), m)),
       dev_set_len = (\<lambda>new_len m.
         (Ok (), m \<lparr> gm_bytes := resize (unat new_len) (gm_bytes m), gm_extensions := gm_extensions m + 1 \<rparr>)),
       dev_is_writable = (\<lambda>_. True),
       dev_can_grow = (\<lambda>_. True) \<rparr>"

definition zero_descriptor_entry :: "ext \<Rightarrow> u64 \<Rightarrow> guid \<Rightarrow> u64 \<Rightarrow> u64 \<Rightarrow> (bytes, error) res" where
  "zero_descriptor_entry x seq guid file_offset len =
     res_bind (copy_into (replicate LOG_SECTOR_SIZE 0) 0 4 LOG_ENTRY_SIGNATURE) (\<lambda>buf.
     res_bind (copy_into buf 8 12 (to_le_bytes (word_of_nat LOG_SECTOR_SIZE :: u32))) (\<lambda>buf.
     res_bind (copy_into buf 12 16 (to_le_bytes (0 :: u32))) (\<lambda>buf.
     res_bind (copy_into buf 16 24 (to_le_bytes seq)) (\<lambda>buf.
     res_bind (copy_into buf 24 28 (to_le_bytes (1 :: u32))) (\<lambda>buf.
     res_bind (copy_into buf 32 48 guid) (\<lambda>buf.
     let d = LOG_ENTRY_HEADER_SIZE in
     res_bind (copy_into buf d (d + 4) ZERO_DESC_SIGNATURE) (\<lambda>buf.
     res_bind (copy_into buf (d + 8) (d + 16) (to_le_bytes len)) (\<lambda>buf.
     res_bind (copy_into buf (d + 16) (d + 24) (to_le_bytes file_offset)) (\<lambda>buf.
     res_bind (copy_into buf (d + 24) (d + 32) (to_le_bytes seq)) (\<lambda>buf.
     res_bind (entry_crc x buf) (\<lambda>crc.
     copy_into buf 4 8 (to_le_bytes crc))))))))))))"

section \<open>The tests\<close>

text \<open>What a test says of a device once a chain has been collected and applied to it.\<close>

definition applied_and :: "(unit, error) res \<times> 'd \<Rightarrow> ('d \<Rightarrow> bool) \<Rightarrow> bool" where
  "applied_and r P \<longleftrightarrow> (case r of (Ok _, d) \<Rightarrow> P d | _ \<Rightarrow> False)"

definition refused_and :: "(unit, error) res \<times> 'd \<Rightarrow> (error \<Rightarrow> 'd \<Rightarrow> bool) \<Rightarrow> bool" where
  "refused_and r P \<longleftrightarrow> (case r of (Err e, d) \<Rightarrow> P e d | _ \<Rightarrow> False)"

definition successors_of_a_torn_entry_never_reach_the_device :: "ext \<Rightarrow> bool" where
  "successors_of_a_torn_entry_never_reach_the_device x \<longleftrightarrow>
     unwrap_and
       (res_bind (torn_chain x) (\<lambda>region. collect_replay_chain x region LIVE_GUID))
       (\<lambda>chain. applied_and (apply_chain x mem_ops chain (mem_filled (8 * 1024 * 1024) 0xCC)) (\<lambda>dev.
          mem_byte_at dev (target_of 1) = Ok 0x11 \<and> mem_byte_at dev (target_of 2) = Ok 0x12 \<and>
          mem_byte_at dev (target_of 3) = Ok 0xCC \<and> mem_byte_at dev (target_of 4) = Ok 0xCC))"

definition zero_descriptor_parses_and_zeroes_its_span :: "ext \<Rightarrow> bool" where
  "zero_descriptor_parses_and_zeroes_its_span x \<longleftrightarrow>
     unwrap_and
       (res_bind (zero_descriptor_entry x 1 LIVE_GUID (2 * 1024 * 1024) 8192) (\<lambda>entry.
        res_bind (splice 0 entry empty_region) (\<lambda>region.
        collect_replay_chain x region LIVE_GUID)))
       (\<lambda>chain. length chain = 1 \<and>
          (case le_descriptors (chain ! 0) ! 0 of
             ZeroDesc zero_length file_offset _ \<Rightarrow> zero_length = 8192 \<and> file_offset = 2 * 1024 * 1024
           | _ \<Rightarrow> False) \<and>
          applied_and (apply_chain x mem_ops chain (mem_filled (4 * 1024 * 1024) 0xCC)) (\<lambda>dev.
            mem_byte_at dev (2 * 1024 * 1024) = Ok 0 \<and>
            mem_byte_at dev (2 * 1024 * 1024 + 8191) = Ok 0 \<and>
            mem_byte_at dev (2 * 1024 * 1024 + 8192) = Ok 0xCC))"

definition sized_entry :: "u64 \<Rightarrow> nat \<Rightarrow> log_entry" where
  "sized_entry last_file_offset descriptors =
     \<lparr> le_header =
         \<lparr> leh_entry_length = word_of_nat LOG_SECTOR_SIZE, leh_tail = 0, leh_sequence_number = 1,
           leh_descriptor_count = word_of_nat descriptors, leh_log_guid = LIVE_GUID,
           leh_flushed_file_offset = 0, leh_last_file_offset = last_file_offset \<rparr>,
       le_descriptors = map (\<lambda>i. ZeroDesc 4096 (word_of_nat i * 4096) 1) [0..<descriptors],
       le_log_offset_in_region = 0 \<rparr>"

definition a_chain_may_grow_the_file_by_what_its_descriptors_could_have_allocated :: bool where
  "a_chain_may_grow_the_file_by_what_its_descriptors_could_have_allocated \<longleftrightarrow>
     (let MIB = 1024 * 1024; entry = sized_entry
      in allowed_extent (64 * MIB) [entry 0 1] = 64 * MIB \<and>
         allowed_extent (64 * MIB) [entry (64 * MIB + 4096) 1] = 64 * MIB + 4096 \<and>
         allowed_extent (64 * MIB) [entry (push_bit 62 1) 1] = 64 * MIB + 256 * MIB \<and>
         allowed_extent (64 * MIB) [entry (push_bit 62 1) 4] = 64 * MIB + 4 * 256 * MIB \<and>
         allowed_extent (64 * MIB) [entry 4096 1] = 64 * MIB)"

definition a_zero_span_running_past_the_device_is_refused_before_anything_is_written :: "ext \<Rightarrow> bool" where
  "a_zero_span_running_past_the_device_is_refused_before_anything_is_written x \<longleftrightarrow>
     unwrap_and
       (res_bind (zero_descriptor_entry x 1 LIVE_GUID (2 * 1024 * 1024) (- 1)) (\<lambda>entry.
        res_bind (splice 0 entry empty_region) (\<lambda>region.
        collect_replay_chain x region LIVE_GUID)))
       (\<lambda>chain. length chain = 1 \<and>
          refused_and (apply_chain x mem_ops chain (mem_filled (4 * 1024 * 1024) 0xCC)) (\<lambda>_ dev.
            mem_byte_at dev (2 * 1024 * 1024) = Ok 0xCC))"

definition a_zero_span_starting_past_the_device_is_refused :: "ext \<Rightarrow> bool" where
  "a_zero_span_starting_past_the_device_is_refused x \<longleftrightarrow>
     unwrap_and
       (res_bind (zero_descriptor_entry x 1 LIVE_GUID (push_bit 40 1) 4096) (\<lambda>entry.
        res_bind (splice 0 entry empty_region) (\<lambda>region.
        collect_replay_chain x region LIVE_GUID)))
       (\<lambda>chain. refused_and (apply_chain x mem_ops chain (mem_filled (4 * 1024 * 1024) 0xCC)) (\<lambda>_ _. True))"

definition a_data_sector_past_the_device_is_refused :: "ext \<Rightarrow> bool" where
  "a_data_sector_past_the_device_is_refused x \<longleftrightarrow>
     (let sector = replicate LOG_SECTOR_SIZE 0xAB;
          sector = overwrite 0 (to_le_bytes (0 :: u64)) sector;
          sector = overwrite (LOG_SECTOR_SIZE - 4) (to_le_bytes (0 :: u32)) sector
      in unwrap_and
           (res_bind (encode_entry x 1 0 LIVE_GUID 0 0
              [\<lparr> pw_file_offset = push_bit 40 1, pw_sector = sector \<rparr>]) (\<lambda>entry.
            res_bind (splice 0 entry empty_region) (\<lambda>region.
            collect_replay_chain x region LIVE_GUID)))
           (\<lambda>chain. length chain = 1 \<and>
              refused_and (apply_chain x mem_ops chain (mem_filled (4 * 1024 * 1024) 0xCC)) (\<lambda>_ _. True)))"

definition growing_chain :: "ext \<Rightarrow> (log_entry list, error) res" where
  "growing_chain x =
     (let SIZE = 4 * 1024 * 1024 :: u64;
          grown = SIZE + ucast (word_of_nat LOG_SECTOR_SIZE :: u32)
      in res_bind (encode_entry x 1 0 LIVE_GUID 0 grown
           [\<lparr> pw_file_offset = 1024 * 1024, pw_sector = replicate LOG_SECTOR_SIZE 0x5A \<rparr>]) (\<lambda>entry.
         res_bind (splice 0 entry empty_region) (\<lambda>region.
         collect_replay_chain x region LIVE_GUID)))"

definition a_chain_that_grows_the_file_is_extended_rather_than_written_past_its_end :: "ext \<Rightarrow> bool" where
  "a_chain_that_grows_the_file_is_extended_rather_than_written_past_its_end x \<longleftrightarrow>
     unwrap_and (growing_chain x) (\<lambda>chain. length chain = 1 \<and>
       applied_and (apply_chain x growable_ops chain (growable_filled (4 * 1024 * 1024) 0xCC)) (\<lambda>dev.
         length (gm_bytes dev) = 4 * 1024 * 1024 + LOG_SECTOR_SIZE \<and> gm_extensions dev = 1 \<and>
         gm_bytes dev ! (1024 * 1024) = 0x5A \<and> gm_bytes dev ! (4 * 1024 * 1024) = 0))"

definition a_chain_needing_room_on_a_device_that_cannot_grow_is_refused_before_anything_lands ::
  "ext \<Rightarrow> bool" where
  "a_chain_needing_room_on_a_device_that_cannot_grow_is_refused_before_anything_lands x \<longleftrightarrow>
     unwrap_and (growing_chain x) (\<lambda>chain.
       refused_and (apply_chain x mem_ops chain (mem_filled (4 * 1024 * 1024) 0xCC)) (\<lambda>err dev.
         str_contains (error_to_string err) ''could not be extended'' \<and>
         mem_byte_at dev (1024 * 1024) = Ok 0xCC))"

definition a_chain_with_one_bad_descriptor_applies_none_of_it :: "ext \<Rightarrow> bool" where
  "a_chain_with_one_bad_descriptor_applies_none_of_it x \<longleftrightarrow>
     unwrap_and
       (res_bind (zero_descriptor_entry x 1 LIVE_GUID (1024 * 1024) 4096) (\<lambda>entry.
        res_bind (splice 0 entry empty_region) (\<lambda>region.
        res_bind (zero_descriptor_entry x 2 LIVE_GUID (push_bit 40 1) 4096) (\<lambda>entry.
        res_bind (splice LOG_SECTOR_SIZE entry region) (\<lambda>region.
        collect_replay_chain x region LIVE_GUID)))))
       (\<lambda>chain. length chain = 2 \<and>
          refused_and (apply_chain x mem_ops chain (mem_filled (4 * 1024 * 1024) 0xCC)) (\<lambda>_ dev.
            mem_byte_at dev (1024 * 1024) = Ok 0xCC))"

section \<open>Entries with a zero descriptor\<close>

definition zero_body :: "u64 \<Rightarrow> u64 \<Rightarrow> u64 \<Rightarrow> bytes" where
  "zero_body seq file_offset len =
     overwrite 88 (to_le_bytes seq) (overwrite 80 (to_le_bytes file_offset) (overwrite 72 (to_le_bytes len)
      (overwrite 64 ZERO_DESC_SIGNATURE (overwrite 32 LIVE_GUID (overwrite 24 (to_le_bytes (1 :: u32))
       (overwrite 16 (to_le_bytes seq) (overwrite 12 (to_le_bytes (0 :: u32))
        (overwrite 8 (to_le_bytes (4096 :: u32)) (overwrite 0 LOG_ENTRY_SIGNATURE (replicate 4096 0))))))))))"

definition zero_entry :: "ext \<Rightarrow> u64 \<Rightarrow> u64 \<Rightarrow> u64 \<Rightarrow> bytes" where
  "zero_entry x seq file_offset len =
     overwrite 4 (to_le_bytes (crc32c x (overwrite 4 (replicate 4 0) (zero_body seq file_offset len))))
       (zero_body seq file_offset len)"

definition zero_parsed :: "u64 \<Rightarrow> u64 \<Rightarrow> u64 \<Rightarrow> nat \<Rightarrow> log_entry" where
  "zero_parsed seq file_offset len pos =
     \<lparr> le_header = \<lparr> leh_entry_length = 4096, leh_tail = 0, leh_sequence_number = seq,
         leh_descriptor_count = 1, leh_log_guid = LIVE_GUID, leh_flushed_file_offset = 0,
         leh_last_file_offset = 0 \<rparr>,
       le_descriptors = [ZeroDesc len file_offset seq], le_log_offset_in_region = word_of_nat pos \<rparr>"

lemma length_zero_entry [simp]: "length (zero_body s f n) = 4096" "length (zero_entry x s f n) = 4096"
  by (simp_all add: zero_body_def zero_entry_def)

lemma zero_descriptor_entry_Ok:
  assumes x: "crc_contract x"
  shows "zero_descriptor_entry x seq LIVE_GUID file_offset len = Ok (zero_entry x seq file_offset len)"
proof -
  have "entry_crc x (zero_body seq file_offset len) =
      (Ok (crc32c x (overwrite 4 (replicate 4 0) (zero_body seq file_offset len))) :: (u32, error) res)"
    by (rule entry_crc_eq [OF x]) simp
  then show ?thesis
    by (simp add: zero_descriptor_entry_def Let_def zero_entry_def zero_body_def)
qed

lemma discover_zero_entry:
  assumes x: "crc_contract x" and L: "subslice pos (pos + 4096) L = zero_entry x seq file_offset len"
    "pos + 4096 \<le> length L" "4096 \<le> budget"
    and rest: "discover_from x L LIVE_GUID (pos + 4096) (budget - 4096, ex) = (Ok es, st)"
  shows "discover_from x L LIVE_GUID pos (budget, ex) = (Ok (zero_parsed seq file_offset len pos # es), st)"
proof (rule discover_from_entry [OF L(2)])
  let ?E = "zero_entry x seq file_offset len"
  have span: "entry_span L pos 4096 = ?E" using L by (simp add: entry_span_inside)
  have crc: "from_le_bytes (subslice 4 8 ?E) = crc32c x (overwrite 4 (replicate 4 0) ?E)"
    by (simp add: zero_entry_def slice_simps)
  have sl: "subslice 0 4 ?E = LOG_ENTRY_SIGNATURE" "subslice 8 12 ?E = to_le_bytes (4096 :: u32)"
    "subslice 12 16 ?E = to_le_bytes (0 :: u32)" "subslice 16 24 ?E = to_le_bytes seq"
    "subslice 24 28 ?E = to_le_bytes (1 :: u32)" "subslice 32 48 ?E = LIVE_GUID"
    "subslice 48 56 ?E = to_le_bytes (0 :: u64)" "subslice 56 64 ?E = to_le_bytes (0 :: u64)"
    "subslice 64 68 ?E = ZERO_DESC_SIGNATURE" "subslice 72 80 ?E = to_le_bytes len"
    "subslice 80 88 ?E = to_le_bytes file_offset" "subslice 88 96 ?E = to_le_bytes seq"
    by (simp_all add: zero_entry_def zero_body_def slice_simps)
  have zeros: "from_le_bytes (replicate 4 0) = (0 :: u32)" "from_le_bytes (replicate 8 0) = (0 :: u64)"
    using from_to_le_u32 [of 0] from_to_le_u64 [of 0] by (simp_all del: from_to_le_u32 from_to_le_u64)
  have "parse_entry_fields ?E 4096 pos LIVE_GUID = Ok (zero_parsed seq file_offset len pos)"
    by (simp add: parse_entry_fields_def Let_def sl zeros zero_parsed_def)
  then have body: "parse_entry_body x L pos 4096 LIVE_GUID = Ok (zero_parsed seq file_offset len pos)"
    using L(2) crc by (subst parse_entry_body_eq [OF x]) (simp_all add: span)
  have pre: "subslice (pos + a) (pos + b) L = subslice a b ?E" if "b \<le> 4096" for a b
    using that L(2) subslice_entry_span [of b 4096 pos L a] by (simp add: span)
  show "parse_log_entry x L pos LIVE_GUID (budget, ex) =
      (Ok (zero_parsed seq file_offset len pos), budget - 4096, ex)"
    using L(2,3) pre [of 4 0] pre [of 12 8] pre [of 48 32] body
    by (simp add: parse_log_entry_eq Let_def sl)
qed (use rest in \<open>simp add: zero_parsed_def\<close>)

lemma collect_zero_entry:
  assumes x: "crc_contract x"
  shows "collect_replay_chain x (overwrite 0 (zero_entry x seq file_offset len) empty_region) LIVE_GUID =
    Ok [zero_parsed seq file_offset len 0]"
proof -
  let ?R = "overwrite 0 (zero_entry x seq file_offset len) empty_region"
  have "discover_from x ?R LIVE_GUID (0 + 4096) st = (Ok [], st)" for st
    by (rule discover_from_quiet_end [where k = 255]) simp_all
  then have "discover_from x ?R LIVE_GUID 0 (4194304, False) =
      (Ok [zero_parsed seq file_offset len 0], 4194304 - 4096, False)"
    by (intro discover_zero_entry [OF x]) (simp_all add: slice_simps)
  then have "discover x ?R LIVE_GUID = Ok ([zero_parsed seq file_offset len 0], 4096, False)"
    by (simp add: discover_def Let_def)
  from collect_discovered [OF this] show ?thesis
    by (simp add: select_chain_def chain_head_def entry_starting_at_def zero_parsed_def walk_chain.simps
        checked_add_def)
qed

section \<open>The tests pass\<close>

lemma mem_eval:
  "unat off < length d \<Longrightarrow> mem_byte_at d off = Ok (d ! unat off)"
  "unat off + length b \<le> length d \<Longrightarrow> dev_write_at mem_ops off b d = (Ok (), overwrite (unat off) b d)"
  "dev_size_bytes mem_ops d = word_of_nat (length d)" "dev_flush mem_ops d = (Ok (), d)"
  "dev_set_len mem_ops n d = (Err FsReadOnly, d)"
  by (simp_all add: mem_byte_at_def mem_ops_def nth_subslice)

lemmas apply_eval = apply_chain_def Let_def io_bind_def io_lift_def io_return_def io_map_err_def
  check_descriptor_def checked_add_def extend_device_def apply_entry_def allowed_extent_def
  max_or_zero_def saturating_add_def saturating_mul_def mem_eval applied_and_def refused_and_def

lemma growth_test_passes: a_chain_may_grow_the_file_by_what_its_descriptors_could_have_allocated
  by (simp add: a_chain_may_grow_the_file_by_what_its_descriptors_could_have_allocated_def
      allowed_extent_def max_or_zero_def saturating_add_def saturating_mul_def sized_entry_def Let_def)

lemma successors_test_passes:
  assumes "crc_contract x" "crc_detects_a_byte x"
  shows "successors_of_a_torn_entry_never_reach_the_device x"
proof -
  obtain R where R: "torn_chain x = Ok R" "length R = TEST_REGION_LEN"
    "discover x R LIVE_GUID = Ok (laid_entries [(0, 1, 0), (8192, 2, 0), (24576, 4, 0)], 32768, False)"
    using torn_region [OF assms] by blast
  have "select_chain empty_region (laid_entries [(0, 1, 0), (8192, 2, 0), (24576, 4, 0)]) =
      Ok [live_at 1 0 0, live_at 2 0 8192]"
    by (simp add: select_chain_def laid_entries_def chain_head_def entry_starting_at_def one_parsed_def
        walk_chain.simps checked_add_def)
  then have c: "collect_replay_chain x R LIVE_GUID = Ok [live_at 1 0 0, live_at 2 0 8192]"
    by (simp only: collect_discovered [OF R(3)] select_chain_region [OF R(2)])
  have "apply_chain x mem_ops [live_at 1 0 0, live_at 2 0 8192] (mem_filled (8 * 1024 * 1024) 0xCC) =
      (Ok (), overwrite 4202496 (replicate 4096 0x12) (overwrite 4198400 (replicate 4096 0x11)
        (replicate 8388608 0xCC)))"
    by (simp add: apply_eval one_parsed_def decoded_write_def test_write_def target_of_def mem_filled_def)
  then show ?thesis
    by (simp add: successors_of_a_torn_entry_never_reach_the_device_def R(1) c applied_and_def mem_eval
        target_of_def nth_overwrite)
qed

lemma zero_descriptor_tests_pass:
  assumes x: "crc_contract x"
  shows "zero_descriptor_parses_and_zeroes_its_span x"
    "a_zero_span_running_past_the_device_is_refused_before_anything_is_written x"
    "a_zero_span_starting_past_the_device_is_refused x"
proof -
  have "write_zeros mem_ops 2097152 8192 (replicate 4194304 0xCC) =
      (Ok (), overwrite 2097152 (replicate 8192 0) (replicate 4194304 0xCC))"
    by (subst write_zeros.simps) (simp add: Let_def io_bind_def mem_eval io_return_def)
  then have "apply_chain x mem_ops [zero_parsed 1 (2 * 1024 * 1024) 8192 0] (mem_filled (4 * 1024 * 1024) 0xCC) =
      (Ok (), overwrite 2097152 (replicate 8192 0) (replicate 4194304 0xCC))"
    by (simp add: apply_eval zero_parsed_def mem_filled_def)
  then show "zero_descriptor_parses_and_zeroes_its_span x"
    by (simp add: zero_descriptor_parses_and_zeroes_its_span_def zero_descriptor_entry_Ok [OF x] splice_def
        collect_zero_entry [OF x, simplified])
      (simp add: applied_and_def mem_eval nth_overwrite zero_parsed_def)
  show "a_zero_span_running_past_the_device_is_refused_before_anything_is_written x"
    by (simp add: a_zero_span_running_past_the_device_is_refused_before_anything_is_written_def
        zero_descriptor_entry_Ok [OF x] splice_def collect_zero_entry [OF x, simplified])
      (simp add: apply_eval zero_parsed_def mem_filled_def unat_minus_one_max)
  show "a_zero_span_starting_past_the_device_is_refused x"
    by (simp add: a_zero_span_starting_past_the_device_is_refused_def
        zero_descriptor_entry_Ok [OF x] splice_def collect_zero_entry [OF x, simplified])
      (simp add: apply_eval zero_parsed_def mem_filled_def)
qed

lemma one_entry_spliced:
  assumes x: "crc_contract x" and w: "length (pw_sector w) = 4096"
  shows "res_bind (encode_entry x s 0 LIVE_GUID flushed lastoff [w]) (\<lambda>entry.
      res_bind (splice 0 entry empty_region) (\<lambda>region. collect_replay_chain x region LIVE_GUID)) =
    Ok [one_parsed s 0 LIVE_GUID flushed lastoff w 0]"
proof -
  have g: "length LIVE_GUID = 16" by simp
  note E = one_entry_facts [OF x g w, of s 0 flushed lastoff]
  have cp: "splice 0 e empty_region = Ok (overwrite 0 e empty_region)" if "length e = 8192" for e
    using that by (simp add: splice_def)
  show ?thesis
    by (simp only: E(1) cp [OF E(2)] collect_one_entry [OF x w] res_bind.simps)
qed

lemma a_data_sector_past_the_device_is_refused_passes:
  assumes x: "crc_contract x"
  shows "a_data_sector_past_the_device_is_refused x"
  unfolding a_data_sector_past_the_device_is_refused_def Let_def
  by (subst one_entry_spliced [OF x])
    (simp_all add: apply_eval one_parsed_def decoded_write_def mem_filled_def)

lemma str_contains_append: "str_contains (a @ s @ c) s"
proof -
  have "take (length s) (drop (length a) (a @ s @ c)) = s" by simp
  moreover have "length a \<in> set [0..<Suc (length (a @ s @ c))]" by simp
  ultimately show ?thesis unfolding str_contains_def set_map by (metis image_eqI)
qed

lemma growing_chain_Ok:
  assumes x: "crc_contract x"
  shows "growing_chain x = Ok [one_parsed 1 0 LIVE_GUID 0 4198400
    \<lparr> pw_file_offset = 1024 * 1024, pw_sector = replicate 4096 0x5A \<rparr> 0]"
  unfolding growing_chain_def Let_def by (subst one_entry_spliced [OF x]) simp_all

lemma growing_tests_pass:
  assumes x: "crc_contract x"
  shows "a_chain_that_grows_the_file_is_extended_rather_than_written_past_its_end x"
    "a_chain_needing_room_on_a_device_that_cannot_grow_is_refused_before_anything_lands x"
proof -
  show "a_chain_that_grows_the_file_is_extended_rather_than_written_past_its_end x"
    by (simp add: a_chain_that_grows_the_file_is_extended_rather_than_written_past_its_end_def
        growing_chain_Ok [OF x] apply_eval one_parsed_def decoded_write_def growable_filled_def growable_ops_def
        resize_def nth_overwrite nth_append)
  let ?m = "''the chain describes '' @ show_nat 4198400 @ '' bytes and this device holds '' @
    show_nat 4194304 @ '', which could not be extended: '' @ fs_error_to_string x FsReadOnly"
  have a: "apply_chain x mem_ops [one_parsed 1 0 LIVE_GUID 0 4198400
      \<lparr> pw_file_offset = 1024 * 1024, pw_sector = replicate 4096 0x5A \<rparr> 0] (mem_filled (4 * 1024 * 1024) 0xCC) =
      (Err (LogReplay ?m), mem_filled (4 * 1024 * 1024) 0xCC)"
    by (simp add: apply_eval one_parsed_def decoded_write_def mem_filled_def)
  have "error_to_string (LogReplay ?m) =
      (''VHDX log replay failed: the chain describes '' @ show_nat 4198400 @
       '' bytes and this device holds '' @ show_nat 4194304 @ '', which '') @ ''could not be extended'' @
      ('': '' @ fs_error_to_string x FsReadOnly)" by simp
  then have m: "str_contains (error_to_string (LogReplay ?m)) ''could not be extended''"
    by (simp only: str_contains_append)
  have b: "mem_byte_at (mem_filled (4 * 1024 * 1024) 0xCC) (1024 * 1024) = Ok 0xCC"
    by (simp add: mem_eval mem_filled_def)
  show "a_chain_needing_room_on_a_device_that_cannot_grow_is_refused_before_anything_lands x"
    unfolding a_chain_needing_room_on_a_device_that_cannot_grow_is_refused_before_anything_lands_def
      growing_chain_Ok [OF x] unwrap_and.simps a refused_and_def prod.case res.case
    using m b by blast
qed

lemma one_bad_descriptor_test_passes:
  assumes x: "crc_contract x"
  shows "a_chain_with_one_bad_descriptor_applies_none_of_it x"
proof -
  let ?R = "overwrite 4096 (zero_entry x 2 (push_bit 40 1) 4096)
    (overwrite 0 (zero_entry x 1 (1024 * 1024) 4096) empty_region)"
  let ?es = "[zero_parsed 1 (1024 * 1024) 4096 0, zero_parsed 2 (push_bit 40 1) 4096 4096]"
  have "discover_from x ?R LIVE_GUID (4096 + 4096) st = (Ok [], st)" for st
    by (rule discover_from_quiet_end [where k = 254]) simp_all
  then have "discover_from x ?R LIVE_GUID 4096 (4190208, False) =
      (Ok [zero_parsed 2 (push_bit 40 1) 4096 4096], 4190208 - 4096, False)"
    by (intro discover_zero_entry [OF x]) (simp_all add: slice_simps)
  then have "discover_from x ?R LIVE_GUID 0 (4194304, False) = (Ok ?es, 4190208 - 4096, False)"
    by (intro discover_zero_entry [OF x]) (simp_all add: slice_simps)
  then have "discover x ?R LIVE_GUID = Ok (?es, 8192, False)"
    by (simp add: discover_def Let_def)
  from collect_discovered [OF this] have "collect_replay_chain x ?R LIVE_GUID = select_chain empty_region ?es"
    using select_chain_region [of ?R] by simp
  moreover have "select_chain empty_region ?es = Ok ?es"
    by (simp add: select_chain_def chain_head_def entry_starting_at_def zero_parsed_def walk_chain.simps
        checked_add_def)
  ultimately have "collect_replay_chain x ?R LIVE_GUID = Ok ?es" by (rule trans)
  then show ?thesis
    by (simp add: a_chain_with_one_bad_descriptor_applies_none_of_it_def zero_descriptor_entry_Ok [OF x] splice_def)
      (simp add: apply_eval zero_parsed_def mem_filled_def)
qed

end
