(* ===== verification/Tests_Reader.thy ===== *)
theory Tests_Reader
  imports Tests_Replay Reader_Parts
begin

unbundle bit_operations_syntax

text \<open>
  The unit tests of the helpers in \<open>src/reader.rs\<close>, run against the model: the length a BAT region
  must have, the header encoder, the stirring of a sequence number into a GUID, and the writing of
  zeros. The in-memory device of the last test is the one of the log's tests.
\<close>

section \<open>The tests\<close>

definition the_required_bat_length_counts_the_interleaved_bitmap_entries :: bool where
  "the_required_bat_length_counts_the_interleaved_bitmap_entries \<longleftrightarrow>
     (let BLOCK = push_bit 20 1 :: u32; RATIO = 4 :: u64; virtual_size = 9 * ucast BLOCK
      in data_bat_index 8 RATIO = (Ok 10 :: (u64, error) res) \<and>
         is_Ok (bat_region_covers_the_disk (11 * 8) virtual_size BLOCK RATIO) \<and>
         (case bat_region_covers_the_disk (10 * 8) virtual_size BLOCK RATIO of
            Err (Corrupt m) \<Rightarrow> str_contains m ''too short''
          | _ \<Rightarrow> False) \<and>
         is_err (bat_region_covers_the_disk (9 * 8) virtual_size BLOCK RATIO))"

definition a_zero_length_disk_needs_no_bat_entries :: bool where
  "a_zero_length_disk_needs_no_bat_entries \<longleftrightarrow>
     is_Ok (bat_region_covers_the_disk 0 0 (push_bit 20 1) 4)"

definition encoding_a_header_preserves_the_log_version_it_carries :: "ext \<Rightarrow> bool" where
  "encoding_a_header_preserves_the_log_version_it_carries x \<longleftrightarrow>
     (let h = \<lparr> hdr_sequence_number = 9, hdr_file_write_guid = replicate 16 0xAA,
            hdr_data_write_guid = replicate 16 0xBB, hdr_log_guid = replicate 16 0xCC,
            hdr_log_version = LOG_VERSION_V0, hdr_version = 1, hdr_log_length = push_bit 20 1,
            hdr_log_offset = push_bit 20 4 \<rparr>
      in unwrap_and (res_bind (encode_header x h) (header_parse x)) (\<lambda>round_tripped.
           hdr_log_version round_tripped = LOG_VERSION_V0 \<and> hdr_version round_tripped = 1) \<and>
         unwrap_and (res_bind (encode_header x (h \<lparr> hdr_log_version := 7 \<rparr>)) (header_parse x))
           (\<lambda>round_tripped. hdr_log_version round_tripped = 7))"

definition stirring_touches_only_the_bottom_eight_bytes :: bool where
  "stirring_touches_only_the_bottom_eight_bytes \<longleftrightarrow>
     (let g = stir_sequence_into_guid (replicate 16 0xAA) 0x0102030405060708
      in take 8 g = replicate 8 0xAA \<and>
         drop 8 g = [0xA2, 0xAD, 0xAC, 0xAF, 0xAE, 0xA9, 0xA8, 0xAB])"

definition consecutive_sequences_cannot_collide :: bool where
  "consecutive_sequences_cannot_collide \<longleftrightarrow>
     (let base = replicate 16 0x11
      in distinct (map (\<lambda>seq. stir_sequence_into_guid base (word_of_nat seq)) [0..<64]))"

definition the_result_is_never_the_all_zero_sentinel :: bool where
  "the_result_is_never_the_all_zero_sentinel \<longleftrightarrow>
     (let seq = 0x0102030405060708;
          g = overwrite 8 (to_le_bytes seq) (replicate 16 0)
      in list_ex (\<lambda>b. b \<noteq> 0) (stir_sequence_into_guid g seq))"

definition write_zeros_covers_the_range_it_is_given :: bool where
  "write_zeros_covers_the_range_it_is_given \<longleftrightarrow>
     (case io_bind (dev_write_at mem_ops 0 (replicate 128 0xFF)) (\<lambda>_.
           write_zeros mem_ops 0 (word_of_nat (ZERO_CHUNK + 32))) (replicate (ZERO_CHUNK * 2 + 64) 0xAA) of
        (Ok _, dev) \<Rightarrow>
          unwrap_and (dev_read_at mem_ops dev 0 128) (list_all (\<lambda>b. b = 0)) \<and>
          unwrap_and (dev_read_at mem_ops dev (word_of_nat (ZERO_CHUNK + 24)) 8) (list_all (\<lambda>b. b = 0))
      | _ \<Rightarrow> False)"

section \<open>The tests pass\<close>

lemma bat_length_tests_pass:
  the_required_bat_length_counts_the_interleaved_bitmap_entries
  a_zero_length_disk_needs_no_bat_entries
  by (simp_all add: the_required_bat_length_counts_the_interleaved_bitmap_entries_def
      a_zero_length_disk_needs_no_bat_entries_def bat_region_covers_the_disk_def Let_def
      data_bat_index_def is_multiple_of_def div_ceil_def checked_add_def str_contains_def upt_rec)

lemma encode_header_test_passes: "encoding_a_header_preserves_the_log_version_it_carries x"
  by (simp add: encoding_a_header_preserves_the_log_version_it_carries_def Let_def header_parse_encode
      header_wf_def)

lemma stirring_tests_pass:
  stirring_touches_only_the_bottom_eight_bytes consecutive_sequences_cannot_collide
  the_result_is_never_the_all_zero_sentinel
proof -
  have le: "to_le_bytes (0x0102030405060708 :: u64) = [8, 7, 6, 5, 4, 3, 2, 1]"
    by (simp add: to_le_bytes_def le_bytes_numeral)
  have r: "replicate 16 b = replicate 8 b @ replicate 8 b" for b :: u8
    by (simp flip: replicate_add)
  have r8: "replicate 8 b = [b, b, b, b, b, b, b, b]" for b :: u8
    by (simp add: eval_nat_numeral)
  show stirring_touches_only_the_bottom_eight_bytes
    unfolding stirring_touches_only_the_bottom_eight_bytes_def stir_sequence_into_guid_def Let_def le r r8
    by simp
  have "inj_on (\<lambda>seq. stir_sequence_into_guid (replicate 16 0x11) (word_of_nat seq)) (set [0..<64])"
  proof (rule inj_onI)
    fix a b assume "a \<in> set [0..<64]" "b \<in> set [0..<64]"
      "stir_sequence_into_guid (replicate 16 0x11) (word_of_nat a) =
       stir_sequence_into_guid (replicate 16 0x11) (word_of_nat b)"
    then have "(word_of_nat a :: u64) = word_of_nat b" "a < 64" "b < 64"
      using stir_inj [of "replicate 16 0x11" "word_of_nat a" "word_of_nat b"] by simp_all
    then have "unat (word_of_nat a :: u64) = unat (word_of_nat b :: u64)" by simp
    then show "a = b" using \<open>a < 64\<close> \<open>b < 64\<close> by (simp add: unat_of_nat_u64)
  qed
  then show consecutive_sequences_cannot_collide
    by (simp only: consecutive_sequences_cannot_collide_def Let_def distinct_map distinct_upt)
  show the_result_is_never_the_all_zero_sentinel
    using stir_not_zero [of "overwrite 8 (to_le_bytes (0x0102030405060708 :: u64)) (replicate 16 0)"]
    by (simp add: the_result_is_never_the_all_zero_sentinel_def Let_def is_zero_guid_def list_ex_iff list_all_iff)
qed

lemma write_zeros_test_passes: write_zeros_covers_the_range_it_is_given
proof -
  let ?d = "overwrite 0 (replicate 128 0xFF) (replicate (ZERO_CHUNK * 2 + 64) (0xAA :: u8))"
  have "write_zeros mem_ops 0x100000 32 d = (Ok (), overwrite 0x100000 (replicate 32 0) d)"
    if "length d = 2097216" for d
    using that by (subst write_zeros.simps) (simp add: Let_def io_bind_def mem_eval io_return_def)
  then have "write_zeros mem_ops 0 0x100020 ?d =
      (Ok (), overwrite 0x100000 (replicate 32 0) (overwrite 0 (replicate 0x100000 0) ?d))"
    by (subst write_zeros.simps) (simp add: Let_def io_bind_def mem_eval)
  moreover have "list_all (\<lambda>b. b = 0) (subslice 0 128 (overwrite 0x100000 (replicate 32 0) (overwrite 0 (replicate 0x100000 0) ?d)))"
    "list_all (\<lambda>b. b = 0) (subslice 0x100018 0x100020 (overwrite 0x100000 (replicate 32 0) (overwrite 0 (replicate 0x100000 0) ?d)))"
    by (auto simp: list_all_length nth_subslice nth_overwrite)
  moreover have "dev_read_at mem_ops m off n = get_slice m (unat off) (unat off + n)" for m off n
    by (simp add: mem_ops_def)
  ultimately show ?thesis
    by (simp add: write_zeros_covers_the_range_it_is_given_def io_bind_def mem_eval)
qed

end
