(* ===== verification/Tests_Cli.thy ===== *)
theory Tests_Cli
  imports Tests_Support Img
begin

text \<open>
  The unit tests of the command-line tool, \<open>mod tests\<close> of \<open>src/cli/vhdx/overlay.rs\<close> and
  \<open>src/cli/vhdx/img.rs\<close>, run against the model. The exit status of an
  error is its constructor, and the words \<open>not implemented: \<close> are those \<open>rust-fs-core\<close> puts before the text.
\<close>

section \<open>\<open>src/cli/vhdx/overlay.rs\<close>\<close>

definition test_bytes_ops :: "bytes read_ops" where
  "test_bytes_ops =
     \<lparr> dev_size_bytes = (\<lambda>b. word_of_nat (length b)),
       dev_read_at = (\<lambda>b offset n. get_slice b (unat offset) (unat offset + n)) \<rparr>"

definition test_base :: bytes where
  "test_base = map (\<lambda>i. word_of_nat (i mod 251)) [0..<3 * PAGE_BYTES + 100]"

definition reads_see_the_base_until_a_write_and_the_write_after :: bool where
  "reads_see_the_base_until_a_write_and_the_write_after \<longleftrightarrow>
     (let ov = overlay_new test_bytes_ops test_base
      in unwrap_and (overlay_read_at test_bytes_ops ov 4000 (replicate 5000 0)) (\<lambda>got.
           got = subslice 4000 9000 test_base \<and> \<not> overlay_written ov \<and>
           (case overlay_write_at test_bytes_ops 4090 (replicate 20 0xAA) ov of
              (Ok _, ov) \<Rightarrow>
                overlay_written ov \<and>
                unwrap_and (overlay_read_at test_bytes_ops ov 4000 got) (\<lambda>got.
                  let want = subslice 4000 9000 test_base;
                      want = overwrite 90 (replicate 20 0xAA) want
                  in got = want)
            | _ \<Rightarrow> False)))"

definition growth_reads_as_zeros_past_the_base_and_a_shrink_is_refused :: bool where
  "growth_reads_as_zeros_past_the_base_and_a_shrink_is_refused \<longleftrightarrow>
     (let ov = overlay_new test_bytes_ops test_base;
          old = ov_len ov
      in case overlay_write_at test_bytes_ops old [1] ov of
           (Err _, ov) \<Rightarrow>
             (case overlay_set_len (old + 2 * PAGE) ov of
                (Ok _, ov) \<Rightarrow>
                  unwrap_and (overlay_read_at test_bytes_ops ov old (replicate PAGE_BYTES 0xFF))
                    (list_all (\<lambda>b. b = 0)) \<and>
                  (case overlay_write_at test_bytes_ops (old + PAGE) (replicate 10 7) ov of
                     (Ok _, ov) \<Rightarrow>
                       unwrap_and (overlay_read_at test_bytes_ops ov (old + PAGE) (replicate 10 0))
                         (\<lambda>got. got = replicate 10 7) \<and>
                       (case overlay_set_len old ov of (Err _, _) \<Rightarrow> True | _ \<Rightarrow> False)
                   | _ \<Rightarrow> False)
              | _ \<Rightarrow> False)
         | _ \<Rightarrow> False)"

interpretation test_bytes: reliable_base test_bytes_ops vec_invar "\<lambda>b. b"
  by unfold_locales (auto simp: test_bytes_ops_def vec_invar_def unat_of_nat get_slice_def split: if_splits)

lemma test_read:
  assumes "test_bytes.ov_ok ov" "unat off + length buf \<le> unat (ov_len ov)"
  shows "overlay_read_at test_bytes_ops ov off buf =
    Ok (subslice (unat off) (unat off + length buf) (overlay_contents (\<lambda>b. b) ov))"
proof -
  have "is_Ok (overlay_read_at test_bytes_ops ov off buf)"
    using test_bytes.overlay_read_fails [OF assms] assms(1) test_bytes.base_reads
    by (auto simp: test_bytes.base_gives_def overlay_invar_def) metis
  then show ?thesis
    using test_bytes.overlay_read_Ok [OF assms(1)] by (auto simp: is_Ok_iff)
qed

lemma test_write:
  assumes "test_bytes.ov_ok ov" "unat off + length buf \<le> unat (ov_len ov)"
  shows "\<exists>ov'. overlay_write_at test_bytes_ops off buf ov = (Ok (), ov') \<and> test_bytes.ov_ok ov' \<and>
    ov_len ov' = ov_len ov \<and> overlay_written ov' \<and>
    overlay_contents (\<lambda>b. b) ov' = overwrite (unat off) buf (overlay_contents (\<lambda>b. b) ov)"
proof -
  have len: "length buf < 2 ^ 64" using assms(2) unat_lt_u64 [of "ov_len ov"] by (simp del: unat_lt_u64)
  obtain ov' where w: "overlay_write_at test_bytes_ops off buf ov = (Ok (), ov')"
    using test_bytes.ovr.write_succeeds [of ov off buf] assms
    by (cases "overlay_write_at test_bytes_ops off buf ov") (auto simp: overlay_ops_def is_Ok_iff)
  have "overlay_written ov'"
    using w by (auto simp: overlay_write_at_def io_bind_Ok_iff overlay_written_def)
  then show ?thesis
    using w test_bytes.overlay_write_ok [OF assms(1) w] len by (simp add: test_bytes.ov_frame_def)
qed

lemma overlay_tests_pass:
  reads_see_the_base_until_a_write_and_the_write_after
  growth_reads_as_zeros_past_the_base_and_a_shrink_is_refused
proof -
  let ?o = "overlay_new test_bytes_ops test_base"
  have b: "length test_base = 12388" by (simp add: test_base_def)
  then have new: "test_bytes.ov_ok ?o" "overlay_contents (\<lambda>b. b) ?o = test_base" "ov_len ?o = 12388"
    "\<not> overlay_written ?o"
    using test_bytes.overlay_new_ok [of test_base]
    by (simp_all add: vec_invar_def overlay_new_def test_bytes_ops_def overlay_written_def)
  obtain o1 where o1: "overlay_write_at test_bytes_ops 4090 (replicate 20 0xAA) ?o = (Ok (), o1)"
    "test_bytes.ov_ok o1" "ov_len o1 = 12388" "overlay_written o1"
    "overlay_contents (\<lambda>b. b) o1 = overwrite 4090 (replicate 20 0xAA) test_base"
    using test_write [OF new(1), of 4090 "replicate 20 0xAA"] new(2,3) by auto
  have "subslice 4000 9000 (overwrite 4090 (replicate 20 0xAA) test_base) =
      overwrite 90 (replicate 20 0xAA) (subslice 4000 9000 test_base)"
    using b by (intro nth_equalityI) (auto simp: nth_subslice nth_overwrite)
  then show reads_see_the_base_until_a_write_and_the_write_after
    using new o1 b
    by (simp add: reads_see_the_base_until_a_write_and_the_write_after_def Let_def test_read)
  have refused: "\<exists>e. overlay_write_at test_bytes_ops 12388 [1] ?o = (Err e, ?o)"
    using new(3) by (simp add: test_bytes.overlay_write_out_of_bounds)
  obtain o2 where o2: "overlay_set_len 20580 ?o = (Ok (), o2)" "ov_len o2 = 20580"
    using new(3) by (simp add: overlay_set_len_def)
  have o2': "test_bytes.ov_ok o2" "overlay_contents (\<lambda>b. b) o2 = test_base @ replicate 8192 0"
    using test_bytes.overlay_set_len_Ok [OF new(1) o2(1)] new(2) b by (simp_all add: resize_grow)
  obtain o3 where o3: "overlay_write_at test_bytes_ops 16484 (replicate 10 7) o2 = (Ok (), o3)"
    "test_bytes.ov_ok o3" "ov_len o3 = 20580"
    "overlay_contents (\<lambda>b. b) o3 = overwrite 16484 (replicate 10 7) (test_base @ replicate 8192 0)"
    using test_write [OF o2'(1), of 16484 "replicate 10 7"] o2' o2(2) by auto
  have "list_all (\<lambda>b. b = 0) (subslice 12388 16484 (test_base @ replicate 8192 0))"
    using b by (simp add: list_all_length nth_subslice nth_append)
  then show growth_reads_as_zeros_past_the_base_and_a_shrink_is_refused
    using new refused o2 o2' o3 b
    by (auto simp: growth_reads_as_zeros_past_the_base_and_a_shrink_is_refused_def Let_def test_read
        subslice_overwrite_same overlay_set_len_def)
qed

section \<open>\<open>src/cli/vhdx/img.rs\<close>\<close>

definition a_range_defaults_to_the_whole_disk_and_refuses_the_far_side :: bool where
  "a_range_defaults_to_the_whole_disk_and_refuses_the_far_side \<longleftrightarrow>
     range_of 1000 None None = Ok (0, 1000) \<and> range_of 1000 (Some 10) None = Ok (10, 990) \<and>
     range_of 1000 None (Some 10) = Ok (0, 10) \<and> range_of 1000 (Some 1000) None = Ok (1000, 0) \<and>
     is_err (range_of 1000 (Some 1001) None) \<and> is_err (range_of 1000 (Some 990) (Some 11)) \<and>
     is_err (range_of 1000 (Some (- 1)) (Some 2))"

fun is_unsupported :: "cli_error \<Rightarrow> bool" where
  "is_unsupported (CliNotImplemented _) = True"
| "is_unsupported _ = False"

fun is_failed :: "cli_error \<Rightarrow> bool" where
  "is_failed (CliFailed _) = True"
| "is_failed _ = False"

definition what_the_library_refuses_is_not_implemented_and_the_rest_failed :: bool where
  "what_the_library_refuses_is_not_implemented_and_the_rest_failed \<longleftrightarrow>
     (let p = ''x.vhdx''
      in is_unsupported (vhdx_error p (Unsupported ''a differencing VHDX'')) \<and>
         (case vhdx_error p (Unsupported ''a differencing VHDX'') of
            CliNotImplemented m \<Rightarrow> take (length ''x.vhdx: '') m = ''x.vhdx: ''
          | _ \<Rightarrow> False) \<and>
         is_failed (vhdx_error p NotVhdx) \<and> is_failed (vhdx_error p (Corrupt ''BAT'')))"

lemma img_tests_pass:
  a_range_defaults_to_the_whole_disk_and_refuses_the_far_side
  what_the_library_refuses_is_not_implemented_and_the_rest_failed
  by (simp_all add: a_range_defaults_to_the_whole_disk_and_refuses_the_far_side_def range_of_def
      checked_add_def unat_minus_one_max
      what_the_library_refuses_is_not_implemented_and_the_rest_failed_def vhdx_error_def)

end
