(* ===== verification/Unit_Tests.thy ===== *)
theory Unit_Tests
  imports Tests_Format Tests_Replay Tests_Reader Tests_Cli
begin

text \<open>
  All the unit tests of the crate that the model can state, by module. The two tests on slots whose
  stored checksum is zero depend on what CRC-32C gives for particular bytes; they are lemmas of
  \<open>Tests_Log\<close> with that as a hypothesis. \<open>src/lib.rs\<close> tests the build's overflow checks, which is not
  a statement about the code.
\<close>

definition bat_tests :: bool where
  "bat_tests \<longleftrightarrow>
     payload_state_decodes_every_documented_value \<and> payload_state_maps_unknown_values_to_reserved \<and>
     block_on_disk_only_for_present_states \<and> zero_fill_for_the_four_absent_states_only \<and>
     bat_entry_splits_state_and_megabyte_offset \<and>
     bat_entry_ignores_reserved_bits_between_state_and_offset \<and> bat_entry_unallocated_is_zero_raw \<and>
     chunk_ratio_matches_spec_formula \<and>
     data_bat_index_accounts_for_interleaved_sector_bitmap_entries"

definition endian_tests :: bool where
  "endian_tests \<longleftrightarrow>
     the_low_byte_comes_first \<and> the_offset_counts_bytes \<and> the_widest_values_survive_the_round_trip"

definition header_tests :: "ext \<Rightarrow> bool" where
  "header_tests x \<longleftrightarrow>
     parses_a_valid_header_and_exposes_fields x \<and> exposes_a_log_version_it_does_not_recognise x \<and>
     header_rejects_buffer_shorter_than_4_kib x \<and> header_rejects_bad_signature x \<and>
     header_rejects_crc_mismatch x \<and> header_rejects_unsupported_version x \<and>
     compute_crc_is_independent_of_stored_checksum_field x \<and>
     header_compute_crc_refuses_an_empty_buffer x \<and>
     header_compute_crc_refuses_a_buffer_one_byte_short x \<and>
     header_compute_crc_accepts_an_exactly_sized_buffer x"

definition region_table_tests :: "ext \<Rightarrow> bool" where
  "region_table_tests x \<longleftrightarrow>
     parses_entries_and_finds_known_guids x \<and> find_returns_none_for_unknown_guid x \<and>
     region_rejects_buffer_shorter_than_64_kib x \<and> region_rejects_bad_signature x \<and>
     region_rejects_crc_mismatch x \<and> region_rejects_entry_count_above_max x \<and>
     region_compute_crc_refuses_an_empty_buffer x \<and>
     region_compute_crc_refuses_a_buffer_one_byte_short x \<and>
     region_compute_crc_accepts_an_exactly_sized_buffer x"

definition metadata_tests :: bool where
  "metadata_tests \<longleftrightarrow>
     parses_entries_and_reads_item_data \<and> item_data_returns_none_for_absent_item \<and>
     item_data_returns_none_when_entry_points_out_of_bounds \<and> rejects_region_shorter_than_header \<and>
     metadata_rejects_bad_signature \<and> metadata_rejects_entry_count_above_max \<and>
     rejects_region_truncated_mid_entry \<and> file_parameters_has_parent_reads_flag_bit_1 \<and>
     file_parameters_rejects_short_buffer \<and> reads_virtual_disk_size_little_endian \<and>
     reads_sector_size_little_endian"

definition log_tests :: "ext \<Rightarrow> bool" where
  "log_tests x \<longleftrightarrow>
     encode_then_parse_roundtrip x \<and> empty_log_guid_skips_replay x \<and>
     contiguous_multi_entry_chain_replays_in_full x \<and>
     torn_entry_ends_the_chain_and_its_successors_are_dropped x \<and>
     successors_of_a_torn_entry_never_reach_the_device x \<and> a_sequence_gap_ends_the_chain x \<and>
     a_foreign_chain_entry_ends_the_chain x \<and>
     tail_anchors_the_chain_past_an_older_one_in_the_same_region x \<and>
     a_chain_starting_away_from_offset_zero_is_found_via_tail x \<and>
     a_chain_that_wraps_the_end_of_the_region_is_followed_round x \<and>
     an_entry_straddling_the_end_of_the_region_is_read_whole x \<and>
     a_torn_straddling_entry_ends_the_chain x \<and>
     an_unlocatable_chain_start_is_refused_rather_than_read_as_nothing_to_do x \<and>
     zero_descriptor_parses_and_zeroes_its_span x \<and>
     a_chain_may_grow_the_file_by_what_its_descriptors_could_have_allocated \<and>
     a_well_formed_region_stays_well_inside_the_budget x \<and>
     a_zero_span_running_past_the_device_is_refused_before_anything_is_written x \<and>
     a_zero_span_starting_past_the_device_is_refused x \<and>
     a_data_sector_past_the_device_is_refused x \<and>
     a_chain_that_grows_the_file_is_extended_rather_than_written_past_its_end x \<and>
     a_chain_needing_room_on_a_device_that_cannot_grow_is_refused_before_anything_lands x \<and>
     a_chain_with_one_bad_descriptor_applies_none_of_it x"

definition reader_tests :: "ext \<Rightarrow> bool" where
  "reader_tests x \<longleftrightarrow>
     the_required_bat_length_counts_the_interleaved_bitmap_entries \<and>
     a_zero_length_disk_needs_no_bat_entries \<and>
     encoding_a_header_preserves_the_log_version_it_carries x \<and>
     stirring_touches_only_the_bottom_eight_bytes \<and> consecutive_sequences_cannot_collide \<and>
     the_result_is_never_the_all_zero_sentinel \<and> write_zeros_covers_the_range_it_is_given"

definition cli_tests :: bool where
  "cli_tests \<longleftrightarrow>
     reads_see_the_base_until_a_write_and_the_write_after \<and>
     growth_reads_as_zeros_past_the_base_and_a_shrink_is_refused \<and>
     a_range_defaults_to_the_whole_disk_and_refuses_the_far_side \<and>
     what_the_library_refuses_is_not_implemented_and_the_rest_failed \<and>
     plain_hex_and_suffixed_counts_are_read \<and> nonsense_and_overflow_are_refused"

lemma format_tests_hold:
  assumes "crc_detects_a_byte x"
  shows "bat_tests" "endian_tests" "header_tests x" "region_table_tests x" "metadata_tests"
  using header_rejects_crc_mismatch_passes [OF assms] region_rejects_crc_mismatch_passes [OF assms]
  by (simp_all add: bat_tests_def bat_tests_pass endian_tests_def endian_tests_pass header_tests_def
      header_tests_pass region_table_tests_def region_tests_pass metadata_tests_def metadata_tests_pass)

lemma log_tests_hold: "crc_contract x \<Longrightarrow> crc_detects_a_byte x \<Longrightarrow> log_tests x"
  by (simp add: log_tests_def encode_then_parse_roundtrip_passes empty_log_guid_skips_replay_passes
      contiguous_tests_pass torn_entry_test_passes successors_test_passes sound_region_tests_pass
      a_foreign_chain_entry_test_passes straddling_test_passes torn_straddling_test_passes
      unlocatable_test_passes zero_descriptor_tests_pass growth_test_passes
      a_data_sector_past_the_device_is_refused_passes growing_tests_pass one_bad_descriptor_test_passes)

lemma reader_tests_hold: "reader_tests x"
  by (simp add: reader_tests_def bat_length_tests_pass encode_header_test_passes stirring_tests_pass
      write_zeros_test_passes)

lemma cli_tests_hold: cli_tests
  by (simp add: cli_tests_def overlay_tests_pass img_tests_pass size_tests_pass)

end
