(* ===== verification/Spec2Isabelle.thy ===== *)
theory Spec2Isabelle
  imports Sample Img_Cli Reader_Threads Fuzz Capi Size Log_Roundtrip Reader_Crash Unit_Tests
begin

text \<open>
  A verification development for \<open>rust-img-vhdx\<close>, a library that opens, reads and writes VHDX disk
  images, and for the command-line tool built on it.

  \<^bold>\<open>The program.\<close> A VHDX file holds two header slots, two copies of a region table, a log, a metadata
  region, a block allocation table (BAT) and the payload blocks. \<open>VhdxReader::open\<close> picks the newest
  valid header, replays the log it names when it holds a chain of entries, marks it consumed by
  rewriting the other header slot, and reads the region table, the metadata and the BAT. \<open>read_at\<close>
  serves the virtual disk through the BAT. \<open>write_at\<close> allocates a block at the end of the file for a
  block that has none: it grows the file, zeroes the block, journals the BAT sector through the log and
  a header rotation, and then publishes the entry in place. The tool opens an image under an overlay in
  memory when it only looks at it, so a replay never touches the file, and reads and writes the guest's
  bytes through standard input and output.

  \<^bold>\<open>The theories and the code they model\<close> (paths under \<open>src/src\<close>, but for the
  fuzz targets, which are under \<open>src/fuzz\<close>):
  \<^item> \<open>Prelude\<close>: checked and saturating arithmetic of words, results with a third outcome \<open>Panic\<close>, state
    and error threading, slices of byte lists. \<open>External\<close>: the checksum of the \<open>crc32c\<close> package and the
    texts of \<open>fs_core\<close>, as a record of arguments with the contract \<open>crc_contract\<close>.
  \<^item> \<open>Endian\<close> (\<open>endian.rs\<close>), \<open>Vhdx_Error\<close> (\<open>error.rs\<close> and the conversions of \<open>reader.rs\<close>), \<open>Bat\<close>
    (\<open>bat.rs\<close>), \<open>Header\<close> (\<open>header.rs\<close>, \<open>encode_header\<close>), \<open>Region_Table\<close> (\<open>region_table.rs\<close>), \<open>Metadata\<close>
    (\<open>metadata.rs\<close>): one definition per function, in the order of the source.
  \<^item> \<open>Block_Device\<close>: the operations of a device as a record, the contract of \<open>fs_core\<close> as the locales
    \<open>block_read\<close>, \<open>block_device\<close> and \<open>reliable_device\<close>, interpreted on a device in memory; \<open>write_zeros\<close>
    and \<open>probe_at\<close> of \<open>reader.rs\<close>.
  \<^item> \<open>Log_Entry\<close> (\<open>log.rs\<close>: \<open>parse_log_entry\<close>, \<open>encode_entry\<close>), \<open>Log_Roundtrip\<close> (its round trip),
    \<open>Log_Chain\<close> (\<open>discover\<close>, \<open>select_chain\<close>, \<open>collect_replay_chain\<close>), \<open>Log_Replay\<close> (\<open>allowed_extent\<close>,
    \<open>apply_chain\<close>).
  \<^item> \<open>Reader_Parts\<close> (the free functions of \<open>reader.rs\<close>: log region checks, GUIDs, the choice of header and
    region table, the header rewrite), \<open>Reader\<close> (\<open>VhdxReader\<close> and its methods), \<open>Reader_Open\<close> (\<open>open_inner\<close>,
    a definition per step of it, and the openers).
  \<^item> \<open>Reader_Read\<close>, \<open>Reader_Write\<close>, \<open>Reader_Opened\<close>, \<open>Reader_Recovery\<close>, \<open>Reader_Device\<close>: the lemmas on these,
    below. \<open>Reader_Threads\<close>: \<open>allocate_block_for\<close> once more, as the steps at whose borders it holds no
    lock, and the interleavings of any number of threads that run it on one reader; \<open>Reader_Writers\<close>: the
    same for a piece of \<open>write_at\<close>; \<open>Reader_Transfers\<close>: the same for a piece of \<open>read_at\<close>, and reads and
    writes interleaved; \<open>Reader_Crash\<close>: a crash while two threads write.
  \<^item> \<open>Overlay\<close> (\<open>cli/vhdx/overlay.rs\<close>), \<open>Size\<close> (\<open>cli/vhdx/size.rs\<close>), \<open>Capi\<close> (\<open>capi.rs\<close>).
  \<^item> \<open>Img\<close>, \<open>Img_Read\<close>, \<open>Img_Verbs\<close>, \<open>Img_Cli\<close> (\<open>cli/vhdx/img.rs\<close>): opening, the report and the moving of
    bytes; the read verb with its partial file; the verbs as \<open>run\<close> dispatches them, with the JSON of \<open>info\<close>
    and \<open>get\<close>; the table of verbs and arguments, and \<open>run\<close> on what was parsed.
  \<^item> \<open>Fuzz\<close> (\<open>shared/walk.rs\<close>, \<open>src/lib.rs\<close> and the five \<open>fuzz_targets\<close>): the device over a byte vector, the
    walk over an image, and the targets.
  \<^item> \<open>Sample\<close>: a four-megabyte image, with and without a journalled write, a disk of two blocks, an image inside
    an image, pieces for two writers and a tree for JSON values, for the witnesses.
  \<^item> \<open>Tests_Support\<close>, \<open>Tests_Format\<close>, \<open>Log_Layout\<close>, \<open>Tests_Log\<close>, \<open>Tests_Replay\<close>, \<open>Tests_Reader\<close>,
    \<open>Tests_Cli\<close>, \<open>Unit_Tests\<close>: the unit tests of the crate (the \<open>tests\<close> modules of \<open>bat.rs\<close>,
    \<open>endian.rs\<close>, \<open>header.rs\<close>, \<open>region_table.rs\<close>, \<open>metadata.rs\<close>, \<open>log.rs\<close>, \<open>reader.rs\<close>, \<open>overlay.rs\<close>,
    \<open>size.rs\<close> and \<open>img.rs\<close>), a definition per fixture and a proposition per test.

  \<^bold>\<open>How state and operations correspond.\<close> A device is a value threaded through its operations; its bytes
  are the function \<open>contents\<close> of a locale. \<open>VhdxReader\<close> is the record \<open>vhdx_reader\<close>, with the device and the
  fields behind its mutexes as fields of the record. A method that fails answers \<open>Err\<close> with the source's
  error; an index out of range, an \<open>unwrap\<close> of nothing or a division by zero answers \<open>Panic\<close>. Machine
  integers are words; \<open>+\<close> wraps as in a release build, and the invariants show where it does not. Threads
  are the relations \<open>threads_step\<close> and \<open>writers_step\<close>: one thread takes one step on the shared reader.

  \<^bold>\<open>What the lemmas show.\<close>
  \<^item> \<open>Reader_Read\<close>: \<open>vdisk\<close>, the virtual disk as a byte list, is what reads return; pieces tile a range.
  \<^item> \<open>Reader_Write\<close>: \<open>disk_inv\<close>, the layout invariant (blocks aligned, inside the file, apart from each
    other, from the log and from the BAT), is kept by every step of a write on every outcome, and the
    write is an \<open>overwrite\<close> of \<open>vdisk\<close>; allocation leaves \<open>vdisk\<close> alone. The locale \<open>piece_writer\<close>
    makes a write from its pieces, for the device that can grow and for the one that cannot.
  \<^item> \<open>Reader_Opened\<close>: an open never panics, gives a reader that satisfies \<open>reader_ok\<close>, and leaves nothing
    for a second open to do.
  \<^item> \<open>Reader_Device\<close>: a reader is itself a device, one that does not grow: the locale \<open>steady_device\<close>, with
    \<open>vdisk\<close> as its contents. It is one over a \<open>reliable_device\<close> and over a \<open>steady_device\<close>, so images nest
    to any depth, and what needs no growth holds of them: reads, writes to blocks that are there, opens
    that do not panic. Allocation needs a file that can grow, and so only the outermost reader does it.
  \<^item> \<open>Reader_Threads\<close>: run alone, the steps are \<open>allocate_block_for\<close>; in every interleaving the claimed
    blocks are apart; an interleaving of two threads loses an entry of the BAT in the file.
    \<open>Reader_Writers\<close>: run alone, the steps of a piece are the body of \<open>write_at\<close>'s loop; writers to blocks
    that are there all take effect; an interleaving of two writers to a block that is not loses a write.
    \<open>Reader_Transfers\<close>, \<open>Reader_Shared\<close>: reads beside writes, with allocations; the invariant gives each block
    of the file to one entry of the BAT or one thread, and shows that every write takes effect and every read
    is of one moment, unless two writers share a block that was not there.
  \<^item> \<open>Reader_Recovery\<close>: what \<open>journal_sector_write\<close> leaves is what the next open replays, over any tear of the
    sector; header slots survive a torn rewrite. \<open>Reader_Crash\<close>: a second thread's journalling replaces the
    first thread's entry, so a tear of the first thread's write is then not repaired.
  \<^item> \<open>Log_Chain\<close>, \<open>Log_Replay\<close>: the chain is the active one, nothing is overlooked, the work is bounded; the
    replay is the abstract \<open>replay\<close>, refused before the first write or applied in full, and what repeating it gives.
  \<^item> \<open>Overlay\<close>: the overlay meets the device contract over a file it does not change, so every theorem on the
    reader holds over it. \<open>Img\<close>, \<open>Img_Read\<close>, \<open>Img_Verbs\<close>, \<open>Size\<close>, \<open>Capi\<close>: what the verbs and the C entry points
    do, which keys \<open>get\<close> answers, and that a read piped into a write copies the disk. \<open>Img_Cli\<close>: \<open>run\<close> never
    panics on a command line \<open>clap\<close> accepted and runs the verb it names. \<open>Fuzz\<close>: no target panics.
  \<^item> \<open>Unit_Tests\<close>: the definitions answer what the crate's own tests assert, so a definition that strays from
    the code on the inputs its authors chose would fail here. \<open>Log_Layout\<close> computes what discovery finds
    in a region laid out by slots, which the log tests rest on. The tests hold for every checksum that
    meets \<open>crc_contract\<close> and notices a changed byte, as CRC-32C does; the two on slots whose stored
    checksum is zero are lemmas of \<open>Tests_Log\<close> with the further hypothesis that the checksum of the
    slots they build is not zero.

  \<^bold>\<open>Bounds and fuel.\<close> The code's loops are recursions with a measure (the bytes left, the pieces left, the
  sequence numbers left for the walk round the log); the one fuel is the number of steps of \<open>alloc_run\<close> and
  \<open>write_run\<close>, six and nine being all there are. A buffer is shorter than \<open>2 ^ 64\<close> and a log region
  shorter than \<open>2 ^ 63\<close>, as in any address space. A header sequence number at its maximum is excluded where
  a theorem needs the rewrite to count up: the code wraps it.

  \<^bold>\<open>Not modelled.\<close> Poisoned mutexes. Of several threads, the pieces of reads and writes are interleaved,
  one thread per piece. Journalling is one step: the header lock keeps other journalling out, and nothing
  else touches the log or the header slots; a write and the flush after it are one step. The order of the
  pieces of one transfer is not kept in such a run, and the overlay of the tool is used by one thread. The
  prose of the help pages, the rendering of JSON and the Windows form of \<open>stdin_file\<close>. \<open>cli/main.rs\<close> and
  \<open>cli/vhdx/mod.rs\<close> hand the table to the dispatcher of \<open>fs_core\<close>; \<open>lib.rs\<close> only declares modules, and its test
  asks whether the build traps overflow. The integration tests under \<open>tests\<close> run the tool and other
  tools on images, and read the repository's own build files. \<open>fs_core\<close> (devices, errors, handles, JSON), \<open>clap\<close>, \<open>crc32c\<close> and the file system
  are outside the repository: their operations are arguments, and what the code relies on is stated as the
  locales of \<open>Block_Device\<close> and \<open>Img_Read\<close> and as \<open>crc_contract\<close>, \<open>json_contract\<close> and \<open>command_parsed\<close>.
\<close>

section \<open>Writing and reading the virtual disk\<close>

text \<open>
  C1. A write of the virtual disk. Over a device whose requests inside its bounds succeed, from an
  image that satisfies the layout invariant, \<open>write_at\<close> never panics and every outcome of it keeps
  the invariant and every byte of the virtual disk outside the range, so an error half-way leaves an
  image that is still well formed. When it succeeds the virtual disk is the old one with exactly the
  bytes of the buffer replaced, whatever blocks had to be allocated and journalled on the way. It does succeed when the reader is writable, the
  range lies inside the disk and every block it touches is present or may be allocated.
\<close>

theorem write_at_updates_the_virtual_disk:
  assumes "reliable_device ops invar contents" "invar (rd_dev r)" "crc_contract x"
    and "disk_inv (contents (rd_dev r)) r" "length buf < 2 ^ 64"
  shows "\<exists>res r'. write_at x ops off buf r = (res, r') \<and> res \<noteq> Panic \<and> invar (rd_dev r') \<and>
    disk_inv (contents (rd_dev r')) r' \<and> same_geometry r r' \<and>
    (\<forall>v < unat (rd_virtual_size r). v < unat off \<or> unat off + length buf \<le> v \<longrightarrow>
      vdisk r' (contents (rd_dev r')) ! v = vdisk r (contents (rd_dev r)) ! v) \<and>
    (res = Ok () \<longrightarrow> rd_writable r \<and>
      (buf \<noteq> [] \<longrightarrow> unat off + length buf \<le> unat (rd_virtual_size r)) \<and>
      vdisk r' (contents (rd_dev r')) = overwrite (unat off) buf (vdisk r (contents (rd_dev r)))) \<and>
    (rd_writable r \<longrightarrow> (buf \<noteq> [] \<longrightarrow> unat off + length buf \<le> unat (rd_virtual_size r)) \<longrightarrow>
      (\<forall>v. unat off \<le> v \<longrightarrow> v < unat off + length buf \<longrightarrow> accepts r v) \<longrightarrow> res = Ok ())"
  using assms by (rule reliable_device.write_at_ok)

theorem write_at_updates_the_virtual_disk_witness:
  "\<exists>r'. write_at sum_ext vec_ops 16 [1, 2, 3] (sample_reader True) = (Ok (), r') \<and>
     disk_inv (rd_dev r') r' \<and>
     vdisk r' (rd_dev r') = overwrite 16 [1, 2, 3] (vdisk (sample_reader True) sample_image)"
  using write_at_updates_the_virtual_disk [OF vec.reliable_device_axioms, of "sample_reader True" sum_ext
      "[1, 2, 3]" 16] sample_disk_inv [of True] sample_accepts [of _ True] sum_ext_contract
  by auto

text \<open>
  C2. A read is right whatever it answers. Over a device whose requests inside its bounds succeed,
  the bytes a read returns are those of the virtual disk, for a range inside it; an error comes
  only of a range past the end, or of one that touches a block whose state, or whose place in the
  file, cannot be served; and it never panics.
\<close>

theorem read_at_returns_the_virtual_disk:
  assumes "reliable_device ops invar contents" "invar (rd_dev r)"
    and "unat (rd_dev_size r) \<le> length (contents (rd_dev r))" "geometry_ok r" "length buf < 2 ^ 64"
  shows "case read_at ops r off buf of
      Ok bs \<Rightarrow> (buf \<noteq> [] \<longrightarrow> unat off + length buf \<le> unat (rd_virtual_size r)) \<and>
        bs = subslice (unat off) (unat off + length buf) (vdisk r (contents (rd_dev r)))
    | Err e \<Rightarrow> unat (rd_virtual_size r) < unat off + length buf \<or>
        (\<exists>v. unat off \<le> v \<and> v < unat off + length buf \<and> \<not> readable r v)
    | Panic \<Rightarrow> False"
proof (cases "read_at ops r off buf")
  case (Ok bs)
  note rd = block_device.read_at_Ok [OF reliable_device.axioms(1) [OF assms(1)] assms(2,4,5) Ok]
  then have "bs = subslice (unat off) (unat off + length buf) (vdisk r (contents (rd_dev r)))"
    by (cases "buf = []") (auto simp: nth_subslice intro!: nth_equalityI)
  then show ?thesis using rd Ok by simp
next
  case (Err e)
  then show ?thesis using reliable_device.read_at_total [OF assms, of off] by auto
next
  case Panic
  then show ?thesis using reliable_device.read_at_total [OF assms, of off] by auto
qed

theorem read_at_returns_the_virtual_disk_witness:
  "read_at vec_ops (sample_reader False) 100 [7, 7] = Ok (subslice 100 102 (vdisk (sample_reader False) sample_image)) \<and>
   (\<exists>e. read_at vec_ops (sample_reader False) 0xFFFFF [7, 7] = Err e)"
proof -
  note t = read_at_returns_the_virtual_disk [OF vec.reliable_device_axioms _ _ sample_geometry_ok, of False "[7, 7]"]
  have "read_at vec_ops (sample_reader False) 0xFFFFF [7, 7] = Err (OutOfBounds 0xFFFFF 2 0x100000)"
    by (simp add: read_at_def transfer_end_def checked_add_def)
  then show ?thesis using t [of 100] sample_readable [of _ False] by (auto split: res.splits)
qed

text \<open>
  C3. What is written is read back: a write that the reader accepts succeeds, and a read of the
  same range afterwards succeeds and returns the bytes written.
\<close>

theorem write_at_is_read_back:
  assumes "reliable_device ops invar contents" "invar (rd_dev r)" "crc_contract x"
    and "disk_inv (contents (rd_dev r)) r" "rd_writable r"
    and "unat off + length buf \<le> unat (rd_virtual_size r)"
    and "\<forall>v. unat off \<le> v \<longrightarrow> v < unat off + length buf \<longrightarrow> accepts r v" "length b = length buf"
  shows "\<exists>r'. write_at x ops off buf r = (Ok (), r') \<and> read_at ops r' off b = Ok buf"
  using assms by (rule reliable_device.write_then_read)

theorem write_at_is_read_back_witness:
  "\<exists>r'. write_at sum_ext vec_ops 16 [1, 2, 3] (sample_reader True) = (Ok (), r') \<and>
     read_at vec_ops r' 16 [0, 0, 0] = Ok [1, 2, 3]"
  using write_at_is_read_back [OF vec.reliable_device_axioms, of "sample_reader True" sum_ext 16 "[1, 2, 3]" "[0, 0, 0]"]
    sample_disk_inv [of True] sample_accepts [of _ True] sum_ext_contract
  by auto

text \<open>
  C4. Allocation is invisible and safe: over a device whose requests inside its bounds succeed, and
  from an image that satisfies the layout invariant, giving a block to an unallocated BAT slot
  succeeds, keeps that invariant, and changes no byte of the virtual disk, although it grows the
  file, journals and rewrites the sector of the BAT and rotates the header.
\<close>

theorem allocate_block_for_is_invisible:
  assumes "reliable_device ops invar contents" "invar (rd_dev r)" "crc_contract x"
    and "disk_inv (contents (rd_dev r)) r" "payload_slot r i" "i < length (rd_bat r)"
    and "be_state (rd_bat r ! i) \<noteq> FullyPresent"
  shows "\<exists>off r'. allocate_block_for x ops i r = (Ok off, r') \<and> invar (rd_dev r') \<and>
    disk_inv (contents (rd_dev r')) r' \<and>
    be_state (rd_bat r' ! i) = FullyPresent \<and> be_file_offset (rd_bat r' ! i) = off \<and>
    vdisk r' (contents (rd_dev r')) = vdisk r (contents (rd_dev r))"
proof -
  obtain off r' where a: "allocate_block_for x ops i r = (Ok off, r')" "invar (rd_dev r')"
    "allocated i off (contents (rd_dev r)) r (contents (rd_dev r')) r'"
    by (rule reliable_device.allocate_block_for_allocated [OF assms])
  have "vdisk r' (contents (rd_dev r')) = vdisk r (contents (rd_dev r))"
    using allocated_vbyte [OF a(3) assms(4,7)] by (simp add: vdisk_def allocated_fields [OF a(3)])
  then show ?thesis
    using a allocated_disk_inv [OF a(3) assms(4,7)] assms(6) by (simp add: allocated_fields [OF a(3)])
qed

theorem allocate_block_for_is_invisible_witness:
  "\<exists>off r'. allocate_block_for sum_ext vec_ops 0 (sample_reader True) = (Ok off, r') \<and>
     vdisk r' (rd_dev r') = vdisk (sample_reader True) sample_image"
proof -
  have "payload_slot (sample_reader True) 0"
    unfolding payload_slot_def by (rule exI [of _ 0]) simp
  then show ?thesis
    using allocate_block_for_is_invisible [OF vec.reliable_device_axioms, of "sample_reader True" sum_ext 0]
      sample_disk_inv [of True] sum_ext_contract by auto
qed

text \<open>
  C5. An image inside an image. The reader as a block device is a \<open>steady_device\<close>: with the virtual
  disk as its contents, reads return it, a write that succeeds replaces exactly the bytes named and
  one that fails changes none outside its range, the length never changes, nothing panics, and
  requests succeed on the bytes the device gives and takes. Over a device whose requests inside its
  bounds succeed those are the bytes of every block that is there or can be allocated. Over a device
  that is itself steady, such as another reader, they are the bytes of the blocks that are there,
  as far as the device below gives and takes them: an image inside an image reads and writes, to
  any depth, but allocates nothing.
\<close>

theorem reader_is_a_block_device:
  "(reliable_device ops invar contents \<and> crc_contract x \<longrightarrow>
     steady_device (reader_ops x ops) (image_ok invar contents) (disk_of contents)
       accepts (\<lambda>r v. rd_writable r \<and> accepts r v)) \<and>
   (steady_device ops invar contents gives takes \<longrightarrow>
     steady_device (reader_ops x ops) (image_ok invar contents) (disk_of contents)
       (image_gives gives) (\<lambda>r v. rd_writable r \<and> image_takes takes r v))"
  using vhdx_over.image_is_steady [OF vhdx_overI] vhdx_inside.inner_image_is_steady [OF vhdx_insideI] by blast

theorem reader_is_a_block_device_witness:
  "\<exists>r'. dev_write_at (reader_ops sum_ext (reader_ops sum_ext vec_ops)) 16 [1, 2, 3] inner_reader = (Ok (), r') \<and>
     disk_of (disk_of (\<lambda>v. v)) r' = overwrite 16 [1, 2, 3] (disk_of (disk_of (\<lambda>v. v)) inner_reader)"
proof -
  let ?ops = "reader_ops sum_ext (reader_ops sum_ext vec_ops)"
  have "steady_device (reader_ops sum_ext vec_ops) (image_ok vec_invar (\<lambda>v. v)) (disk_of (\<lambda>v. v))
      accepts (\<lambda>r v. rd_writable r \<and> accepts r v)"
    using reader_is_a_block_device vec.reliable_device_axioms sum_ext_contract by blast
  then have two: "steady_device ?ops (image_ok (image_ok vec_invar (\<lambda>v. v)) (disk_of (\<lambda>v. v)))
      (disk_of (disk_of (\<lambda>v. v))) (image_gives accepts)
      (\<lambda>r v. rd_writable r \<and> image_takes (\<lambda>r v. rd_writable r \<and> accepts r v) r v)"
    using reader_is_a_block_device by blast
  obtain r' where w: "dev_write_at ?ops 16 [1, 2, 3] inner_reader = (Ok (), r')"
    using steady_device.write_taken [OF two inner_image_ok, of "[1, 2, 3]" 16] inner_takes
    by (cases "dev_write_at ?ops 16 [1, 2, 3] inner_reader") (auto simp: is_Ok_iff)
  have "block_device ?ops (image_ok (image_ok vec_invar (\<lambda>v. v)) (disk_of (\<lambda>v. v))) (disk_of (disk_of (\<lambda>v. v)))"
    using two by (simp add: steady_device_def calm_device_def)
  from block_device.write_law [OF this inner_image_ok, of "[1, 2, 3]" 16 "()" r'] show ?thesis using w by simp
qed

section \<open>Several threads\<close>

text \<open>
  C6. Threads that allocate at once claim different blocks. In every state any number of threads can
  reach in any interleaving, whatever requests the device refused on the way, the recorded size is
  the size of the device, each block that is claimed lies inside it and past the end it had before,
  and no two claims share a byte.
\<close>

theorem threads_claim_disjoint_blocks:
  assumes "block_device ops invar contents" "invar (rd_dev r)" "unat (rd_dev_size r) = length (contents (rd_dev r))"
    and "block_bytes r = 2 ^ m" "length (contents (rd_dev r)) + 2 * block_bytes r * length idxs < 2 ^ 64"
    and "threads_run x ops (r, start_threads idxs) (r', ts)"
  shows "unat (rd_dev_size r') = length (contents (rd_dev r')) \<and>
    (\<forall>k < length ts. \<forall>a. claimed (ts ! k) = Some a \<longrightarrow>
       length (contents (rd_dev r)) \<le> unat a \<and> unat a + block_bytes r \<le> length (contents (rd_dev r'))) \<and>
    (\<forall>j < length ts. \<forall>k < length ts. j \<noteq> k \<longrightarrow> (\<forall>a b. claimed (ts ! j) = Some a \<longrightarrow> claimed (ts ! k) = Some b \<longrightarrow>
       apart_spans (unat a) (block_bytes r) (unat b) (block_bytes r)))"
proof -
  have "threads_inv invar contents (length (contents (rd_dev r))) (block_bytes r) (r', ts)"
    by (rule block_device.threads_inv_run [OF assms(1,4) block_device.threads_inv_start [OF assms(1-3,5)] assms(6)])
  then show ?thesis by (simp add: threads_inv_def)
qed

theorem threads_claim_disjoint_blocks_witness:
  "\<exists>r' a b. threads_run sum_ext vec_ops (two_block_reader, start_threads [0, 1])
      (r', [Running 0 (Allocated a), Running 1 (Allocated b)]) \<and>
    apart_spans (unat a) 0x100000 (unat b) 0x100000"
proof -
  obtain r' a b where run: "threads_run sum_ext vec_ops (two_block_reader, start_threads [0, 1])
      (r', [Running 0 (Allocated a), Running 1 (Allocated b)])"
    using vec.entry_lost [of two_block_reader sum_ext 0 1] two_block_disk_inv two_block_sector sum_ext_contract by auto
  have "block_bytes two_block_reader = 2 ^ 20" by simp
  from threads_claim_disjoint_blocks [OF vec.block_device_axioms _ _ this _ run, THEN conjunct2, THEN conjunct2,
      rule_format, of 0 1 a b]
  have "apart_spans (unat a) 0x100000 (unat b) 0x100000" by simp
  then show ?thesis using run by blast
qed

text \<open>
  C7. Threads that allocate at once can lose a block. Two threads that allocate for two entries of
  one BAT sector can interleave so that both return, the reader serves both blocks, and the file has
  lost the first entry: it still says the block is not there, so the next open reads zeros where
  data was written. The sector is read, changed and written back under no lock.
\<close>

theorem threads_can_lose_a_bat_entry:
  assumes "reliable_device ops invar contents" "invar (rd_dev r)" "crc_contract x"
    and "disk_inv (contents (rd_dev r)) r" "i \<noteq> j" "i < length (rd_bat r)" "j < length (rd_bat r)"
    and "sector_off_of r i = sector_off_of r j" "length (contents (rd_dev r)) + 4 * block_bytes r < 2 ^ 64"
    and "be_state (rd_bat r ! i) \<noteq> FullyPresent"
  shows "\<exists>r' a b. threads_run x ops (r, start_threads [i, j])
      (r', [Running i (Allocated a), Running j (Allocated b)]) \<and>
    be_state (rd_bat r' ! i) = FullyPresent \<and>
    be_state (disk_bat_entry (contents (rd_dev r')) (unat (rd_bat_region_off r')) i) \<noteq> FullyPresent"
proof -
  obtain r' a b where "threads_run x ops (r, start_threads [i, j]) (r', [Running i (Allocated a), Running j (Allocated b)])"
    "rd_bat r' ! i = \<lparr> be_state = FullyPresent, be_file_offset = a \<rparr>"
    "disk_bat_entry (contents (rd_dev r')) (unat (rd_bat_region_off r')) i = rd_bat r ! i"
    using reliable_device.entry_lost [OF assms(1-9)] by blast
  then show ?thesis using assms(10) by (metis bat_entry.select_convs(1))
qed

theorem threads_can_lose_a_bat_entry_witness:
  "\<exists>r' a b. threads_run sum_ext vec_ops (two_block_reader, start_threads [0, 1])
      (r', [Running 0 (Allocated a), Running 1 (Allocated b)]) \<and>
    be_state (rd_bat r' ! 0) = FullyPresent \<and>
    be_state (disk_bat_entry (rd_dev r') (unat (rd_bat_region_off r')) 0) \<noteq> FullyPresent"
  using threads_can_lose_a_bat_entry [OF vec.reliable_device_axioms, of two_block_reader sum_ext 0 1]
    two_block_disk_inv two_block_sector sum_ext_contract by simp

text \<open>
  C8. Reads and writes of several threads take effect. Let any number of threads each read or write a
  piece of the disk, the pieces that are written sharing no byte, and no two writers sharing a block
  that was not there at the start. In every state that any interleaving reaches, allocations included,
  no thread has failed; a write that is done has its bytes in the virtual disk; a read that is done
  returned what the virtual disk held at one moment of the run; and every byte of the disk is the one of
  the start or one that a writer of that byte gave it.
\<close>

theorem reads_and_writes_of_threads_take_effect:
  assumes "reliable_device ops invar contents" "invar (rd_dev r)" "crc_contract x" "disk_inv (contents (rd_dev r)) r"
    and "tasks_ok r at tasks" "length (contents (rd_dev r)) + 2 * block_bytes r * length tasks < 2 ^ 64"
    and "transfers_run x ops tasks (r, start_transfers tasks) (r', ts)"
  shows "(\<forall>k < length tasks.
      case tasks ! k of
        WriteTask ch src \<Rightarrow> \<exists>pc. ts ! k = AtWrite pc \<and>
          (pc = Written \<longrightarrow> (\<forall>v. in_job (at k) (ch, src) v \<longrightarrow> vbyte r' (contents (rd_dev r')) v = src ! (v - at k)))
      | ReadTask ch n \<Rightarrow> \<exists>pc. ts ! k = AtRead pc \<and>
          (\<forall>bs. pc = Fetched bs \<longrightarrow> length bs = n \<and> (\<exists>r1 ts1.
             transfers_run x ops tasks (r, start_transfers tasks) (r1, ts1) \<and> transfers_run x ops tasks (r1, ts1) (r', ts) \<and>
             (\<forall>j < n. bs ! j = vbyte r1 (contents (rd_dev r1)) (at k + j))))) \<and>
    (\<forall>v < unat (rd_virtual_size r). vbyte r' (contents (rd_dev r')) v = vbyte r (contents (rd_dev r)) v \<or>
       (\<exists>k < length tasks. \<exists>ch src. tasks ! k = WriteTask ch src \<and> in_job (at k) (ch, src) v \<and>
          vbyte r' (contents (rd_dev r')) v = src ! (v - at k)))"
  by (rule reliable_device.shared_run [OF assms])

theorem reads_and_writes_of_threads_take_effect_witness:
  "\<exists>r'. transfers_run sum_ext vec_ops sample_tasks (sample_reader True, start_transfers sample_tasks)
      (r', [AtWrite Written, AtRead (Fetched [0])]) \<and> vbyte r' (rd_dev r') 16 = 1 \<and> vbyte r' (rd_dev r') 17 = 2"
proof -
  obtain r' where run: "transfers_run sum_ext vec_ops sample_tasks (sample_reader True, start_transfers sample_tasks)
      (r', [AtWrite Written, AtRead (Fetched [0])])" by (rule sample_transfers)
  have room: "length (rd_dev (sample_reader True)) + 2 * block_bytes (sample_reader True) * length sample_tasks < 2 ^ 64"
    by (simp add: sample_tasks_def)
  note t = reads_and_writes_of_threads_take_effect [OF vec.reliable_device_axioms _ sum_ext_contract _ sample_tasks_ok
      room run, THEN conjunct1]
  show ?thesis
    using t [rule_format, of 0] sample_disk_inv [of True] run
    by (intro exI [of _ r']) (simp add: sample_tasks_def in_job_def sample_at_def)
qed

text \<open>
  C9. Writers to a block that is not there can lose a write. Two threads that write different bytes
  of one block that is not present can interleave so that both writes succeed and the bytes of the
  first are gone: the virtual disk has only the second's, and zeros where the first wrote. Each
  looks the block up before the other has allocated it, both allocate, and the second's block takes
  the place of the first's.
\<close>

theorem threads_can_lose_a_write:
  assumes "reliable_device ops invar contents" "invar (rd_dev r)" "crc_contract x"
    and "disk_inv (contents (rd_dev r)) r" "job_at r w1 (c1, s1)" "job_at r w2 (c2, s2)"
    and "slot_of r w1 = slot_of r w2" "accepts r w1" "be_state (rd_bat r ! slot_of r w1) \<noteq> FullyPresent"
    and "length (contents (rd_dev r)) + 4 * block_bytes r < 2 ^ 64"
    and "\<forall>v. in_job w1 (c1, s1) v \<longrightarrow> \<not> in_job w2 (c2, s2) v"
  shows "\<exists>r'. writers_run x ops [(c1, s1), (c2, s2)] (r, start_writers [(c1, s1), (c2, s2)])
      (r', [Writing Written, Writing Written]) \<and>
    (\<forall>v. in_job w1 (c1, s1) v \<longrightarrow> vbyte r' (contents (rd_dev r')) v = 0) \<and>
    (\<forall>v. in_job w2 (c2, s2) v \<longrightarrow> vbyte r' (contents (rd_dev r')) v = s2 ! (v - w2))"
proof -
  obtain r' where run: "writers_run x ops [(c1, s1), (c2, s2)] (r, start_writers [(c1, s1), (c2, s2)])
      (r', [Writing Written, Writing Written])"
    and v: "\<forall>v < unat (rd_virtual_size r). vbyte r' (contents (rd_dev r')) v =
      (if slot_of r v = slot_of r w1 then if in_job w2 (c2, s2) v then s2 ! (v - w2) else 0
       else vbyte r (contents (rd_dev r)) v)"
    using reliable_device.write_lost [OF assms(1-10)] by blast
  have pos: "0 < block_bytes r"
    using assms(4) block_size_ok_pos by (fastforce simp: disk_inv_def reader_ok_def geometry_ok_def)
  show ?thesis
    using run v assms(7,11) in_job_slot [OF assms(5) pos] in_job_slot [OF assms(6) pos] by (intro exI [of _ r']) auto
qed

theorem threads_can_lose_a_write_witness:
  "\<exists>r'. writers_run sum_ext vec_ops sample_jobs (sample_reader True, start_writers sample_jobs)
      (r', [Writing Written, Writing Written]) \<and>
    vbyte r' (rd_dev r') 16 = 0 \<and> vbyte r' (rd_dev r') 17 = 0 \<and> vbyte r' (rd_dev r') 100 = 3"
proof -
  let ?r = "sample_reader True"
  obtain c1 c2 where js: "sample_jobs = [(c1, [1, 2]), (c2, [3])]" by (simp add: sample_jobs_def)
  have j: "job_at ?r 16 (c1, [1, 2])" "job_at ?r 100 (c2, [3])"
    using sample_job(1) [of 0 ?r] sample_job(1) [of 1 ?r] by (simp_all add: js sample_at_def)
  have "\<exists>r'. writers_run sum_ext vec_ops sample_jobs (?r, start_writers sample_jobs)
      (r', [Writing Written, Writing Written]) \<and>
    (\<forall>v. in_job 16 (c1, [1, 2]) v \<longrightarrow> vbyte r' (rd_dev r') v = 0) \<and>
    (\<forall>v. in_job 100 (c2, [3]) v \<longrightarrow> vbyte r' (rd_dev r') v = [3] ! (v - 100))"
    unfolding js
    by (rule threads_can_lose_a_write [OF vec.reliable_device_axioms _ sum_ext_contract _ j])
      (use sample_disk_inv [of True] sample_accepts [of _ True] in \<open>auto simp: in_job_def\<close>)
  then show ?thesis by (auto simp: in_job_def)
qed

section \<open>Opening an image\<close>

text \<open>
  C10. Opening never panics, whatever the bytes of the image: over any device that itself does not
  panic, each opener answers a reader or an error, and leaves the device in its invariant.
\<close>

theorem open_never_panics:
  assumes "calm_device ops invar contents" "invar d"
  shows "fst (open_inner x ops w rc d) \<noteq> Panic \<and> fst (open_on_device x ops d) \<noteq> Panic \<and>
    fst (open_rw_on_device x ops d) \<noteq> Panic \<and> invar (snd (open_inner x ops w rc d))"
proof -
  have c: "fst (open_inner x ops w rc d) \<noteq> Panic \<and> invar (snd (open_inner x ops w rc d))" for w rc
    using io_calmD [OF calm_device.open_inner_calm [OF assms(1)] assms(2)] by (metis prod.collapse)
  then show ?thesis
    by (simp add: open_on_device_def open_rw_on_device_def)
qed

theorem open_never_panics_witness:
  "fst (open_on_device sum_ext vec_ops (replicate 10 0)) \<noteq> Panic \<and>
   fst (open_rw_on_device sum_ext vec_ops sample_image) \<noteq> Panic"
  using open_never_panics [OF vec_calm.calm_device_axioms, of "replicate 10 0" sum_ext]
    open_never_panics [OF vec_calm.calm_device_axioms, of sample_image sum_ext]
  by (simp add: vec_invar_def)

text \<open>
  C11. No fuzz target panics: on every input a byte vector can hold, each of the five targets returns.
  The walk over a whole image opens it read-only, reads at every block boundary up to its budget and
  once from the start, and ends; the parsers and the chain search answer values or errors.
\<close>

theorem fuzz_targets_never_panic:
  assumes "read_only_defaults defaults" "vec_sized data"
  shows "fuzz_image x defaults data = Ok () \<and> fuzz_log x data = Ok () \<and> fuzz_header x data = Ok () \<and>
    fuzz_region_table x data = Ok () \<and> fuzz_metadata data = Ok ()"
  using walk_Ok [OF assms] fuzz_log_Ok fuzz_header_Ok fuzz_region_table_Ok fuzz_metadata_Ok
  by (simp add: fuzz_image_def)

theorem fuzz_targets_never_panic_witness:
  "fuzz_image sum_ext refusing_defaults sample_image = Ok () \<and> fuzz_log sum_ext [] = Ok ()"
  using fuzz_targets_never_panic [OF refusing_defaults_ok, of sample_image sum_ext]
    fuzz_targets_never_panic [OF refusing_defaults_ok, of "[]" sum_ext] by (simp add: vec_sized_def)

text \<open>
  C12. What an open reader is: the device it returns is the one it reads from; the size it records
  is the device's; its geometry is sound, its BAT has an entry for every block of the virtual disk
  and agrees entry by entry with the device; and its log region lies where a log may lie.
\<close>

theorem open_gives_a_consistent_reader:
  assumes "block_device ops invar contents" "invar d" "open_inner x ops w rc d = (Ok r, d')"
  shows "rd_dev r = d' \<and> invar d' \<and> rd_writable r = w \<and> reader_ok (contents d') r"
  using block_device.open_inner_reader_ok [OF assms] by blast

theorem open_gives_a_consistent_reader_witness:
  "open_inner sum_ext vec_ops True True sample_image = (Ok (sample_reader True), sample_image) \<and>
   reader_ok sample_image (sample_reader True)"
  using open_gives_a_consistent_reader [OF vec.block_device_axioms sample_vec_invar sample_open [of True True]]
    sample_open by simp

text \<open>
  C13. An open that may not replay the log does not change the device, whatever it answers.
\<close>

theorem read_only_open_changes_nothing:
  "snd (open_inner x ops w False d) = d"
  using open_inner_incapable [of x ops w d] by (metis prod.collapse)

text \<open>
  C14. A log that holds entries is never ignored: when a chain is pending and the device cannot be
  written, the open is refused with \<open>LogNeedsReplay\<close> rather than served from bytes the log was
  going to replace.
\<close>

theorem pending_log_refuses_a_read_only_open:
  assumes "identify x ops d (dev_size_bytes ops d) = Ok (h, s)"
    and "pending_chain x ops d (dev_size_bytes ops d) h = Ok chain" "chain \<noteq> []"
    and "\<not> dev_is_writable ops d"
  shows "open_on_device x ops d = (Err LogNeedsReplay, d)"
  using assms by (simp add: open_on_device_def open_inner_def open_sized_def io_bind_def replay_log_def io_lift_def)

theorem pending_log_refuses_a_read_only_open_witness:
  "open_on_device sum_ext read_only (rd_dev sample_dirty) = (Err LogNeedsReplay, rd_dev sample_dirty)"
proof (rule pending_log_refuses_a_read_only_open)
  have same: "dev_size_bytes read_only = dev_size_bytes vec_ops" "dev_read_at read_only = dev_read_at vec_ops"
    by (simp_all add: read_only_def)
  have "identify sum_ext read_only = identify sum_ext vec_ops"
    by (intro ext) (simp only: identify_def check_file_identifier_def pick_header_def pick_region_table_def
        probe_at_def same)
  moreover have "pending_chain sum_ext read_only = pending_chain sum_ext vec_ops"
    by (intro ext) (simp only: pending_chain_def same)
  ultimately show "identify sum_ext read_only (rd_dev sample_dirty) (dev_size_bytes read_only (rd_dev sample_dirty)) =
      Ok (journal_header sample_header, Two)"
    "pending_chain sum_ext read_only (rd_dev sample_dirty) (dev_size_bytes read_only (rd_dev sample_dirty))
      (journal_header sample_header) = Ok [journalled sample_header 0x400000 0x300000 sample_sector]"
    using sample_dirty_identify sample_pending(2) by (simp_all add: same)
qed (simp_all add: read_only_def)

text \<open>
  C15. Recovery is done once: after an open that succeeded, replaying the log if it had to, a
  second open of the same device changes nothing. The chain must not itself write over the header
  section.
\<close>

theorem second_open_changes_nothing:
  assumes "block_device ops invar contents" "invar d" "open_inner x ops w rc d = (Ok r, d')"
    and "slot_start Two + HEADER_SIZE \<le> length (contents d)"
    and "newest_header x (contents d) = Some (h, s)" "hdr_sequence_number h \<noteq> - 1"
    and "\<And>chain. pending_chain x ops d (dev_size_bytes ops d) h = Ok chain \<Longrightarrow> spares_headers chain"
    and "open_inner x ops w' rc d' = (r', d'')"
  shows "d'' = d'"
  using assms by (rule block_device.open_inner_again)

theorem second_open_changes_nothing_witness:
  "snd (open_inner sum_ext vec_ops False True sample_image) = sample_image"
proof -
  obtain r' d'' where o: "open_inner sum_ext vec_ops False True sample_image = (r', d'')" by (metis surj_pair)
  have "d'' = sample_image"
    by (rule second_open_changes_nothing [OF vec.block_device_axioms sample_vec_invar sample_open [of True True]
          _ sample_newest _ _ o])
      (auto simp: pending_chain_def sample_header_def is_zero_guid_def list_all_iff spares_headers_def)
  then show ?thesis using o by simp
qed

section \<open>The log\<close>

text \<open>
  C16. A torn write is repaired. Once \<open>journal_sector_write\<close> has returned, whatever the write it
  protects left where the sector belongs -- nothing, all of it, or any mixture -- the header the
  next open picks names the journalled entry, and the replay that open runs succeeds and puts the
  whole sector in place, changing nothing else. The log must hold no other entry under the GUID
  the journal takes.
\<close>

theorem torn_sector_is_recovered:
  assumes "reliable_device ops invar contents"
    and "invar (rd_dev r)" "crc_contract x" "reader_ok (contents (rd_dev r)) r"
    and "newest_header x (contents (rd_dev r)) = Some (rd_header r, rd_active_header_slot r)"
    and "hdr_sequence_number (rd_header r) \<noteq> - 1" "8192 \<le> unat (hdr_log_length (rd_header r))"
    and "length sector = LOG_SECTOR_SIZE" "journal_sector_write x ops off sector r = (Ok u, r')"
    and "foreign_from (subslice (unat (hdr_log_offset (rd_header r)))
      (unat (hdr_log_offset (rd_header r)) + unat (hdr_log_length (rd_header r))) (contents (rd_dev r)))
      (hdr_log_guid (journal_header (rd_header r))) 8192"
    and "2 ^ 20 \<le> unat off" "unat off + LOG_SECTOR_SIZE \<le> length (contents (rd_dev r'))"
    and "apart_from_log (rd_header r) (unat off) LOG_SECTOR_SIZE"
    and "invar e" "length t = LOG_SECTOR_SIZE" "contents e = overwrite (unat off) t (contents (rd_dev r'))"
  shows "newest_header x (contents e) = Some (rd_header r', rd_active_header_slot r') \<and>
    (\<exists>e'. replay_log x ops True (dev_size_bytes ops e) (rd_header r') e =
        (Ok (True, dev_size_bytes ops e), e') \<and> invar e' \<and>
      contents e' = overwrite (unat off) sector (contents (rd_dev r')))"
  using reliable_device.torn_sector_recovered [OF assms] by blast

theorem torn_sector_is_recovered_witness:
  "snd (replay_log sum_ext vec_ops True 0x400000 (journal_header sample_header)
      (overwrite 0x300000 (replicate 4096 2) (rd_dev sample_dirty))) =
   overwrite 0x300000 sample_sector (rd_dev sample_dirty)"
proof -
  let ?e = "overwrite 0x300000 (replicate 4096 2) (rd_dev sample_dirty)"
  obtain b where j: "journal_sector_write sum_ext vec_ops 0x300000 sample_sector (sample_reader True) = (Ok (), sample_dirty)"
    "rd_header sample_dirty = journal_header sample_header" "vec_invar (rd_dev sample_dirty)"
    by (rule sample_journal)
  have sz: "dev_size_bytes vec_ops ?e = 0x400000" "vec_invar ?e" by (simp_all add: vec_ops_def vec_invar_def)
  let ?r = "sample_reader True"
  have pre: "vec_invar (rd_dev ?r)" "reader_ok (rd_dev ?r) ?r"
    "newest_header sum_ext (rd_dev ?r) = Some (rd_header ?r, rd_active_header_slot ?r)"
    "hdr_sequence_number (rd_header ?r) \<noteq> - 1" "8192 \<le> unat (hdr_log_length (rd_header ?r))"
    "foreign_from (subslice (unat (hdr_log_offset (rd_header ?r)))
      (unat (hdr_log_offset (rd_header ?r)) + unat (hdr_log_length (rd_header ?r))) (rd_dev ?r))
      (hdr_log_guid (journal_header (rd_header ?r))) 8192"
    "apart_from_log (rd_header ?r) (unat (0x300000 :: u64)) LOG_SECTOR_SIZE"
    using sample_reader_ok sample_newest sample_foreign
    by (simp_all add: apart_from_log_def apart_spans_def log_span_def)
  have "\<exists>e'. replay_log sum_ext vec_ops True (dev_size_bytes vec_ops ?e) (rd_header sample_dirty) ?e =
      (Ok (True, dev_size_bytes vec_ops ?e), e') \<and> vec_invar e' \<and>
      e' = overwrite (unat (0x300000 :: u64)) sample_sector (rd_dev sample_dirty)"
    by (rule torn_sector_is_recovered [OF vec.reliable_device_axioms pre(1) sum_ext_contract pre(2-5)
          sample_sector_length j(1) pre(6) _ _ pre(7) sz(2), of "replicate 4096 2", THEN conjunct2])
      simp_all
  then show ?thesis using j(2) sz(1) by auto
qed

text \<open>
  C17. A torn write of another thread is not repaired. Two threads that allocate for entries of
  different BAT sectors can interleave so that both have journalled their sector and neither has
  written it in place. From there, when the first thread's write is torn, whatever it left stays:
  the header the next open picks names the second thread's entry, the replay succeeds, puts the
  second sector in place, and leaves the first as the tear left it. The log region is as a quiet
  image has it, with nothing under the GUID the second journalling takes.
\<close>

theorem second_journal_loses_the_first:
  assumes "reliable_device ops invar contents"
    and "invar (rd_dev r)" "crc_contract x" "disk_inv (contents (rd_dev r)) r"
    and "newest_header x (contents (rd_dev r)) = Some (rd_header r, rd_active_header_slot r)"
    and "hdr_sequence_number (rd_header r) \<noteq> - 1" "hdr_sequence_number (journal_header (rd_header r)) \<noteq> - 1"
    and "8192 \<le> unat (hdr_log_length (rd_header r))"
    and "i < length (rd_bat r)" "j < length (rd_bat r)" "sector_off_of r i \<noteq> sector_off_of r j"
    and "length (contents (rd_dev r)) + 4 * block_bytes r < 2 ^ 64"
    and "foreign_from (subslice (unat (hdr_log_offset (rd_header r)))
      (unat (hdr_log_offset (rd_header r)) + unat (hdr_log_length (rd_header r))) (contents (rd_dev r)))
      (hdr_log_guid (journal_header (journal_header (rd_header r)))) 8192"
  defines "p \<equiv> unat (sector_off_of r i)" and "q \<equiv> unat (sector_off_of r j)"
  shows "\<exists>r' a b s t. threads_run x ops (r, start_threads [i, j])
      (r', [Running i (WriteSector a s), Running j (WriteSector b t)]) \<and> invar (rd_dev r') \<and>
    sector_off_of r' i = sector_off_of r i \<and> p + LOG_SECTOR_SIZE \<le> length (contents (rd_dev r')) \<and>
    (\<forall>e z. invar e \<longrightarrow> length z = LOG_SECTOR_SIZE \<longrightarrow> contents e = overwrite p z (contents (rd_dev r')) \<longrightarrow>
       newest_header x (contents e) = Some (rd_header r', rd_active_header_slot r') \<and>
       (\<exists>e'. replay_log x ops True (dev_size_bytes ops e) (rd_header r') e = (Ok (True, dev_size_bytes ops e), e') \<and>
          subslice p (p + LOG_SECTOR_SIZE) (contents e') = z \<and>
          subslice q (q + LOG_SECTOR_SIZE) (contents e') = t))"
  unfolding p_def q_def using assms(1-13) by (rule reliable_device.torn_write_unrepaired)

theorem second_journal_loses_the_first_witness:
  "\<exists>r' a b s t e'. threads_run sum_ext vec_ops (blank_reader 513, start_threads [0, 512])
      (r', [Running 0 (WriteSector a s), Running 512 (WriteSector b t)]) \<and>
    snd (replay_log sum_ext vec_ops True (dev_size_bytes vec_ops (rd_dev r')) (rd_header r')
      (overwrite 0x300000 (replicate 4096 7) (rd_dev r'))) = e' \<and>
    subslice 0x300000 0x301000 e' = replicate 4096 7 \<and> subslice 0x301000 0x302000 e' = t"
proof -
  let ?r = "blank_reader 513" and ?z = "replicate 4096 7 :: bytes"
  have pre: "vec_invar (rd_dev ?r)" "disk_inv (rd_dev ?r) ?r"
    "newest_header sum_ext (rd_dev ?r) = Some (rd_header ?r, rd_active_header_slot ?r)"
    "hdr_sequence_number (rd_header ?r) \<noteq> - 1" "hdr_sequence_number (journal_header (rd_header ?r)) \<noteq> - 1"
    "8192 \<le> unat (hdr_log_length (rd_header ?r))" "0 < length (rd_bat ?r)" "512 < length (rd_bat ?r)"
    "sector_off_of ?r 0 \<noteq> sector_off_of ?r 512" "length (rd_dev ?r) + 4 * block_bytes ?r < 2 ^ 64"
    using blank_disk_inv [of 513] sample_newest
    by (simp_all add: blank_sectors journal_header_def Let_def sample_header_def)
  have "\<not> is_zero_guid (hdr_log_guid (journal_header (journal_header sample_header)))"
    using stir_not_zero by (simp add: journal_header_def Let_def sample_header_def)
  then have fr: "foreign_from (subslice (unat (hdr_log_offset (rd_header ?r)))
      (unat (hdr_log_offset (rd_header ?r)) + unat (hdr_log_length (rd_header ?r))) (rd_dev ?r))
      (hdr_log_guid (journal_header (journal_header (rd_header ?r)))) 8192"
    using sample_log_foreign by (simp add: sample_header_def)
  obtain r' a b s t where run: "threads_run sum_ext vec_ops (?r, start_threads [0, 512])
      (r', [Running 0 (WriteSector a s), Running 512 (WriteSector b t)])"
    and inv: "vec_invar (rd_dev r')" "0x301000 \<le> length (rd_dev r')"
    and rep: "\<forall>e z. vec_invar e \<longrightarrow> length z = 4096 \<longrightarrow> e = overwrite 0x300000 z (rd_dev r') \<longrightarrow>
       (\<exists>e'. replay_log sum_ext vec_ops True (dev_size_bytes vec_ops e) (rd_header r') e = (Ok (True, dev_size_bytes vec_ops e), e') \<and>
          subslice 0x300000 0x301000 e' = z \<and> subslice 0x301000 0x302000 e' = t)"
    using second_journal_loses_the_first [OF vec.reliable_device_axioms pre(1) sum_ext_contract pre(2-10) fr]
    by (auto simp: blank_sectors)
  have "vec_invar (overwrite 0x300000 ?z (rd_dev r'))"
    "dev_size_bytes vec_ops (overwrite 0x300000 ?z (rd_dev r')) = dev_size_bytes vec_ops (rd_dev r')"
    using inv by (simp_all add: vec_invar_def vec_ops_def)
  then show ?thesis
    using rep [rule_format, OF _ length_replicate, of "overwrite 0x300000 ?z (rd_dev r')" 7] run by fastforce
qed

text \<open>
  C18. Applying a chain is the replay the format describes: the device ends at the extent the
  chain names and holds, over its old contents padded with zeros, every descriptor's bytes in
  order; no descriptor ended past that extent.
\<close>

theorem apply_chain_replays:
  assumes "block_device ops invar contents" "invar d" "chain_wf chain" "apply_chain x ops chain d = (Ok u, d')"
  shows "invar d' \<and>
    contents d' = replay (chain_descriptors chain)
      (resize (unat (allowed_extent (dev_size_bytes ops d) chain)) (contents d)) \<and>
    (\<forall>e \<in> set (chain_descriptors chain). desc_end e \<le> unat (allowed_extent (dev_size_bytes ops d) chain)) \<and>
    length (contents d') = unat (replayed_extent (dev_size_bytes ops d) chain)"
  using block_device.apply_chain_Ok [OF assms] by blast

theorem apply_chain_replays_witness:
  "\<exists>d'. apply_chain sum_ext vec_ops [journalled sample_header 0x400000 0x300000 sample_sector] sample_image = (Ok (), d') \<and>
     length d' = unat (replayed_extent 0x400000 [journalled sample_header 0x400000 0x300000 sample_sector])"
proof -
  obtain d' where "apply_chain sum_ext vec_ops [journalled sample_header 0x400000 0x300000 sample_sector] sample_image = (Ok (), d')"
    using sample_apply by blast
  then show ?thesis
    using apply_chain_replays [OF vec.block_device_axioms sample_vec_invar sample_chain_wf] by fastforce
qed

text \<open>
  C19. A chain is applied whole or not at all. Over a device whose requests inside its bounds succeed
  and that can grow, a chain whose descriptors all end inside the extent it may use is applied; one
  descriptor past that extent, and nothing is written and the file is not extended.
\<close>

theorem apply_chain_applies_all_or_nothing:
  assumes "reliable_device ops invar contents" "invar d" "chain_wf chain"
  shows "if \<forall>e \<in> set (chain_descriptors chain). desc_end e \<le> unat (allowed_extent (dev_size_bytes ops d) chain)
    then \<exists>d'. apply_chain x ops chain d = (Ok (), d')
    else \<exists>m. apply_chain x ops chain d = (Err (LogReplay m), d)"
proof (cases "\<forall>e \<in> set (chain_descriptors chain). desc_end e \<le> unat (allowed_extent (dev_size_bytes ops d) chain)")
  case True
  then show ?thesis using reliable_device.apply_chain_succeeds [OF assms True] by simp
next
  case False
  then obtain e where "e \<in> set (chain_descriptors chain)"
    "unat (allowed_extent (dev_size_bytes ops d) chain) < desc_end e" by (meson not_le)
  from apply_chain_refused [OF assms(3) this] show ?thesis using False by (simp only: if_False)
qed

theorem apply_chain_applies_all_or_nothing_witness:
  "(\<exists>d'. apply_chain sum_ext vec_ops (sample_chain 0x300000) sample_image = (Ok (), d')) \<and>
   (\<exists>m. apply_chain sum_ext vec_ops [journalled sample_header 0x400000 0x400000 sample_sector] sample_image =
     (Err (LogReplay m), sample_image))"
proof -
  note whole = apply_chain_applies_all_or_nothing [OF vec.reliable_device_axioms sample_vec_invar sample_chain_wf, of _ sum_ext]
  let ?c = "[journalled sample_header 0x400000 0x400000 sample_sector]"
  have "allowed_extent 0x400000 ?c = 0x400000" by (rule journalled_replay(3)) simp_all
  then have "\<not> (\<forall>e \<in> set (chain_descriptors ?c). desc_end e \<le> unat (allowed_extent (dev_size_bytes vec_ops sample_image) ?c))"
    by (simp add: journalled_def decoded_write_def desc_end_def desc_start_def)
  then have "\<exists>m. apply_chain sum_ext vec_ops ?c sample_image = (Err (LogReplay m), sample_image)"
    using whole [of "0x400000"] by (simp only: if_False)
  then show ?thesis using whole [of "0x300000"] sample_fits by (simp only: sample_size sample_extent) simp
qed

text \<open>
  C20. Replay may be interrupted and repeated. From any state a crash on the way can leave -- the
  file of any length between the old and the new, each byte the chain does not cover as it was, and
  anything at all in the bytes it covers -- applying the same chain again ends in the contents of an
  uninterrupted replay, followed by zeros if the file is now longer. It is not longer when every
  entry's \<open>last_file_offset\<close> is one the growth ceiling leaves alone. When the ceiling cut a claim
  it is: the ceiling counts from the file as it is found, so each repeat over the extended file
  takes a further step towards the claim.
\<close>

theorem apply_chain_may_be_repeated:
  assumes "block_device ops invar contents" "invar d" "chain_wf chain" "apply_chain x ops chain d = (Ok u, d')"
    and "invar e" "apply_chain x ops chain e = (Ok v, e')"
    and "length (contents d) \<le> length (contents e)"
    and "length (contents e) \<le> unat (allowed_extent (dev_size_bytes ops d) chain)"
    and "\<forall>i < length (contents e). (\<forall>f \<in> set (chain_descriptors chain). \<not> in_span f i) \<longrightarrow>
      contents e ! i = resize (length (contents e)) (contents d) ! i"
  shows "length (contents d') \<le> length (contents e') \<and>
    contents e' = resize (length (contents e')) (contents d') \<and>
    ((\<forall>f \<in> set chain. leh_last_file_offset (le_header f) \<le> allowed_extent (dev_size_bytes ops d) chain) \<longrightarrow>
      contents e' = contents d') \<and>
    ((\<exists>f \<in> set chain. allowed_extent (dev_size_bytes ops d) chain < leh_last_file_offset (le_header f)) \<longrightarrow>
      length (contents e) = length (contents d') \<longrightarrow>
      chain_descriptors chain \<noteq> [] \<longrightarrow> length (chain_descriptors chain) < 2 ^ 64 \<longrightarrow>
      length (contents d') < length (contents e'))"
proof -
  note again = block_device.apply_chain_again [OF assms]
  have "claims_honoured (dev_size_bytes ops d) chain \<longleftrightarrow>
      \<not> (\<exists>f \<in> set chain. allowed_extent (dev_size_bytes ops d) chain < leh_last_file_offset (le_header f))"
    by (simp add: claims_honoured_def not_less)
  then show ?thesis using again by (intro conjI impI) (simp_all add: claims_honoured_def)
qed

theorem apply_chain_may_be_repeated_witness:
  "snd (apply_chain sum_ext vec_ops (sample_chain 0x300000) (overwrite 0x300000 (replicate 4096 2) sample_image)) =
   snd (apply_chain sum_ext vec_ops (sample_chain 0x300000) sample_image)"
proof -
  let ?e = "overwrite 0x300000 (replicate 4096 2) sample_image" and ?c = "sample_chain 0x300000"
  have e: "vec_invar ?e" "dev_size_bytes vec_ops ?e = 0x400000" by (simp_all add: vec_invar_def vec_ops_def)
  obtain d' where d': "apply_chain sum_ext vec_ops ?c sample_image = (Ok (), d')" using sample_apply by blast
  obtain e' where e': "apply_chain sum_ext vec_ops ?c ?e = (Ok (), e')"
    using vec.apply_chain_succeeds [OF e(1) sample_chain_wf [of "0x300000"], of sum_ext] sample_fits
    unfolding e(2) sample_extent by auto
  have "\<forall>i < length ?e. (\<forall>f \<in> set (chain_descriptors ?c). \<not> in_span f i) \<longrightarrow>
      ?e ! i = resize (length ?e) sample_image ! i"
    by (simp add: resize_def nth_overwrite)
      (auto simp: in_span_def journalled_def decoded_write_def desc_end_def desc_start_def)
  note again = apply_chain_may_be_repeated [OF vec.block_device_axioms sample_vec_invar sample_chain_wf d' e(1) e' _ _ this]
  have "\<forall>f \<in> set ?c. leh_last_file_offset (le_header f) \<le> allowed_extent (dev_size_bytes vec_ops sample_image) ?c"
    by (simp add: sample_extent, simp add: journalled_def)
  then have "e' = d'" using again by (simp add: sample_extent)
  then show ?thesis by (simp only: d' e' snd_conv)
qed

text \<open>
  C21. The chain that is replayed is the active one. What \<open>collect_replay_chain\<close> returns is made of
  entries that parse in the region under the expected GUID and do not overlap; each entry lies
  where the one before it ends, round the end of the region, and counts one up; it starts where
  the newest entry present says its sequence began, and nothing further continues it. No entry of
  the region was overlooked in making the choice.
\<close>

theorem collect_replay_chain_is_the_active_chain:
  assumes "collect_replay_chain x L g = Ok chain" "chain \<noteq> []" "length L < 2 ^ 63"
  shows "\<exists>found. discovered x L g 0 found \<and> covers L x g 0 found \<and> active_chain (length L) found chain"
  using collect_replay_chain_Ok [OF assms] by blast

theorem collect_replay_chain_is_the_active_chain_witness:
  "\<exists>found. discovered sum_ext sample_log (hdr_log_guid (journal_header sample_header)) 0 found \<and>
     active_chain (length sample_log) found (sample_chain 0x300000)"
  using collect_replay_chain_is_the_active_chain [OF sample_collected] by auto

text \<open>
  C22. A chain whose beginning cannot be found is an error, not an empty log: \<open>select_chain\<close> fails
  exactly when the newest entry's tail names no entry present, and then with \<open>LogUnassembled\<close>.
\<close>

theorem select_chain_fails_iff_the_tail_is_lost:
  assumes "found = e # es"
  shows "((\<exists>r. select_chain L found = Err r) \<longleftrightarrow>
      entry_starting_at found (unat (leh_tail (le_header (chain_head e es)))) = None) \<and>
    (\<forall>r. select_chain L found = Err r \<longrightarrow> (\<exists>m. r = LogUnassembled m)) \<and>
    chain_head e es \<in> set found \<and> (\<forall>f \<in> set found. le_seq f \<le> le_seq (chain_head e es))"
  using assms chain_head_fold [of e es]
  by (auto simp: select_chain_def Let_def split: option.splits)

theorem select_chain_fails_iff_the_tail_is_lost_witness:
  "\<exists>m. select_chain [] [lone_entry 4096] = Err (LogUnassembled m)"
  using select_chain_fails_iff_the_tail_is_lost [of "[lone_entry 4096]" "lone_entry 4096" "[]" "[]"]
  by (auto simp: lone_entry_def chain_head_def entry_starting_at_def)


text \<open>
  C23. An empty chain is an empty log: when \<open>collect_replay_chain\<close> returns no entries under a GUID
  that names a sequence, no place of the sector grid holds an entry of that sequence. So an image
  is never treated as clean over a log that still has something to say.
\<close>

theorem empty_chain_means_an_empty_log:
  assumes "collect_replay_chain x L g = Ok []" "\<not> list_all (\<lambda>b. b = 0) g" "length L < 2 ^ 63"
    and "q mod LOG_SECTOR_SIZE = 0"
  shows "\<not> parses_alone x L g q e"
  using assms by (rule collect_replay_chain_empty)

theorem empty_chain_means_an_empty_log_witness:
  "collect_replay_chain sum_ext (replicate 8192 0) (replicate 16 1) = Ok [] \<and>
   \<not> parses_alone sum_ext (replicate 8192 0) (replicate 16 1) 4096 (lone_entry 0)"
  using empty_chain_means_an_empty_log [OF blank_collect [of sum_ext 8192], of 4096 "lone_entry 0"]
    blank_collect [of sum_ext 8192] by (simp add: list_all_iff)

text \<open>
  C24. Discovery is bounded. It always returns, and the bytes it checksums are at most
  \<open>DISCOVERY_CHECKSUM_PASSES\<close> times the region, however the entries present overlap or lie about their
  lengths; the entries found are disjoint and together no longer than what was checksummed. While
  the allowance lasts, every entry that parses on the grid is found or lies inside one that is.
\<close>

theorem discovery_is_bounded:
  assumes "length L < 2 ^ 63"
  shows "\<exists>found n ex. discover x L g = Ok (found, n, ex) \<and> n \<le> length L * DISCOVERY_CHECKSUM_PASSES \<and>
    sum_list (map le_len found) \<le> n \<and> discovered x L g 0 found \<and> (\<not> ex \<longrightarrow> covers L x g 0 found)"
proof -
  obtain found n ex where d: "discover x L g = Ok (found, n, ex)" using discover_Ok by blast
  show ?thesis using d discover_spec [OF d assms] by blast
qed

theorem discovery_is_bounded_witness:
  "\<exists>found n ex. discover sum_ext sample_log (replicate 16 1) = Ok (found, n, ex) \<and> n \<le> 65536"
  using discovery_is_bounded [of sample_log sum_ext "replicate 16 1"] by auto

section \<open>What is written is read back\<close>

text \<open>
  C25. A journal entry round trip. What \<open>encode_entry\<close> writes, wherever in the region it lies and
  also when it runs round the region's end, \<open>parse_log_entry\<close> reads back as the header and the
  descriptors that were written: every sector with its place and its bytes, the ones the format
  moves into the descriptor included.
\<close>

theorem log_entry_round_trip:
  assumes "crc_contract x" "length g = 16"
    and "\<forall>w \<in> set ws. length (pw_sector w) = 4096" "64 + 4095 + length ws * 4128 < 2 ^ 32"
    and "encode_entry x s tail g flushed lastoff ws = (Ok E :: (bytes, error) res)"
    and "pos + LOG_SECTOR_SIZE \<le> length L" "length E \<le> length L" "entry_span L pos (length E) = E"
    and "length E \<le> budget"
  shows "parse_log_entry x L pos g (budget, ex) =
    (Ok \<lparr> le_header = \<lparr> leh_entry_length = word_of_nat (length E), leh_tail = tail,
            leh_sequence_number = s, leh_descriptor_count = word_of_nat (length ws),
            leh_log_guid = g, leh_flushed_file_offset = flushed, leh_last_file_offset = lastoff \<rparr>,
          le_descriptors = map (decoded_write s) ws,
          le_log_offset_in_region = word_of_nat pos \<rparr>,
     budget - length E, ex)"
  using assms by (rule parse_encoded_entry)

theorem log_entry_round_trip_witness:
  "\<exists>E. encode_entry sum_ext 9 0 (replicate 16 1) 0 0 [\<lparr> pw_file_offset = 0x300000, pw_sector = sample_sector \<rparr>] =
      (Ok E :: (bytes, error) res) \<and>
    fst (parse_log_entry sum_ext E 0 (replicate 16 1) (length E, False)) =
      Ok \<lparr> le_header = \<lparr> leh_entry_length = word_of_nat (length E), leh_tail = 0,
            leh_sequence_number = 9, leh_descriptor_count = 1,
            leh_log_guid = replicate 16 1, leh_flushed_file_offset = 0, leh_last_file_offset = 0 \<rparr>,
          le_descriptors = [decoded_write 9 \<lparr> pw_file_offset = 0x300000, pw_sector = sample_sector \<rparr>],
          le_log_offset_in_region = 0 \<rparr>"
proof -
  let ?w = "\<lparr> pw_file_offset = 0x300000, pw_sector = sample_sector \<rparr>"
  obtain E :: bytes where E: "encode_entry sum_ext 9 0 (replicate 16 1) 0 0 [?w] = (Ok E :: (bytes, error) res)"
    "length E = 8192"
    using encode_entry_Ok [OF sum_ext_contract, of "replicate 16 1" "[?w]" 9 0 0 0] single_entry_length
    by fastforce
  have "parse_log_entry sum_ext E 0 (replicate 16 1) (8192, False) =
     (Ok \<lparr> le_header = \<lparr> leh_entry_length = word_of_nat (length E), leh_tail = 0,
            leh_sequence_number = 9, leh_descriptor_count = word_of_nat (length [?w]),
            leh_log_guid = replicate 16 1, leh_flushed_file_offset = 0, leh_last_file_offset = 0 \<rparr>,
          le_descriptors = map (decoded_write 9) [?w], le_log_offset_in_region = word_of_nat 0 \<rparr>,
     8192 - length E, False)"
    by (rule log_entry_round_trip [OF sum_ext_contract _ _ _ E(1)]) (simp_all add: E(2) entry_span_def)
  then show ?thesis using E by simp
qed

text \<open>C26. A header round trip: the header that \<open>encode_header\<close> writes is the one \<open>header_parse\<close> reads.\<close>

theorem header_round_trip:
  assumes "header_wf h"
  shows "res_bind (encode_header x h) (header_parse x) = Ok h"
  using assms by (rule header_parse_encode)

theorem header_round_trip_witness:
  "res_bind (encode_header sum_ext sample_header) (header_parse sum_ext) = Ok sample_header"
  by (rule header_round_trip [OF sample_header_wf])

section \<open>Headers and GUIDs\<close>

text \<open>
  C27. A header rewrite takes effect: after \<open>rewrite_header_clear_log\<close> the next open picks the new
  header, in the other slot, with the sequence number one up and no log sequence named, and the
  slot that was current still holds the header it held. The number must not be at its maximum: the
  code wraps it, and a wrapped number loses to the old slot.
\<close>

theorem header_rewrite_takes_effect:
  assumes "reliable_device ops invar contents" "invar d" "pick_header x ops d (dev_size_bytes ops d) = Ok (h, s)"
    and "rewrite_header_clear_log x ops h s d = (Ok (h', s'), d')" "hdr_sequence_number h \<noteq> - 1"
  shows "pick_header x ops d' (dev_size_bytes ops d') = Ok (h', s') \<and> s' = slot_other s \<and>
    h' = h\<lparr> hdr_sequence_number := hdr_sequence_number h + 1, hdr_log_guid := replicate 16 0 \<rparr> \<and>
    slot_header x (contents d') s = Some h"
proof -
  note dev = block_device.axioms(1) [OF reliable_device.axioms(1) [OF assms(1)]]
  have "header_wf h"
    using slot_header_wf [OF newest_header_Some(1) [OF block_read.pick_header_Ok [OF dev assms(2,3)]]] .
  then show ?thesis
    using reliable_device.header_rotation [OF assms] block_device.rewrite_header_clear_log_Ok(1,2)
      [OF reliable_device.axioms(1) [OF assms(1)] assms(2) _ assms(4)] by blast
qed

theorem header_rewrite_takes_effect_witness:
  "\<exists>h' d'. rewrite_header_clear_log sum_ext vec_ops sample_header One sample_image = (Ok (h', Two), d') \<and>
     hdr_sequence_number h' = 8 \<and> pick_header sum_ext vec_ops d' (dev_size_bytes vec_ops d') = Ok (h', Two)"
proof -
  obtain h' s' d' where run: "rewrite_header_clear_log sum_ext vec_ops sample_header One sample_image = (Ok (h', s'), d')"
    using sample_rewrite by (metis surj_pair)
  have "pick_header sum_ext vec_ops sample_image (dev_size_bytes vec_ops sample_image) = Ok (sample_header, One)"
    using sample_identify by (simp add: identify_Ok(2))
  from header_rewrite_takes_effect [OF vec.reliable_device_axioms sample_vec_invar this run] run
  show ?thesis by auto
qed

text \<open>
  C28. A header write that is torn costs at most itself. Whatever the bytes of the other slot have
  become, while the current slot is intact the open picks the current header or a valid one in the
  other slot that is at least as new.
\<close>

theorem torn_header_write_is_survived:
  assumes "reliable_device ops invar contents" "invar d" "invar d'"
    and "pick_header x ops d (dev_size_bytes ops d) = Ok (h, s)" "length (contents d') = length (contents d)"
    and "subslice (slot_start s) (slot_start s + HEADER_SIZE) (contents d') =
      subslice (slot_start s) (slot_start s + HEADER_SIZE) (contents d)"
  shows "pick_header x ops d' (dev_size_bytes ops d') = Ok (h, s) \<or>
    (\<exists>h'. slot_header x (contents d') (slot_other s) = Some h' \<and>
       pick_header x ops d' (dev_size_bytes ops d') = Ok (h', slot_other s) \<and>
       hdr_sequence_number h \<le> hdr_sequence_number h')"
  using assms by (rule reliable_device.header_torn)

theorem torn_header_write_is_survived_witness:
  "\<exists>hs. pick_header sum_ext vec_ops (overwrite 0x20000 [1, 2, 3] sample_image) 0x400000 = Ok hs"
proof -
  let ?d = "overwrite 0x20000 [1, 2, 3] sample_image"
  have "pick_header sum_ext vec_ops sample_image (dev_size_bytes vec_ops sample_image) = Ok (sample_header, One)"
    using sample_identify by (simp add: identify_Ok(2))
  moreover have "dev_size_bytes vec_ops ?d = 0x400000" "vec_invar ?d" by (simp_all add: vec_ops_def vec_invar_def)
  moreover have "subslice (slot_start One) (slot_start One + HEADER_SIZE) ?d =
      subslice (slot_start One) (slot_start One + HEADER_SIZE) sample_image"
    by (rule subslice_overwrite_disjoint) simp_all
  ultimately show ?thesis
    using torn_header_write_is_survived [OF vec.reliable_device_axioms sample_vec_invar, of ?d sum_ext sample_header One]
    by auto
qed

text \<open>
  C29. A stirred GUID is fresh, for a while: it is never the all-zero one that says no log is active,
  it differs from the GUID it came from, and different sequence numbers give different GUIDs; but
  four journalled writes whose sequence numbers are 4 to 7 bring it back to where it was, since the
  numbers cancel under exclusive or.
\<close>

theorem stirred_guid_is_fresh_for_a_while:
  assumes "length g = 16" "s \<noteq> 0"
  shows "\<not> is_zero_guid (stir_sequence_into_guid g s) \<and> stir_sequence_into_guid g s \<noteq> g \<and>
    length (stir_sequence_into_guid g s) = 16 \<and>
    (\<forall>t. stir_sequence_into_guid g s = stir_sequence_into_guid g t \<longrightarrow> s = t) \<and>
    (\<not> list_all (\<lambda>b. b = 0) (take 8 g) \<longrightarrow> foldl stir_sequence_into_guid g [4, 5, 6, 7] = g)"
  using assms stir_not_zero stir_changes stir_inj stir_four [OF assms(1)] by auto

theorem stirred_guid_is_fresh_for_a_while_witness:
  "stir_sequence_into_guid (replicate 16 1) 3 \<noteq> replicate 16 1 \<and>
   foldl stir_sequence_into_guid (replicate 16 1) [4, 5, 6, 7] = replicate 16 1"
  using stirred_guid_is_fresh_for_a_while [of "replicate 16 1" 3] by (simp add: list_all_iff del: foldl_Cons)

section \<open>Geometry and the layout of the file\<close>

text \<open>
  C30. An accepted log region is safe to write: when the header passes \<open>validate_log_region\<close> and
  \<open>log_region_clear_of_declared_regions\<close>, a log of some length starts past the header section, ends
  inside the file, is aligned to megabytes, and shares no byte with any region the table declares.
\<close>

theorem accepted_log_region_is_safe:
  assumes "validate_log_region n h = Ok ()" "log_region_clear_of_declared_regions t h = Ok ()"
    and "hdr_log_length h \<noteq> 0" "e \<in> set t" "unat (re_file_offset e) + unat (re_length e) < 2 ^ 64"
  shows "2 ^ 20 \<le> unat (hdr_log_offset h) \<and> unat (hdr_log_offset h) + unat (hdr_log_length h) \<le> unat n \<and>
    2 ^ 20 dvd unat (hdr_log_offset h) \<and> 2 ^ 20 dvd unat (hdr_log_length h) \<and>
    apart_spans (unat (hdr_log_offset h)) (unat (hdr_log_length h)) (unat (re_file_offset e)) (unat (re_length e))"
proof -
  have ok: "log_region_ok n h" using assms(1) by (simp add: validate_log_region_Ok_iff)
  then have "unat (hdr_log_offset h) + unat (hdr_log_length h) < 2 ^ 64"
    using assms(3) unat_lt_u64 [of n] by (auto simp: log_region_ok_def simp del: unat_lt_u64)
  from log_region_clear_Ok [OF assms(2-4) this assms(5)] ok assms(3) show ?thesis
    by (auto simp: log_region_ok_def)
qed

theorem accepted_log_region_is_safe_witness:
  "apart_spans 0x100000 0x100000 0x200000 148"
proof -
  have "identify sum_ext vec_ops sample_image 0x400000 = Ok (sample_header, One)" by (rule sample_identify)
  then have v: "validate_log_region 0x400000 sample_header = Ok ()"
    by (simp add: validate_log_region_Ok_iff identify_Ok(4))
  have c: "log_region_clear_of_declared_regions sample_region_table sample_header = Ok ()"
    by (simp add: log_region_clear_of_declared_regions_def sample_region_table_def saturating_add_def)
  show ?thesis
    using accepted_log_region_is_safe [OF v c, of "hd sample_region_table"] by (simp add: sample_region_table_def)
qed

section \<open>The command-line tool\<close>

text \<open>
  C31. The overlay is a device over a file it never writes. Over a file whose reads inside its bounds
  succeed, its operations meet the whole device contract: a new overlay shows the file, a read
  returns the overlay's contents, a write replaces exactly the bytes given, and requests inside the
  bounds succeed. A new length no shorter than the old extends the overlay with zeros, and a shorter
  one is refused and changes nothing. No write and no new length, whatever its outcome, changes the
  file underneath.
\<close>

theorem overlay_is_a_device_over_an_unchanged_file:
  assumes "reliable_base bops binvar bcontents"
  shows "reliable_device (overlay_ops bops) (overlay_invar bops binvar) (overlay_contents bcontents) \<and>
    (\<forall>b. binvar b \<longrightarrow> overlay_invar bops binvar (overlay_new bops b) \<and>
       overlay_contents bcontents (overlay_new bops b) = bcontents b) \<and>
    (\<forall>ov off bs res ov'. overlay_invar bops binvar ov \<longrightarrow> overlay_write_at bops off bs ov = (res, ov') \<longrightarrow>
       ov_base ov' = ov_base ov) \<and>
    (\<forall>ov m res ov'. overlay_invar bops binvar ov \<longrightarrow> overlay_set_len m ov = (res, ov') \<longrightarrow>
       ov_base ov' = ov_base ov \<and>
       (if unat m < length (overlay_contents bcontents ov) then (\<exists>e. res = Err e) \<and> ov' = ov
        else res = Ok () \<and> overlay_contents bcontents ov' = overlay_contents bcontents ov @
          replicate (unat m - length (overlay_contents bcontents ov)) 0))"
proof -
  note base = reliable_base.axioms(1) [OF assms]
  show ?thesis
    using reliable_base.overlay_reliable [OF assms] overlay_base.overlay_new_ok [OF base]
      reliable_base.overlay_write_keeps_base [OF assms] overlay_base.overlay_set_len_outcome [OF base]
    by blast
qed

theorem overlay_is_a_device_over_an_unchanged_file_witness:
  "reliable_device (overlay_ops vec_ops) (overlay_invar vec_ops vec_invar) (overlay_contents (\<lambda>v. v)) \<and>
   overlay_contents (\<lambda>v. v) (overlay_new vec_ops sample_image) = sample_image \<and>
   snd (overlay_set_len 7 (overlay_new vec_ops sample_image)) = overlay_new vec_ops sample_image"
proof -
  let ?o = "overlay_new vec_ops sample_image"
  note all = overlay_is_a_device_over_an_unchanged_file [OF vec_base.reliable_base_axioms]
  obtain res ov' where o: "overlay_set_len 7 ?o = (res, ov')" by (metis surj_pair)
  have new: "overlay_invar vec_ops vec_invar ?o" "overlay_contents (\<lambda>v. v) ?o = sample_image" using all by simp_all
  have "if unat (7 :: u64) < length (overlay_contents (\<lambda>v. v) ?o) then (\<exists>e. res = Err e) \<and> ov' = ?o
      else res = Ok () \<and> overlay_contents (\<lambda>v. v) ov' = overlay_contents (\<lambda>v. v) ?o @
        replicate (unat (7 :: u64) - length (overlay_contents (\<lambda>v. v) ?o)) 0"
    using all new(1) o by blast
  then have "ov' = ?o" by (simp add: new(2))
  then have "snd (overlay_set_len 7 ?o) = ?o" unfolding o by simp
  then show ?thesis using all new by blast
qed

text \<open>
  C32. Looking at an image leaves it alone. The verbs that open an image to look at it, a dirty one
  included, replay its log into the overlay: the file is the one opened, what is read is a consistent
  image over the overlay's contents, and the overlay was written exactly when the log of the file
  holds a chain to replay, which is what the report calls dirty.
\<close>

theorem looking_at_an_image_leaves_it_alone:
  assumes "overlay_base bops binvar bcontents" "binvar b" "img_open x bops path (Ok b) = Ok (r, ov')"
  shows "rd_dev r = ov' \<and> ov_base ov' = b \<and> reader_ok (overlay_contents bcontents ov') r \<and>
    (ov_written ov' \<longleftrightarrow> (\<exists>h s chain.
       identify x (overlay_ops bops) (overlay_new bops b) (dev_size_bytes bops b) = Ok (h, s) \<and>
       pending_chain x (overlay_ops bops) (overlay_new bops b) (dev_size_bytes bops b) h = Ok chain \<and>
       chain \<noteq> []))"
  using overlay_base.img_open_Ok [OF assms] by simp

theorem looking_at_an_image_leaves_it_alone_witness:
  "\<exists>r ov'. img_open sum_ext vec_ops ''disk.vhdx'' (Ok sample_image) = Ok (r, ov') \<and> ov_base ov' = sample_image \<and>
     \<not> ov_written ov'"
proof -
  obtain r ov' where o: "img_open sum_ext vec_ops ''disk.vhdx'' (Ok sample_image) = Ok (r, ov')" "\<not> ov_written ov'"
    using sample_img_open [of "''disk.vhdx''"] by (force simp: overlay_new_def)
  from looking_at_an_image_leaves_it_alone [OF vec_base.overlay_base_axioms sample_vec_invar o(1)] o
  show ?thesis by auto
qed

text \<open>
  C33. \<open>get\<close> answers exactly the keys of the report. For an image that opens, a key answers its value
  and the value's text when its dotted path is one of the six shared keys or \<open>vhdx.\<close> with one of the
  four fields below it; every other key is a usage error that names the keys there are.
\<close>

theorem get_answers_the_keys_of_the_report:
  assumes "json_contract J" "img_open x bops path file = Ok opened" "envelope x bops path file2 opened = Ok rep"
  shows "get_verb x J bops path file file2 (Some key) =
    (case map_of (report_table J rep) (split_on CHR ''.'' key) of
       Some v \<Rightarrow> Ok (OutcomeReport (json_object J [(key, v)]) (Some (json_to_text J v)))
     | None \<Rightarrow> Err (CliUsage (''no key '' @ debug_string key @ ''; the keys are '' @ join_with '', '' KEYS
         @ '' (and vhdx.<field>)''))) \<and>
    map fst (report_table J rep) = map (\<lambda>k. [k]) KEYS @
      map (\<lambda>k. [''vhdx'', k]) [''logical_sector_size'', ''physical_sector_size'', ''header_sequence'', ''log_size'']"
  by (rule conjI [OF get_verb_answers [OF assms]])
    (simp add: report_table_def report_fields_def report_vhdx_def KEYS_def)

theorem get_answers_the_keys_of_the_report_witness:
  "\<exists>e. get_verb sum_ext json_tree_ops vec_ops ''disk.vhdx'' (Ok sample_image) (Ok sample_image) (Some ''vhdx.size'') =
     Err (CliUsage e)"
proof -
  obtain r where o: "img_open sum_ext vec_ops ''disk.vhdx'' (Ok sample_image) = Ok (r, overlay_new vec_ops sample_image)"
    using sample_img_open by blast
  obtain rep where e: "envelope sum_ext vec_ops ''disk.vhdx'' (Ok sample_image) (r, overlay_new vec_ops sample_image) = Ok rep"
    using sample_envelope by blast
  have "map_of (report_table json_tree_ops rep) (split_on CHR ''.'' ''vhdx.size'') = None"
    by (simp add: map_of_report_table report_vhdx_def)
  then show ?thesis
    using get_answers_the_keys_of_the_report [OF json_tree_contract o e, of "''vhdx.size''"] by simp
qed

text \<open>
  C34. A read copies the guest's bytes out. Over a range inside the disk that can be read, copying to
  a new file succeeds and leaves the file holding exactly those bytes of the virtual disk. What is
  asked of the file is, chunk by chunk of the range and in order, a skip of the chunk's length when
  all of it is zero and a write of its bytes when not, then the length of the range and a flush: no
  chunk of zeros is written. Copying to standard output writes every chunk, zeros too, in order.
\<close>

theorem read_copies_the_guest_out:
  assumes "reliable_device ops invar contents" "invar (rd_dev r)"
    and "unat (rd_dev_size r) \<le> length (contents (rd_dev r))" "geometry_ok r"
    and "unat a + unat n \<le> unat (rd_virtual_size r)"
    and "\<forall>v. unat a \<le> v \<longrightarrow> v < unat a + unat n \<longrightarrow> readable r v"
  defines "cs \<equiv> chunks_of CHUNK (subslice (unat a) (unat a + unat n) (vdisk r (contents (rd_dev r))))"
  shows "(\<exists>p. read_to_file path partial ops r file_sink a n ([], 0) =
      (Ok (), (subslice (unat a) (unat a + unat n) (vdisk r (contents (rd_dev r))), p))) \<and>
    read_to_file path partial ops r request_sink a n [] =
      (Ok (), map (\<lambda>c. if \<forall>b \<in> set c. b = 0 then Skipped (length c) else Wrote c) cs @ [CutTo n, Flushed]) \<and>
    (\<exists>s'. read_to_stdout path ops r file_sink a n ([], 0) = (Ok (), s') \<and>
      file_logical s' = subslice (unat a) (unat a + unat n) (vdisk r (contents (rd_dev r)))) \<and>
    read_to_stdout path ops r request_sink a n [] = (Ok (), map Wrote cs @ [Flushed])"
  unfolding cs_def
  by (intro conjI reliable_device.read_out_copies [OF assms(1-6)] reliable_device.read_requests [OF assms(1-6)])

theorem read_copies_the_guest_out_witness:
  "(\<exists>p. read_to_file ''disk.vhdx'' ''out.partial'' vec_ops (sample_reader False) file_sink 16 100 ([], 0) =
     (Ok (), (subslice 16 116 (vdisk (sample_reader False) sample_image), p))) \<and>
   read_to_file ''disk.vhdx'' ''out.partial'' vec_ops (sample_reader False) request_sink 16 100 [] =
     (Ok (), [Skipped 100, CutTo 100, Flushed])"
proof -
  have z: "subslice 16 116 (vdisk (sample_reader False) sample_image) = replicate 100 0"
    by (intro nth_equalityI) (simp_all add: nth_subslice vdisk_def vbyte_def)
  have c: "chunks_of CHUNK (replicate 100 (0 :: u8)) = [replicate 100 0]" by (simp add: chunks_of.simps)
  show ?thesis
    using read_copies_the_guest_out [OF vec.reliable_device_axioms, of "sample_reader False" 16 100 "''disk.vhdx''" "''out.partial''"]
      sample_geometry_ok [of False] sample_readable [of _ False] by (simp add: z c)
qed

text \<open>
  C35. The file a read writes is never left half written. Whatever the image, the range and the
  failures on the way, after \<open>read -o FILE\<close> what stands under \<open>FILE\<close> is what stood there before unless the
  verb succeeded, and then it is exactly the bytes of the virtual disk the range names.
\<close>

theorem read_never_leaves_half_a_file:
  assumes "overlay_base bops binvar bcontents" "binvar b"
    and "out_files out sinvar logical final fs dest"
    and "read_verb x bops path (Ok b) offset len (Some name) stdout out fs s = (res, s')"
  shows "if res = Ok () then
      (\<exists>r ov a n. img_open x bops path (Ok b) = Ok (r, ov) \<and> range_of (rd_virtual_size r) offset len = Ok (a, n) \<and>
        dest s' = Some (subslice (unat a) (unat a + unat n) (vdisk r (overlay_contents bcontents ov))))
    else dest s' = dest s"
  using out_files.read_verb_outcome [OF assms(3,1,2,4)] .

theorem read_never_leaves_half_a_file_witness:
  "fst (snd (read_verb sum_ext vec_ops ''disk.vhdx'' (Ok sample_image) (Some 1) (Some (- 1)) (Some ''out'') partial_sink
     partial_sink partial_fs (Some [7], [], 0))) = Some [7]"
proof -
  obtain r ov where o: "img_open sum_ext vec_ops ''disk.vhdx'' (Ok sample_image) = Ok (r, ov)"
    using sample_img_open by blast
  obtain res s' where run: "read_verb sum_ext vec_ops ''disk.vhdx'' (Ok sample_image) (Some 1) (Some (- 1)) (Some ''out'')
      partial_sink partial_sink partial_fs (Some [7], [], 0) = (res, s')" by (metis surj_pair)
  note outcome = read_never_leaves_half_a_file [OF vec_base.overlay_base_axioms sample_vec_invar files.out_files_axioms run]
  have "range_of (rd_virtual_size r) (Some 1) (Some (- 1)) \<noteq> Ok (a, n)" for a n
    using unat_lt_u64 [of "rd_virtual_size r"] by (auto simp: range_of_Ok_iff unat_minus_one_max simp del: unat_lt_u64)
  then show ?thesis using outcome o by (auto simp: run split: if_splits)
qed

text \<open>
  C36. A write from a pipe is all or nothing in what it accepts: data that fits is written in full,
  chunk after chunk, the count returned is its length and the virtual disk is the old one with it
  in place; data that does not fit is refused before a byte is written.
\<close>

theorem piped_write_fits_or_is_refused:
  assumes "reliable_device ops invar contents" "invar (rd_dev r)" "crc_contract x"
    and "disk_inv (contents (rd_dev r)) r" "rd_writable r" "unat offset \<le> unat (rd_virtual_size r)" "length data < 2 ^ 64"
  shows "(unat offset + length data \<le> unat (rd_virtual_size r) \<longrightarrow>
      (\<forall>v. unat offset \<le> v \<longrightarrow> v < unat offset + length data \<longrightarrow> accepts r v) \<longrightarrow>
      (\<exists>r'. write_guest x path ops (StdinPipe (Ok data)) offset r = (Ok (word_of_nat (length data)), r') \<and>
        invar (rd_dev r') \<and> disk_inv (contents (rd_dev r')) r' \<and>
        vdisk r' (contents (rd_dev r')) = overwrite (unat offset) data (vdisk r (contents (rd_dev r))))) \<and>
    (unat (rd_virtual_size r) < unat offset + length data \<longrightarrow>
      (\<exists>m. write_guest x path ops (StdinPipe (Ok data)) offset r = (Err (CliFailed m), r)))"
  using reliable_device.write_guest_pipe [OF assms(1-5)] write_guest_refuses [OF _ _ assms(7), of r offset x path ops]
    assms(6) by (auto simp: word_less_nat_alt)

theorem piped_write_fits_or_is_refused_witness:
  "\<exists>r'. write_guest sum_ext ''disk.vhdx'' vec_ops (StdinPipe (Ok [1, 2, 3])) 16 (sample_reader True) = (Ok 3, r') \<and>
     vdisk r' (rd_dev r') = overwrite 16 [1, 2, 3] (vdisk (sample_reader True) sample_image)"
  using piped_write_fits_or_is_refused [OF vec.reliable_device_axioms, of "sample_reader True" sum_ext 16 "[1, 2, 3]" "''disk.vhdx''"]
    sample_disk_inv [of True] sample_accepts [of _ True] sum_ext_contract by auto


text \<open>
  C37. A write from a file streams what the file delivers: when what is left of the file fits, the
  bytes its reads deliver, cut at the length that was checked, are written in order and their number
  is returned, even when the file changes while it is read. A file that is the image itself, or
  that holds more than fits, is refused before a byte is written.
\<close>

theorem streamed_write_fits_or_is_refused:
  fixes len pos :: u64
  assumes "reliable_device ops invar contents" "invar (rd_dev r)" "crc_contract x"
    and "disk_inv (contents (rd_dev r)) r" "rd_writable r" "unat offset \<le> unat (rd_virtual_size r)"
    and "\<forall>rd \<in> set rds. is_Ok rd"
  shows "(\<not> same \<longrightarrow> unat offset + (unat len - unat pos) \<le> unat (rd_virtual_size r) \<longrightarrow>
      (\<forall>v. unat offset \<le> v \<longrightarrow> v < unat offset + (unat len - unat pos) \<longrightarrow> accepts r v) \<longrightarrow>
      (\<exists>r'. write_guest x path ops (StdinFile same (Ok len) (Ok pos) rds) offset r =
          (Ok (word_of_nat (length (delivered (unat len - unat pos) rds))), r') \<and>
        invar (rd_dev r') \<and> disk_inv (contents (rd_dev r')) r' \<and>
        vdisk r' (contents (rd_dev r')) =
          overwrite (unat offset) (delivered (unat len - unat pos) rds) (vdisk r (contents (rd_dev r))))) \<and>
    (same \<or> unat (rd_virtual_size r) < unat offset + (unat len - unat pos) \<longrightarrow>
      (\<exists>m. write_guest x path ops (StdinFile same (Ok len) (Ok pos) rds) offset r = (Err (CliFailed m), r)))"
  using reliable_device.write_guest_file [OF assms, of len pos path]
    write_guest_file_refuses [of r offset same len pos x path ops rds] assms(6)
  by (auto simp: word_less_nat_alt)

theorem streamed_write_fits_or_is_refused_witness:
  "\<exists>r'. write_guest sum_ext ''disk.vhdx'' vec_ops (StdinFile False (Ok 3) (Ok 0) [Ok [1, 2], Ok [3, 4], Ok []]) 16
      (sample_reader True) = (Ok 3, r') \<and>
     vdisk r' (rd_dev r') = overwrite 16 [1, 2, 3] (vdisk (sample_reader True) sample_image)"
  using streamed_write_fits_or_is_refused [OF vec.reliable_device_axioms, of "sample_reader True" sum_ext 16
      "[Ok [1, 2], Ok [3, 4], Ok []]" False 3 0 "''disk.vhdx''"]
    sample_disk_inv [of True] sample_accepts [of _ True] sum_ext_contract by (auto simp: is_Ok_iff)

text \<open>
  C38. Piping one image into another copies the disk, as the help of the tool says: what \<open>read\<close> puts on
  standard output from the first image, \<open>write --offset 0\<close> puts into the second, and the virtual disk
  of the second is then that of the first, whatever their layouts and block sizes are.
\<close>

theorem piping_an_image_into_another_copies_it:
  assumes "reliable_device ops invar contents" "invar (rd_dev r)"
    and "unat (rd_dev_size r) \<le> length (contents (rd_dev r))" "geometry_ok r"
    and "\<forall>v < unat (rd_virtual_size r). readable r v"
    and "reliable_device ops2 invar2 contents2" "invar2 (rd_dev r2)" "crc_contract x"
    and "disk_inv (contents2 (rd_dev r2)) r2" "rd_writable r2" "\<forall>v < unat (rd_virtual_size r2). accepts r2 v"
    and "rd_virtual_size r2 = rd_virtual_size r"
  shows "\<exists>s r2'. read_to_stdout path ops r file_sink 0 (rd_virtual_size r) ([], 0) = (Ok (), s) \<and>
    write_guest x path2 ops2 (StdinPipe (Ok (file_logical s))) 0 r2 = (Ok (rd_virtual_size r), r2') \<and>
    vdisk r2' (contents2 (rd_dev r2')) = vdisk r (contents (rd_dev r))"
  using assms by (rule piped_copy)

theorem piping_an_image_into_another_copies_it_witness:
  "\<exists>s r2'. read_to_stdout ''a.vhdx'' vec_ops (sample_reader False) file_sink 0 0x100000 ([], 0) = (Ok (), s) \<and>
     write_guest sum_ext ''b.vhdx'' vec_ops (StdinPipe (Ok (file_logical s))) 0 (sample_reader True) = (Ok 0x100000, r2') \<and>
     vdisk r2' (rd_dev r2') = vdisk (sample_reader False) sample_image"
  using piping_an_image_into_another_copies_it [OF vec.reliable_device_axioms _ _ sample_geometry_ok _
      vec.reliable_device_axioms, of False "sample_reader True" sum_ext "''a.vhdx''" "''b.vhdx''"]
    sample_disk_inv [of True] sample_accepts [of _ True] sample_readable [of _ False] sum_ext_contract by auto

text \<open>
  C39. Sizes on the command line mean what they say. A decimal number, of any length, and what follows
  it, which does not begin with a digit, end in a space or make an \<open>0x\<close> of a zero: when the number
  fits 64 bits and the rest, in either case, is nothing or \<open>b\<close>, or one of \<open>k\<close>, \<open>m\<close>, \<open>g\<close> and \<open>t\<close>
  alone or with \<open>b\<close> or \<open>ib\<close>, it is that many bytes, or times \<open>2 ^ 10\<close>, \<open>2 ^ 20\<close>, \<open>2 ^ 30\<close> or
  \<open>2 ^ 40\<close>, if the product fits 64 bits; a number or a product that does not fit is refused, never
  wrapped, and so is any other suffix. A hexadecimal number is its value, or refused if that does
  not fit.
\<close>

theorem sizes_are_read_as_written:
  assumes "suf \<noteq> [] \<longrightarrow> \<not> is_ascii_digit (hd suf) \<and> \<not> is_whitespace (List.last suf) \<and>
    (n = 0 \<longrightarrow> hd suf \<noteq> of_char (CHR ''x'') \<and> hd suf \<noteq> of_char (CHR ''X''))"
  defines "lower \<equiv> map (\<lambda>c. if of_char (CHR ''A'') \<le> c \<and> c \<le> of_char (CHR ''Z'') then c + 32 else c) suf"
  shows "size_parse (text_of (show_nat n) @ suf) =
      (if 2 ^ 64 \<le> n then Err (BadDecimal PosOverflow)
       else case map_of (map (\<lambda>(s, k). (text_of s, k))
         [('''', 0), (''b'', 0), (''k'', 10), (''kb'', 10), (''kib'', 10), (''m'', 20), (''mb'', 20), (''mib'', 20),
          (''g'', 30), (''gb'', 30), (''gib'', 30), (''t'', 40), (''tb'', 40), (''tib'', 40)]) lower of
         None \<Rightarrow> Err (UnknownSuffix suf)
       | Some k \<Rightarrow> if n * 2 ^ k < 2 ^ 64 then Ok (word_of_nat (n * 2 ^ k)) else Err DoesNotFit) \<and>
    size_parse (text_of (show_hex n)) = (if n < 2 ^ 64 then Ok (word_of_nat n) else Err (BadHex PosOverflow))"
proof -
  have s: "suffix_text n suf" using assms(1) by (simp add: suffix_text_def)
  have l: "lower = to_ascii_lowercase suf" by (simp add: lower_def to_ascii_lowercase_def)
  show ?thesis unfolding l suffix_shift_table [symmetric] by (intro conjI size_parse_decimal [OF s] size_parse_hex)
qed

theorem sizes_are_read_as_written_witness:
  "size_parse (text_of (show_nat 64) @ text_of ''MiB'') = Ok 0x4000000 \<and>
   size_parse (text_of (show_nat 20000000) @ text_of ''T'') = Err DoesNotFit \<and>
   size_parse (text_of (show_nat (2 ^ 64)) @ text_of ''K'') = Err (BadDecimal PosOverflow) \<and>
   size_parse (text_of (show_nat 12) @ text_of ''Q'') = Err (UnknownSuffix (text_of ''Q''))"
  using sizes_are_read_as_written [of "text_of ''MiB''" 64] sizes_are_read_as_written [of "text_of ''T''" 20000000]
    sizes_are_read_as_written [of "text_of ''K''" "2 ^ 64"] sizes_are_read_as_written [of "text_of ''Q''" 12]
  by (simp add: text_of_def is_ascii_digit_def is_whitespace_def)

end
